(* ===== verification/Prelude.thy ===== *)
theory Prelude
  imports Main "HOL-Library.Word"
begin

text \<open>
  The shared base of the development: names for the machine integers the C++ sources
  use, the collections of facts the component theories add to, and the generic lemmas
  and interfaces more than one component rests on.

  \<^item> \<open>scan_best\<close> is the loop \<open>for (r : rs) if (!best || better(r, best)) best = &r;\<close>
    that the routing table, the BGP decision process and the EIGRP topology all run.
    The locale \<open>preference\<close> states what such a loop promises of a strict weak order.
  \<^item> \<open>al_get\<close>, \<open>al_put\<close> and \<open>al_del\<close> model the keyed containers
    (\<open>std::unordered_map\<close>, \<open>std::map\<close>) as association lists, so that iteration is
    modelled too; the locale \<open>keyed_table\<close> states their contract.
\<close>

unbundle bit_operations_syntax

section \<open>Machine integers\<close>

type_synonym u8 = "8 word"
type_synonym u16 = "16 word"
type_synonym u32 = "32 word"
type_synonym u64 = "64 word"
type_synonym u128 = "128 word"

section \<open>Collections of facts\<close>

named_theorems session_ops \<open>the operations of the BGP session, unfolded in step proofs\<close>
named_theorems inv_intros \<open>preservation of the component invariants\<close>

section \<open>Keyed containers\<close>

fun al_get :: "('k \<times> 'v) list \<Rightarrow> 'k \<Rightarrow> 'v option" where
  "al_get [] k = None"
| "al_get ((k', v) # xs) k = (if k' = k then Some v else al_get xs k)"

text \<open>Insertion or assignment: the value of a key already present is replaced in place,
  a new key is added at the end.\<close>

fun al_put :: "'k \<Rightarrow> 'v \<Rightarrow> ('k \<times> 'v) list \<Rightarrow> ('k \<times> 'v) list" where
  "al_put k v [] = [(k, v)]"
| "al_put k v ((k', v') # xs) = (if k' = k then (k, v) # xs else (k', v') # al_put k v xs)"

definition al_del :: "'k \<Rightarrow> ('k \<times> 'v) list \<Rightarrow> ('k \<times> 'v) list" where
  "al_del k xs = filter (\<lambda>(k', v). k' \<noteq> k) xs"

abbreviation al_wf :: "('k \<times> 'v) list \<Rightarrow> bool" where
  "al_wf xs \<equiv> distinct (map fst xs)"

lemma al_get_put [simp]: "al_get (al_put k v xs) k' = (if k' = k then Some v else al_get xs k')"
  by (induction xs) auto

lemma al_get_del [simp]: "al_get (al_del k xs) k' = (if k' = k then None else al_get xs k')"
  by (induction xs) (auto simp: al_del_def)

lemma al_put_not_Nil [simp]: "al_put k v xs \<noteq> []"
  by (cases xs) (auto split: if_splits)

lemma al_keys_put: "fst ` set (al_put k v xs) = insert k (fst ` set xs)"
  by (induction k v xs rule: al_put.induct) auto

lemma al_keys_del: "fst ` set (al_del k xs) = fst ` set xs - {k}"
  by (force simp: al_del_def)

lemma al_wf_put [simp, intro]: "al_wf xs \<Longrightarrow> al_wf (al_put k v xs)"
proof (induction xs)
  case (Cons x xs)
  obtain k' v' where x: "x = (k', v')" by (cases x)
  have "k' \<notin> fst ` set (al_put k v xs)" if "k' \<noteq> k"
    using that Cons.prems x by (auto simp: al_keys_put)
  with Cons x show ?case by auto
qed simp

lemma al_wf_del [simp, intro]: "al_wf xs \<Longrightarrow> al_wf (al_del k xs)"
  by (induction xs) (force simp: al_del_def)+

lemma al_get_None_iff: "al_get xs k = None \<longleftrightarrow> k \<notin> fst ` set xs"
  by (induction xs k rule: al_get.induct) auto

lemma al_get_SomeD: "al_get xs k = Some v \<Longrightarrow> (k, v) \<in> set xs"
  by (induction xs) (auto split: if_splits)

lemma al_get_Some_iff: "al_wf xs \<Longrightarrow> al_get xs k = Some v \<longleftrightarrow> (k, v) \<in> set xs"
  by (induction xs) (auto simp: image_iff split: if_splits)

lemma distinct_map_ConsD: "distinct (map f (x # xs)) \<Longrightarrow> \<forall>y\<in>set xs. f y \<noteq> f x"
  by (auto simp: image_iff)

text \<open>The contract of a keyed container, stated once for the components that use one.\<close>

locale keyed_table =
  fixes tget :: "'t \<Rightarrow> 'k \<Rightarrow> 'v option"
    and tput :: "'k \<Rightarrow> 'v \<Rightarrow> 't \<Rightarrow> 't"
    and tdel :: "'k \<Rightarrow> 't \<Rightarrow> 't"
    and tinv :: "'t \<Rightarrow> bool"
  assumes get_put: "tinv t \<Longrightarrow> tget (tput k v t) k' = (if k' = k then Some v else tget t k')"
    and get_del: "tinv t \<Longrightarrow> tget (tdel k t) k' = (if k' = k then None else tget t k')"
    and inv_put: "tinv t \<Longrightarrow> tinv (tput k v t)"
    and inv_del: "tinv t \<Longrightarrow> tinv (tdel k t)"
begin

lemma put_same: "tinv t \<Longrightarrow> tget (tput k v t) k = Some v"
  by (simp add: get_put)

lemma put_other: "tinv t \<Longrightarrow> k' \<noteq> k \<Longrightarrow> tget (tput k v t) k' = tget t k'"
  by (simp add: get_put)

lemma del_put_same: "tinv t \<Longrightarrow> tget (tdel k (tput k v t)) = (tget t)(k := None)"
  by (rule ext) (simp add: get_put get_del inv_put)

lemma put_put_same: "tinv t \<Longrightarrow> tget (tput k v (tput k w t)) = tget (tput k v t)"
  by (rule ext) (simp add: get_put inv_put)

end

interpretation al: keyed_table al_get al_put al_del al_wf
  by unfold_locales auto

section \<open>Linear selection\<close>

text \<open>
  The selection loop over the elements that satisfy \<open>p\<close>. The running best is the index
  and the value of an element of the vector, as the C++ keeps a pointer into it.
\<close>

fun scan_step :: "('a \<Rightarrow> 'a \<Rightarrow> bool) \<Rightarrow> nat \<times> 'a \<Rightarrow> (nat \<times> 'a) option \<Rightarrow> (nat \<times> 'a) option" where
  "scan_step better ix None = Some ix"
| "scan_step better ix (Some jb) = (if better (snd ix) (snd jb) then Some ix else Some jb)"

fun scan_from :: "('a \<Rightarrow> 'a \<Rightarrow> bool) \<Rightarrow> ('a \<Rightarrow> bool) \<Rightarrow> nat \<Rightarrow> (nat \<times> 'a) option \<Rightarrow> 'a list
    \<Rightarrow> (nat \<times> 'a) option" where
  "scan_from better p i best [] = best"
| "scan_from better p i best (x # xs) =
     scan_from better p (Suc i) (if p x then scan_step better (i, x) best else best) xs"

definition scan_best :: "('a \<Rightarrow> 'a \<Rightarrow> bool) \<Rightarrow> ('a \<Rightarrow> bool) \<Rightarrow> 'a list \<Rightarrow> (nat \<times> 'a) option" where
  "scan_best better p xs = scan_from better p 0 None xs"

text \<open>
  What is known of the running best after the prefix \<open>ys\<close> has been scanned: it is an
  element of the prefix that satisfies \<open>p\<close>, no such element of the prefix is better, and
  every earlier one is worse.
\<close>

definition scan_ok :: "('a \<Rightarrow> 'a \<Rightarrow> bool) \<Rightarrow> ('a \<Rightarrow> bool) \<Rightarrow> 'a list \<Rightarrow> (nat \<times> 'a) option \<Rightarrow> bool" where
  "scan_ok better p ys best = (case best of
     None \<Rightarrow> \<forall>y\<in>set ys. \<not> p y
   | Some (i, b) \<Rightarrow> i < length ys \<and> ys ! i = b \<and> p b \<and> (\<forall>y\<in>set ys. p y \<longrightarrow> \<not> better y b)
       \<and> (\<forall>j<i. p (ys ! j) \<longrightarrow> better b (ys ! j)))"

text \<open>A preference on the elements \<open>adm\<close> admits is a strict weak order.\<close>

locale preference =
  fixes better :: "'a \<Rightarrow> 'a \<Rightarrow> bool"
    and adm :: "'a \<Rightarrow> bool"
  assumes better_asym: "adm x \<Longrightarrow> adm y \<Longrightarrow> better x y \<Longrightarrow> \<not> better y x"
    and better_negtrans: "adm x \<Longrightarrow> adm y \<Longrightarrow> adm z \<Longrightarrow> \<not> better x y \<Longrightarrow> \<not> better y z \<Longrightarrow> \<not> better x z"
begin

lemma better_irrefl: "adm x \<Longrightarrow> \<not> better x x"
  using better_asym by blast

lemma better_trans:
  assumes "adm x" "adm y" "adm z" "better x y" "better y z"
  shows "better x z"
  using assms better_asym better_negtrans by meson

lemma better_not_trans:
  assumes "adm x" "adm y" "adm z" "better x y" "\<not> better z y"
  shows "better x z"
  using assms better_asym better_negtrans by meson

lemma scan_step_ok:
  assumes adm: "\<forall>y\<in>set (ys @ [x]). p y \<longrightarrow> adm y" and ok: "scan_ok better p ys best"
  shows "scan_ok better p (ys @ [x])
    (if p x then scan_step better (length ys, x) best else best)"
proof (cases best)
  case None
  with ok adm better_irrefl show ?thesis by (auto simp: scan_ok_def nth_append)
next
  case (Some ib)
  obtain i b where ib: "ib = (i, b)" by (cases ib)
  from ok Some ib have i: "i < length ys" "ys ! i = b" "p b"
    and top: "\<And>y. y \<in> set ys \<Longrightarrow> p y \<Longrightarrow> \<not> better y b"
    and fst: "\<And>j. j < i \<Longrightarrow> p (ys ! j) \<Longrightarrow> better b (ys ! j)"
    by (auto simp: scan_ok_def)
  have admb: "adm b" using adm i by (metis UnCI nth_mem set_append)
  show ?thesis
  proof (cases "p x \<and> better x b")
    case True
    with adm have admx: "adm x" by simp
    have "\<not> better y x" if "y \<in> set (ys @ [x])" "p y" for y
      using that adm True better_asym [OF admx admb] better_trans [OF _ admx admb] top
        better_irrefl by (cases "y = x") auto
    moreover have "better x (ys ! j)" if "j < length ys" "p (ys ! j)" for j
      using better_not_trans [OF admx admb] True top adm that by (metis UnCI nth_mem set_append)
    ultimately show ?thesis using True Some ib by (auto simp: scan_ok_def nth_append)
  next
    case False
    with i top fst Some ib show ?thesis
      by (auto simp: scan_ok_def nth_append)
  qed
qed

lemma scan_from_ok:
  assumes "\<forall>y\<in>set (ys @ xs). p y \<longrightarrow> adm y" and "scan_ok better p ys best"
  shows "scan_ok better p (ys @ xs) (scan_from better p (length ys) best xs)"
  using assms
proof (induction xs arbitrary: ys best)
  case (Cons x xs)
  have "scan_ok better p (ys @ [x]) (if p x then scan_step better (length ys, x) best else best)"
    using Cons.prems by (intro scan_step_ok) auto
  with Cons.IH [of "ys @ [x]"] Cons.prems(1) show ?case by simp
qed simp

lemma scan_best_ok: "\<forall>y\<in>set xs. p y \<longrightarrow> adm y \<Longrightarrow> scan_ok better p xs (scan_best better p xs)"
  using scan_from_ok [of "[]" xs p None] by (simp add: scan_best_def scan_ok_def)

lemma scan_best_None: "\<forall>y\<in>set xs. p y \<longrightarrow> adm y \<Longrightarrow> scan_best better p xs = None \<longleftrightarrow> (\<forall>y\<in>set xs. \<not> p y)"
  using scan_best_ok [of xs p] by (force simp: scan_ok_def split: option.splits)

lemma scan_best_Some:
  assumes "\<forall>y\<in>set xs. p y \<longrightarrow> adm y" and "scan_best better p xs = Some (i, b)"
  shows "i < length xs" and "xs ! i = b" and "p b"
    and "y \<in> set xs \<Longrightarrow> p y \<Longrightarrow> \<not> better y b"
    and "j < i \<Longrightarrow> p (xs ! j) \<Longrightarrow> better b (xs ! j)"
  using scan_best_ok [OF assms(1)] assms(2) by (auto simp: scan_ok_def)

end

end
