(* ===== verification/BgpSession.thy ===== *)
theory BgpSession
  imports Prelude
begin

text \<open>
  The BGP session of one peer: \<open>routing/bgp/session/\<close>. The record \<open>session\<close> holds the
  fields of \<open>Session\<close>, \<open>SessionTimers\<close> and \<open>Fsm\<close> that the state machine reads or
  writes.

  \<^item> A timer is \<open>Some s\<close> when its scheduler token is non-zero (it was started with interval
    \<open>s\<close> and not cancelled since), \<open>None\<close> when the token is 0.
  \<^item> \<open>primaryConn\<close> is a pointer to one of the two optional connections: the slot it points
    at. It dangles when that slot is empty.
  \<^item> \<open>posted\<close> is the queue of events the session posted to its scheduler, \<open>trace\<close> the calls
    it made to the transport, to the address families and to child sessions, oldest first.
  \<^item> The outcome of \<open>tcp.connect\<close> is an input of a step: \<open>Some c\<close> when the new connection
    \<open>c\<close> is \<open>ok()\<close>, \<open>None\<close> otherwise.
\<close>

section \<open>States, events and the session record\<close>

datatype FsmState = IDLE | CONNECT | ACTIVE | OPEN_SENT | OPEN_CONFIRMED | ESTABLISHED

datatype FsmEvent =
    MANUAL_START | MANUAL_STOP | AUTOMATIC_START | MANUAL_START_PASSIVE_TCP
  | AUTOMATIC_START_PASSIVE_TCP | AUTOMATIC_START_DAMP | AUTOMATIC_START_DAMP_PASSIVE_TCP
  | AUTOMATIC_STOP
  | CONNECTION_RETRY_TIMER_EXPIRES | HOLD_TIMER_EXPIRES | KEEPALIVE_TIMER_EXPIRES
  | DELAY_OPEN_TIMER_EXPIRES | IDLE_HOLD_TIMER_EXPIRES
  | TCP_CONNECTION_VALID | TCP_CR_INVALID | TCP_CR_ACKED | TCP_CONNECTION_CONFIRMED
  | TCP_CONNECTION_FAILS
  | BGP_OPEN | BGP_OPEN_DELAY_OPEN_TIMER | BGP_HEADER_ERR | BGP_OPEN_MSG_ERR
  | OPEN_COLLISION_DUMP | NOTIF_MSG_VER_ERR | NOTIF_MSG | KEEPALIVE_MSG | UPDATE_MSG
  | UPDATE_MSG_ERR
  | ROUTE_REFRESH | BFD_DOWN | BFD_UP | MAX_PREFIX_REACHED

record AfiSafi =
  afi :: u16
  safi :: u8

datatype ConnSlot = ActiveSlot | PassiveSlot

datatype Action =
    SendOpen ConnSlot
  | SendKeepalive ConnSlot
  | SendNotification ConnSlot u16
  | TcpConnect
  | TcpClose u64
  | SessionEstablished
  | SessionDown
  | StartChild AfiSafi FsmEvent

text \<open>\<open>std::variant<AfiSafi, MultiSession>\<close>: a child session of one family, or the base session
  with the families it has child sessions for.\<close>

datatype MultiSessionVariant = ChildOf AfiSafi | BaseSession "AfiSafi list"

record session_config =
  HOLDTIME :: u16
  KEEPALIVE_INTERVAL :: u16
  MINIMUM_HOLDTIME :: "u16 option"
  TRANSPORT_CONNECTION_MODE :: "bool option"
  routerId :: u32

record session =
  fsmState :: FsmState
  passiveMode :: bool
  transitionCallback :: bool
  connectionRetryCount :: u32
  connectionRetryTimer :: "nat option"
  holdTimer :: "nat option"
  keepaliveTimer :: "nat option"
  idleHoldTimer :: "nat option"
  lastHoldTime :: nat
  lastKeepaliveInterval :: nat
  holdTime :: u16
  keepaliveInterval :: u16
  activeConn :: "u64 option"
  passiveConn :: "u64 option"
  primaryConn :: "ConnSlot option"
  peerRouterId :: u32
  multiSession :: MultiSessionVariant
  negMultiSess :: bool
  negMultiSessionFamilies :: "AfiSafi list"
  posted :: "FsmEvent list"
  trace :: "Action list"

section \<open>Session timers\<close>

definition startConnectRetry :: "nat \<Rightarrow> session \<Rightarrow> session" where
  "startConnectRetry interval s = s\<lparr>connectionRetryTimer := Some interval\<rparr>"

definition stopConnectRetry :: "session \<Rightarrow> session" where
  "stopConnectRetry s = s\<lparr>connectionRetryTimer := None\<rparr>"

definition startHoldTimer :: "nat \<Rightarrow> session \<Rightarrow> session" where
  "startHoldTimer ht s = s\<lparr>lastHoldTime := ht, holdTimer := (if ht = 0 then None else Some ht)\<rparr>"

definition restartHoldTimer :: "session \<Rightarrow> session" where
  "restartHoldTimer s = (if lastHoldTime s = 0 then s else s\<lparr>holdTimer := Some (lastHoldTime s)\<rparr>)"

definition stopHoldTimer :: "session \<Rightarrow> session" where
  "stopHoldTimer s = s\<lparr>holdTimer := None\<rparr>"

definition startKeepaliveTimer :: "nat \<Rightarrow> session \<Rightarrow> session" where
  "startKeepaliveTimer i s =
     s\<lparr>lastKeepaliveInterval := i, keepaliveTimer := (if i = 0 then None else Some i)\<rparr>"

definition restartKeepaliveTimer :: "session \<Rightarrow> session" where
  "restartKeepaliveTimer s = (if lastKeepaliveInterval s = 0 then s
     else s\<lparr>keepaliveTimer := Some (lastKeepaliveInterval s)\<rparr>)"

definition stopKeepaliveTimer :: "session \<Rightarrow> session" where
  "stopKeepaliveTimer s = s\<lparr>keepaliveTimer := None\<rparr>"

definition postEvent :: "FsmEvent \<Rightarrow> session \<Rightarrow> session" where
  "postEvent e s = s\<lparr>posted := posted s @ [e]\<rparr>"

definition startIdleHoldTimer :: "nat \<Rightarrow> session \<Rightarrow> session" where
  "startIdleHoldTimer interval s = (let s1 = s\<lparr>idleHoldTimer := None\<rparr> in
     if interval = 0 then postEvent IDLE_HOLD_TIMER_EXPIRES s1
     else s1\<lparr>idleHoldTimer := Some interval\<rparr>)"

definition stopIdleHoldTimer :: "session \<Rightarrow> session" where
  "stopIdleHoldTimer s = s\<lparr>idleHoldTimer := None\<rparr>"

definition cancelAll :: "session \<Rightarrow> session" where
  "cancelAll s = s\<lparr>connectionRetryTimer := None, holdTimer := None, keepaliveTimer := None,
     idleHoldTimer := None\<rparr>"

lemmas timer_defs [session_ops] =
  startConnectRetry_def stopConnectRetry_def startHoldTimer_def restartHoldTimer_def
  stopHoldTimer_def startKeepaliveTimer_def restartKeepaliveTimer_def stopKeepaliveTimer_def
  postEvent_def startIdleHoldTimer_def stopIdleHoldTimer_def cancelAll_def

section \<open>Connections and messages\<close>

definition emit :: "Action list \<Rightarrow> session \<Rightarrow> session" where
  "emit as s = s\<lparr>trace := trace s @ as\<rparr>"

definition closeConn :: "u64 option \<Rightarrow> Action list" where
  "closeConn c = (case c of None \<Rightarrow> [] | Some i \<Rightarrow> [TcpClose i])"

definition closeActiveConnection :: "session \<Rightarrow> session" where
  "closeActiveConnection s = (let s1 = (emit (closeConn (activeConn s)) s)\<lparr>activeConn := None\<rparr> in
     s1\<lparr>primaryConn := (if passiveConn s1 \<noteq> None then Some PassiveSlot else None)\<rparr>)"

definition closePassiveConnection :: "session \<Rightarrow> session" where
  "closePassiveConnection s = (let s1 = (emit (closeConn (passiveConn s)) s)\<lparr>passiveConn := None\<rparr> in
     s1\<lparr>primaryConn := (if activeConn s1 \<noteq> None then Some ActiveSlot else None)\<rparr>)"

definition closeAllConnections :: "session \<Rightarrow> session" where
  "closeAllConnections s =
     (emit (closeConn (activeConn s) @ closeConn (passiveConn s)) s)
       \<lparr>activeConn := None, passiveConn := None, primaryConn := None\<rparr>"

text \<open>\<open>activeConn.emplace\<close> destroys the connection it held before, whether or not the new one
  is \<open>ok()\<close>; a failed attempt leaves \<open>primaryConn\<close> as it was.\<close>

definition initiateConnection :: "u64 option \<Rightarrow> session \<Rightarrow> session" where
  "initiateConnection r s = (let s1 = emit [TcpConnect] s in
     case r of
       Some c \<Rightarrow> s1\<lparr>activeConn := Some c, primaryConn := Some ActiveSlot\<rparr>
     | None \<Rightarrow> postEvent TCP_CONNECTION_FAILS (s1\<lparr>activeConn := None\<rparr>))"

definition acceptConnection :: "u64 \<Rightarrow> session \<Rightarrow> session" where
  "acceptConnection c s =
     postEvent TCP_CONNECTION_CONFIRMED (s\<lparr>passiveConn := Some c, primaryConn := Some PassiveSlot\<rparr>)"

definition sendOpen :: "session \<Rightarrow> session" where
  "sendOpen s = (case primaryConn s of None \<Rightarrow> s | Some c \<Rightarrow> emit [SendOpen c] s)"

definition sendKeepalive :: "session \<Rightarrow> session" where
  "sendKeepalive s = (case primaryConn s of None \<Rightarrow> s | Some c \<Rightarrow> emit [SendKeepalive c] s)"

definition sendNotification :: "u16 \<Rightarrow> session \<Rightarrow> session" where
  "sendNotification code s = (if code = 0 then s else
     case primaryConn s of None \<Rightarrow> s | Some c \<Rightarrow> emit [SendNotification c code] s)"

definition verifyConnection :: "u64 \<Rightarrow> session \<Rightarrow> bool" where
  "verifyConnection cid s = (activeConn s = Some cid \<or> passiveConn s = Some cid)"

section \<open>Collision detection\<close>

definition shouldKeep :: "bool \<Rightarrow> u32 \<Rightarrow> u32 \<Rightarrow> bool" where
  "shouldKeep isOutgoing localRid peerRid =
     (if localRid = peerRid then False
      else if localRid > peerRid then isOutgoing else \<not> isOutgoing)"

definition resolveCollision :: "session_config \<Rightarrow> u32 \<Rightarrow> session \<Rightarrow> bool \<times> session" where
  "resolveCollision cfg incomingPeerRid s =
     (let outgoing = (activeConn s \<noteq> None);
          keep = shouldKeep outgoing (routerId cfg) incomingPeerRid
      in (keep,
          if \<not> keep then (if outgoing then closeActiveConnection s else closePassiveConnection s)
          else if outgoing \<and> passiveConn s \<noteq> None then closePassiveConnection s
          else if \<not> outgoing \<and> activeConn s \<noteq> None then closeActiveConnection s
          else s))"

lemmas conn_defs [session_ops] =
  emit_def closeConn_def closeActiveConnection_def closePassiveConnection_def
  closeAllConnections_def initiateConnection_def acceptConnection_def sendOpen_def
  sendKeepalive_def sendNotification_def resolveCollision_def Let_def

end
