(* ===== verification/BgpFsm.thy ===== *)
theory BgpFsm
  imports BgpSession
begin

text \<open>
  The finite state machine of a BGP session, \<open>routing/bgp/session/Fsm.cpp\<close>: one definition
  per handler, with every call the handler makes on the session, in the order the code makes
  them. \<open>processEvent\<close> dispatches on the current state. The lemmas give, for every handler, that
  it keeps \<open>fsm_inv\<close>; the properties at the end are read off the invariant and the handlers.
\<close>

section \<open>Constants\<close>

definition kConnectRetryInterval :: nat where
  "kConnectRetryInterval = 30"

abbreviation "BGP_NOTIFICATION_HEADER_BAD_MESSAGE_TYPE \<equiv> (0x0103 :: u16)"
abbreviation "BGP_NOTIFICATION_OPEN_UNSUPPORTED_PARAMETER \<equiv> (0x0204 :: u16)"
abbreviation "BGP_NOTIFICATION_OPEN_UNACCEPTABLE_HOLD \<equiv> (0x0206 :: u16)"
abbreviation "BGP_NOTIFICATION_UPDATE_MALFORMED_ATTR_LIST \<equiv> (0x0301 :: u16)"
abbreviation "BGP_NOTIFICATION_HOLD_TIMER_EXPIRED \<equiv> (0x0400 :: u16)"
abbreviation "BGP_NOTIFICATION_FSM_OPEN_SENT \<equiv> (0x0501 :: u16)"
abbreviation "BGP_NOTIFICATION_FSM_OPEN_CONFIRM \<equiv> (0x0502 :: u16)"
abbreviation "BGP_NOTIFICATION_FSM_ESTABLISH \<equiv> (0x0503 :: u16)"
abbreviation "BGP_NOTIFICATION_CEASE_UNSPECIFIC \<equiv> (0x0600 :: u16)"
abbreviation "BGP_NOTIFICATION_CEASE_MAX_PREFIXES \<equiv> (0x0601 :: u16)"
abbreviation "BGP_NOTIFICATION_CEASE_ADMIN_SHUT \<equiv> (0x0602 :: u16)"
abbreviation "BGP_NOTIFICATION_CEASE_ADMIN_RESET \<equiv> (0x0604 :: u16)"
abbreviation "BGP_NOTIFICATION_CEASE_COLLISION_RESOLUTION \<equiv> (0x0607 :: u16)"
abbreviation "BGP_NOTIFICATION_CEASE_BFD_DOWN \<equiv> (0x060A :: u16)"

section \<open>Construction and transitions\<close>

text \<open>The constructor of \<open>Session\<close> reads the configured timers and registers
  \<open>onFsmTransition\<close> as the transition callback of the machine.\<close>

definition Session_new :: "session_config \<Rightarrow> MultiSessionVariant \<Rightarrow> session" where
  "Session_new cfg ms = \<lparr>fsmState = IDLE, passiveMode = False, transitionCallback = True,
     connectionRetryCount = 0, connectionRetryTimer = None, holdTimer = None,
     keepaliveTimer = None, idleHoldTimer = None, lastHoldTime = 0, lastKeepaliveInterval = 0,
     holdTime = HOLDTIME cfg,
     keepaliveInterval = (if 0 < KEEPALIVE_INTERVAL cfg \<and> KEEPALIVE_INTERVAL cfg < HOLDTIME cfg
                          then KEEPALIVE_INTERVAL cfg else HOLDTIME cfg div 3),
     activeConn = None, passiveConn = None, primaryConn = None, peerRouterId = 0,
     multiSession = ms, negMultiSess = False, negMultiSessionFamilies = [],
     posted = [], trace = []\<rparr>"

text \<open>\<open>startActiveMultiSession\<close> and \<open>startPassiveMultiSession\<close> differ in the event they post to
  the child session they create.\<close>

definition startMultiSession :: "FsmEvent \<Rightarrow> AfiSafi \<Rightarrow> session \<Rightarrow> session" where
  "startMultiSession start family s = (case multiSession s of
     ChildOf f \<Rightarrow> s
   | BaseSession fams \<Rightarrow>
       if family \<notin> set (negMultiSessionFamilies s) then s
       else if family \<in> set fams then s
       else emit [StartChild family start] (s\<lparr>multiSession := BaseSession (fams @ [family])\<rparr>))"

definition startActiveMultiSession :: "AfiSafi \<Rightarrow> session \<Rightarrow> session" where
  "startActiveMultiSession = startMultiSession MANUAL_START"

definition startPassiveMultiSession :: "AfiSafi \<Rightarrow> session \<Rightarrow> session" where
  "startPassiveMultiSession = startMultiSession MANUAL_START_PASSIVE_TCP"

definition onFsmTransition :: "session_config \<Rightarrow> FsmState \<Rightarrow> FsmState \<Rightarrow> session \<Rightarrow> session" where
  "onFsmTransition cfg from to s =
     (let isChild = (case multiSession s of ChildOf f \<Rightarrow> True | BaseSession fs \<Rightarrow> False) in
      if to = ESTABLISHED then
        (if isChild then s
         else let s1 = emit [SessionEstablished] s in
           if negMultiSess s1 then
             let passive = (TRANSPORT_CONNECTION_MODE cfg = Some False) in
             fold (if passive then startPassiveMultiSession else startActiveMultiSession)
               (negMultiSessionFamilies s1) s1
           else s1)
      else if from = ESTABLISHED then (if isChild then s else emit [SessionDown] s)
      else s)"

definition transitionTo :: "session_config \<Rightarrow> FsmState \<Rightarrow> session \<Rightarrow> session" where
  "transitionTo cfg newState s =
     (let from = fsmState s;
          s1 = onFsmTransition cfg from newState (s\<lparr>fsmState := newState\<rparr>)
      in if transitionCallback s1 then onFsmTransition cfg from newState s1 else s1)"

definition resetToIdle :: "session_config \<Rightarrow> u16 option \<Rightarrow> session \<Rightarrow> session" where
  "resetToIdle cfg notif s =
     (let s1 = (cancelAll s)\<lparr>connectionRetryCount := 0\<rparr>;
          s2 = (case notif of None \<Rightarrow> s1 | Some code \<Rightarrow> sendNotification code s1)
      in transitionTo cfg IDLE (closeAllConnections s2))"

definition resetAndReconnect :: "u64 option \<Rightarrow> session \<Rightarrow> session" where
  "resetAndReconnect r s =
     (let s1 = stopKeepaliveTimer (stopHoldTimer s);
          s2 = closeAllConnections (s1\<lparr>connectionRetryCount := connectionRetryCount s1 + 1\<rparr>);
          shift = min (unat (connectionRetryCount s2)) 3;
          interval = min (kConnectRetryInterval * 2 ^ shift) 300;
          s3 = startConnectRetry interval s2
      in if passiveMode s3 then s3 else initiateConnection r s3)"

section \<open>The handlers\<close>

text \<open>\<open>IDLE_HOLD_TIMER_EXPIRES\<close> re-enters the handler with \<open>MANUAL_START\<close>.\<close>

definition idleStart :: "session_config \<Rightarrow> u64 option \<Rightarrow> session \<Rightarrow> session" where
  "idleStart cfg r s =
     transitionTo cfg CONNECT
       (initiateConnection r
         (startConnectRetry kConnectRetryInterval (s\<lparr>passiveMode := False, connectionRetryCount := 0\<rparr>)))"

definition handleIdle :: "session_config \<Rightarrow> u64 option \<Rightarrow> FsmEvent \<Rightarrow> session \<Rightarrow> session" where
  "handleIdle cfg r e s = (case e of
     MANUAL_START \<Rightarrow> idleStart cfg r s
   | AUTOMATIC_START \<Rightarrow> idleStart cfg r s
   | MANUAL_START_PASSIVE_TCP \<Rightarrow> transitionTo cfg ACTIVE
       (startConnectRetry kConnectRetryInterval (s\<lparr>passiveMode := True, connectionRetryCount := 0\<rparr>))
   | AUTOMATIC_START_PASSIVE_TCP \<Rightarrow> transitionTo cfg ACTIVE
       (startConnectRetry kConnectRetryInterval (s\<lparr>passiveMode := True, connectionRetryCount := 0\<rparr>))
   | AUTOMATIC_START_DAMP \<Rightarrow>
       startIdleHoldTimer (min (5 * 2 ^ min (unat (connectionRetryCount s)) 4) 120) s
   | AUTOMATIC_START_DAMP_PASSIVE_TCP \<Rightarrow>
       startIdleHoldTimer (min (5 * 2 ^ min (unat (connectionRetryCount s)) 4) 120) s
   | IDLE_HOLD_TIMER_EXPIRES \<Rightarrow> idleStart cfg r s
   | _ \<Rightarrow> s)"

definition tcpUp :: "session_config \<Rightarrow> session \<Rightarrow> session" where
  "tcpUp cfg s = transitionTo cfg OPEN_SENT (sendOpen (stopConnectRetry s))"

definition connectOpen :: "session_config \<Rightarrow> session \<Rightarrow> session" where
  "connectOpen cfg s =
     (let s1 = sendKeepalive (sendOpen (stopConnectRetry s));
          ht = holdTime s1;
          s2 = (if ht \<noteq> 0 then startKeepaliveTimer (unat ht div 3) s1 else s1)
      in transitionTo cfg OPEN_CONFIRMED s2)"

definition handleConnect :: "session_config \<Rightarrow> u64 option \<Rightarrow> FsmEvent \<Rightarrow> session \<Rightarrow> session" where
  "handleConnect cfg r e s = (case e of
     MANUAL_STOP \<Rightarrow>
       transitionTo cfg IDLE ((closeAllConnections (cancelAll s))\<lparr>connectionRetryCount := 0\<rparr>)
   | CONNECTION_RETRY_TIMER_EXPIRES \<Rightarrow>
       initiateConnection r (startConnectRetry kConnectRetryInterval (closeAllConnections s))
   | TCP_CONNECTION_CONFIRMED \<Rightarrow> tcpUp cfg s
   | TCP_CR_ACKED \<Rightarrow> tcpUp cfg s
   | TCP_CONNECTION_FAILS \<Rightarrow>
       transitionTo cfg ACTIVE (startConnectRetry kConnectRetryInterval (closeAllConnections s))
   | TCP_CONNECTION_VALID \<Rightarrow> s
   | TCP_CR_INVALID \<Rightarrow> s
   | BGP_OPEN_DELAY_OPEN_TIMER \<Rightarrow> connectOpen cfg s
   | BGP_OPEN \<Rightarrow> connectOpen cfg s
   | BGP_HEADER_ERR \<Rightarrow> resetToIdle cfg (Some BGP_NOTIFICATION_FSM_OPEN_SENT) s
   | BGP_OPEN_MSG_ERR \<Rightarrow> resetToIdle cfg (Some BGP_NOTIFICATION_FSM_OPEN_SENT) s
   | AUTOMATIC_STOP \<Rightarrow> resetToIdle cfg None s
   | _ \<Rightarrow> resetToIdle cfg (Some BGP_NOTIFICATION_FSM_OPEN_SENT) s)"

definition handleActive :: "session_config \<Rightarrow> u64 option \<Rightarrow> FsmEvent \<Rightarrow> session \<Rightarrow> session" where
  "handleActive cfg r e s = (case e of
     MANUAL_STOP \<Rightarrow>
       transitionTo cfg IDLE ((closeAllConnections (cancelAll s))\<lparr>connectionRetryCount := 0\<rparr>)
   | CONNECTION_RETRY_TIMER_EXPIRES \<Rightarrow>
       transitionTo cfg CONNECT
         (initiateConnection r (startConnectRetry kConnectRetryInterval s))
   | TCP_CONNECTION_CONFIRMED \<Rightarrow> tcpUp cfg s
   | TCP_CR_ACKED \<Rightarrow> tcpUp cfg s
   | TCP_CONNECTION_FAILS \<Rightarrow> startConnectRetry kConnectRetryInterval (closeAllConnections s)
   | BGP_HEADER_ERR \<Rightarrow> resetToIdle cfg (Some BGP_NOTIFICATION_FSM_OPEN_SENT) s
   | BGP_OPEN_MSG_ERR \<Rightarrow> resetToIdle cfg (Some BGP_NOTIFICATION_FSM_OPEN_SENT) s
   | AUTOMATIC_STOP \<Rightarrow> resetToIdle cfg None s
   | _ \<Rightarrow> resetToIdle cfg (Some BGP_NOTIFICATION_FSM_OPEN_SENT) s)"

text \<open>The \<open>BGP_OPEN\<close> case of \<open>handleOpenSent\<close>: the hold time of the peer against the
  configured minimum, the smaller of the two hold times, and the keepalive interval.\<close>

definition openReceived :: "session_config \<Rightarrow> session \<Rightarrow> session" where
  "openReceived cfg s =
     (if (case MINIMUM_HOLDTIME cfg of None \<Rightarrow> False | Some m \<Rightarrow> holdTime s \<noteq> 0 \<and> holdTime s < m)
      then resetToIdle cfg (Some BGP_NOTIFICATION_OPEN_UNACCEPTABLE_HOLD) s
      else
        let minHt = min (holdTime s) (HOLDTIME cfg);
            cfgKa = KEEPALIVE_INTERVAL cfg;
            kaInterval = (if minHt = 0 then 0
                          else if 0 < cfgKa \<and> cfgKa < minHt then cfgKa else minHt div 3);
            s1 = sendKeepalive (stopConnectRetry (s\<lparr>holdTime := minHt, keepaliveInterval := kaInterval\<rparr>));
            s2 = (if minHt \<noteq> 0
                  then startKeepaliveTimer (unat kaInterval) (startHoldTimer (unat minHt) s1)
                  else stopKeepaliveTimer (stopHoldTimer s1))
        in transitionTo cfg OPEN_CONFIRMED s2)"

definition handleOpenSent :: "session_config \<Rightarrow> FsmEvent \<Rightarrow> session \<Rightarrow> session" where
  "handleOpenSent cfg e s = (case e of
     MANUAL_STOP \<Rightarrow> resetToIdle cfg (Some BGP_NOTIFICATION_CEASE_ADMIN_SHUT) s
   | AUTOMATIC_STOP \<Rightarrow> resetToIdle cfg (Some BGP_NOTIFICATION_CEASE_ADMIN_RESET) s
   | HOLD_TIMER_EXPIRES \<Rightarrow> resetToIdle cfg (Some BGP_NOTIFICATION_HOLD_TIMER_EXPIRED) s
   | TCP_CONNECTION_FAILS \<Rightarrow>
       transitionTo cfg ACTIVE
         (startConnectRetry kConnectRetryInterval (closeAllConnections (stopHoldTimer s)))
   | BGP_OPEN \<Rightarrow> openReceived cfg s
   | OPEN_COLLISION_DUMP \<Rightarrow> resetToIdle cfg (Some BGP_NOTIFICATION_CEASE_COLLISION_RESOLUTION) s
   | BGP_HEADER_ERR \<Rightarrow> resetToIdle cfg (Some BGP_NOTIFICATION_HEADER_BAD_MESSAGE_TYPE) s
   | BGP_OPEN_MSG_ERR \<Rightarrow> resetToIdle cfg None s
   | NOTIF_MSG_VER_ERR \<Rightarrow> resetToIdle cfg None s
   | NOTIF_MSG \<Rightarrow> resetToIdle cfg None s
   | KEEPALIVE_MSG \<Rightarrow> resetToIdle cfg (Some BGP_NOTIFICATION_FSM_OPEN_SENT) s
   | UPDATE_MSG_ERR \<Rightarrow> resetToIdle cfg (Some BGP_NOTIFICATION_FSM_OPEN_SENT) s
   | UPDATE_MSG \<Rightarrow> resetToIdle cfg (Some BGP_NOTIFICATION_FSM_OPEN_SENT) s
   | _ \<Rightarrow> resetToIdle cfg (Some BGP_NOTIFICATION_FSM_OPEN_SENT) s)"

definition collisionOpen :: "session_config \<Rightarrow> session \<Rightarrow> session" where
  "collisionOpen cfg s = (let (keep, s1) = resolveCollision cfg (peerRouterId s) s in
     if keep then s1 else resetToIdle cfg (Some BGP_NOTIFICATION_CEASE_COLLISION_RESOLUTION) s1)"

definition handleOpenConfirm :: "session_config \<Rightarrow> FsmEvent \<Rightarrow> session \<Rightarrow> session" where
  "handleOpenConfirm cfg e s = (case e of
     MANUAL_STOP \<Rightarrow> resetToIdle cfg (Some BGP_NOTIFICATION_CEASE_ADMIN_SHUT) s
   | AUTOMATIC_STOP \<Rightarrow> resetToIdle cfg (Some BGP_NOTIFICATION_CEASE_ADMIN_RESET) s
   | HOLD_TIMER_EXPIRES \<Rightarrow> resetToIdle cfg (Some BGP_NOTIFICATION_HOLD_TIMER_EXPIRED) s
   | KEEPALIVE_TIMER_EXPIRES \<Rightarrow> restartKeepaliveTimer (sendKeepalive s)
   | TCP_CONNECTION_FAILS \<Rightarrow> resetToIdle cfg None s
   | BGP_OPEN \<Rightarrow> collisionOpen cfg s
   | OPEN_COLLISION_DUMP \<Rightarrow> resetToIdle cfg (Some BGP_NOTIFICATION_CEASE_COLLISION_RESOLUTION) s
   | BGP_HEADER_ERR \<Rightarrow> resetToIdle cfg (Some BGP_NOTIFICATION_HEADER_BAD_MESSAGE_TYPE) s
   | BGP_OPEN_MSG_ERR \<Rightarrow> resetToIdle cfg (Some BGP_NOTIFICATION_OPEN_UNSUPPORTED_PARAMETER) s
   | NOTIF_MSG_VER_ERR \<Rightarrow> resetToIdle cfg None s
   | NOTIF_MSG \<Rightarrow> resetToIdle cfg None s
   | KEEPALIVE_MSG \<Rightarrow>
       transitionTo cfg ESTABLISHED
         (stopConnectRetry (if holdTime s \<noteq> 0 then restartHoldTimer s else s))
   | UPDATE_MSG \<Rightarrow> resetToIdle cfg (Some BGP_NOTIFICATION_FSM_OPEN_CONFIRM) s
   | UPDATE_MSG_ERR \<Rightarrow> resetToIdle cfg (Some BGP_NOTIFICATION_UPDATE_MALFORMED_ATTR_LIST) s
   | _ \<Rightarrow> resetToIdle cfg (Some BGP_NOTIFICATION_FSM_OPEN_CONFIRM) s)"

definition handleEstablished :: "session_config \<Rightarrow> FsmEvent \<Rightarrow> session \<Rightarrow> session" where
  "handleEstablished cfg e s = (case e of
     MANUAL_STOP \<Rightarrow> resetToIdle cfg (Some BGP_NOTIFICATION_CEASE_ADMIN_SHUT) s
   | AUTOMATIC_STOP \<Rightarrow> resetToIdle cfg (Some BGP_NOTIFICATION_CEASE_ADMIN_RESET) s
   | HOLD_TIMER_EXPIRES \<Rightarrow> resetToIdle cfg (Some BGP_NOTIFICATION_HOLD_TIMER_EXPIRED) s
   | KEEPALIVE_TIMER_EXPIRES \<Rightarrow> restartKeepaliveTimer (sendKeepalive s)
   | TCP_CONNECTION_FAILS \<Rightarrow> resetToIdle cfg None s
   | BGP_OPEN \<Rightarrow> collisionOpen cfg s
   | BGP_HEADER_ERR \<Rightarrow> resetToIdle cfg (Some BGP_NOTIFICATION_HEADER_BAD_MESSAGE_TYPE) s
   | BGP_OPEN_MSG_ERR \<Rightarrow> resetToIdle cfg (Some BGP_NOTIFICATION_FSM_ESTABLISH) s
   | NOTIF_MSG_VER_ERR \<Rightarrow> resetToIdle cfg None s
   | NOTIF_MSG \<Rightarrow> resetToIdle cfg None s
   | KEEPALIVE_MSG \<Rightarrow> (if holdTime s \<noteq> 0 then restartHoldTimer s else s)
   | UPDATE_MSG \<Rightarrow> (if holdTime s \<noteq> 0 then restartHoldTimer s else s)
   | UPDATE_MSG_ERR \<Rightarrow> resetToIdle cfg (Some BGP_NOTIFICATION_UPDATE_MALFORMED_ATTR_LIST) s
   | ROUTE_REFRESH \<Rightarrow> s
   | BFD_DOWN \<Rightarrow> resetToIdle cfg (Some BGP_NOTIFICATION_CEASE_BFD_DOWN) s
   | BFD_UP \<Rightarrow> s
   | MAX_PREFIX_REACHED \<Rightarrow> resetToIdle cfg (Some BGP_NOTIFICATION_CEASE_MAX_PREFIXES) s
   | _ \<Rightarrow> s)"

definition processEvent :: "session_config \<Rightarrow> u64 option \<Rightarrow> FsmEvent \<Rightarrow> session \<Rightarrow> session" where
  "processEvent cfg r e s = (case fsmState s of
     IDLE \<Rightarrow> handleIdle cfg r e s
   | CONNECT \<Rightarrow> handleConnect cfg r e s
   | ACTIVE \<Rightarrow> handleActive cfg r e s
   | OPEN_SENT \<Rightarrow> handleOpenSent cfg e s
   | OPEN_CONFIRMED \<Rightarrow> handleOpenConfirm cfg e s
   | ESTABLISHED \<Rightarrow> handleEstablished cfg e s)"

section \<open>Runs\<close>

text \<open>
  The steps of a session: an event taken from its queue, an inbound connection handed over by
  the listener, and the end of \<open>BgpRx::processOpen\<close>, which stores what the peer's OPEN said and
  posts \<open>BGP_OPEN\<close> (hold times 1 and 2 were refused before).
\<close>

definition openParsed :: "u16 \<Rightarrow> u32 \<Rightarrow> bool \<Rightarrow> AfiSafi list \<Rightarrow> session \<Rightarrow> session" where
  "openParsed peerHold rid ms fams s =
     postEvent BGP_OPEN (s\<lparr>holdTime := peerHold, peerRouterId := rid, negMultiSess := ms,
       negMultiSessionFamilies := fams\<rparr>)"

inductive session_step :: "session_config \<Rightarrow> session \<Rightarrow> session \<Rightarrow> bool" for cfg where
  event: "session_step cfg s (processEvent cfg r e s)"
| accept: "session_step cfg s (acceptConnection c s)"
| openmsg: "peerHold \<noteq> 1 \<Longrightarrow> peerHold \<noteq> 2 \<Longrightarrow> session_step cfg s (openParsed peerHold rid ms fams s)"

inductive session_reach :: "session_config \<Rightarrow> session \<Rightarrow> bool" for cfg where
  start: "session_reach cfg (Session_new cfg ms)"
| step: "session_reach cfg s \<Longrightarrow> session_step cfg s t \<Longrightarrow> session_reach cfg t"

inductive_cases session_stepE: "session_step cfg s t"

section \<open>What a transition leaves alone\<close>

text \<open>A transition changes the state, the calls made and the child sessions, and nothing
  else: \<open>core\<close> erases those.\<close>

definition core :: "session \<Rightarrow> session" where
  "core s = s\<lparr>trace := [], multiSession := BaseSession []\<rparr>"

lemma startMultiSession_core: "core (startMultiSession e f s) = core s"
  by (simp add: startMultiSession_def core_def emit_def split: MultiSessionVariant.splits)

lemma fold_startMultiSession_core: "core (fold (startMultiSession e) fs s) = core s"
  by (induction fs arbitrary: s) (simp_all add: startMultiSession_core)

lemma emit_core: "core (emit as s) = core s"
  by (simp add: core_def emit_def)

lemma onFsmTransition_core: "core (onFsmTransition cfg a b s) = core s"
  by (simp add: onFsmTransition_def Let_def startActiveMultiSession_def
      startPassiveMultiSession_def fold_startMultiSession_core emit_core)

lemma transitionTo_core: "core (transitionTo cfg n s) = core (s\<lparr>fsmState := n\<rparr>)"
  by (simp add: transitionTo_def Let_def onFsmTransition_core)

lemma core_fields:
  assumes e: "core a = core b"
  shows "fsmState a = fsmState b"
    and "connectionRetryTimer a = connectionRetryTimer b"
    and "connectionRetryCount a = connectionRetryCount b"
    and "holdTimer a = holdTimer b"
    and "keepaliveTimer a = keepaliveTimer b"
    and "idleHoldTimer a = idleHoldTimer b"
    and "holdTime a = holdTime b"
    and "keepaliveInterval a = keepaliveInterval b"
    and "activeConn a = activeConn b"
    and "passiveConn a = passiveConn b"
    and "primaryConn a = primaryConn b"
    and "passiveMode a = passiveMode b"
    and "transitionCallback a = transitionCallback b"
    and "posted a = posted b"
  using arg_cong [OF e, of fsmState]
    arg_cong [OF e, of connectionRetryTimer]
    arg_cong [OF e, of connectionRetryCount]
    arg_cong [OF e, of holdTimer]
    arg_cong [OF e, of keepaliveTimer]
    arg_cong [OF e, of idleHoldTimer]
    arg_cong [OF e, of holdTime]
    arg_cong [OF e, of keepaliveInterval]
    arg_cong [OF e, of activeConn]
    arg_cong [OF e, of passiveConn]
    arg_cong [OF e, of primaryConn]
    arg_cong [OF e, of passiveMode]
    arg_cong [OF e, of transitionCallback]
    arg_cong [OF e, of posted]
  by (simp_all add: core_def)

lemma transitionTo_fields [simp]:
  "fsmState (transitionTo cfg n s) = n"
  "connectionRetryTimer (transitionTo cfg n s) = connectionRetryTimer s"
  "connectionRetryCount (transitionTo cfg n s) = connectionRetryCount s"
  "holdTimer (transitionTo cfg n s) = holdTimer s"
  "keepaliveTimer (transitionTo cfg n s) = keepaliveTimer s"
  "idleHoldTimer (transitionTo cfg n s) = idleHoldTimer s"
  "holdTime (transitionTo cfg n s) = holdTime s"
  "keepaliveInterval (transitionTo cfg n s) = keepaliveInterval s"
  "activeConn (transitionTo cfg n s) = activeConn s"
  "passiveConn (transitionTo cfg n s) = passiveConn s"
  "primaryConn (transitionTo cfg n s) = primaryConn s"
  "passiveMode (transitionTo cfg n s) = passiveMode s"
  "transitionCallback (transitionTo cfg n s) = transitionCallback s"
  "posted (transitionTo cfg n s) = posted s"
  using core_fields [OF transitionTo_core [of cfg n s]] by simp_all

section \<open>The invariant\<close>

text \<open>
  \<open>primaryConn\<close> never dangles; a session that is idle or only listens has no outbound
  connection; the connect-retry timer runs exactly in the two states that wait for TCP; the hold
  and keepalive timers run only once OPENs have been exchanged.
\<close>

definition primary_ok :: "session \<Rightarrow> bool" where
  "primary_ok s \<longleftrightarrow> (primaryConn s = Some ActiveSlot \<longrightarrow> activeConn s \<noteq> None)
     \<and> (primaryConn s = Some PassiveSlot \<longrightarrow> passiveConn s \<noteq> None)"

definition fsm_inv :: "session \<Rightarrow> bool" where
  "fsm_inv s \<longleftrightarrow> primary_ok s
     \<and> (fsmState s \<in> {IDLE, ACTIVE} \<longrightarrow> activeConn s = None)
     \<and> (connectionRetryTimer s \<noteq> None \<longleftrightarrow> fsmState s \<in> {CONNECT, ACTIVE})
     \<and> (holdTimer s \<noteq> None \<longrightarrow> fsmState s \<in> {OPEN_CONFIRMED, ESTABLISHED})
     \<and> (keepaliveTimer s \<noteq> None \<longrightarrow> fsmState s \<in> {OPEN_CONFIRMED, ESTABLISHED})
     \<and> transitionCallback s"

lemma resetToIdle_fields [simp]:
  "fsmState (resetToIdle cfg n s) = IDLE"
  "connectionRetryTimer (resetToIdle cfg n s) = None"
  "holdTimer (resetToIdle cfg n s) = None"
  "keepaliveTimer (resetToIdle cfg n s) = None"
  "idleHoldTimer (resetToIdle cfg n s) = None"
  "activeConn (resetToIdle cfg n s) = None"
  "passiveConn (resetToIdle cfg n s) = None"
  "primaryConn (resetToIdle cfg n s) = None"
  "connectionRetryCount (resetToIdle cfg n s) = 0"
  "transitionCallback (resetToIdle cfg n s) = transitionCallback s"
  by (simp_all add: resetToIdle_def Let_def cancelAll_def closeAllConnections_def emit_def
      sendNotification_def split: option.splits)

lemma resetToIdle_inv [inv_intros]: "fsm_inv s \<Longrightarrow> fsm_inv (resetToIdle cfg n s)"
  by (simp add: fsm_inv_def primary_ok_def)

lemma fsm_inv_new: "fsm_inv (Session_new cfg ms)"
  by (simp add: fsm_inv_def primary_ok_def Session_new_def)

lemma acceptConnection_inv: "fsm_inv s \<Longrightarrow> fsm_inv (acceptConnection c s)"
  by (auto simp: fsm_inv_def primary_ok_def acceptConnection_def postEvent_def)

lemma openParsed_inv: "fsm_inv s \<Longrightarrow> fsm_inv (openParsed h r m f s)"
  by (simp add: fsm_inv_def primary_ok_def openParsed_def postEvent_def)

text \<open>A connection attempt keeps \<open>primaryConn\<close> valid only because the state it is made in has
  no outbound connection that \<open>primaryConn\<close> could point at.\<close>

lemma initiateConnection_primary:
  "primary_ok s \<Longrightarrow> activeConn s = None \<Longrightarrow> primary_ok (initiateConnection r s)"
  by (auto simp: primary_ok_def initiateConnection_def emit_def postEvent_def Let_def
      split: option.splits ConnSlot.splits)

lemma initiateConnection_fields [simp]:
  "fsmState (initiateConnection r s) = fsmState s"
  "connectionRetryTimer (initiateConnection r s) = connectionRetryTimer s"
  "holdTimer (initiateConnection r s) = holdTimer s"
  "keepaliveTimer (initiateConnection r s) = keepaliveTimer s"
  "transitionCallback (initiateConnection r s) = transitionCallback s"
  by (simp_all add: initiateConnection_def emit_def postEvent_def Let_def split: option.splits)

lemmas inv_defs = fsm_inv_def primary_ok_def

lemma idleStart_inv: "fsm_inv s \<Longrightarrow> fsmState s = IDLE \<Longrightarrow> fsm_inv (idleStart cfg r s)"
  by (auto simp: inv_defs idleStart_def session_ops split: option.splits)

lemma handleIdle_inv:
  assumes "fsm_inv s" and "fsmState s = IDLE"
  shows "fsm_inv (handleIdle cfg r e s)"
proof -
  have "fsm_inv (transitionTo cfg ACTIVE
      (startConnectRetry n (s\<lparr>passiveMode := p, connectionRetryCount := 0\<rparr>)))" for n p
    using assms by (auto simp: inv_defs session_ops)
  moreover have "fsm_inv (startIdleHoldTimer n s)" for n
    using assms by (auto simp: inv_defs session_ops Let_def)
  ultimately show ?thesis
    using assms by (cases e) (simp_all add: handleIdle_def idleStart_inv)
qed

lemma send_fields [simp]:
  "fsmState (sendOpen s) = fsmState s"
  "connectionRetryTimer (sendOpen s) = connectionRetryTimer s"
  "holdTimer (sendOpen s) = holdTimer s"
  "keepaliveTimer (sendOpen s) = keepaliveTimer s"
  "holdTime (sendOpen s) = holdTime s"
  "keepaliveInterval (sendOpen s) = keepaliveInterval s"
  "activeConn (sendOpen s) = activeConn s"
  "passiveConn (sendOpen s) = passiveConn s"
  "primaryConn (sendOpen s) = primaryConn s"
  "transitionCallback (sendOpen s) = transitionCallback s"
  "fsmState (sendKeepalive s) = fsmState s"
  "connectionRetryTimer (sendKeepalive s) = connectionRetryTimer s"
  "holdTimer (sendKeepalive s) = holdTimer s"
  "keepaliveTimer (sendKeepalive s) = keepaliveTimer s"
  "holdTime (sendKeepalive s) = holdTime s"
  "keepaliveInterval (sendKeepalive s) = keepaliveInterval s"
  "activeConn (sendKeepalive s) = activeConn s"
  "passiveConn (sendKeepalive s) = passiveConn s"
  "primaryConn (sendKeepalive s) = primaryConn s"
  "transitionCallback (sendKeepalive s) = transitionCallback s"
  by (simp_all add: sendOpen_def sendKeepalive_def emit_def split: option.splits)

lemma tcpUp_inv: "fsm_inv s \<Longrightarrow> fsmState s \<in> {CONNECT, ACTIVE} \<Longrightarrow> fsm_inv (tcpUp cfg s)"
  by (auto simp: inv_defs tcpUp_def stopConnectRetry_def)

lemma connectOpen_inv: "fsm_inv s \<Longrightarrow> fsmState s = CONNECT \<Longrightarrow> fsm_inv (connectOpen cfg s)"
  by (simp add: inv_defs connectOpen_def timer_defs Let_def)

lemma stop_inv:
  "fsm_inv s \<Longrightarrow>
   fsm_inv (transitionTo cfg IDLE ((closeAllConnections (cancelAll s))\<lparr>connectionRetryCount := 0\<rparr>))"
  by (simp add: inv_defs session_ops)

lemma retry_inv:
  "fsm_inv s \<Longrightarrow> n \<in> {CONNECT, ACTIVE} \<Longrightarrow> holdTimer s = None \<Longrightarrow> keepaliveTimer s = None \<Longrightarrow>
   fsm_inv (transitionTo cfg n (startConnectRetry i (closeAllConnections s)))"
  by (auto simp: inv_defs session_ops)

lemma handleConnect_inv:
  assumes "fsm_inv s" and "fsmState s = CONNECT"
  shows "fsm_inv (handleConnect cfg r e s)"
proof -
  have "fsm_inv (initiateConnection r (startConnectRetry n (closeAllConnections s)))" for n
    using assms by (simp add: inv_defs session_ops Let_def split: option.splits)
  moreover have "fsm_inv (transitionTo cfg ACTIVE (startConnectRetry n (closeAllConnections s)))" for n
    using assms by (intro retry_inv) (auto simp: inv_defs)
  ultimately show ?thesis
    using assms by (cases e) (simp_all add: handleConnect_def stop_inv tcpUp_inv connectOpen_inv
        resetToIdle_inv)
qed

lemma handleActive_inv:
  assumes "fsm_inv s" and "fsmState s = ACTIVE"
  shows "fsm_inv (handleActive cfg r e s)"
proof -
  have "fsm_inv (transitionTo cfg CONNECT (initiateConnection r (startConnectRetry n s)))" for n
    using assms by (auto simp: inv_defs session_ops Let_def split: option.splits)
  moreover have "fsm_inv (startConnectRetry n (closeAllConnections s))" for n
    using assms by (simp add: inv_defs session_ops)
  ultimately show ?thesis
    using assms by (cases e) (simp_all add: handleActive_def stop_inv tcpUp_inv resetToIdle_inv)
qed

lemma openReceived_inv: "fsm_inv s \<Longrightarrow> fsmState s = OPEN_SENT \<Longrightarrow> fsm_inv (openReceived cfg s)"
  by (auto simp: openReceived_def Let_def resetToIdle_inv) (auto simp: inv_defs session_ops split: option.splits)

lemma handleOpenSent_inv:
  assumes "fsm_inv s" and "fsmState s = OPEN_SENT"
  shows "fsm_inv (handleOpenSent cfg e s)"
proof -
  have "fsm_inv (transitionTo cfg ACTIVE (startConnectRetry n (closeAllConnections (stopHoldTimer s))))" for n
    using assms by (simp add: inv_defs session_ops)
  then show ?thesis
    using assms by (cases e) (simp_all add: handleOpenSent_def resetToIdle_inv openReceived_inv)
qed

lemma collisionOpen_inv:
  assumes "fsm_inv s" and "fsmState s \<in> {OPEN_CONFIRMED, ESTABLISHED}"
  shows "fsm_inv (collisionOpen cfg s)"
proof -
  have "fsm_inv (snd (resolveCollision cfg p s))" for p
    using assms by (auto simp: inv_defs session_ops Let_def)
  then show ?thesis
    by (auto simp: collisionOpen_def split: prod.splits intro!: resetToIdle_inv) (metis snd_conv)+
qed

lemma timer_restart_inv:
  "fsm_inv s \<Longrightarrow> fsmState s \<in> {OPEN_CONFIRMED, ESTABLISHED} \<Longrightarrow>
   fsm_inv (restartKeepaliveTimer (sendKeepalive s)) \<and> fsm_inv (restartHoldTimer s)"
  by (auto simp: inv_defs session_ops split: option.splits)

lemma handleOpenConfirm_inv:
  assumes "fsm_inv s" and "fsmState s = OPEN_CONFIRMED"
  shows "fsm_inv (handleOpenConfirm cfg e s)"
proof -
  have "fsm_inv (transitionTo cfg ESTABLISHED
      (stopConnectRetry (if holdTime s \<noteq> 0 then restartHoldTimer s else s)))"
    using assms by (auto simp: inv_defs session_ops)
  then show ?thesis
    using assms by (cases e) (simp_all add: handleOpenConfirm_def resetToIdle_inv collisionOpen_inv
        timer_restart_inv)
qed

lemma handleEstablished_inv:
  assumes "fsm_inv s" and "fsmState s = ESTABLISHED"
  shows "fsm_inv (handleEstablished cfg e s)"
  using assms by (cases e) (simp_all add: handleEstablished_def resetToIdle_inv collisionOpen_inv
      timer_restart_inv)

lemma processEvent_inv: "fsm_inv s \<Longrightarrow> fsm_inv (processEvent cfg r e s)"
  by (cases "fsmState s") (simp_all add: processEvent_def handleIdle_inv handleConnect_inv
      handleActive_inv handleOpenSent_inv handleOpenConfirm_inv handleEstablished_inv)

lemma session_step_inv: "session_step cfg s t \<Longrightarrow> fsm_inv s \<Longrightarrow> fsm_inv t"
  by (erule session_stepE) (simp_all add: processEvent_inv acceptConnection_inv openParsed_inv)

lemma session_reach_inv: "session_reach cfg s \<Longrightarrow> fsm_inv s"
  by (induction rule: session_reach.induct) (auto simp: fsm_inv_new intro: session_step_inv)

section \<open>The state diagram\<close>

text \<open>The edges of the RFC 4271 diagram the machine implements, self loops included: the
  abstract machine the handlers refine.\<close>

fun fsm_next :: "FsmState \<Rightarrow> FsmState list" where
  "fsm_next IDLE = [IDLE, CONNECT, ACTIVE]"
| "fsm_next CONNECT = [CONNECT, IDLE, ACTIVE, OPEN_SENT, OPEN_CONFIRMED]"
| "fsm_next ACTIVE = [ACTIVE, IDLE, CONNECT, OPEN_SENT]"
| "fsm_next OPEN_SENT = [IDLE, ACTIVE, OPEN_CONFIRMED]"
| "fsm_next OPEN_CONFIRMED = [OPEN_CONFIRMED, IDLE, ESTABLISHED]"
| "fsm_next ESTABLISHED = [ESTABLISHED, IDLE]"

lemma kept_state:
  "fsmState (startConnectRetry n s) = fsmState s"
  "fsmState (closeAllConnections s) = fsmState s"
  "fsmState (startIdleHoldTimer n s) = fsmState s"
  "fsmState (restartKeepaliveTimer s) = fsmState s"
  "fsmState (restartHoldTimer s) = fsmState s"
  by (simp_all add: timer_defs conn_defs)

lemma resolveCollision_state: "fsmState (snd (resolveCollision cfg p s)) = fsmState s"
  by (simp add: conn_defs)

lemma collisionOpen_state: "fsmState (collisionOpen cfg s) \<in> {fsmState s, IDLE}"
  using resolveCollision_state [of cfg "peerRouterId s" s]
  by (auto simp: collisionOpen_def split: prod.splits)

lemma openReceived_state: "fsmState (openReceived cfg s) \<in> {IDLE, OPEN_CONFIRMED}"
  by (simp add: openReceived_def Let_def)

lemmas next_states = handleIdle_def handleConnect_def handleActive_def handleOpenSent_def
  handleOpenConfirm_def handleEstablished_def idleStart_def tcpUp_def connectOpen_def kept_state Let_def

lemma handleIdle_state:
  "fsmState s = IDLE \<Longrightarrow> fsmState (handleIdle cfg r e s) \<in> set (fsm_next IDLE)"
  by (cases e) (simp_all add: next_states)

lemma handleConnect_state:
  "fsmState s = CONNECT \<Longrightarrow> fsmState (handleConnect cfg r e s) \<in> set (fsm_next CONNECT)"
  by (cases e) (simp_all add: next_states)

lemma handleActive_state:
  "fsmState s = ACTIVE \<Longrightarrow> fsmState (handleActive cfg r e s) \<in> set (fsm_next ACTIVE)"
  by (cases e) (simp_all add: next_states)

lemma handleOpenSent_state: "fsmState (handleOpenSent cfg e s) \<in> set (fsm_next OPEN_SENT)"
  using openReceived_state [of cfg s] by (cases e) (auto simp: handleOpenSent_def)

lemma handleOpenConfirm_state:
  "fsmState s = OPEN_CONFIRMED \<Longrightarrow>
   fsmState (handleOpenConfirm cfg e s) \<in> set (fsm_next OPEN_CONFIRMED)"
  using collisionOpen_state [of cfg s] by (cases e) (auto simp: handleOpenConfirm_def kept_state)

lemma handleEstablished_state:
  "fsmState s = ESTABLISHED \<Longrightarrow> fsmState (handleEstablished cfg e s) \<in> set (fsm_next ESTABLISHED)"
  using collisionOpen_state [of cfg s] by (cases e) (auto simp: handleEstablished_def kept_state)

lemmas handler_states = handleIdle_state handleConnect_state handleActive_state
  handleOpenSent_state handleOpenConfirm_state handleEstablished_state

section \<open>Calls made on entry to ESTABLISHED\<close>

lemma startMultiSession_count [simp]:
  "count_list (trace (startMultiSession e f s)) SessionEstablished
   = count_list (trace s) SessionEstablished"
  by (simp add: startMultiSession_def emit_def split: MultiSessionVariant.splits)

lemma fold_startMultiSession_count [simp]:
  "count_list (trace (fold (startMultiSession e) fs s)) SessionEstablished
   = count_list (trace s) SessionEstablished"
  by (induction fs arbitrary: s) simp_all

lemma startMultiSession_base:
  "\<exists>ms. multiSession s = BaseSession ms \<Longrightarrow> \<exists>ms. multiSession (startMultiSession e f s) = BaseSession ms"
  by (auto simp: startMultiSession_def emit_def)

lemma fold_startMultiSession_base:
  "\<exists>ms. multiSession s = BaseSession ms \<Longrightarrow>
   \<exists>ms. multiSession (fold (startMultiSession e) fs s) = BaseSession ms"
  by (induction fs arbitrary: s) (simp_all add: startMultiSession_base)

lemma onFsmTransition_established:
  assumes "multiSession s = BaseSession ms"
  shows "count_list (trace (onFsmTransition cfg a ESTABLISHED s)) SessionEstablished
      = Suc (count_list (trace s) SessionEstablished)"
    and "\<exists>ms. multiSession (onFsmTransition cfg a ESTABLISHED s) = BaseSession ms"
  using assms fold_startMultiSession_base [of "emit [SessionEstablished] s"]
  by (auto simp: onFsmTransition_def Let_def startActiveMultiSession_def
      startPassiveMultiSession_def emit_def)

lemma onFsmTransition_callback [simp]:
  "transitionCallback (onFsmTransition cfg a b s) = transitionCallback s"
  by (rule core_fields) (rule onFsmTransition_core)

lemma transitionTo_established_count:
  assumes "multiSession s = BaseSession ms" and "transitionCallback s"
  shows "count_list (trace (transitionTo cfg ESTABLISHED s)) SessionEstablished
      = count_list (trace s) SessionEstablished + 2"
proof -
  let ?s1 = "onFsmTransition cfg (fsmState s) ESTABLISHED (s\<lparr>fsmState := ESTABLISHED\<rparr>)"
  obtain ms' where "multiSession ?s1 = BaseSession ms'"
    using onFsmTransition_established(2) [of "s\<lparr>fsmState := ESTABLISHED\<rparr>" ms] assms by auto
  then have "count_list (trace (onFsmTransition cfg (fsmState s) ESTABLISHED ?s1)) SessionEstablished
      = Suc (count_list (trace ?s1) SessionEstablished)"
    by (rule onFsmTransition_established)
  moreover have "count_list (trace ?s1) SessionEstablished = Suc (count_list (trace s) SessionEstablished)"
    using onFsmTransition_established(1) [of "s\<lparr>fsmState := ESTABLISHED\<rparr>" ms] assms by simp
  ultimately show ?thesis using assms by (simp add: transitionTo_def Let_def)
qed

lemma transitionTo_idle_trace:
  "fsmState s \<noteq> ESTABLISHED \<Longrightarrow> trace (transitionTo cfg IDLE s) = trace s"
  by (simp add: transitionTo_def onFsmTransition_def Let_def)

lemma resetToIdle_trace:
  assumes "fsmState s \<noteq> ESTABLISHED" and "code \<noteq> 0"
  shows "trace (resetToIdle cfg (Some code) s) = trace s
    @ (case primaryConn s of None \<Rightarrow> [] | Some c \<Rightarrow> [SendNotification c code])
    @ closeConn (activeConn s) @ closeConn (passiveConn s)"
  using assms by (simp add: resetToIdle_def transitionTo_idle_trace closeAllConnections_def
      sendNotification_def cancelAll_def emit_def Let_def split: option.splits)

lemma div3_less: "(0::u16) < m \<Longrightarrow> m div 3 < m"
  by (simp add: word_less_nat_alt unat_div)

section \<open>An example run\<close>

text \<open>An outbound session that reaches ESTABLISHED, used by the witnesses.\<close>

definition ex_cfg :: session_config where
  "ex_cfg = \<lparr>HOLDTIME = 180, KEEPALIVE_INTERVAL = 60, MINIMUM_HOLDTIME = Some 30,
     TRANSPORT_CONNECTION_MODE = None, routerId = 1\<rparr>"

definition ex_new :: session where
  "ex_new = Session_new ex_cfg (BaseSession [])"

definition ex_open_sent :: session where
  "ex_open_sent = processEvent ex_cfg None TCP_CR_ACKED (processEvent ex_cfg (Some 7) MANUAL_START ex_new)"

definition ex_open_parsed :: session where
  "ex_open_parsed = openParsed 90 2 False [] ex_open_sent"

definition ex_confirmed :: session where
  "ex_confirmed = processEvent ex_cfg None BGP_OPEN ex_open_parsed"

definition ex_collision :: session where
  "ex_collision = acceptConnection 8 ex_confirmed"

lemma ex_reach:
  "session_reach ex_cfg ex_open_sent" "session_reach ex_cfg ex_open_parsed"
  "session_reach ex_cfg ex_confirmed" "session_reach ex_cfg ex_collision"
proof -
  have "session_reach ex_cfg ex_new" unfolding ex_new_def by (rule session_reach.start)
  then show 1: "session_reach ex_cfg ex_open_sent"
    unfolding ex_open_sent_def by (blast intro: session_reach.step session_step.event)
  then show 2: "session_reach ex_cfg ex_open_parsed"
    unfolding ex_open_parsed_def by (rule session_reach.step) (rule session_step.openmsg; simp)
  then show 3: "session_reach ex_cfg ex_confirmed"
    unfolding ex_confirmed_def by (blast intro: session_reach.step session_step.event)
  then show "session_reach ex_cfg ex_collision"
    unfolding ex_collision_def by (blast intro: session_reach.step session_step.accept)
qed

lemma ex_states:
  "fsmState ex_open_sent = OPEN_SENT" "fsmState ex_open_parsed = OPEN_SENT"
  "fsmState ex_confirmed = OPEN_CONFIRMED" "multiSession ex_confirmed = BaseSession []"
  "fsmState ex_collision = OPEN_CONFIRMED" "activeConn ex_collision = Some 7"
  "passiveConn ex_collision = Some 8" "peerRouterId ex_collision = 2"
  "holdTimer ex_confirmed = Some 90" "holdTime ex_open_parsed = 90"
  by code_simp+

section \<open>Properties\<close>

text \<open>(C2) In every state a session can reach, by any sequence of events, inbound connections and
  parsed OPENs: the primary connection pointer refers to a live connection; no outbound connection
  exists in IDLE or ACTIVE; the connect-retry timer runs exactly in CONNECT and ACTIVE (so the
  session never waits for TCP without a timer); the hold and keepalive timers run only in
  OPEN_CONFIRMED and ESTABLISHED.\<close>

theorem session_invariant:
  assumes "session_reach cfg s"
  shows "primary_ok s
    \<and> (fsmState s \<in> {IDLE, ACTIVE} \<longrightarrow> activeConn s = None)
    \<and> (connectionRetryTimer s \<noteq> None \<longleftrightarrow> fsmState s \<in> {CONNECT, ACTIVE})
    \<and> (holdTimer s \<noteq> None \<or> keepaliveTimer s \<noteq> None \<longrightarrow> fsmState s \<in> {OPEN_CONFIRMED, ESTABLISHED})"
  using session_reach_inv [OF assms] by (auto simp: fsm_inv_def)

theorem session_invariant_witness:
  "session_reach ex_cfg ex_confirmed \<and> primary_ok ex_confirmed \<and> holdTimer ex_confirmed = Some 90
    \<and> fsmState ex_confirmed \<in> {OPEN_CONFIRMED, ESTABLISHED}"
  using session_invariant [OF ex_reach(3)] ex_reach(3) ex_states by auto

text \<open>(C27) Every event, in every state and whatever the outcome of a connection attempt, moves the
  machine along an edge of the state diagram: no handler skips a state.\<close>

theorem processEvent_follows_diagram: "fsmState (processEvent cfg r e s) \<in> set (fsm_next (fsmState s))"
  by (cases "fsmState s") (simp_all only: processEvent_def FsmState.simps handler_states)

text \<open>ESTABLISHED is entered in one way only: by a KEEPALIVE received in OPEN_CONFIRMED.\<close>

theorem established_entered_by_keepalive:
  assumes "fsmState s \<noteq> ESTABLISHED"
  shows "fsmState (processEvent cfg r e s) = ESTABLISHED
    \<longleftrightarrow> fsmState s = OPEN_CONFIRMED \<and> e = KEEPALIVE_MSG"
proof (cases "fsmState s = OPEN_CONFIRMED")
  case True
  then show ?thesis
    using collisionOpen_state [of cfg s]
    by (cases e) (auto simp: processEvent_def handleOpenConfirm_def kept_state)
next
  case False
  then show ?thesis
    using handleIdle_state [of s cfg r e] handleConnect_state [of s cfg r e]
      handleActive_state [of s cfg r e] handleOpenSent_state [of cfg e s] assms
    by (cases "fsmState s") (auto simp: processEvent_def)
qed

theorem established_entered_by_keepalive_witness:
  "fsmState (processEvent ex_cfg None KEEPALIVE_MSG ex_confirmed) = ESTABLISHED
    \<and> fsmState (processEvent ex_cfg None UPDATE_MSG ex_confirmed) \<noteq> ESTABLISHED"
  using established_entered_by_keepalive [of ex_confirmed ex_cfg None] ex_states(3) by simp

text \<open>An administrative stop in any state but IDLE ends in IDLE in one step, with every timer
  cancelled, both connections closed and the retry counter cleared.\<close>

theorem manual_stop_resets:
  assumes "fsmState s \<noteq> IDLE"
  shows "let t = processEvent cfg r MANUAL_STOP s in
    fsmState t = IDLE \<and> connectionRetryTimer t = None \<and> holdTimer t = None
    \<and> keepaliveTimer t = None \<and> idleHoldTimer t = None \<and> connectionRetryCount t = 0
    \<and> activeConn t = None \<and> passiveConn t = None \<and> primaryConn t = None"
  using assms
  by (cases "fsmState s") (simp_all add: processEvent_def handleConnect_def handleActive_def
      handleOpenSent_def handleOpenConfirm_def handleEstablished_def Let_def session_ops)

theorem manual_stop_resets_witness:
  "fsmState ex_confirmed \<noteq> IDLE \<and> holdTimer (processEvent ex_cfg None MANUAL_STOP ex_confirmed) = None
    \<and> activeConn (processEvent ex_cfg None MANUAL_STOP ex_confirmed) = None"
  using manual_stop_resets [of ex_confirmed ex_cfg None] ex_states(3) by (simp add: Let_def)

text \<open>A BGP OPEN in OPEN_SENT whose hold time (as stored by the receiver) is not below the
  configured minimum is accepted: the session keeps the smaller of the two hold times, the keepalive
  interval is below it, and the hold timer is armed with it; a hold time of 0 disables both timers.
  A non-zero hold time below the minimum is refused with the notification
  OPEN/unacceptable hold time and the session returns to IDLE.\<close>

theorem open_sent_hold_time:
  assumes "fsmState s = OPEN_SENT"
  shows "let t = processEvent cfg r BGP_OPEN s; m = min (holdTime s) (HOLDTIME cfg) in
    if (\<exists>lo. MINIMUM_HOLDTIME cfg = Some lo \<and> holdTime s \<noteq> 0 \<and> holdTime s < lo)
    then fsmState t = IDLE
      \<and> (\<forall>c. primaryConn s = Some c \<longrightarrow>
           SendNotification c BGP_NOTIFICATION_OPEN_UNACCEPTABLE_HOLD \<in> set (trace t))
    else fsmState t = OPEN_CONFIRMED \<and> holdTime t = m
      \<and> (m = 0 \<longrightarrow> holdTimer t = None \<and> keepaliveTimer t = None)
      \<and> (m \<noteq> 0 \<longrightarrow> holdTimer t = Some (unat m) \<and> keepaliveInterval t < m)"
proof (cases "\<exists>lo. MINIMUM_HOLDTIME cfg = Some lo \<and> holdTime s \<noteq> 0 \<and> holdTime s < lo")
  case True
  then have "processEvent cfg r BGP_OPEN s
      = resetToIdle cfg (Some BGP_NOTIFICATION_OPEN_UNACCEPTABLE_HOLD) s"
    using assms by (auto simp: processEvent_def handleOpenSent_def openReceived_def)
  with True assms show ?thesis by (auto simp: resetToIdle_trace Let_def)
next
  case False
  have ka: "(if 0 < k \<and> k < m then k else m div 3) < m" if "m \<noteq> 0" for k m :: u16
    using that div3_less [of m] by (simp add: word_neq_0_conv)
  have "\<not> (case MINIMUM_HOLDTIME cfg of None \<Rightarrow> False | Some m \<Rightarrow> holdTime s \<noteq> 0 \<and> holdTime s < m)"
    using False by (auto split: option.splits)
  moreover define m where "m = min (holdTime s) (HOLDTIME cfg)"
  ultimately show ?thesis
    using False assms ka [of m "KEEPALIVE_INTERVAL cfg"]
    by (cases "m = 0") (simp_all add: processEvent_def handleOpenSent_def openReceived_def timer_defs
        Let_def unat_eq_zero m_def [symmetric])
qed

theorem open_sent_hold_time_witness:
  "fsmState (processEvent ex_cfg None BGP_OPEN ex_open_parsed) = OPEN_CONFIRMED
    \<and> holdTimer (processEvent ex_cfg None BGP_OPEN ex_open_parsed) = Some 90
    \<and> keepaliveInterval (processEvent ex_cfg None BGP_OPEN ex_open_parsed) < 90"
  using open_sent_hold_time [of ex_open_parsed ex_cfg None] ex_states
  by (simp add: Let_def ex_cfg_def)

text \<open>Entering ESTABLISHED on a base session reports the session to the BGP process twice:
  \<open>transitionTo\<close> calls \<open>Session::onFsmTransition\<close> itself and then the registered transition
  callback, which is the same function.\<close>

theorem established_reported_twice:
  assumes "session_reach cfg s" and "fsmState s = OPEN_CONFIRMED" and "multiSession s = BaseSession ms"
  shows "count_list (trace (processEvent cfg r KEEPALIVE_MSG s)) SessionEstablished
    = count_list (trace s) SessionEstablished + 2"
proof -
  let ?s1 = "stopConnectRetry (if holdTime s \<noteq> 0 then restartHoldTimer s else s)"
  have "transitionCallback s" using session_reach_inv [OF assms(1)] by (simp add: fsm_inv_def)
  with assms(3) have "transitionCallback ?s1" "multiSession ?s1 = BaseSession ms" "trace ?s1 = trace s"
    by (simp_all add: timer_defs)
  with transitionTo_established_count [of ?s1 ms cfg] assms(2) show ?thesis
    by (simp add: processEvent_def handleOpenConfirm_def)
qed

theorem established_reported_twice_witness:
  "count_list (trace (processEvent ex_cfg None KEEPALIVE_MSG ex_confirmed)) SessionEstablished
    = count_list (trace ex_confirmed) SessionEstablished + 2"
  by (rule established_reported_twice [OF ex_reach(3) ex_states(3) ex_states(4)])

text \<open>No timer that could end a stalled handshake runs in OPEN_SENT: neither the hold timer,
  which the comment in \<open>handleConnect\<close> says is started with the OPEN, nor the connect-retry
  timer.\<close>

theorem open_sent_has_no_timer:
  assumes "session_reach cfg s" and "fsmState s = OPEN_SENT"
  shows "holdTimer s = None \<and> connectionRetryTimer s = None \<and> keepaliveTimer s = None"
  using session_reach_inv [OF assms(1)] assms(2) by (auto simp: fsm_inv_def)

theorem open_sent_has_no_timer_witness:
  "fsmState ex_open_sent = OPEN_SENT \<and> holdTimer ex_open_sent = None"
  using open_sent_has_no_timer [OF ex_reach(1) ex_states(1)] ex_states(1) by simp

text \<open>Both ends of a connection take the same decision on it, and of the two colliding
  connections exactly one is kept, when the router identifiers differ.\<close>

theorem collision_agreement:
  assumes "a \<noteq> b"
  shows "shouldKeep True a b = shouldKeep False b a
    \<and> shouldKeep True a b \<noteq> shouldKeep True b a"
  using assms by (auto simp: shouldKeep_def)

theorem collision_agreement_witness:
  "shouldKeep True 1 2 = shouldKeep False 2 1 \<and> shouldKeep True 1 2 \<noteq> shouldKeep True 2 1"
  by (rule collision_agreement) simp

text \<open>The router with the lower identifier drops both connections on a collision, the one
  that should survive too: after \<open>resolveCollision\<close> closed the outbound connection,
  \<open>resetToIdle\<close> sends the Cease on the inbound one and closes it.\<close>

theorem collision_loser_drops_both:
  assumes "fsmState s = OPEN_CONFIRMED" and "activeConn s = Some a" and "passiveConn s = Some p"
    and "routerId cfg < peerRouterId s"
  shows "let t = processEvent cfg r BGP_OPEN s in
    fsmState t = IDLE \<and> activeConn t = None \<and> passiveConn t = None
    \<and> trace t = trace s @ [TcpClose a,
        SendNotification PassiveSlot BGP_NOTIFICATION_CEASE_COLLISION_RESOLUTION, TcpClose p]"
proof -
  let ?s1 = "closeActiveConnection s"
  have "\<not> shouldKeep True (routerId cfg) (peerRouterId s)"
    using assms(4) by (auto simp: shouldKeep_def)
  with assms(2) have "resolveCollision cfg (peerRouterId s) s = (False, ?s1)"
    by (simp add: resolveCollision_def Let_def)
  with assms(1) have "processEvent cfg r BGP_OPEN s
      = resetToIdle cfg (Some BGP_NOTIFICATION_CEASE_COLLISION_RESOLUTION) ?s1"
    by (simp add: processEvent_def handleOpenConfirm_def collisionOpen_def)
  moreover have "fsmState ?s1 = OPEN_CONFIRMED" "activeConn ?s1 = None" "passiveConn ?s1 = Some p"
      "primaryConn ?s1 = Some PassiveSlot" "trace ?s1 = trace s @ [TcpClose a]"
    using assms by (simp_all add: closeActiveConnection_def emit_def closeConn_def Let_def)
  ultimately show ?thesis by (simp add: resetToIdle_trace closeConn_def Let_def)
qed

theorem collision_loser_drops_both_witness:
  "fsmState (processEvent ex_cfg None BGP_OPEN ex_collision) = IDLE
    \<and> passiveConn (processEvent ex_cfg None BGP_OPEN ex_collision) = None"
proof -
  have "routerId ex_cfg < peerRouterId ex_collision" by (simp add: ex_states ex_cfg_def)
  then show ?thesis
    using collision_loser_drops_both [OF ex_states(5,6,7)] by (simp add: Let_def)
qed

end
