(* ===== verification/Bytes.thy ===== *)
theory Bytes
  imports Prelude "HOL-Library.Monad_Syntax"
begin

text \<open>
  Byte order, \<open>utils/ByteUtils.hpp\<close>, on a little-endian host (the branch of every
  \<open>if constexpr (isLittleEndian)\<close> the program is built with). A \<open>const uint8_t*\<close> is the list of the
  bytes from there to the end of its buffer; a read or write outside the buffer and a shift by the
  width of the type or more are undefined behaviour, the value \<open>None\<close>.

  \<open>be_word\<close> and \<open>be_bytes\<close> are the specification: the number a sequence of bytes denotes, most
  significant byte first, and its inverse.
\<close>

section \<open>The number a byte sequence denotes\<close>

definition be_word :: "u8 list \<Rightarrow> 'a::len word" where
  "be_word bs = fold (\<lambda>b v. push_bit 8 v OR ucast b) bs 0"

primrec be_bytes :: "nat \<Rightarrow> 'a::len word \<Rightarrow> u8 list" where
  "be_bytes 0 v = []"
| "be_bytes (Suc n) v = ucast (drop_bit (8 * n) v) # be_bytes n v"

section \<open>Reads\<close>

definition readU16 :: "u8 list \<Rightarrow> u16 option" where
  "readU16 p = (if length p < 2 then None else Some (push_bit 8 (ucast (p ! 0)) OR ucast (p ! 1)))"

definition readU24 :: "u8 list \<Rightarrow> u32 option" where
  "readU24 p = (if length p < 3 then None
     else Some (push_bit 16 (ucast (p ! 0)) OR push_bit 8 (ucast (p ! 1)) OR ucast (p ! 2)))"

definition readU32 :: "u8 list \<Rightarrow> u32 option" where
  "readU32 p = (if length p < 4 then None
     else Some (push_bit 24 (ucast (p ! 0)) OR push_bit 16 (ucast (p ! 1)) OR push_bit 8 (ucast (p ! 2))
       OR ucast (p ! 3)))"

definition readU48 :: "u8 list \<Rightarrow> u64 option" where
  "readU48 p = (if length p < 6 then None
     else Some (push_bit 40 (ucast (p ! 0)) OR push_bit 32 (ucast (p ! 1)) OR push_bit 24 (ucast (p ! 2))
       OR push_bit 16 (ucast (p ! 3)) OR push_bit 8 (ucast (p ! 4)) OR ucast (p ! 5)))"

definition readU64 :: "u8 list \<Rightarrow> u64 option" where
  "readU64 p = (if length p < 8 then None
     else Some (push_bit 56 (ucast (p ! 0)) OR push_bit 48 (ucast (p ! 1)) OR push_bit 40 (ucast (p ! 2))
       OR push_bit 32 (ucast (p ! 3)) OR push_bit 24 (ucast (p ! 4)) OR push_bit 16 (ucast (p ! 5))
       OR push_bit 8 (ucast (p ! 6)) OR ucast (p ! 7)))"

definition readU128 :: "u8 list \<Rightarrow> u128 option" where
  "readU128 p = (if length p < 16 then None
     else Some (fold (\<lambda>i result. push_bit 8 result OR ucast (p ! i)) [0..<16] 0))"

text \<open>\<open>readBytes<T>(p, n)\<close>: \<open>n\<close> rounds, the shift held in a \<open>size_t\<close> that wraps below zero.\<close>

fun readBytesLoop :: "nat \<Rightarrow> u8 list \<Rightarrow> u64 \<Rightarrow> 'a::len word \<Rightarrow> 'a word option" where
  "readBytesLoop 0 p shift val = Some val"
| "readBytesLoop (Suc n) [] shift val = None"
| "readBytesLoop (Suc n) (b # p) shift val =
     (if LENGTH('a) \<le> unat shift then None
      else readBytesLoop n p (shift - 8) (val OR push_bit (unat shift) (ucast b)))"

definition sizeof :: "'a::len word itself \<Rightarrow> nat" where
  "sizeof T = LENGTH('a) div 8"

definition readBytes :: "u8 list \<Rightarrow> nat \<Rightarrow> 'a::len word option" where
  "readBytes p n = readBytesLoop n p (of_nat ((sizeof TYPE('a word) - 1) * 8)) 0"

definition byteAt :: "nat \<Rightarrow> u8 list \<Rightarrow> u8 option" where
  "byteAt i buf = (if i < length buf then Some (buf ! i) else None)"

section \<open>Writes\<close>

abbreviation low8 :: "'a::len word \<Rightarrow> u8" where
  "low8 v \<equiv> ucast (v AND 0xFF)"

definition writeU16 :: "u8 list \<Rightarrow> u16 \<Rightarrow> u8 list option" where
  "writeU16 dest v = (if length dest < 2 then None
     else Some (dest[0 := low8 (drop_bit 8 v), 1 := low8 v]))"

definition writeU24 :: "u8 list \<Rightarrow> u32 \<Rightarrow> u8 list option" where
  "writeU24 dest v = (if length dest < 3 then None
     else Some (dest[0 := low8 (drop_bit 16 v), 1 := low8 (drop_bit 8 v), 2 := low8 v]))"

definition writeU32 :: "u8 list \<Rightarrow> u32 \<Rightarrow> u8 list option" where
  "writeU32 dest v = (if length dest < 4 then None
     else Some (dest[0 := low8 (drop_bit 24 v), 1 := low8 (drop_bit 16 v), 2 := low8 (drop_bit 8 v),
       3 := low8 v]))"

definition writeU48 :: "u8 list \<Rightarrow> u64 \<Rightarrow> u8 list option" where
  "writeU48 dest v = (if length dest < 6 then None
     else Some (dest[0 := low8 (drop_bit 40 v), 1 := low8 (drop_bit 32 v), 2 := low8 (drop_bit 24 v),
       3 := low8 (drop_bit 16 v), 4 := low8 (drop_bit 8 v), 5 := low8 v]))"

definition writeU64 :: "u8 list \<Rightarrow> u64 \<Rightarrow> u8 list option" where
  "writeU64 dest v = (if length dest < 8 then None
     else Some (dest[0 := low8 (drop_bit 56 v), 1 := low8 (drop_bit 48 v), 2 := low8 (drop_bit 40 v),
       3 := low8 (drop_bit 32 v), 4 := low8 (drop_bit 24 v), 5 := low8 (drop_bit 16 v),
       6 := low8 (drop_bit 8 v), 7 := low8 v]))"

text \<open>The loop of \<open>writeU128\<close> runs from index 15 down to 0, taking the low byte each time.\<close>

fun writeU128Loop :: "nat \<Rightarrow> u128 \<Rightarrow> u8 list \<Rightarrow> u8 list" where
  "writeU128Loop 0 v dest = dest"
| "writeU128Loop (Suc i) v dest = writeU128Loop i (drop_bit 8 v) (dest[i := low8 v])"

definition writeU128 :: "u8 list \<Rightarrow> u128 \<Rightarrow> u8 list option" where
  "writeU128 dest v = (if length dest < 16 then None else Some (writeU128Loop 16 v dest))"

fun writeBytesLoop :: "nat \<Rightarrow> u8 list \<Rightarrow> u64 \<Rightarrow> 'a::len word \<Rightarrow> u8 list option" where
  "writeBytesLoop 0 dest shift v = Some dest"
| "writeBytesLoop (Suc n) [] shift v = None"
| "writeBytesLoop (Suc n) (b # dest) shift v =
     (if LENGTH('a) \<le> unat shift then None
      else map_option ((#) (low8 (drop_bit (unat shift) v))) (writeBytesLoop n dest (shift - 8) v))"

definition writeBytes :: "u8 list \<Rightarrow> 'a::len word \<Rightarrow> nat \<Rightarrow> u8 list option" where
  "writeBytes dest v n = writeBytesLoop n dest (of_nat ((sizeof TYPE('a word) - 1) * 8)) v"

definition setBit :: "u8 list \<Rightarrow> u8 \<Rightarrow> bool \<Rightarrow> u8 list option" where
  "setBit bytes bitIndex value =
     (let byteIndex = unat bitIndex div 8; bitInByte = 7 - unat bitIndex mod 8; m = push_bit bitInByte (1 :: u8)
      in if length bytes \<le> byteIndex then None
         else Some (bytes[byteIndex := (if value then bytes ! byteIndex OR m else bytes ! byteIndex AND NOT m)]))"

section \<open>Byte swapping\<close>

text \<open>\<open>htonl\<close> of the C library reverses the bytes on a little-endian host.\<close>

definition htonl :: "u32 \<Rightarrow> u32" where
  "htonl v = be_word (rev (be_bytes 4 v))"

definition byteSwap64 :: "u64 \<Rightarrow> u64" where
  "byteSwap64 v = push_bit 32 (ucast (htonl (ucast (v AND 0xFFFFFFFF)))) OR ucast (htonl (ucast (drop_bit 32 v)))"

definition htonll :: "u64 \<Rightarrow> u64" where
  "htonll v = byteSwap64 v"

definition ntohll :: "u64 \<Rightarrow> u64" where
  "ntohll v = byteSwap64 v"

definition htondll :: "u128 \<Rightarrow> u128" where
  "htondll v = (let hi = htonll (ucast (drop_bit 64 v)); lo = htonll (ucast (v AND 0xFFFFFFFFFFFFFFFF))
     in push_bit 64 (ucast (htonll lo)) OR ucast (htonll hi))"

definition ntohdll :: "u128 \<Rightarrow> u128" where
  "ntohdll v = htondll v"

section \<open>Facts on the specification\<close>

lemma fold_be: "fold (\<lambda>b v. push_bit 8 v OR ucast b) bs v = push_bit (8 * length bs) v OR (be_word bs :: 'a::len word)"
proof (induction bs arbitrary: v)
  case (Cons b bs)
  have "be_word (b # bs) = push_bit (8 * length bs) (ucast b) OR (be_word bs :: 'a word)"
    using Cons.IH [of "ucast b"] by (simp add: be_word_def)
  with Cons.IH [of "push_bit 8 v OR ucast b"] show ?case
    by (simp add: push_bit_or push_bit_push_bit or.assoc add.commute)
qed (simp add: be_word_def)

lemma be_word_Nil [simp]: "be_word [] = 0"
  by (simp add: be_word_def)

lemma be_word_Cons: "be_word (b # bs) = push_bit (8 * length bs) (ucast b) OR be_word bs"
  using fold_be [of bs "ucast b"] by (simp add: be_word_def)

lemma be_word_snoc: "be_word (bs @ [b]) = push_bit 8 (be_word bs) OR ucast b"
  by (simp add: be_word_def)

lemma length_be_bytes [simp]: "length (be_bytes n v) = n"
  by (induction n) auto

lemma be_bytes_nth: "i < n \<Longrightarrow> be_bytes n v ! i = ucast (drop_bit (8 * (n - 1 - i)) v)"
  by (induction n arbitrary: i) (auto simp: nth_Cons split: nat.splits)

lemma be_word_be_bytes: "be_word (be_bytes n v) = (v :: 'a::len word) AND mask (8 * n)"
proof (induction n)
  case (Suc n)
  have "push_bit (8 * n) (ucast (ucast (drop_bit (8 * n) v) :: u8)) OR (v AND mask (8 * n)) = v AND mask (8 * Suc n)"
    by (rule bit_word_eqI) (auto simp: bit_simps)
  with Suc show ?case by (simp add: be_word_Cons)
qed simp

lemma and_mask_width: "LENGTH('a) \<le> n \<Longrightarrow> v AND mask n = (v :: 'a::len word)"
  by (rule bit_word_eqI) (auto simp: bit_simps)

lemma be_roundtrip: "LENGTH('a) \<le> 8 * n \<Longrightarrow> be_word (be_bytes n v) = (v :: 'a::len word)"
  by (simp add: be_word_be_bytes and_mask_width)

lemma low8_eq: "low8 (v :: 'a::len word) = ucast v"
proof -
  have "(0xFF :: 'a word) = mask 8" by (simp add: mask_eq_exp_minus_1)
  then have "low8 v = (ucast (v AND mask 8) :: u8)" by simp
  also have "\<dots> = ucast v" by (rule bit_word_eqI) (auto simp: bit_simps dest: bit_imp_le_length)
  finally show ?thesis .
qed

lemma list_ge_Cons: "Suc n \<le> length xs \<longleftrightarrow> (\<exists>y ys. xs = y # ys \<and> n \<le> length ys)"
  by (cases xs) auto

lemmas be_shift = be_word_Cons push_bit_or push_bit_push_bit or.assoc

section \<open>Reads and writes meet the specification\<close>

lemma readU16_spec: "2 \<le> length p \<Longrightarrow> readU16 p = Some (be_word (take 2 p))"
  by (auto simp: readU16_def eval_nat_numeral list_ge_Cons be_shift)

lemma writeU16_spec: "2 \<le> length d \<Longrightarrow> writeU16 d v = Some (be_bytes 2 v @ drop 2 d)"
  by (auto simp: writeU16_def eval_nat_numeral list_ge_Cons low8_eq)

lemma readU24_spec: "3 \<le> length p \<Longrightarrow> readU24 p = Some (be_word (take 3 p))"
  by (auto simp: readU24_def eval_nat_numeral list_ge_Cons be_shift)

lemma writeU24_spec: "3 \<le> length d \<Longrightarrow> writeU24 d v = Some (be_bytes 3 v @ drop 3 d)"
  by (auto simp: writeU24_def eval_nat_numeral list_ge_Cons low8_eq)

lemma readU32_spec: "4 \<le> length p \<Longrightarrow> readU32 p = Some (be_word (take 4 p))"
  by (auto simp: readU32_def eval_nat_numeral list_ge_Cons be_shift)

lemma writeU32_spec: "4 \<le> length d \<Longrightarrow> writeU32 d v = Some (be_bytes 4 v @ drop 4 d)"
  by (auto simp: writeU32_def eval_nat_numeral list_ge_Cons low8_eq)

lemma readU48_spec: "6 \<le> length p \<Longrightarrow> readU48 p = Some (be_word (take 6 p))"
  by (auto simp: readU48_def eval_nat_numeral list_ge_Cons be_shift)

lemma writeU48_spec: "6 \<le> length d \<Longrightarrow> writeU48 d v = Some (be_bytes 6 v @ drop 6 d)"
  by (auto simp: writeU48_def eval_nat_numeral list_ge_Cons low8_eq)

lemma readU64_spec: "8 \<le> length p \<Longrightarrow> readU64 p = Some (be_word (take 8 p))"
  by (auto simp: readU64_def eval_nat_numeral list_ge_Cons be_shift)

lemma writeU64_spec: "8 \<le> length d \<Longrightarrow> writeU64 d v = Some (be_bytes 8 v @ drop 8 d)"
  by (auto simp: writeU64_def eval_nat_numeral list_ge_Cons low8_eq)

lemma fold_nth: "n \<le> length xs \<Longrightarrow> fold (\<lambda>i. f (xs ! i)) [0..<n] v = fold f (take n xs) v"
  by (induction n) (auto simp: take_Suc_conv_app_nth)

lemma readU128_spec: "16 \<le> length p \<Longrightarrow> readU128 p = Some (be_word (take 16 p))"
  using fold_nth [of 16 p "\<lambda>b v. push_bit 8 v OR ucast b"] by (simp add: readU128_def be_word_def)

lemma be_bytes_snoc: "be_bytes n (drop_bit 8 v) @ [ucast v] = be_bytes (Suc n) (v :: 'a::len word)"
  by (induction n) (auto simp: drop_bit_drop_bit add.commute)

lemma writeU128Loop_spec: "n \<le> length d \<Longrightarrow> writeU128Loop n v d = be_bytes n v @ drop n d"
proof (induction n arbitrary: v d)
  case (Suc n)
  then have "drop n (d[n := x]) = x # drop (Suc n) d" for x
    by (simp add: Cons_nth_drop_Suc [symmetric])
  with Suc be_bytes_snoc [of n v] show ?case by (simp add: low8_eq)
qed simp

lemma writeU128_spec: "16 \<le> length d \<Longrightarrow> writeU128 d v = Some (be_bytes 16 v @ drop 16 d)"
  by (simp add: writeU128_def writeU128Loop_spec)

lemma shift_start:
  assumes "8 \<le> LENGTH('a::len)"
  shows "(of_nat ((sizeof TYPE('a word) - 1) * 8) :: u64) = of_nat (8 * (LENGTH('a) div 8)) - 8"
  using assms by (cases "LENGTH('a) div 8") (simp_all add: sizeof_def algebra_simps)

lemma unat_shift: "k < 2 ^ 60 \<Longrightarrow> unat (of_nat (8 * Suc k) - 8 :: u64) = 8 * k"
proof -
  assume "k < 2 ^ 60"
  then have "unat (of_nat (8 * k) :: u64) = 8 * k"
    by (simp add: unsigned_of_nat take_bit_nat_eq_self del: of_nat_mult)
  then show ?thesis by simp
qed

text \<open>\<open>readBytes\<close> puts the bytes at the top of the integer and leaves the rest zero.\<close>

lemma readBytesLoop_spec:
  assumes "n \<le> m" "8 * m \<le> LENGTH('a)" "n \<le> length p" "m < 2 ^ 60"
  shows "readBytesLoop n p (of_nat (8 * m) - 8) (val :: 'a::len word)
     = Some (val OR push_bit (8 * (m - n)) (be_word (take n p)))"
  using assms
proof (induction n arbitrary: m p val)
  case (Suc n)
  then obtain b q where p: "p = b # q" "n \<le> length q" by (cases p) auto
  from Suc.prems obtain k where m: "m = Suc k" by (cases m) auto
  have un: "unat (of_nat (8 * m) - 8 :: u64) = 8 * k" using Suc.prems m unat_shift [of k] by simp
  have st: "of_nat (8 * m) - 8 - 8 = (of_nat (8 * k) - 8 :: u64)" by (simp add: m)
  have "8 * k = 8 * (k - n) + 8 * n" using Suc.prems m by simp
  then have "val OR push_bit (8 * (m - Suc n)) (be_word (take (Suc n) p))
      = (val OR push_bit (8 * k) (ucast b)) OR push_bit (8 * (k - n)) (be_word (take n q))"
    using p m by (simp add: be_word_Cons push_bit_or push_bit_push_bit or.assoc)
  then show ?case using Suc.IH [of k q "val OR push_bit (8 * k) (ucast b)"] Suc.prems un st p m
    by (simp del: of_nat_mult)
qed simp

lemma readBytes_spec:
  assumes "n \<le> LENGTH('a::len) div 8" "n \<le> length p" "LENGTH('a) < 2 ^ 60" "8 \<le> LENGTH('a)"
  shows "readBytes p n = Some (push_bit (8 * (LENGTH('a) div 8 - n)) (be_word (take n p)) :: 'a word)"
proof -
  have "LENGTH('a) div 8 < 2 ^ 60" using assms(3) by (intro le_less_trans [OF div_le_dividend])
  then show ?thesis using readBytesLoop_spec [of n "LENGTH('a) div 8" p "0 :: 'a word"] assms
    by (simp only: readBytes_def shift_start [OF assms(4)]) simp
qed

lemma writeBytesLoop_spec:
  assumes "n \<le> m" "8 * m \<le> LENGTH('a)" "n \<le> length d" "m < 2 ^ 60"
  shows "writeBytesLoop n d (of_nat (8 * m) - 8) (v :: 'a::len word) = Some (take n (be_bytes m v) @ drop n d)"
  using assms
proof (induction n arbitrary: m d)
  case (Suc n)
  then obtain b q where d: "d = b # q" "n \<le> length q" by (cases d) auto
  from Suc.prems obtain k where m: "m = Suc k" by (cases m) auto
  have un: "unat (of_nat (8 * m) - 8 :: u64) = 8 * k" using Suc.prems m unat_shift [of k] by simp
  have "of_nat (8 * m) - 8 - 8 = (of_nat (8 * k) - 8 :: u64)" by (simp add: m)
  then show ?case using Suc.IH [of k q] Suc.prems un d m by (simp add: low8_eq)
qed simp

lemma writeBytes_spec:
  fixes v :: "'a::len word"
  assumes "n \<le> LENGTH('a) div 8" "n \<le> length d" "LENGTH('a) < 2 ^ 60" "8 \<le> LENGTH('a)"
  shows "writeBytes d v n = Some (take n (be_bytes (LENGTH('a) div 8) v) @ drop n d)"
proof -
  have "LENGTH('a) div 8 < 2 ^ 60" using assms(3) by (intro le_less_trans [OF div_le_dividend])
  then show ?thesis using writeBytesLoop_spec [of n "LENGTH('a) div 8" d v] assms
    by (simp only: writeBytes_def shift_start [OF assms(4)])
qed

text \<open>Asking for more bytes than the type has is undefined behaviour, whatever the buffer holds.\<close>

lemma readBytesLoop_overrun:
  "8 * m \<le> LENGTH('a) \<Longrightarrow> m < n \<Longrightarrow> m < 2 ^ 60 \<Longrightarrow> LENGTH('a) < 2 ^ 60 \<Longrightarrow>
   readBytesLoop n p (of_nat (8 * m) - 8) (val :: 'a::len word) = None"
proof (induction m arbitrary: n p val)
  case 0
  then obtain j where n: "n = Suc j" by (cases n) auto
  with 0 show ?case by (cases p) simp_all
next
  case (Suc m)
  then obtain j where n: "n = Suc j" by (cases n) auto
  have "of_nat (8 * Suc m) - 8 - 8 = (of_nat (8 * m) - 8 :: u64)" by simp
  then show ?case using Suc.IH [of j] Suc.prems n by (cases p) simp_all
qed

lemma readBytes_overrun:
  assumes "LENGTH('a::len) div 8 < n" "LENGTH('a) < 2 ^ 60" "8 \<le> LENGTH('a)"
  shows "readBytes p n = (None :: 'a word option)"
proof -
  have "LENGTH('a) div 8 < 2 ^ 60" using assms(2) by (intro le_less_trans [OF div_le_dividend])
  then show ?thesis using readBytesLoop_overrun [of "LENGTH('a) div 8" n p "0 :: 'a word"] assms
    by (simp only: readBytes_def shift_start [OF assms(3)] times_div_less_eq_dividend)
qed

lemma be_word_low: "bit (be_word bs :: 'a::len word) i \<Longrightarrow> i < 8 * length bs"
proof (induction bs)
  case (Cons b bs)
  have "i - 8 * length bs < 8" if "bit b (i - 8 * length bs)"
    using bit_imp_le_length [OF that] by simp
  with Cons show ?case by (auto simp: be_word_Cons bit_simps)
qed simp

lemma be_bytes_be_word: "LENGTH('a) \<ge> 8 * length bs \<Longrightarrow> be_bytes (length bs) (be_word bs :: 'a::len word) = bs"
proof (induction bs)
  case (Cons b bs)
  let ?w = "be_word bs :: 'a word"
  have low: "bit ?w i \<Longrightarrow> i < 8 * length bs" for i
    by (rule be_word_low)
  have "ucast (drop_bit (8 * length bs) (be_word (b # bs) :: 'a word)) = b"
    using Cons.prems low by (intro bit_word_eqI) (auto simp: be_word_Cons bit_simps dest: low)
  moreover have "be_bytes n (push_bit (8 * n) x OR ?w) = be_bytes n ?w" for n and x :: "'a word"
  proof -
    have "k \<le> n \<Longrightarrow> be_bytes k (push_bit (8 * n) x OR ?w) = be_bytes k ?w" for k
      by (induction k) (auto intro!: bit_word_eqI simp: bit_simps)
    then show ?thesis by simp
  qed
  ultimately show ?case using Cons by (simp add: be_word_Cons)
qed simp

section \<open>Properties\<close>

text \<open>Fixed-width fields round-trip: writing a value in network order and reading it at the same
  place returns it (its low 24 or 48 bits for the 3- and 6-byte fields), and the bytes behind the
  field are not touched.\<close>

theorem field_roundtrip:
  assumes "16 \<le> length d"
  shows "(\<exists>e. writeU16 d a = Some e \<and> readU16 e = Some a \<and> drop 2 e = drop 2 d)
    \<and> (\<exists>e. writeU24 d b = Some e \<and> readU24 e = Some (b AND mask 24) \<and> drop 3 e = drop 3 d)
    \<and> (\<exists>e. writeU32 d b = Some e \<and> readU32 e = Some b \<and> drop 4 e = drop 4 d)
    \<and> (\<exists>e. writeU48 d c = Some e \<and> readU48 e = Some (c AND mask 48) \<and> drop 6 e = drop 6 d)
    \<and> (\<exists>e. writeU64 d c = Some e \<and> readU64 e = Some c \<and> drop 8 e = drop 8 d)
    \<and> (\<exists>e. writeU128 d x = Some e \<and> readU128 e = Some x \<and> drop 16 e = drop 16 d)"
  using assms
  by (simp add: writeU16_spec readU16_spec writeU24_spec readU24_spec writeU32_spec readU32_spec
      writeU48_spec readU48_spec writeU64_spec readU64_spec writeU128_spec readU128_spec
      be_word_be_bytes and_mask_width)

theorem field_roundtrip_witness:
  "(\<exists>e. writeU32 (replicate 16 0) 0x0A000001 = Some e \<and> readU32 e = Some 0x0A000001
     \<and> drop 4 e = drop 4 (replicate 16 0))"
  using field_roundtrip [of "replicate 16 0" _ "0x0A000001"] by fastforce

text \<open>Variable-length fields round-trip: writing the first \<open>n\<close> bytes of a value and reading \<open>n\<close>
  bytes back gives the value with the remaining low bytes zero, for any \<open>n\<close> up to the size of the
  type; asking \<open>readBytes\<close> for more bytes than the type has is undefined behaviour.\<close>

theorem partial_field_roundtrip:
  fixes v :: "'a::len word"
  assumes "8 dvd LENGTH('a)" and "LENGTH('a) < 2 ^ 60" and "n \<le> length d"
  shows "if n \<le> LENGTH('a) div 8
    then (\<exists>e. writeBytes d v n = Some e \<and> drop n e = drop n d
      \<and> readBytes e n = Some (push_bit (LENGTH('a) - 8 * n) (drop_bit (LENGTH('a) - 8 * n) v)))
    else readBytes d n = (None :: 'a word option)"
proof (cases "n \<le> LENGTH('a) div 8")
  case True
  from assms(1) obtain k where k: "LENGTH('a) = 8 * k" by (elim dvdE)
  have k8: "8 \<le> LENGTH('a)" using k by (cases k) auto
  have "take j (be_bytes (j + m) v) = be_bytes j (drop_bit (8 * m) v)" for j m
    by (induction j) (simp_all add: drop_bit_drop_bit algebra_simps)
  from this [of n "k - n"] have "take n (be_bytes k v) = be_bytes n (drop_bit (8 * (k - n)) v)"
    using True k by simp
  moreover have "drop_bit (8 * (k - n)) v AND mask (8 * n) = drop_bit (8 * (k - n)) v"
    using True k by (intro bit_word_eqI) (auto simp: bit_simps dest: bit_imp_le_length)
  ultimately have "be_word (take n (be_bytes k v)) = drop_bit (8 * (k - n)) v"
    by (simp add: be_word_be_bytes)
  then show ?thesis
    using True k assms(2,3) k8 writeBytes_spec [of n d v] readBytes_spec [where 'a = 'a and n = n]
    by (simp add: right_diff_distrib')
next
  case False
  from assms(1) have "8 \<le> LENGTH('a)" by (rule dvd_imp_le) simp
  with False show ?thesis using readBytes_overrun [where 'a = 'a, of n d] assms(2) by simp
qed

theorem partial_field_roundtrip_witness:
  "(\<exists>e. writeBytes [0, 0, 0, 0, 0] (0x0A0B0C0D :: u32) 3 = Some e \<and> readBytes e 3 = Some (0x0A0B0C00 :: u32))
   \<and> readBytes [10, 0, 0, 0, 0, 0, 0, 0] 8 = (None :: u32 option)"
  using partial_field_roundtrip [of 3 "[0, 0, 0, 0, 0]" "0x0A0B0C0D :: u32"]
    partial_field_roundtrip [of 8 "[10, 0, 0, 0, 0, 0, 0, 0]" "0 :: u32"] by auto

lemma be_word_append: "be_word (xs @ ys) = push_bit (8 * length ys) (be_word xs) OR be_word ys"
  using fold_be [of ys "be_word xs"] by (simp add: be_word_def)

lemma ucast_be_word:
  "8 * length bs \<le> LENGTH('a) \<Longrightarrow> ucast (be_word bs :: 'a::len word) = (be_word bs :: 'b::len word)"
proof (induction bs)
  case (Cons b bs)
  have "ucast (push_bit (8 * length bs) (ucast b) :: 'a word) = (push_bit (8 * length bs) (ucast b) :: 'b word)"
    using Cons.prems by (intro bit_word_eqI) (auto simp: bit_simps dest: bit_imp_le_length)
  moreover have "ucast (x OR y) = (ucast x OR ucast y :: 'b word)" for x y :: "'a word"
    by (rule bit_word_eqI) (auto simp: bit_simps)
  ultimately show ?case using Cons by (simp add: be_word_Cons)
qed simp

lemma be_bytes_add: "be_bytes (m + n) v = be_bytes m (drop_bit (8 * n) v) @ be_bytes n v"
  by (induction m) (simp_all add: drop_bit_drop_bit algebra_simps)

lemma be_bytes_ucast: "8 * n \<le> LENGTH('b) \<Longrightarrow> be_bytes n (ucast (v :: 'a::len word) :: 'b::len word) = be_bytes n v"
  by (induction n) (auto intro!: bit_word_eqI simp: bit_simps dest: bit_imp_le_length)

lemma byteSwap64_spec: "byteSwap64 v = be_word (rev (be_bytes 8 v))"
proof -
  have "(v AND 0xFFFFFFFF) = v AND mask 32" by (simp add: mask_eq_exp_minus_1)
  then have lo: "(ucast (v AND 0xFFFFFFFF) :: u32) = ucast v"
    by (auto intro!: bit_word_eqI simp: bit_simps dest: bit_imp_le_length)
  have "ucast (htonl (ucast w)) = (be_word (rev (be_bytes 4 w)) :: u64)" for w :: u64
    by (simp add: htonl_def ucast_be_word be_bytes_ucast)
  then show ?thesis
    using be_bytes_add [of 4 4 v] by (simp add: byteSwap64_def lo be_word_append)
qed

lemma byteSwap64_involutive: "byteSwap64 (byteSwap64 v) = v"
  using be_bytes_be_word [where 'a = 64, of "rev (be_bytes 8 v)"]
  by (simp add: byteSwap64_spec be_roundtrip)

text \<open>The 64-bit conversions reverse the bytes and are inverse to each other, but the 128-bit
  conversion does not: it exchanges the two halves and leaves the bytes of each half in host order,
  because every half is swapped twice.\<close>

theorem byte_order_conversions:
  "htonll v = be_word (rev (be_bytes 8 v)) \<and> ntohll (htonll v) = v
   \<and> ntohdll (htondll x) = x
   \<and> htondll x = be_word (be_bytes 8 x @ be_bytes 8 (drop_bit 64 x))"
proof -
  have lo: "(ucast (y AND 0xFFFFFFFFFFFFFFFF) :: u64) = ucast y" for y :: u128
  proof -
    have "(y AND 0xFFFFFFFFFFFFFFFF) = y AND mask 64" by (simp add: mask_eq_exp_minus_1)
    then show ?thesis by (auto intro!: bit_word_eqI simp: bit_simps dest: bit_imp_le_length)
  qed
  have h: "htondll x = push_bit 64 (ucast (ucast x :: u64)) OR ucast (ucast (drop_bit 64 x) :: u64)" for x
    by (simp add: htondll_def Let_def htonll_def byteSwap64_involutive lo)
  have hw: "htondll x = be_word (be_bytes 8 x @ be_bytes 8 (drop_bit 64 x))" for x
    unfolding h by (rule bit_word_eqI) (auto simp: be_word_append be_word_be_bytes bit_simps)
  have "htondll (htondll x) = x"
    unfolding h by (rule bit_word_eqI) (auto simp: bit_simps)
  moreover have "ntohll (htonll v) = v" by (simp add: htonll_def ntohll_def byteSwap64_involutive)
  ultimately show ?thesis
    using hw [of x] by (simp add: htonll_def ntohdll_def byteSwap64_spec)
qed

end
