(* ===== verification/BgpCapabilities.thy ===== *)
theory BgpCapabilities
  imports BgpSession Bytes
begin

text \<open>
  The capabilities of a BGP session: \<open>routing/bgp/session/Capabilities.hpp\<close>, their encoding in
  \<open>routing/bgp/transport/BgpTx.cpp\<close>, their parsing in \<open>BgpRx.cpp\<close> and their negotiation in \<open>Session.cpp\<close>.

  A pointer into a message is the list of bytes from there to the end of the range that is parsed; reading outside it is \<open>None\<close>.
  What is appended to a connection is the list of the bytes written; a write outside the reserved range and a failed assertion are
  \<open>None\<close>. The hash sets of families are lists without an order that matters. \<open>supportsFamily\<close> is declared and used, but not
  defined in the sources: it is an argument.
\<close>

section \<open>Capabilities\<close>

record GracefulRestartFamily =
  gr_family :: AfiSafi
  forwardingStatePreserved :: bool

record LlgrFamily =
  llgr_family :: AfiSafi
  staleTime :: u32
  llgr_flags :: u8

record AddPathFamily =
  ap_family :: AfiSafi
  ap_sendReceive :: u8

record OrfEntry =
  orf_family :: AfiSafi
  orfType :: u8
  orf_sendReceive :: u8

record ExtendedNextHop =
  enh_family :: AfiSafi
  nextHopAfi :: u16

record Capabilities =
  mpFamilies :: "AfiSafi list"
  routeRefresh :: bool
  enhancedRouteRefresh :: bool
  asn32bit :: bool
  cap_asn :: u32
  extendedMessage :: bool
  gracefulRestart :: bool
  restarting :: bool
  restartTime :: u16
  gracefulFamilies :: "GracefulRestartFamily list"
  llgr :: bool
  llgrFamilies :: "LlgrFamily list"
  multiSess :: bool
  multiSessionFamilies :: "AfiSafi list"
  addPath :: bool
  addPathFamilies :: "AddPathFamily list"
  outboundRouteFiltering :: bool
  orfEntries :: "OrfEntry list"
  extendedNextHop :: bool
  extendedNextHopEntries :: "ExtendedNextHop list"
  multipleLabels :: bool
  labeledFamilies :: "AfiSafi list"
  bgpsec :: bool
  bgpsecFamilies :: "AfiSafi list"
  fqdn :: bool
  hostname :: "u8 list"
  domain :: "u8 list"
  linkLocalNextHop :: bool

definition Capabilities_new :: Capabilities where
  "Capabilities_new = \<lparr>mpFamilies = [], routeRefresh = False, enhancedRouteRefresh = False, asn32bit = False, cap_asn = 0,
     extendedMessage = False, gracefulRestart = False, restarting = False, restartTime = 0, gracefulFamilies = [], llgr = False,
     llgrFamilies = [], multiSess = False, multiSessionFamilies = [], addPath = False, addPathFamilies = [],
     outboundRouteFiltering = False, orfEntries = [], extendedNextHop = False, extendedNextHopEntries = [], multipleLabels = False,
     labeledFamilies = [], bgpsec = False, bgpsecFamilies = [], fqdn = False, hostname = [], domain = [], linkLocalNextHop = False\<rparr>"

section \<open>Parsing\<close>

definition famAt :: "u8 list \<Rightarrow> AfiSafi option" where
  "famAt p = do { a \<leftarrow> readU16 p; s \<leftarrow> byteAt 2 p; Some \<lparr>afi = a, safi = s\<rparr> }"

text \<open>The loops over entries of \<open>sz\<close> bytes: those that fit into \<open>len\<close>.\<close>

definition entries :: "nat \<Rightarrow> (u8 list \<Rightarrow> 'a option) \<Rightarrow> nat \<Rightarrow> u8 list \<Rightarrow> 'a list option" where
  "entries sz f k p = those (map (\<lambda>i. f (drop (i * sz) p)) [0..<k])"

definition parseOrf :: "nat \<Rightarrow> u8 list \<Rightarrow> Capabilities \<Rightarrow> Capabilities option" where
  "parseOrf len p out = (if len \<ge> 5
     then do {
       fam \<leftarrow> famAt p;
       count \<leftarrow> byteAt 3 p;
       es \<leftarrow> entries 2 (\<lambda>q. do { t \<leftarrow> byteAt 0 q; sr \<leftarrow> byteAt 1 q;
           Some \<lparr>orf_family = fam, orfType = t, orf_sendReceive = sr\<rparr> }) (min (unat count) ((len - 4) div 2)) (drop 4 p);
       Some (out\<lparr>orfEntries := orfEntries out @ es, outboundRouteFiltering := True\<rparr>) }
     else Some out)"

definition parseGracefulRestart :: "nat \<Rightarrow> u8 list \<Rightarrow> Capabilities \<Rightarrow> Capabilities option" where
  "parseGracefulRestart len p out = (if len \<ge> 2
     then do {
       flagsTime \<leftarrow> readU16 p;
       es \<leftarrow> entries 4 (\<lambda>q. do { fam \<leftarrow> famAt q; flags \<leftarrow> byteAt 3 q;
           Some \<lparr>gr_family = fam, forwardingStatePreserved = (flags AND 0x80 \<noteq> 0)\<rparr> }) ((len - 2) div 4) (drop 2 p);
       Some (out\<lparr>gracefulRestart := True, restarting := (flagsTime AND 0x8000 \<noteq> 0), restartTime := flagsTime AND 0x0FFF,
                 gracefulFamilies := gracefulFamilies out @ es\<rparr>) }
     else Some out)"

definition parseLlgr :: "nat \<Rightarrow> u8 list \<Rightarrow> Capabilities \<Rightarrow> Capabilities option" where
  "parseLlgr len p out = do {
     es \<leftarrow> entries 7 (\<lambda>q. do { fam \<leftarrow> famAt q; flags \<leftarrow> byteAt 3 q; st \<leftarrow> readU24 (drop 4 q);
         Some \<lparr>llgr_family = fam, staleTime = st, llgr_flags = flags\<rparr> }) (len div 7) p;
     Some (out\<lparr>llgrFamilies := llgrFamilies out @ es, llgr := (llgr out \<or> len \<ge> 7)\<rparr>) }"

definition parseFqdn :: "nat \<Rightarrow> u8 list \<Rightarrow> Capabilities \<Rightarrow> Capabilities option" where
  "parseFqdn len p out = (if len \<ge> 1
     then do {
       hn \<leftarrow> byteAt 0 p;
       let hnLen = unat hn;
       if 1 + hnLen \<le> len
       then if length p < 1 + hnLen then None
         else let out = out\<lparr>hostname := take hnLen (drop 1 p)\<rparr>; domainOff = 1 + hnLen in
           if domainOff + 1 \<le> len
           then do {
             dl \<leftarrow> byteAt domainOff p;
             let domLen = unat dl;
             if domainOff + 1 + domLen \<le> len
             then if length p < domainOff + 1 + domLen then None
               else Some (out\<lparr>domain := take domLen (drop (domainOff + 1) p), fqdn := True\<rparr>)
             else Some (out\<lparr>fqdn := True\<rparr>) }
           else Some (out\<lparr>fqdn := True\<rparr>)
       else Some out }
     else Some out)"

definition parseExtendedNextHop :: "nat \<Rightarrow> u8 list \<Rightarrow> Capabilities \<Rightarrow> Capabilities option" where
  "parseExtendedNextHop len p out = do {
     es \<leftarrow> entries 6 (\<lambda>q. do { fam \<leftarrow> famAt q; nh \<leftarrow> readU16 (drop 4 q); Some \<lparr>enh_family = fam, nextHopAfi = nh\<rparr> }) (len div 6) p;
     Some (out\<lparr>extendedNextHopEntries := extendedNextHopEntries out @ es, extendedNextHop := (extendedNextHop out \<or> len \<ge> 6)\<rparr>) }"

text \<open>The case of one capability, with the codes of \<open>BgpHeader.hpp\<close>.\<close>

definition capStep :: "u8 \<Rightarrow> nat \<Rightarrow> u8 list \<Rightarrow> Capabilities \<Rightarrow> Capabilities option" where
  "capStep ty len p out =
     (if ty = 1 then (if len = 4 then do { a \<leftarrow> readU16 p; s \<leftarrow> byteAt 3 p;
           Some (out\<lparr>mpFamilies := mpFamilies out @ [\<lparr>afi = a, safi = s\<rparr>]\<rparr>) } else Some out)
      else if ty = 2 then Some (if len = 0 then out\<lparr>routeRefresh := True\<rparr> else out)
      else if ty = 70 then Some (if len = 0 then out\<lparr>enhancedRouteRefresh := True\<rparr> else out)
      else if ty = 3 then parseOrf len p out
      else if ty = 5 then parseExtendedNextHop len p out
      else if ty = 6 then Some (if len = 0 then out\<lparr>extendedMessage := True\<rparr> else out)
      else if ty = 7 then (if len = 3 then do { fam \<leftarrow> famAt p;
           Some (out\<lparr>bgpsecFamilies := bgpsecFamilies out @ [fam], bgpsec := True\<rparr>) } else Some out)
      else if ty = 8 then (if len \<ge> 3 then do { fam \<leftarrow> famAt p;
           Some (out\<lparr>labeledFamilies := labeledFamilies out @ [fam], multipleLabels := True\<rparr>) } else Some out)
      else if ty = 64 then parseGracefulRestart len p out
      else if ty = 65 then (if len = 4 then do { x \<leftarrow> readU32 p; Some (out\<lparr>asn32bit := True, cap_asn := x\<rparr>) } else Some out)
      else if ty = 68 then do { es \<leftarrow> entries 4 famAt (len div 4) p;
           Some (out\<lparr>multiSessionFamilies := multiSessionFamilies out @ es, multiSess := (multiSess out \<or> len \<ge> 4)\<rparr>) }
      else if ty = 69 then do {
           es \<leftarrow> entries 4 (\<lambda>q. do { fam \<leftarrow> famAt q; md \<leftarrow> byteAt 3 q; Some \<lparr>ap_family = fam, ap_sendReceive = md\<rparr> }) (len div 4) p;
           Some (out\<lparr>addPathFamilies := addPathFamilies out @ es, addPath := (addPath out \<or> len \<ge> 4)\<rparr>) }
      else if ty = 71 then parseLlgr len p out
      else if ty = 73 then parseFqdn len p out
      else if ty = 77 then Some (if len = 0 then out\<lparr>linkLocalNextHop := True\<rparr> else out)
      else Some out)"

text \<open>The bytes from \<open>idx\<close> on; a capability that is cut off ends the loop.\<close>

function parseCapabilities :: "u8 list \<Rightarrow> Capabilities \<Rightarrow> Capabilities option" where
  "parseCapabilities data out = (if length data < 2 then Some out
     else let len = unat (data ! 1) in
       if 2 + len > length data then Some out
       else Option.bind (capStep (data ! 0) len (drop 2 data) out) (parseCapabilities (drop (2 + len) data)))"
  by auto
termination by (relation "measure (\<lambda>(data, out). length data)") auto

declare parseCapabilities.simps [simp del]

text \<open>The optional parameters of an OPEN message. The first component is whether every parameter fits.\<close>

function parseParameters :: "u8 list \<Rightarrow> Capabilities \<Rightarrow> (bool \<times> Capabilities) option" where
  "parseParameters data out = (if length data < 2 then Some (True, out)
     else let len = unat (data ! 1) in
       if 2 + len > length data then Some (False, out)
       else if data ! 0 = 2
       then Option.bind (parseCapabilities (take len (drop 2 data)) out) (parseParameters (drop (2 + len) data))
       else parseParameters (drop (2 + len) data) out)"
  by auto
termination by (relation "measure (\<lambda>(data, out). length data)") auto

declare parseParameters.simps [simp del]

section \<open>Encoding\<close>

text \<open>\<open>openParam\<close> with the data that the caller writes behind it. The assertion refuses more than 251 bytes; beyond 255 the length
  wraps around and the data is written outside the reserved range.\<close>

definition openParam :: "u8 \<Rightarrow> u8 list \<Rightarrow> u8 list option" where
  "openParam code d = (if length d + 2 \<le> 253 then Some ([2, of_nat (length d) + 2, code, of_nat (length d)] @ d) else None)"

definition getFragSize :: "nat \<Rightarrow> nat" where
  "getFragSize blockSize = 253 div blockSize"

definition getFragments :: "nat \<Rightarrow> nat \<Rightarrow> nat" where
  "getFragments fragSize blockCount = (blockCount + fragSize - 1) div fragSize"

definition catAll :: "'a list option list \<Rightarrow> 'a list option" where
  "catAll ps = map_option concat (those ps)"

definition appendFragments :: "u8 \<Rightarrow> nat \<Rightarrow> ('a \<Rightarrow> u8 list) \<Rightarrow> 'a list \<Rightarrow> u8 list option" where
  "appendFragments code sz enc xs = (let fs = getFragSize sz in
     catAll (map (\<lambda>f. openParam code (concat (map enc (take fs (drop (f * fs) xs))))) [0..<getFragments fs (length xs)]))"

abbreviation flagParam :: "u8 \<Rightarrow> bool \<Rightarrow> u8 list option" where
  "flagParam code b \<equiv> (if b then openParam code [] else Some [])"

definition encMp :: "AfiSafi \<Rightarrow> u8 list" where
  "encMp f = be_bytes 2 (afi f) @ [0, safi f]"

definition encOrf :: "OrfEntry \<Rightarrow> u8 list" where
  "encOrf e = be_bytes 2 (afi (orf_family e)) @ [0, safi (orf_family e), 1, orfType e, orf_sendReceive e]"

definition encNextHop :: "ExtendedNextHop \<Rightarrow> u8 list" where
  "encNextHop e = be_bytes 2 (afi (enh_family e)) @ be_bytes 2 (ucast (safi (enh_family e)) :: u16) @ be_bytes 2 (nextHopAfi e)"

definition encGraceful :: "GracefulRestartFamily \<Rightarrow> u8 list" where
  "encGraceful g = be_bytes 2 (afi (gr_family g)) @ [safi (gr_family g), if forwardingStatePreserved g then 0x80 else 0]"

definition encMulti :: "AfiSafi \<Rightarrow> u8 list" where
  "encMulti f = be_bytes 2 (afi f) @ [safi f, 0]"

definition encAddPath :: "AddPathFamily \<Rightarrow> u8 list" where
  "encAddPath f = be_bytes 2 (afi (ap_family f)) @ [safi (ap_family f), ap_sendReceive f]"

definition encLlgr :: "LlgrFamily \<Rightarrow> u8 list" where
  "encLlgr f = be_bytes 2 (afi (llgr_family f)) @ [safi (llgr_family f), llgr_flags f] @ be_bytes 3 (staleTime f AND 0x00FFFFFF)"

definition encFqdn :: "Capabilities \<Rightarrow> u8 list" where
  "encFqdn caps = [of_nat (length (hostname caps))] @ hostname caps @ [of_nat (length (domain caps))] @ domain caps"

definition restartWord :: "Capabilities \<Rightarrow> u16" where
  "restartWord caps = (let flagsTime = restartTime caps AND 0x0FFF in if restarting caps then flagsTime OR 0x8000 else flagsTime)"

definition appendCapabilities :: "Capabilities \<Rightarrow> u8 list option" where
  "appendCapabilities caps = catAll [
     catAll (map (\<lambda>f. openParam 1 (encMp f)) (mpFamilies caps)),
     flagParam 2 (routeRefresh caps),
     catAll (map (\<lambda>e. openParam 3 (encOrf e)) (orfEntries caps)),
     appendFragments 5 6 encNextHop (extendedNextHopEntries caps),
     flagParam 6 (extendedMessage caps),
     (if gracefulRestart caps then openParam 64 (be_bytes 2 (restartWord caps) @ concat (map encGraceful (gracefulFamilies caps))) else Some []),
     (if asn32bit caps then openParam 65 (be_bytes 4 (cap_asn caps)) else Some []),
     appendFragments 68 4 encMulti (multiSessionFamilies caps),
     appendFragments 69 4 encAddPath (addPathFamilies caps),
     flagParam 70 (enhancedRouteRefresh caps),
     (if llgr caps \<and> llgrFamilies caps \<noteq> [] then openParam 71 (concat (map encLlgr (llgrFamilies caps))) else Some []),
     (if fqdn caps then openParam 73 (encFqdn caps) else Some []),
     flagParam 77 (linkLocalNextHop caps)]"

text \<open>\<open>computeCapabilityLen\<close>. The number of rounds \<open>frags - 1\<close> is a 64-bit difference and every round adds the same amount.\<close>

definition addParam :: "nat \<Rightarrow> u16" where
  "addParam dataSize = 4 + ucast (of_nat dataSize :: u8)"

definition fragLen :: "nat \<Rightarrow> nat \<Rightarrow> nat \<Rightarrow> u16" where
  "fragLen extra sz n = (let fs = getFragSize sz; rounds = unat (of_nat (getFragments fs n) - 1 :: u64); remainder = n mod fs in
     of_nat rounds * addParam (extra + fs * sz) + addParam (extra + (if remainder = 0 then fs else remainder) * sz))"

definition computeCapabilityLen :: "Capabilities \<Rightarrow> u16" where
  "computeCapabilityLen caps = sum_list [
     of_nat (length (mpFamilies caps)) * addParam 4,
     (if routeRefresh caps then addParam 0 else 0),
     of_nat (length (orfEntries caps)) * addParam 7,
     (if extendedNextHopEntries caps \<noteq> [] then fragLen 0 6 (length (extendedNextHopEntries caps)) else 0),
     (if extendedMessage caps then addParam 0 else 0),
     (if gracefulRestart caps then fragLen 2 4 (length (gracefulFamilies caps)) else 0),
     (if asn32bit caps then addParam 4 else 0),
     (if multiSessionFamilies caps \<noteq> [] then fragLen 0 4 (length (multiSessionFamilies caps)) else 0),
     (if addPathFamilies caps \<noteq> [] then fragLen 0 4 (length (addPathFamilies caps)) else 0),
     (if enhancedRouteRefresh caps then addParam 0 else 0),
     (if llgr caps \<and> llgrFamilies caps \<noteq> [] then fragLen 0 7 (length (llgrFamilies caps)) else 0),
     (if fqdn caps then addParam (1 + length (hostname caps) + 1 + length (domain caps)) else 0),
     (if linkLocalNextHop caps then addParam 0 else 0)]"

section \<open>Negotiation\<close>

record NegotiatedCapabilities =
  neg_asn32bit :: bool
  neg_routeRefresh :: bool
  enhancedRR :: bool
  neg_gracefulRestart :: bool
  neg_llgr :: bool
  neg_extendedMessage :: bool
  addpath :: bool
  neg_multiSess :: bool
  neg_linkLocalNextHop :: bool
  orf :: bool
  neg_addPathFamilies :: "AddPathFamily list"
  grFamilies :: "GracefulRestartFamily list"
  neg_llgrFamilies :: "LlgrFamily list"
  neg_orfEntries :: "OrfEntry list"
  activeFamilies :: "AfiSafi list"
  neg_multiSessionFamilies :: "AfiSafi list"

definition ipv4uni :: AfiSafi where
  "ipv4uni = \<lparr>afi = 1, safi = 1\<rparr>"

text \<open>What is agreed of two directions, the bits \<open>RECEIVE\<close> (1) and \<open>SEND\<close> (2) of ADD-PATH and of ORF.\<close>

definition agreed :: "u8 \<Rightarrow> u8 \<Rightarrow> u8" where
  "agreed l p = (if l AND 2 \<noteq> 0 \<and> p AND 1 \<noteq> 0 then 2 else 0) OR (if l AND 1 \<noteq> 0 \<and> p AND 2 \<noteq> 0 then 1 else 0)"

definition negotiateAddPath :: "Capabilities \<Rightarrow> Capabilities \<Rightarrow> AddPathFamily list" where
  "negotiateAddPath l p = List.map_filter (\<lambda>lap. case List.find (\<lambda>pap. ap_family lap = ap_family pap) (addPathFamilies p) of
       None \<Rightarrow> None
     | Some pap \<Rightarrow> (let a = agreed (ap_sendReceive lap) (ap_sendReceive pap) in
         if a \<noteq> 0 then Some \<lparr>ap_family = ap_family lap, ap_sendReceive = a\<rparr> else None)) (addPathFamilies l)"

definition negotiateOrf :: "Capabilities \<Rightarrow> Capabilities \<Rightarrow> OrfEntry list" where
  "negotiateOrf l p = List.map_filter (\<lambda>loe. case List.find (\<lambda>poe. orf_family loe = orf_family poe \<and> orfType loe = orfType poe) (orfEntries p) of
       None \<Rightarrow> None
     | Some poe \<Rightarrow> (let a = agreed (orf_sendReceive loe) (orf_sendReceive poe) in
         if a \<noteq> 0 then Some (loe\<lparr>orf_sendReceive := a\<rparr>) else None)) (orfEntries l)"

definition negotiateLlgr :: "Capabilities \<Rightarrow> Capabilities \<Rightarrow> LlgrFamily list" where
  "negotiateLlgr l p = List.map_filter (\<lambda>llf. case List.find (\<lambda>plf. llgr_family llf = llgr_family plf) (llgrFamilies p) of
       None \<Rightarrow> None
     | Some plf \<Rightarrow> Some \<lparr>llgr_family = llgr_family llf, staleTime = min (staleTime llf) (staleTime plf), llgr_flags = llgr_flags llf AND llgr_flags plf\<rparr>)
     (llgrFamilies l)"

definition negotiateGraceful :: "Capabilities \<Rightarrow> Capabilities \<Rightarrow> GracefulRestartFamily list" where
  "negotiateGraceful l p = List.map_filter (\<lambda>lgf. List.find (\<lambda>pgf. gr_family lgf = gr_family pgf) (gracefulFamilies p)) (gracefulFamilies l)"

text \<open>The active families: those of both ends, plain IPv4 for a peer without the capability, and only its own for a child session.\<close>

definition negotiateFamilies :: "(Capabilities \<Rightarrow> AfiSafi \<Rightarrow> bool) \<Rightarrow> MultiSessionVariant \<Rightarrow> Capabilities \<Rightarrow> Capabilities \<Rightarrow> AfiSafi list" where
  "negotiateFamilies supportsFamily ms l p = (case ms of
     ChildOf fam \<Rightarrow> if supportsFamily p fam then [fam] else []
   | BaseSession _ \<Rightarrow> let fs = remdups (filter (supportsFamily p) (mpFamilies l)) in
       if mpFamilies p = [] then List.insert ipv4uni fs else fs)"

definition negotiateCapabilities :: "(Capabilities \<Rightarrow> AfiSafi \<Rightarrow> bool) \<Rightarrow> MultiSessionVariant \<Rightarrow> Capabilities \<Rightarrow> Capabilities
    \<Rightarrow> NegotiatedCapabilities" where
  "negotiateCapabilities supportsFamily ms l p = (let
     msf = (if multiSess l then remdups (filter (\<lambda>f. f \<in> set (multiSessionFamilies p)) (multiSessionFamilies l)) else []);
     ap = negotiateAddPath l p; oe = negotiateOrf l p;
     lf = (if llgr l \<and> llgr p then negotiateLlgr l p else []); gr = (gracefulRestart l \<and> gracefulRestart p)
   in \<lparr>neg_asn32bit = (asn32bit l \<and> asn32bit p), neg_routeRefresh = (routeRefresh l \<and> routeRefresh p),
       enhancedRR = (enhancedRouteRefresh l \<and> enhancedRouteRefresh p), neg_gracefulRestart = gr,
       neg_llgr = (lf \<noteq> []), neg_extendedMessage = (extendedMessage l \<and> extendedMessage p), addpath = (ap \<noteq> []),
       neg_multiSess = (msf \<noteq> []), neg_linkLocalNextHop = (linkLocalNextHop l \<and> linkLocalNextHop p), orf = (oe \<noteq> []),
       neg_addPathFamilies = ap, grFamilies = (if gr then negotiateGraceful l p else []), neg_llgrFamilies = lf, neg_orfEntries = oe,
       activeFamilies = negotiateFamilies supportsFamily ms l p, neg_multiSessionFamilies = msf\<rparr>)"

section \<open>Parsing stays in bounds\<close>

definition reads :: "'a option \<Rightarrow> bool" where
  "reads x \<longleftrightarrow> x \<noteq> None"

lemma reads_simps [simp]: "reads (Some a)" "\<not> reads None"
  by (simp_all add: reads_def)

lemma reads_those: "(\<And>x. x \<in> set xs \<Longrightarrow> reads (f x)) \<Longrightarrow> reads (those (map f xs))"
  by (induction xs) (force simp: reads_def split: option.splits)+

lemma reads_fields:
  "2 \<le> length p \<Longrightarrow> reads (readU16 p)" "3 \<le> length p \<Longrightarrow> reads (readU24 p)" "4 \<le> length p \<Longrightarrow> reads (readU32 p)"
  "8 \<le> length p \<Longrightarrow> reads (readU64 p)" "i < length p \<Longrightarrow> reads (byteAt i p)"
  by (simp_all add: readU16_def readU24_def readU32_def readU64_def byteAt_def)

lemma reads_bind: "reads x \<Longrightarrow> (\<And>a. reads (f a)) \<Longrightarrow> reads (Option.bind x f)"
  by (cases x) auto

lemma reads_famAt: "3 \<le> length p \<Longrightarrow> reads (famAt p)"
  unfolding famAt_def by (intro reads_bind reads_fields) auto

lemma reads_entries:
  assumes "\<And>q. sz \<le> length q \<Longrightarrow> reads (f q)" "k * sz \<le> length p"
  shows "reads (entries sz f k p)"
  unfolding entries_def
proof (rule reads_those)
  fix i assume "i \<in> set [0..<k]"
  hence "(i + 1) * sz \<le> k * sz" by (intro mult_right_mono) auto
  with assms(2) have "sz \<le> length (drop (i * sz) p)" by simp
  thus "reads (f (drop (i * sz) p))" by (rule assms(1))
qed

lemma div_fits: "len \<le> n \<Longrightarrow> len div k * k \<le> (n :: nat)" "len \<le> n \<Longrightarrow> (len - j) div k * k \<le> n - j"
  by (meson div_times_less_eq_dividend order_trans diff_le_mono)+

lemmas read_intros = reads_bind reads_entries reads_famAt reads_fields div_fits

lemma reads_capStep: "len \<le> length p \<Longrightarrow> reads (capStep ty len p out)"
proof -
  assume len: "len \<le> length p"
  have orf: "min (unat count) ((len - 4) div 2) * 2 \<le> length (drop 4 p)" for count :: u8
    using div_fits(2) [OF len, of 4 2] by auto
  have "reads (parseOrf len p out)"
    using len orf unfolding parseOrf_def by (auto intro!: read_intros)
  moreover have "reads (parseExtendedNextHop len p out)"
    using len unfolding parseExtendedNextHop_def by (auto intro!: read_intros)
  moreover have "reads (parseGracefulRestart len p out)"
    using len unfolding parseGracefulRestart_def by (auto intro!: read_intros)
  moreover have "reads (parseLlgr len p out)"
    using len unfolding parseLlgr_def by (auto intro!: read_intros)
  moreover have "reads (parseFqdn len p out)"
    using len unfolding parseFqdn_def Let_def by (auto intro!: read_intros)
  ultimately show ?thesis
    using len unfolding capStep_def by (auto intro!: read_intros)
qed

lemma reads_parseCapabilities: "reads (parseCapabilities data out)"
proof (induction data arbitrary: out rule: length_induct)
  case (1 data)
  show ?case
    by (subst parseCapabilities.simps) (auto simp: Let_def intro!: reads_bind reads_capStep 1 [rule_format])
qed

lemma reads_parseParameters: "reads (parseParameters data out)"
proof (induction data arbitrary: out rule: length_induct)
  case (1 data)
  show ?case
    by (subst parseParameters.simps) (auto simp: Let_def intro!: reads_bind reads_parseCapabilities 1 [rule_format])
qed

section \<open>Parsing what was encoded\<close>

lemma unat_of_nat8: "n < 256 \<Longrightarrow> unat (of_nat n :: u8) = n"
  by (simp add: unsigned_of_nat take_bit_nat_eq_self)

text \<open>A piece of the parameters that adds \<open>g\<close> to the capabilities.\<close>

definition adds :: "u8 list \<Rightarrow> (Capabilities \<Rightarrow> Capabilities) \<Rightarrow> bool" where
  "adds bs g \<longleftrightarrow> (\<forall>rest out. parseParameters (bs @ rest) out = parseParameters rest (g out))"

lemma adds_Nil: "adds [] (\<lambda>out. out)"
  by (simp add: adds_def)

lemma adds_append: "adds as f \<Longrightarrow> adds bs g \<Longrightarrow> adds (as @ bs) (\<lambda>out. g (f out))"
  by (simp add: adds_def)

lemma adds_openParam:
  assumes "openParam code d = Some bs" "\<And>out. capStep code (length d) d out = Some (g out)"
  shows "adds bs g"
  unfolding adds_def
proof (intro allI)
  fix rest out
  from assms(1) have n: "length d \<le> 251" and bs: "bs = [2, of_nat (length d) + 2, code, of_nat (length d)] @ d"
    by (auto simp: openParam_def split: if_splits)
  have u: "unat (of_nat (length d) :: u8) = length d" "unat (of_nat (length d) + 2 :: u8) = length d + 2"
    using n unat_of_nat8 [of "length d"] unat_of_nat8 [of "length d + 2"] by (simp_all add: add.commute)
  have "parseCapabilities ([code, of_nat (length d)] @ d) out = Some (g out)"
    using assms(2) u by (subst parseCapabilities.simps) (simp add: Let_def parseCapabilities.simps [of "[]"])
  thus "parseParameters (bs @ rest) out = parseParameters rest (g out)"
    using u by (subst parseParameters.simps) (simp add: Let_def bs)
qed

lemma entries_concat_tail:
  assumes "\<And>x r. x \<in> set xs \<Longrightarrow> f (enc x @ r) = Some x" "\<And>x. length (enc x) = sz"
  shows "entries sz f (length xs) (concat (map enc xs) @ tail) = Some xs"
proof -
  have "those (map (\<lambda>i. f (drop (i * sz) (concat (map enc xs) @ tail))) [0..<length xs]) = Some xs"
    using assms(1)
  proof (induction xs)
    case (Cons x xs)
    have "map (\<lambda>i. f (drop (i * sz) (concat (map enc (x # xs)) @ tail))) [0..<length (x # xs)]
        = f (enc x @ concat (map enc xs) @ tail) # map (\<lambda>i. f (drop (i * sz) (concat (map enc xs) @ tail))) [0..<length xs]"
      by (simp add: upt_conv_Cons map_Suc_upt [symmetric] assms(2) comp_def del: upt_Suc drop_append)
        (simp add: assms(2))
    with Cons show ?case by simp
  qed simp
  thus ?thesis by (simp add: entries_def)
qed

lemmas entries_concat = entries_concat_tail [where tail = "[]", simplified]

lemma adds_flag:
  assumes "(if b then openParam code [] else Some []) = Some bs" "\<And>out. capStep code 0 [] out = Some (g out)"
  shows "adds bs (\<lambda>out. if b then g out else out)"
  using assms adds_openParam [of code "[]" bs g] adds_Nil by (cases b) auto

lemma catAll_simps [simp]:
  "catAll [] = Some []" "catAll (x # xs) = (case x of None \<Rightarrow> None | Some a \<Rightarrow> map_option ((@) a) (catAll xs))"
  by (auto simp: catAll_def option.map_comp comp_def split: option.splits)

lemma adds_each:
  assumes "catAll (map (\<lambda>x. openParam code (enc x)) xs) = Some bs" "\<And>x out. capStep code (length (enc x)) (enc x) out = Some (g x out)"
  shows "adds bs (\<lambda>out. fold g xs out)"
  using assms(1)
proof (induction xs arbitrary: bs)
  case (Cons x xs)
  then obtain as bs' where "openParam code (enc x) = Some as" "catAll (map (\<lambda>x. openParam code (enc x)) xs) = Some bs'" "bs = as @ bs'"
    by (auto split: option.splits)
  with Cons.IH adds_append [OF adds_openParam [OF _ assms(2)], of "x"] show ?case by simp
qed (simp add: adds_def)

text \<open>A full fragment does not pass the assertion, so there is at most one.\<close>

lemma appendFragments_single:
  assumes "appendFragments code sz enc xs = Some bs" "\<And>x. length (enc x) = sz" "0 < sz" "251 < getFragSize sz * sz"
  shows "xs = [] \<and> bs = [] \<or> xs \<noteq> [] \<and> length xs < getFragSize sz \<and> openParam code (concat (map enc xs)) = Some bs"
proof (cases "xs = []")
  case True
  with assms show ?thesis by (cases "getFragSize sz") (auto simp: appendFragments_def getFragments_def Let_def)
next
  case False
  let ?fs = "getFragSize sz" and ?part = "\<lambda>f. openParam code (concat (map enc (take (getFragSize sz) (drop (f * getFragSize sz) xs))))"
  have fs: "0 < ?fs" using assms(4) by (cases "?fs") auto
  obtain m where m: "getFragments ?fs (length xs) = Suc m"
    using False fs by (cases "getFragments ?fs (length xs)"; cases xs) (auto simp: getFragments_def div_eq_0_iff)
  from assms(1) m obtain b0 bs' where parts: "?part 0 = Some b0" "catAll (map ?part [1..<Suc m]) = Some bs'" "bs = b0 @ bs'"
    by (auto simp: appendFragments_def Let_def upt_conv_Cons simp del: upt_Suc split: option.splits)
  have len: "length (concat (map enc (take ?fs xs))) = min ?fs (length xs) * sz"
    using assms(2) by (simp add: length_concat comp_def sum_list_triv min.commute)
  have "min ?fs (length xs) * sz \<le> 251" using parts(1) len by (auto simp: openParam_def split: if_splits)
  with assms(4) have lt: "length xs < ?fs" by (auto simp: min_def split: if_splits)
  hence "getFragments ?fs (length xs) = 1"
    using False unfolding getFragments_def by (intro div_nat_eqI) (cases xs; simp)+
  with m parts lt False show ?thesis by auto
qed

lemma adds_fragments:
  assumes "appendFragments code sz enc xs = Some bs" "\<And>x. length (enc x) = sz" "0 < sz" "251 < getFragSize sz * sz"
    and "\<And>out. xs \<noteq> [] \<Longrightarrow> capStep code (length (concat (map enc xs))) (concat (map enc xs)) out = Some (g out)"
  shows "adds bs (\<lambda>out. if xs = [] then out else g out)"
  using appendFragments_single [OF assms(1-4)] adds_openParam [OF _ assms(5)] adds_Nil by auto

lemma length_concat_enc: "(\<And>x. length (enc x) = sz) \<Longrightarrow> length (concat (map enc xs)) = length xs * sz"
  by (simp add: length_concat comp_def sum_list_triv)

lemma be_read [simp]: "readU16 (be_bytes 2 a @ r) = Some a" "readU32 (be_bytes 4 b @ r) = Some b" "readU24 (be_bytes 3 c @ r) = Some (c AND mask 24)"
  by (simp_all add: readU16_spec readU32_spec readU24_spec be_word_be_bytes and_mask_width)

lemma be_read_end [simp]: "readU16 (be_bytes 2 a) = Some a" "readU32 (be_bytes 4 b) = Some b"
  using be_read(1) [of a "[]"] be_read(2) [of b "[]"] by simp_all

lemma famAt_enc [simp]: "famAt (be_bytes 2 a @ s # r) = Some \<lparr>afi = a, safi = s\<rparr>"
  by (simp add: famAt_def byteAt_def nth_append)

text \<open>What the format carries: everything but the lists that are not sent or not read as written.\<close>

definition carried :: "Capabilities \<Rightarrow> bool" where
  "carried c \<longleftrightarrow> orfEntries c = [] \<and> extendedNextHopEntries c = [] \<and> labeledFamilies c = [] \<and> bgpsecFamilies c = []
     \<and> \<not> outboundRouteFiltering c \<and> \<not> extendedNextHop c \<and> \<not> multipleLabels c \<and> \<not> bgpsec c
     \<and> multiSess c = (multiSessionFamilies c \<noteq> []) \<and> addPath c = (addPathFamilies c \<noteq> []) \<and> llgr c = (llgrFamilies c \<noteq> [])
     \<and> (\<forall>f\<in>set (llgrFamilies c). staleTime f AND mask 24 = staleTime f) \<and> restartTime c AND mask 12 = restartTime c
     \<and> (gracefulRestart c \<or> \<not> restarting c \<and> restartTime c = 0 \<and> gracefulFamilies c = [])
     \<and> (asn32bit c \<or> cap_asn c = 0) \<and> (fqdn c \<or> hostname c = [] \<and> domain c = [])"

lemma mask_literals: "(0x00FFFFFF :: u32) = mask 24" "(0x0FFF :: u16) = mask 12"
  by (simp_all add: mask_eq_exp_minus_1)

lemma bit_high: "bit (0x8000 :: u16) n \<longleftrightarrow> n = 15"
proof -
  have "bit (2 ^ 15 :: u16) n \<longleftrightarrow> n = 15" by (subst bit_exp_iff) (auto simp: possible_bit_def)
  thus ?thesis by simp
qed

lemma enc_lengths [simp]:
  "length (encMp f) = 4" "length (encGraceful g) = 4" "length (encMulti f) = 4" "length (encAddPath a) = 4" "length (encLlgr l) = 7"
  "length (encNextHop e) = 6"
  by (simp_all add: encMp_def encGraceful_def encMulti_def encAddPath_def encLlgr_def encNextHop_def)

lemma capStep_mp: "capStep 1 (length (encMp f)) (encMp f) out = Some (out\<lparr>mpFamilies := mpFamilies out @ [f]\<rparr>)"
  by (simp add: capStep_def) (simp add: encMp_def byteAt_def nth_append)

lemma capStep_multi:
  "xs \<noteq> [] \<Longrightarrow> capStep 68 (length (concat (map encMulti xs))) (concat (map encMulti xs)) out
     = Some (out\<lparr>multiSessionFamilies := multiSessionFamilies out @ xs, multiSess := True\<rparr>)"
proof -
  have "entries 4 famAt (length xs) (concat (map encMulti xs)) = Some xs"
    by (rule entries_concat) (simp_all add: encMulti_def [abs_def])
  thus "xs \<noteq> [] \<Longrightarrow> ?thesis" by (cases xs) (simp_all add: capStep_def length_concat_enc [of encMulti 4])
qed

lemma capStep_addPath:
  "xs \<noteq> [] \<Longrightarrow> capStep 69 (length (concat (map encAddPath xs))) (concat (map encAddPath xs)) out
     = Some (out\<lparr>addPathFamilies := addPathFamilies out @ xs, addPath := True\<rparr>)"
proof -
  have "entries 4 (\<lambda>q. do { fam \<leftarrow> famAt q; md \<leftarrow> byteAt 3 q; Some \<lparr>ap_family = fam, ap_sendReceive = md\<rparr> }) (length xs)
      (concat (map encAddPath xs)) = Some xs"
    by (rule entries_concat) (simp_all add: encAddPath_def byteAt_def nth_append)
  thus "xs \<noteq> [] \<Longrightarrow> ?thesis" by (cases xs) (simp_all add: capStep_def length_concat_enc [of encAddPath 4])
qed

lemma capStep_llgr:
  assumes "xs \<noteq> []" "\<forall>f\<in>set xs. staleTime f AND mask 24 = staleTime f"
  shows "capStep 71 (length (concat (map encLlgr xs))) (concat (map encLlgr xs)) out
     = Some (out\<lparr>llgrFamilies := llgrFamilies out @ xs, llgr := True\<rparr>)"
proof -
  have "entries 7 (\<lambda>q. do { fam \<leftarrow> famAt q; flags \<leftarrow> byteAt 3 q; st \<leftarrow> readU24 (drop 4 q);
      Some \<lparr>llgr_family = fam, staleTime = st, llgr_flags = flags\<rparr> }) (length xs) (concat (map encLlgr xs)) = Some xs"
    using assms(2) by (intro entries_concat) (simp_all add: encLlgr_def byteAt_def nth_append mask_literals)
  with assms(1) show ?thesis by (cases xs) (simp_all add: capStep_def parseLlgr_def length_concat_enc [of encLlgr 7])
qed

lemma restart_bits:
  "restartTime c AND mask 12 = restartTime c \<Longrightarrow> restartWord c AND 0x0FFF = restartTime c"
  "restartTime c AND mask 12 = restartTime c \<Longrightarrow> (restartWord c AND 0x8000 \<noteq> 0) = restarting c"
proof -
  assume r: "restartTime c AND mask 12 = restartTime c"
  hence lt: "bit (restartTime c) n \<Longrightarrow> n < 12" for n by (metis bit_and_iff bit_mask_iff)
  show "restartWord c AND 0x0FFF = restartTime c"
  proof (rule bit_word_eqI)
    fix n
    show "bit (restartWord c AND 0x0FFF) n = bit (restartTime c) n"
      using lt [of n] bit_high [of n] unfolding restartWord_def Let_def mask_literals r by (auto simp: bit_simps)
  qed
  have "bit (restartWord c) 15 = restarting c"
    unfolding restartWord_def Let_def mask_literals r using lt [of 15] bit_high [of 15] by (auto simp: bit_simps)
  moreover have "(0x8000 :: u16) = push_bit 15 1" by simp
  ultimately show "(restartWord c AND 0x8000 \<noteq> 0) = restarting c" by (simp only: bit_iff_and_push_bit_not_eq_0)
qed

lemma capStep_graceful:
  assumes "restartTime c AND mask 12 = restartTime c"
  defines "d \<equiv> be_bytes 2 (restartWord c) @ concat (map encGraceful (gracefulFamilies c))"
  shows "capStep 64 (length d) d out = Some (out\<lparr>gracefulRestart := True, restarting := restarting c, restartTime := restartTime c,
     gracefulFamilies := gracefulFamilies out @ gracefulFamilies c\<rparr>)"
proof -
  have "entries 4 (\<lambda>q. do { fam \<leftarrow> famAt q; flags \<leftarrow> byteAt 3 q;
      Some \<lparr>gr_family = fam, forwardingStatePreserved = (flags AND 0x80 \<noteq> 0)\<rparr> }) (length (gracefulFamilies c))
      (concat (map encGraceful (gracefulFamilies c))) = Some (gracefulFamilies c)"
    by (rule entries_concat) (simp_all add: encGraceful_def byteAt_def nth_append)
  thus ?thesis
    using restart_bits [OF assms(1)]
    by (simp add: d_def capStep_def parseGracefulRestart_def length_concat_enc [of encGraceful 4])
qed

lemma capStep_fqdn:
  assumes "length (encFqdn c) \<le> 251"
  shows "capStep 73 (length (encFqdn c)) (encFqdn c) out = Some (out\<lparr>hostname := hostname c, domain := domain c, fqdn := True\<rparr>)"
proof -
  have "length (hostname c) < 256" "length (domain c) < 256" using assms by (auto simp: encFqdn_def)
  hence u: "unat (of_nat (length (hostname c)) :: u8) = length (hostname c)" "unat (of_nat (length (domain c)) :: u8) = length (domain c)"
    by (auto intro: unat_of_nat8)
  show ?thesis
    by (simp add: capStep_def parseFqdn_def encFqdn_def byteAt_def u nth_append Let_def)
qed

lemma fold_mp: "fold (\<lambda>f out. out\<lparr>mpFamilies := mpFamilies out @ [f]\<rparr>) fs out = out\<lparr>mpFamilies := mpFamilies out @ fs\<rparr>"
  by (induction fs arbitrary: out) auto

lemma appendCapabilities_parts:
  assumes "appendCapabilities caps = Some bs"
  obtains b1 b2 b3 b4 b5 b6 b7 b8 b9 b10 b11 b12 b13 where
    "catAll (map (\<lambda>f. openParam 1 (encMp f)) (mpFamilies caps)) = Some b1" "flagParam 2 (routeRefresh caps) = Some b2"
    "catAll (map (\<lambda>e. openParam 3 (encOrf e)) (orfEntries caps)) = Some b3"
    "appendFragments 5 6 encNextHop (extendedNextHopEntries caps) = Some b4" "flagParam 6 (extendedMessage caps) = Some b5"
    "(if gracefulRestart caps then openParam 64 (be_bytes 2 (restartWord caps) @ concat (map encGraceful (gracefulFamilies caps))) else Some []) = Some b6"
    "(if asn32bit caps then openParam 65 (be_bytes 4 (cap_asn caps)) else Some []) = Some b7"
    "appendFragments 68 4 encMulti (multiSessionFamilies caps) = Some b8" "appendFragments 69 4 encAddPath (addPathFamilies caps) = Some b9"
    "flagParam 70 (enhancedRouteRefresh caps) = Some b10"
    "(if llgr caps \<and> llgrFamilies caps \<noteq> [] then openParam 71 (concat (map encLlgr (llgrFamilies caps))) else Some []) = Some b11"
    "(if fqdn caps then openParam 73 (encFqdn caps) else Some []) = Some b12" "flagParam 77 (linkLocalNextHop caps) = Some b13"
    "bs = b1 @ b2 @ b3 @ b4 @ b5 @ b6 @ b7 @ b8 @ b9 @ b10 @ b11 @ b12 @ b13"
  using assms unfolding appendCapabilities_def catAll_simps
  by (auto split: option.splits simp del: if_split_asm)

lemma adds_optional:
  assumes "(if b then openParam code d else Some []) = Some bs" "\<And>out. b \<Longrightarrow> openParam code d = Some bs \<Longrightarrow> capStep code (length d) d out = Some (g out)"
  shows "adds bs (\<lambda>out. if b then g out else out)"
  using assms adds_openParam [of code d bs g] adds_Nil by (cases b) auto

text \<open>Parsing the encoded capabilities sets each field; \<open>decoded\<close> is what becomes of the capabilities before.\<close>

definition decoded :: "Capabilities \<Rightarrow> Capabilities \<Rightarrow> Capabilities" where
  "decoded c out = out\<lparr>mpFamilies := mpFamilies out @ mpFamilies c, routeRefresh := (routeRefresh out \<or> routeRefresh c),
     extendedMessage := (extendedMessage out \<or> extendedMessage c), gracefulRestart := (gracefulRestart out \<or> gracefulRestart c),
     restarting := (if gracefulRestart c then restarting c else restarting out),
     restartTime := (if gracefulRestart c then restartTime c else restartTime out),
     gracefulFamilies := gracefulFamilies out @ (if gracefulRestart c then gracefulFamilies c else []),
     asn32bit := (asn32bit out \<or> asn32bit c), cap_asn := (if asn32bit c then cap_asn c else cap_asn out),
     multiSessionFamilies := multiSessionFamilies out @ multiSessionFamilies c, multiSess := (multiSess out \<or> multiSessionFamilies c \<noteq> []),
     addPathFamilies := addPathFamilies out @ addPathFamilies c, addPath := (addPath out \<or> addPathFamilies c \<noteq> []),
     enhancedRouteRefresh := (enhancedRouteRefresh out \<or> enhancedRouteRefresh c),
     llgrFamilies := llgrFamilies out @ (if llgr c then llgrFamilies c else []), llgr := (llgr out \<or> llgr c \<and> llgrFamilies c \<noteq> []),
     hostname := (if fqdn c then hostname c else hostname out), domain := (if fqdn c then domain c else domain out),
     fqdn := (fqdn out \<or> fqdn c), linkLocalNextHop := (linkLocalNextHop out \<or> linkLocalNextHop c)\<rparr>"

lemma adds_cong: "adds bs f \<Longrightarrow> (\<And>out. f out = g out) \<Longrightarrow> adds bs g"
  by (simp add: adds_def)

lemma adds_capabilities:
  assumes "appendCapabilities c = Some bs" "orfEntries c = []" "extendedNextHopEntries c = []"
    and "\<forall>f\<in>set (llgrFamilies c). staleTime f AND mask 24 = staleTime f" "restartTime c AND mask 12 = restartTime c"
  shows "adds bs (decoded c)"
proof -
  from assms(1) obtain b1 b2 b3 b4 b5 b6 b7 b8 b9 b10 b11 b12 b13 where p:
    "catAll (map (\<lambda>f. openParam 1 (encMp f)) (mpFamilies c)) = Some b1" "flagParam 2 (routeRefresh c) = Some b2"
    "catAll (map (\<lambda>e. openParam 3 (encOrf e)) (orfEntries c)) = Some b3"
    "appendFragments 5 6 encNextHop (extendedNextHopEntries c) = Some b4" "flagParam 6 (extendedMessage c) = Some b5"
    "(if gracefulRestart c then openParam 64 (be_bytes 2 (restartWord c) @ concat (map encGraceful (gracefulFamilies c))) else Some []) = Some b6"
    "(if asn32bit c then openParam 65 (be_bytes 4 (cap_asn c)) else Some []) = Some b7"
    "appendFragments 68 4 encMulti (multiSessionFamilies c) = Some b8" "appendFragments 69 4 encAddPath (addPathFamilies c) = Some b9"
    "flagParam 70 (enhancedRouteRefresh c) = Some b10"
    "(if llgr c \<and> llgrFamilies c \<noteq> [] then openParam 71 (concat (map encLlgr (llgrFamilies c))) else Some []) = Some b11"
    "(if fqdn c then openParam 73 (encFqdn c) else Some []) = Some b12" "flagParam 77 (linkLocalNextHop c) = Some b13"
    and bs: "bs = b1 @ b2 @ b3 @ b4 @ b5 @ b6 @ b7 @ b8 @ b9 @ b10 @ b11 @ b12 @ b13"
    by (rule appendCapabilities_parts)
  have b34: "b3 = []" "b4 = []"
    using p(3,4) assms(2,3) appendFragments_single [of 5 6 encNextHop "[]" b4] by (auto simp: getFragSize_def)
  note a1 = adds_each [OF p(1) capStep_mp, unfolded fold_mp]
  have f: "251 < getFragSize 4 * 4" by (simp add: getFragSize_def)
  have a2: "adds b2 (\<lambda>out. out\<lparr>routeRefresh := (routeRefresh out \<or> routeRefresh c)\<rparr>)"
    by (rule adds_cong [OF adds_flag [OF p(2), where g = "\<lambda>out. out\<lparr>routeRefresh := True\<rparr>"]]) (simp_all add: capStep_def)
  have a5: "adds b5 (\<lambda>out. out\<lparr>extendedMessage := (extendedMessage out \<or> extendedMessage c)\<rparr>)"
    by (rule adds_cong [OF adds_flag [OF p(5), where g = "\<lambda>out. out\<lparr>extendedMessage := True\<rparr>"]]) (simp_all add: capStep_def)
  have a6: "adds b6 (\<lambda>out. out\<lparr>gracefulRestart := (gracefulRestart out \<or> gracefulRestart c),
     restarting := (if gracefulRestart c then restarting c else restarting out),
     restartTime := (if gracefulRestart c then restartTime c else restartTime out),
     gracefulFamilies := gracefulFamilies out @ (if gracefulRestart c then gracefulFamilies c else [])\<rparr>)"
    by (rule adds_cong [OF adds_optional [OF p(6) capStep_graceful [OF assms(5)]]]) simp
  have a7: "adds b7 (\<lambda>out. out\<lparr>asn32bit := (asn32bit out \<or> asn32bit c), cap_asn := (if asn32bit c then cap_asn c else cap_asn out)\<rparr>)"
    by (rule adds_cong [OF adds_optional [OF p(7), where g = "\<lambda>out. out\<lparr>asn32bit := True, cap_asn := cap_asn c\<rparr>"]]) (simp_all add: capStep_def)
  have a8: "adds b8 (\<lambda>out. out\<lparr>multiSessionFamilies := multiSessionFamilies out @ multiSessionFamilies c,
     multiSess := (multiSess out \<or> multiSessionFamilies c \<noteq> [])\<rparr>)"
    by (rule adds_cong [OF adds_fragments [OF p(8) _ _ f capStep_multi]]) simp_all
  have a9: "adds b9 (\<lambda>out. out\<lparr>addPathFamilies := addPathFamilies out @ addPathFamilies c,
     addPath := (addPath out \<or> addPathFamilies c \<noteq> [])\<rparr>)"
    by (rule adds_cong [OF adds_fragments [OF p(9) _ _ f capStep_addPath]]) simp_all
  have a10: "adds b10 (\<lambda>out. out\<lparr>enhancedRouteRefresh := (enhancedRouteRefresh out \<or> enhancedRouteRefresh c)\<rparr>)"
    by (rule adds_cong [OF adds_flag [OF p(10), where g = "\<lambda>out. out\<lparr>enhancedRouteRefresh := True\<rparr>"]]) (simp_all add: capStep_def)
  have a11: "adds b11 (\<lambda>out. out\<lparr>llgrFamilies := llgrFamilies out @ (if llgr c then llgrFamilies c else []),
     llgr := (llgr out \<or> llgr c \<and> llgrFamilies c \<noteq> [])\<rparr>)"
    by (rule adds_cong [OF adds_optional [OF p(11) capStep_llgr]]) (use assms(4) in simp_all)
  have a12: "adds b12 (\<lambda>out. out\<lparr>hostname := (if fqdn c then hostname c else hostname out),
     domain := (if fqdn c then domain c else domain out), fqdn := (fqdn out \<or> fqdn c)\<rparr>)"
    by (rule adds_cong [OF adds_optional [OF p(12) capStep_fqdn]]) (auto simp: openParam_def split: if_splits)
  have a13: "adds b13 (\<lambda>out. out\<lparr>linkLocalNextHop := (linkLocalNextHop out \<or> linkLocalNextHop c)\<rparr>)"
    by (rule adds_cong [OF adds_flag [OF p(13), where g = "\<lambda>out. out\<lparr>linkLocalNextHop := True\<rparr>"]]) (simp_all add: capStep_def)
  note all = adds_append [OF a1 adds_append [OF a2 adds_append [OF a5 adds_append [OF a6 adds_append [OF a7 adds_append [OF a8 adds_append [OF a9 adds_append [OF a10 adds_append [OF a11 adds_append [OF a12 a13]]]]]]]]]]
  show ?thesis
    unfolding bs b34 append_Nil by (rule adds_cong [OF all]) (simp add: decoded_def)
qed

section \<open>Lengths\<close>

text \<open>The sizes that fit into one parameter.\<close>

definition fits :: "Capabilities \<Rightarrow> bool" where
  "fits c \<longleftrightarrow> length (multiSessionFamilies c) < 63 \<and> length (addPathFamilies c) < 63 \<and> length (extendedNextHopEntries c) < 42
     \<and> (gracefulRestart c \<longrightarrow> length (gracefulFamilies c) < 63) \<and> (llgr c \<longrightarrow> length (llgrFamilies c) < 36)
     \<and> (fqdn c \<longrightarrow> length (hostname c) + length (domain c) \<le> 249)"

lemma openParam_Some_iff: "(\<exists>bs. openParam code d = Some bs) \<longleftrightarrow> length d \<le> 251"
  by (auto simp: openParam_def)

lemma openParam_length: "openParam code d = Some bs \<Longrightarrow> length bs = length d + 4 \<and> length d \<le> 251"
  by (auto simp: openParam_def split: if_splits)

lemma single_fragment: "0 < n \<Longrightarrow> n < fs \<Longrightarrow> getFragments fs n = 1"
  unfolding getFragments_def by (intro div_nat_eqI) auto

lemma appendFragments_one:
  "length xs < getFragSize sz \<Longrightarrow> appendFragments code sz enc xs = (if xs = [] then Some [] else openParam code (concat (map enc xs)))"
  by (cases "xs = []"; cases "getFragSize sz")
    (auto simp: appendFragments_def Let_def single_fragment getFragments_def [of _ 0] option.map_ident split: option.splits)

lemma catAll_Some: "(\<And>x. x \<in> set xs \<Longrightarrow> \<exists>y. x = Some y) \<Longrightarrow> \<exists>ys. catAll xs = Some ys"
  by (induction xs) (force split: option.splits)+

lemma appendCapabilities_defined: "fits c \<Longrightarrow> \<exists>bs. appendCapabilities c = Some bs"
proof -
  assume f: "fits c"
  have "\<exists>bs. appendFragments 5 6 encNextHop (extendedNextHopEntries c) = Some bs"
    "\<exists>bs. appendFragments 68 4 encMulti (multiSessionFamilies c) = Some bs"
    "\<exists>bs. appendFragments 69 4 encAddPath (addPathFamilies c) = Some bs"
    using f by (simp_all add: appendFragments_one getFragSize_def fits_def openParam_Some_iff length_concat_enc [of encNextHop 6]
        length_concat_enc [of encMulti 4] length_concat_enc [of encAddPath 4])
  moreover have "gracefulRestart c \<Longrightarrow> \<exists>bs. openParam 64 (be_bytes 2 (restartWord c) @ concat (map encGraceful (gracefulFamilies c))) = Some bs"
    "llgr c \<Longrightarrow> \<exists>bs. openParam 71 (concat (map encLlgr (llgrFamilies c))) = Some bs" "fqdn c \<Longrightarrow> \<exists>bs. openParam 73 (encFqdn c) = Some bs"
    using f by (simp_all add: fits_def openParam_Some_iff length_concat_enc [of encGraceful 4] length_concat_enc [of encLlgr 7] encFqdn_def)
  moreover have "\<exists>bs. catAll (map (\<lambda>f. openParam 1 (encMp f)) (mpFamilies c)) = Some bs"
    by (rule catAll_Some) (auto simp: openParam_Some_iff)
  moreover have "\<exists>bs. catAll (map (\<lambda>e. openParam 3 (encOrf e)) (orfEntries c)) = Some bs"
    by (rule catAll_Some) (auto simp: openParam_Some_iff encOrf_def)
  moreover have "\<exists>bs. openParam k [] = Some bs" "\<exists>bs. openParam 65 (be_bytes 4 (cap_asn c)) = Some bs" for k
    by (simp_all add: openParam_Some_iff)
  ultimately show ?thesis unfolding appendCapabilities_def by (intro catAll_Some) auto
qed

lemma addParam_small: "n < 256 \<Longrightarrow> addParam n = of_nat (n + 4)"
proof -
  assume "n < 256"
  hence "(ucast (of_nat n :: u8) :: u16) = of_nat n" by (simp add: unsigned_of_nat take_bit_nat_eq_self)
  thus ?thesis by (simp add: addParam_def)
qed

lemma fragLen_one: "0 < n \<Longrightarrow> n < getFragSize sz \<Longrightarrow> extra + n * sz < 256 \<Longrightarrow> fragLen extra sz n = of_nat (extra + n * sz + 4)"
  by (simp add: fragLen_def Let_def single_fragment addParam_small)

lemma each_length:
  "catAll (map (\<lambda>x. openParam code (enc x)) xs) = Some bs \<Longrightarrow> (\<And>x. length (enc x) = k) \<Longrightarrow> length bs = length xs * (k + 4)"
  by (induction xs arbitrary: bs) (auto dest: openParam_length split: option.splits)

section \<open>Properties\<close>

text \<open>(C36) Whatever bytes an OPEN message carries as its optional parameters, they are read to the end without a read outside
  them.\<close>

theorem capability_parsing_in_bounds:
  "\<exists>ok caps. parseParameters data out = Some (ok, caps)"
  using reads_parseParameters [of data out] by (auto simp: reads_def)


text \<open>The length that the header of an OPEN message announces for its parameters is the number of bytes appended, when a
  graceful restart has families; otherwise the number of rounds of its loop wraps around to the greatest 64-bit number.\<close>

theorem capability_length:
  assumes "appendCapabilities caps = Some bs" "fits caps" "gracefulRestart caps \<longrightarrow> gracefulFamilies caps \<noteq> []"
  shows "computeCapabilityLen caps = of_nat (length bs)"
proof -
  from assms(1) obtain b1 b2 b3 b4 b5 b6 b7 b8 b9 b10 b11 b12 b13 where p:
    "catAll (map (\<lambda>f. openParam 1 (encMp f)) (mpFamilies caps)) = Some b1" "flagParam 2 (routeRefresh caps) = Some b2"
    "catAll (map (\<lambda>e. openParam 3 (encOrf e)) (orfEntries caps)) = Some b3"
    "appendFragments 5 6 encNextHop (extendedNextHopEntries caps) = Some b4" "flagParam 6 (extendedMessage caps) = Some b5"
    "(if gracefulRestart caps then openParam 64 (be_bytes 2 (restartWord caps) @ concat (map encGraceful (gracefulFamilies caps))) else Some []) = Some b6"
    "(if asn32bit caps then openParam 65 (be_bytes 4 (cap_asn caps)) else Some []) = Some b7"
    "appendFragments 68 4 encMulti (multiSessionFamilies caps) = Some b8" "appendFragments 69 4 encAddPath (addPathFamilies caps) = Some b9"
    "flagParam 70 (enhancedRouteRefresh caps) = Some b10"
    "(if llgr caps \<and> llgrFamilies caps \<noteq> [] then openParam 71 (concat (map encLlgr (llgrFamilies caps))) else Some []) = Some b11"
    "(if fqdn caps then openParam 73 (encFqdn caps) else Some []) = Some b12" "flagParam 77 (linkLocalNextHop caps) = Some b13"
    and bs: "bs = b1 @ b2 @ b3 @ b4 @ b5 @ b6 @ b7 @ b8 @ b9 @ b10 @ b11 @ b12 @ b13"
    by (rule appendCapabilities_parts)
  have flag: "(if b then addParam 0 else 0) = of_nat (length x)" if "flagParam k b = Some x" for k b x
    using that by (auto simp: addParam_small dest!: openParam_length split: if_splits)
  have frag: "(if xs \<noteq> [] then fragLen 0 sz (length xs) else 0) = of_nat (length x)"
    if "appendFragments k sz enc xs = Some x" "\<And>x. length (enc x) = sz" "length xs < getFragSize sz" for k sz x and xs :: "'e list" and enc
    using that(1,3) openParam_length [of k "concat (map enc xs)" x] length_concat_enc [of enc sz xs, OF that(2)]
    by (auto simp: appendFragments_one fragLen_one split: if_splits)
  have "of_nat (length (mpFamilies caps)) * addParam 4 = of_nat (length b1)" "of_nat (length (orfEntries caps)) * addParam 7 = of_nat (length b3)"
    using each_length [OF p(1), of 4] each_length [OF p(3), of 7] by (simp_all add: addParam_small encOrf_def)
  moreover have "(if gracefulRestart caps then fragLen 2 4 (length (gracefulFamilies caps)) else 0) = of_nat (length b6)"
    using p(6) assms(2,3) by (auto simp: fits_def fragLen_one getFragSize_def length_concat_enc [of encGraceful 4] dest!: openParam_length split: if_splits)
  moreover have "(if asn32bit caps then addParam 4 else 0) = of_nat (length b7)"
    using p(7) by (auto simp: addParam_small dest!: openParam_length split: if_splits)
  moreover have "(if llgr caps \<and> llgrFamilies caps \<noteq> [] then fragLen 0 7 (length (llgrFamilies caps)) else 0) = of_nat (length b11)"
    using p(11) assms(2) by (auto simp: fits_def fragLen_one getFragSize_def length_concat_enc [of encLlgr 7] dest!: openParam_length split: if_splits)
  moreover have "(if fqdn caps then addParam (1 + length (hostname caps) + 1 + length (domain caps)) else 0) = of_nat (length b12)"
    using p(12) by (auto simp: addParam_small encFqdn_def dest!: openParam_length split: if_splits)
  ultimately show ?thesis
    using flag [OF p(2)] flag [OF p(5)] flag [OF p(10)] flag [OF p(13)] frag [OF p(4)] frag [OF p(8)] frag [OF p(9)] assms(2)
    unfolding computeCapabilityLen_def bs by (simp add: fits_def getFragSize_def)
qed

lemma graceful_restart_without_families: "fragLen 2 4 0 = 0"
proof -
  have "(ucast (- 1 :: u64) :: u16) = - 1" by (rule bit_word_eqI) (simp add: bit_simps)
  thus ?thesis by (simp add: fragLen_def getFragments_def getFragSize_def addParam_def Let_def)
qed

text \<open>Outbound filters and extended next hops are written with a reserved byte before the subsequent family and read without.\<close>

lemma capability_misread:
  "capStep 3 (length (encOrf e)) (encOrf e) Capabilities_new = Some (Capabilities_new\<lparr>outboundRouteFiltering := True,
     orfEntries := (if safi (orf_family e) = 0 then [] else [\<lparr>orf_family = \<lparr>afi = afi (orf_family e), safi = 0\<rparr>, orfType = 1, orf_sendReceive = orfType e\<rparr>])\<rparr>)"
  "capStep 5 (length (encNextHop x)) (encNextHop x) Capabilities_new = Some (Capabilities_new\<lparr>extendedNextHop := True,
     extendedNextHopEntries := [x\<lparr>enh_family := \<lparr>afi = afi (enh_family x), safi = 0\<rparr>\<rparr>]\<rparr>)"
proof -
  have m: "min (unat (s :: u8)) (Suc 0) = (if s = 0 then 0 else 1)" for s
    using unat_eq_zero [of s] by (cases "unat s") auto
  show "capStep 3 (length (encOrf e)) (encOrf e) Capabilities_new = Some (Capabilities_new\<lparr>outboundRouteFiltering := True,
     orfEntries := (if safi (orf_family e) = 0 then [] else [\<lparr>orf_family = \<lparr>afi = afi (orf_family e), safi = 0\<rparr>, orfType = 1, orf_sendReceive = orfType e\<rparr>])\<rparr>)"
    by (simp add: capStep_def parseOrf_def encOrf_def byteAt_def nth_append entries_def m Capabilities_new_def)
  have "ucast (drop_bit 8 (ucast (s :: u8) :: u16)) = (0 :: u8)" "ucast (ucast s :: u16) = s" for s
    by (rule bit_word_eqI, auto simp: bit_simps dest: bit_imp_le_length)+
  hence z: "be_bytes 2 (ucast (s :: u8) :: u16) = [0, s]" for s by (simp add: numeral_2_eq_2)
  show "capStep 5 (length (encNextHop x)) (encNextHop x) Capabilities_new = Some (Capabilities_new\<lparr>extendedNextHop := True,
     extendedNextHopEntries := [x\<lparr>enh_family := \<lparr>afi = afi (enh_family x), safi = 0\<rparr>\<rparr>]\<rparr>)"
    by (simp add: capStep_def parseExtendedNextHop_def encNextHop_def entries_def Capabilities_new_def z)
qed

text \<open>What the documentation of \<open>supportsFamily\<close> says.\<close>

definition documented_supportsFamily :: "(Capabilities \<Rightarrow> AfiSafi \<Rightarrow> bool) \<Rightarrow> bool" where
  "documented_supportsFamily supports \<longleftrightarrow> (\<forall>c fam. supports c fam = (fam \<in> set (mpFamilies c)))"

lemma find_key:
  "distinct (map k xs) \<Longrightarrow> List.find (\<lambda>x. k y = k x) xs = Some x \<longleftrightarrow> x \<in> set xs \<and> k x = k y"
  by (induction xs) (auto simp: image_iff)

lemma agreed_dual:
  "agreed l p AND 2 \<noteq> 0 \<longleftrightarrow> agreed p l AND 1 \<noteq> 0" "agreed l p = 0 \<longleftrightarrow> agreed p l = 0"
  by (auto simp: agreed_def)

definition sends :: "NegotiatedCapabilities \<Rightarrow> AfiSafi \<Rightarrow> bool" where
  "sends n fam \<longleftrightarrow> (\<exists>a\<in>set (neg_addPathFamilies n). ap_family a = fam \<and> ap_sendReceive a AND 2 \<noteq> 0)"

definition receives :: "NegotiatedCapabilities \<Rightarrow> AfiSafi \<Rightarrow> bool" where
  "receives n fam \<longleftrightarrow> (\<exists>a\<in>set (neg_addPathFamilies n). ap_family a = fam \<and> ap_sendReceive a AND 1 \<noteq> 0)"

lemma set_map_filter_opt: "set (List.map_filter f xs) = {y. \<exists>x\<in>set xs. f x = Some y}"
  by (induction xs) (auto simp: List.map_filter_simps split: option.splits)

lemma matched:
  assumes "distinct (map k ys)"
  shows "a \<in> set (List.map_filter (\<lambda>x. case List.find (\<lambda>y. k x = k y) ys of None \<Rightarrow> None | Some y \<Rightarrow> g x y) xs)
    \<longleftrightarrow> (\<exists>x\<in>set xs. \<exists>y\<in>set ys. k x = k y \<and> g x y = Some a)"
proof -
  have "(case List.find (\<lambda>y. k x = k y) ys of None \<Rightarrow> None | Some y \<Rightarrow> g x y) = Some a
      \<longleftrightarrow> (\<exists>y\<in>set ys. k x = k y \<and> g x y = Some a)" for x
  proof (cases "List.find (\<lambda>y. k x = k y) ys")
    case None
    moreover from this have "\<forall>y\<in>set ys. k x \<noteq> k y" by (auto simp: find_None_iff)
    ultimately show ?thesis by auto
  next
    case (Some z)
    hence z: "z \<in> set ys" "k z = k x" using find_key [OF assms] by auto
    have u: "y = z" if "y \<in> set ys" "k x = k y" for y
      using assms z that by (auto simp: distinct_map dest: inj_onD)
    have "g x z = Some a \<longleftrightarrow> (\<exists>y\<in>set ys. k x = k y \<and> g x y = Some a)" using u z by metis
    thus ?thesis unfolding Some by simp
  qed
  thus ?thesis by (simp add: set_map_filter_opt)
qed

lemma negotiateAddPath_mem:
  assumes "distinct (map ap_family (addPathFamilies p))"
  shows "a \<in> set (negotiateAddPath l p) \<longleftrightarrow> (\<exists>x\<in>set (addPathFamilies l). \<exists>y\<in>set (addPathFamilies p). ap_family x = ap_family y
    \<and> agreed (ap_sendReceive x) (ap_sendReceive y) \<noteq> 0 \<and> a = \<lparr>ap_family = ap_family x, ap_sendReceive = agreed (ap_sendReceive x) (ap_sendReceive y)\<rparr>)"
  unfolding negotiateAddPath_def matched [OF assms] by (auto simp: Let_def split: if_splits)

lemma negotiateLlgr_mem:
  assumes "distinct (map llgr_family (llgrFamilies p))"
  shows "a \<in> set (negotiateLlgr l p) \<longleftrightarrow> (\<exists>x\<in>set (llgrFamilies l). \<exists>y\<in>set (llgrFamilies p). llgr_family x = llgr_family y
    \<and> a = \<lparr>llgr_family = llgr_family x, staleTime = min (staleTime x) (staleTime y), llgr_flags = llgr_flags x AND llgr_flags y\<rparr>)"
  unfolding negotiateLlgr_def matched [OF assms] by auto


text \<open>A router without multiprotocol capabilities and a peer with some do not agree: the peer takes it for a speaker of IPv4, it
  has no active family itself.\<close>

lemma legacy_router_has_no_family:
  assumes "documented_supportsFamily supports" "mpFamilies l = []" "mpFamilies p \<noteq> []"
  shows "activeFamilies (negotiateCapabilities supports (BaseSession xs) l p) = []
    \<and> activeFamilies (negotiateCapabilities supports (BaseSession ys) p l) = [ipv4uni]"
proof -
  have "filter (supports l) (mpFamilies p) = []" using assms(1,2) by (simp add: documented_supportsFamily_def)
  thus ?thesis using assms by (simp add: negotiateCapabilities_def Let_def negotiateFamilies_def List.insert_def)
qed

section \<open>Witnesses\<close>

definition ex_caps :: Capabilities where
  "ex_caps = Capabilities_new\<lparr>mpFamilies := [ipv4uni, \<lparr>afi = 2, safi = 1\<rparr>], routeRefresh := True, asn32bit := True, cap_asn := 65551,
     gracefulRestart := True, restarting := True, restartTime := 120, gracefulFamilies := [\<lparr>gr_family = ipv4uni, forwardingStatePreserved = True\<rparr>],
     addPath := True, addPathFamilies := [\<lparr>ap_family = ipv4uni, ap_sendReceive = 3\<rparr>], llgr := True,
     llgrFamilies := [\<lparr>llgr_family = ipv4uni, staleTime = 3600, llgr_flags = 0x80\<rparr>], fqdn := True, hostname := [114, 49], domain := [108]\<rparr>"

lemma ex_caps_ok: "fits ex_caps" "carried ex_caps" "gracefulRestart ex_caps \<longrightarrow> gracefulFamilies ex_caps \<noteq> []"
  by code_simp+


theorem capability_length_witness:
  "\<exists>bs. appendCapabilities ex_caps = Some bs \<and> computeCapabilityLen ex_caps = of_nat (length bs)"
  using appendCapabilities_defined [OF ex_caps_ok(1)] capability_length [OF _ ex_caps_ok(1,3)] by blast


end
