(* ===== verification/IpAddress.thy ===== *)
theory IpAddress
  imports Bytes
begin

text \<open>
  Addresses and prefixes, \<open>types/IPAddress.h\<close> and \<open>types/IPAddress.cpp\<close>. The dual-stack types keep
  128 bits, an IPv4 address in its IPv4-mapped form; the byte \<open>v4raw()[i]\<close> of a \<open>NetworkSpan\<close> is the
  \<open>i\<close>-th byte in network order.

  A shift by a negative amount is undefined behaviour: operations that mask with an unchecked prefix
  length give \<open>None\<close> when the length exceeds the address width. Constructors from bytes give \<open>None\<close>
  for reads outside the buffer and shifts out of range as \<open>readBytes\<close> has them, and for the exception
  an invalid address family raises.
\<close>

section \<open>Data\<close>

datatype AddressFamily = AF_NONE | IPv4 | IPv6

record IPAddress =
  raw :: u128

record IPv4Address =
  addr4 :: u32

record IPv6Address =
  addr6 :: u128

record IPPrefix =
  pfx_addr :: u128
  pfx_len :: u8

record IPv4Prefix =
  pfx4_addr :: u32
  pfx4_len :: u8

record IPv6Prefix =
  pfx6_addr :: u128
  pfx6_len :: u8

section \<open>Masks and bytes\<close>

text \<open>\<open>~0 << (W - len)\<close>, with the case of length 0 apart.\<close>

definition shiftMask :: "u8 \<Rightarrow> 'a::len word option" where
  "shiftMask len = (if len = 0 then Some 0 else if LENGTH('a) < unat len then None
     else Some (push_bit (LENGTH('a) - unat len) (- 1)))"

definition v4Mask :: "u8 \<Rightarrow> u32 option" where
  "v4Mask len = shiftMask len"

definition v6Mask :: "u8 \<Rightarrow> u128 option" where
  "v6Mask len = shiftMask len"

definition maskTo :: "u8 \<Rightarrow> 'a::len word \<Rightarrow> 'a word option" where
  "maskTo len a = map_option (\<lambda>m. a AND m) (shiftMask len)"

definition agree :: "'a::len word option \<Rightarrow> 'a word \<Rightarrow> 'a word \<Rightarrow> bool option" where
  "agree m a b = map_option (\<lambda>m. a AND m = b AND m) m"

definition mapped :: "u32 \<Rightarrow> u128" where
  "mapped a = ucast a OR push_bit 32 0xFFFF"

definition isMapped :: "u128 \<Rightarrow> bool" where
  "isMapped r = (drop_bit 32 r = 0xFFFF)"

definition low32 :: "u128 \<Rightarrow> u32" where
  "low32 r = ucast (r AND 0xFFFFFFFF)"

definition spanByte :: "nat \<Rightarrow> 'a::len word \<Rightarrow> u8" where
  "spanByte i a = ucast (drop_bit (8 * (LENGTH('a) div 8 - 1 - i)) a)"

definition classMask :: "u8 \<Rightarrow> u8" where
  "classMask b = (if b \<le> 127 then 8 else if b \<le> 191 then 16 else if b \<le> 223 then 24 else 0)"

definition multicast4 :: "u32 \<Rightarrow> bool" where
  "multicast4 a = (spanByte 0 a AND 0xE0 = 0xE0)"

definition multicast6 :: "u128 \<Rightarrow> bool" where
  "multicast6 a = (spanByte 0 a = 0xFF)"

definition linkLocal6 :: "u128 \<Rightarrow> bool" where
  "linkLocal6 a = (spanByte 0 a = 0xFE \<and> spanByte 1 a AND 0xC0 = 0x80)"

definition globalUnicast6 :: "u128 \<Rightarrow> bool" where
  "globalUnicast6 a = (spanByte 0 a = 0xFD)"

definition localUnicast6 :: "u128 \<Rightarrow> bool" where
  "localUnicast6 a = (spanByte 0 a AND 0xE0 = 0x20)"

text \<open>Masking of a dual-stack value to a prefix length, the body \<open>IPAddress::addPrefixLen\<close> and
  \<open>IPPrefix::addPrefixLen\<close> share.\<close>

definition maskDual :: "u8 \<Rightarrow> u128 \<Rightarrow> u128 option" where
  "maskDual len r = (if isMapped r then map_option mapped (maskTo len (low32 r)) else maskTo len r)"

text \<open>The test both \<open>contains\<close> of the dual-stack types make: same family and equal under the mask.\<close>

definition containsDual :: "u8 \<Rightarrow> u128 \<Rightarrow> u128 \<Rightarrow> bool option" where
  "containsDual len a ip = (if isMapped ip
     then (if \<not> isMapped a then Some False else agree (v4Mask len) (low32 a) (low32 ip))
     else (if isMapped a then Some False else agree (v6Mask len) a ip))"

definition containsPlain :: "u8 \<Rightarrow> 'a::len word \<Rightarrow> 'a word \<Rightarrow> bool option" where
  "containsPlain len a ip = (if len = 0 then Some True
     else agree (if unat len = LENGTH('a) then Some (- 1) else shiftMask len) a ip)"

definition lexLess :: "'a::len word \<times> u8 \<Rightarrow> 'a word \<times> u8 \<Rightarrow> bool" where
  "lexLess x y = (if fst x \<noteq> fst y then fst x < fst y else snd x < snd y)"

definition lexGreater :: "'a::len word \<times> u8 \<Rightarrow> 'a word \<times> u8 \<Rightarrow> bool" where
  "lexGreater x y = (if fst x \<noteq> fst y then fst x > fst y else snd x > snd y)"

section \<open>IPAddress\<close>

definition IPAddress_v4 :: "u32 \<Rightarrow> IPAddress" where
  "IPAddress_v4 a = \<lparr>raw = mapped a\<rparr>"

definition IPAddress_v6 :: "u128 \<Rightarrow> IPAddress" where
  "IPAddress_v6 a = \<lparr>raw = a\<rparr>"

definition IPAddress_bytes :: "u8 list \<Rightarrow> AddressFamily \<Rightarrow> IPAddress option" where
  "IPAddress_bytes bytes af = (case af of
     IPv4 \<Rightarrow> map_option IPAddress_v4 (readU32 bytes)
   | IPv6 \<Rightarrow> map_option IPAddress_v6 (readU128 bytes)
   | AF_NONE \<Rightarrow> None)"

definition addr_addPrefixLen :: "u8 \<Rightarrow> IPAddress \<Rightarrow> IPAddress option" where
  "addr_addPrefixLen len a = map_option (\<lambda>r. \<lparr>raw = r\<rparr>) (maskDual len (raw a))"

definition IPAddress_v4_masked :: "u32 \<Rightarrow> u8 \<Rightarrow> IPAddress option" where
  "IPAddress_v4_masked a len = addr_addPrefixLen len (IPAddress_v4 a)"

definition IPAddress_v6_masked :: "u128 \<Rightarrow> u8 \<Rightarrow> IPAddress option" where
  "IPAddress_v6_masked a len = addr_addPrefixLen len (IPAddress_v6 a)"

definition IPAddress_bytes_masked :: "u8 list \<Rightarrow> AddressFamily \<Rightarrow> u8 \<Rightarrow> IPAddress option" where
  "IPAddress_bytes_masked bytes af len = Option.bind (IPAddress_bytes bytes af) (addr_addPrefixLen len)"

definition addr_isIPv4 :: "IPAddress \<Rightarrow> bool" where
  "addr_isIPv4 a = isMapped (raw a)"

definition addr_v4 :: "IPAddress \<Rightarrow> u32" where
  "addr_v4 a = low32 (raw a)"

definition addr_contains :: "IPAddress \<Rightarrow> IPAddress \<Rightarrow> u8 \<Rightarrow> bool option" where
  "addr_contains a ip len = containsDual len (raw a) (raw ip)"

definition addr_isMulticast :: "IPAddress \<Rightarrow> bool" where
  "addr_isMulticast a = (if addr_isIPv4 a then multicast4 (addr_v4 a) else multicast6 (raw a))"

definition addr_isLocalLink :: "IPAddress \<Rightarrow> bool" where
  "addr_isLocalLink a = (\<not> addr_isIPv4 a \<and> linkLocal6 (raw a))"

definition addr_isGlobalUnicast :: "IPAddress \<Rightarrow> bool" where
  "addr_isGlobalUnicast a = (\<not> addr_isIPv4 a \<and> globalUnicast6 (raw a))"

definition addr_isLocalUnicast :: "IPAddress \<Rightarrow> bool" where
  "addr_isLocalUnicast a = (\<not> addr_isIPv4 a \<and> localUnicast6 (raw a))"

definition addr_getDefaultMask :: "IPAddress \<Rightarrow> u8" where
  "addr_getDefaultMask a = (if \<not> addr_isIPv4 a then 0 else classMask (spanByte 0 (addr_v4 a)))"

definition addr_less :: "IPAddress \<Rightarrow> IPAddress \<Rightarrow> bool" where
  "addr_less a b = (raw a < raw b)"

section \<open>IPv4Address and IPv6Address\<close>

definition IPv4Address_masked :: "u32 \<Rightarrow> u8 \<Rightarrow> IPv4Address option" where
  "IPv4Address_masked a len = map_option (\<lambda>x. \<lparr>addr4 = x\<rparr>) (maskTo len a)"

definition IPv4Address_bytes :: "u8 list \<Rightarrow> IPv4Address option" where
  "IPv4Address_bytes bytes = map_option (\<lambda>x. \<lparr>addr4 = x\<rparr>) (readU32 bytes)"

definition addr4_contains :: "IPv4Address \<Rightarrow> IPv4Address \<Rightarrow> u8 \<Rightarrow> bool option" where
  "addr4_contains a ip len = containsPlain len (addr4 a) (addr4 ip)"

definition addr4_addPrefixLen :: "u8 \<Rightarrow> IPv4Address \<Rightarrow> IPv4Address option" where
  "addr4_addPrefixLen len a = map_option (\<lambda>x. \<lparr>addr4 = x\<rparr>) (maskTo len (addr4 a))"

definition addr4_isMulticast :: "IPv4Address \<Rightarrow> bool" where
  "addr4_isMulticast a = multicast4 (addr4 a)"

definition addr4_getDefaultMask :: "IPv4Address \<Rightarrow> u8" where
  "addr4_getDefaultMask a = classMask (spanByte 0 (addr4 a))"

definition addr4_toIPAddress :: "IPv4Address \<Rightarrow> IPAddress" where
  "addr4_toIPAddress a = IPAddress_v4 (addr4 a)"

definition IPv6Address_masked :: "u128 \<Rightarrow> u8 \<Rightarrow> IPv6Address option" where
  "IPv6Address_masked a len = map_option (\<lambda>x. \<lparr>addr6 = x\<rparr>) (maskTo len a)"

definition IPv6Address_bytes :: "u8 list \<Rightarrow> IPv6Address option" where
  "IPv6Address_bytes bytes = map_option (\<lambda>x. \<lparr>addr6 = x\<rparr>) (readU128 bytes)"

definition addr6_contains :: "IPv6Address \<Rightarrow> IPv6Address \<Rightarrow> u8 \<Rightarrow> bool option" where
  "addr6_contains a ip len = containsPlain len (addr6 a) (addr6 ip)"

definition addr6_addPrefixLen :: "u8 \<Rightarrow> IPv6Address \<Rightarrow> IPv6Address option" where
  "addr6_addPrefixLen len a = map_option (\<lambda>x. \<lparr>addr6 = x\<rparr>) (maskTo len (addr6 a))"

definition addr6_isMulticast :: "IPv6Address \<Rightarrow> bool" where
  "addr6_isMulticast a = multicast6 (addr6 a)"

definition addr6_isLocalLink :: "IPv6Address \<Rightarrow> bool" where
  "addr6_isLocalLink a = linkLocal6 (addr6 a)"

definition addr6_isGlobalUnicast :: "IPv6Address \<Rightarrow> bool" where
  "addr6_isGlobalUnicast a = globalUnicast6 (addr6 a)"

definition addr6_isLocalUnicast :: "IPv6Address \<Rightarrow> bool" where
  "addr6_isLocalUnicast a = localUnicast6 (addr6 a)"

section \<open>IPPrefix\<close>

definition IPPrefix_family :: "AddressFamily \<Rightarrow> IPPrefix" where
  "IPPrefix_family af = \<lparr>pfx_addr = (if af = IPv4 then push_bit 32 0xFFFF else 0), pfx_len = 0\<rparr>"

definition pfx_addPrefixLen :: "u8 \<Rightarrow> IPPrefix \<Rightarrow> IPPrefix option" where
  "pfx_addPrefixLen len p = map_option (\<lambda>a. \<lparr>pfx_addr = a, pfx_len = len\<rparr>) (maskDual len (pfx_addr p))"

definition IPPrefix_raw :: "u128 \<Rightarrow> u8 \<Rightarrow> bool \<Rightarrow> IPPrefix option" where
  "IPPrefix_raw ip len maintainAddress = (if maintainAddress then Some \<lparr>pfx_addr = ip, pfx_len = len\<rparr>
     else pfx_addPrefixLen len \<lparr>pfx_addr = ip, pfx_len = 0\<rparr>)"

definition IPPrefix_addr :: "IPAddress \<Rightarrow> u8 \<Rightarrow> bool \<Rightarrow> IPPrefix option" where
  "IPPrefix_addr ip len maintainAddress = IPPrefix_raw (raw ip) len maintainAddress"

definition IPPrefix_v4 :: "u32 \<Rightarrow> u8 \<Rightarrow> bool \<Rightarrow> IPPrefix option" where
  "IPPrefix_v4 ip len maintainAddress = IPPrefix_raw (mapped ip) len maintainAddress"

text \<open>The count \<open>((prefix + 7) / 8) * 8\<close> the constructors pass to \<open>readBytes\<close>.\<close>

definition byteCount :: "u8 \<Rightarrow> nat" where
  "byteCount len = ((unat len + 7) div 8) * 8"

definition IPPrefix_bytes :: "u8 list \<Rightarrow> u8 \<Rightarrow> AddressFamily \<Rightarrow> bool \<Rightarrow> IPPrefix option" where
  "IPPrefix_bytes ip len af maintainAddress = (if maintainAddress
     then (if af = IPv4 then map_option (\<lambda>a. \<lparr>pfx_addr = mapped a, pfx_len = len\<rparr>) (readU32 ip)
           else map_option (\<lambda>a. \<lparr>pfx_addr = a, pfx_len = len\<rparr>) (readU128 ip))
     else (if af = IPv4 then Option.bind (readBytes ip (byteCount len))
             (\<lambda>a. pfx_addPrefixLen len \<lparr>pfx_addr = mapped a, pfx_len = 0\<rparr>)
           else Option.bind (readBytes ip (byteCount len))
             (\<lambda>a. pfx_addPrefixLen len \<lparr>pfx_addr = a, pfx_len = 0\<rparr>)))"

definition pfx_isIPv4 :: "IPPrefix \<Rightarrow> bool" where
  "pfx_isIPv4 p = isMapped (pfx_addr p)"

definition pfx_v4 :: "IPPrefix \<Rightarrow> u32" where
  "pfx_v4 p = low32 (pfx_addr p)"

definition netMask :: "u8 \<Rightarrow> u32" where
  "netMask len = (if len = 0 then 0 else if 32 \<le> unat len then 0xFFFFFFFF
     else push_bit (32 - unat len) 0xFFFFFFFF)"

definition pfx_getMask :: "IPPrefix \<Rightarrow> u32" where
  "pfx_getMask p = netMask (pfx_len p)"

definition pfx_getDefaultMask :: "IPPrefix \<Rightarrow> u8" where
  "pfx_getDefaultMask p = (if \<not> pfx_isIPv4 p then 0 else classMask (spanByte 0 (pfx_v4 p)))"

definition pfx_applyClassful :: "IPPrefix \<Rightarrow> (bool \<times> IPPrefix) option" where
  "pfx_applyClassful p = (let c = pfx_getDefaultMask p in
     if \<not> pfx_isIPv4 p \<or> c = 0 then Some (False, p) else map_option (Pair True) (pfx_addPrefixLen c p))"

definition pfx_contains :: "IPPrefix \<Rightarrow> IPPrefix \<Rightarrow> bool option" where
  "pfx_contains p q = (if pfx_isIPv4 p \<noteq> pfx_isIPv4 q then Some False
     else if pfx_isIPv4 p then agree (v4Mask (pfx_len p)) (pfx_v4 q) (pfx_v4 p)
     else agree (v6Mask (pfx_len p)) (pfx_addr q) (pfx_addr p))"

definition pfx_containsAddr :: "IPPrefix \<Rightarrow> IPAddress \<Rightarrow> bool option" where
  "pfx_containsAddr p ip = containsDual (pfx_len p) (pfx_addr p) (raw ip)"

definition pfx_isMulticast :: "IPPrefix \<Rightarrow> bool" where
  "pfx_isMulticast p = (if pfx_isIPv4 p then multicast4 (pfx_v4 p) else multicast6 (pfx_addr p))"

definition pfx_isLocalLink :: "IPPrefix \<Rightarrow> bool" where
  "pfx_isLocalLink p = (\<not> pfx_isIPv4 p \<and> linkLocal6 (pfx_addr p))"

definition pfx_isGlobalUnicast :: "IPPrefix \<Rightarrow> bool" where
  "pfx_isGlobalUnicast p = (\<not> pfx_isIPv4 p \<and> globalUnicast6 (pfx_addr p))"

definition pfx_isLocalUnicast :: "IPPrefix \<Rightarrow> bool" where
  "pfx_isLocalUnicast p = (\<not> pfx_isIPv4 p \<and> localUnicast6 (pfx_addr p))"

section \<open>IPv4Prefix and IPv6Prefix\<close>

definition pfx4_addPrefixLen :: "u8 \<Rightarrow> IPv4Prefix \<Rightarrow> IPv4Prefix option" where
  "pfx4_addPrefixLen len p = map_option (\<lambda>a. \<lparr>pfx4_addr = a, pfx4_len = len\<rparr>) (maskTo len (pfx4_addr p))"

definition IPv4Prefix_raw :: "u32 \<Rightarrow> u8 \<Rightarrow> bool \<Rightarrow> IPv4Prefix option" where
  "IPv4Prefix_raw ip len maintainAddress = (if maintainAddress then Some \<lparr>pfx4_addr = ip, pfx4_len = len\<rparr>
     else pfx4_addPrefixLen len \<lparr>pfx4_addr = ip, pfx4_len = 0\<rparr>)"

definition IPv4Prefix_addr :: "IPAddress \<Rightarrow> u8 \<Rightarrow> bool \<Rightarrow> IPv4Prefix option" where
  "IPv4Prefix_addr ip len maintainAddress = IPv4Prefix_raw (addr_v4 ip) len maintainAddress"

definition IPv4Prefix_of :: "IPPrefix \<Rightarrow> bool \<Rightarrow> IPv4Prefix option" where
  "IPv4Prefix_of p maintainAddress = IPv4Prefix_raw (pfx_v4 p) (pfx_len p) maintainAddress"

definition IPv4Prefix_bytes :: "u8 list \<Rightarrow> u8 \<Rightarrow> bool \<Rightarrow> IPv4Prefix option" where
  "IPv4Prefix_bytes bytes len maintainAddress = (if maintainAddress
     then map_option (\<lambda>a. \<lparr>pfx4_addr = a, pfx4_len = len\<rparr>) (readU32 bytes)
     else Option.bind (readBytes bytes (byteCount len))
       (\<lambda>a. pfx4_addPrefixLen len \<lparr>pfx4_addr = a, pfx4_len = 0\<rparr>))"

definition pfx4_getMask :: "IPv4Prefix \<Rightarrow> u32" where
  "pfx4_getMask p = netMask (pfx4_len p)"

definition pfx4_getDefaultMask :: "IPv4Prefix \<Rightarrow> u8" where
  "pfx4_getDefaultMask p = classMask (spanByte 0 (pfx4_addr p))"

definition pfx4_applyClassful :: "IPv4Prefix \<Rightarrow> (bool \<times> IPv4Prefix) option" where
  "pfx4_applyClassful p = (let c = pfx4_getDefaultMask p in
     if c = 0 then Some (False, p) else map_option (Pair True) (pfx4_addPrefixLen c p))"

definition pfx4_contains :: "IPv4Prefix \<Rightarrow> IPv4Prefix \<Rightarrow> bool option" where
  "pfx4_contains p q = agree (v4Mask (pfx4_len p)) (pfx4_addr q) (pfx4_addr p)"

definition pfx4_containsAddr :: "IPv4Prefix \<Rightarrow> IPv4Address \<Rightarrow> bool option" where
  "pfx4_containsAddr p ip = agree (v4Mask (pfx4_len p)) (pfx4_addr p) (addr4 ip)"

definition pfx4_isMulticast :: "IPv4Prefix \<Rightarrow> bool" where
  "pfx4_isMulticast p = multicast4 (pfx4_addr p)"

text \<open>\<open>IPv6Prefix::addPrefixLen\<close> masks the address and does not set the length.\<close>

definition pfx6_addPrefixLen :: "u8 \<Rightarrow> IPv6Prefix \<Rightarrow> IPv6Prefix option" where
  "pfx6_addPrefixLen len p = map_option (\<lambda>a. p\<lparr>pfx6_addr := a\<rparr>) (maskTo len (pfx6_addr p))"

definition IPv6Prefix_raw :: "u128 \<Rightarrow> u8 \<Rightarrow> bool \<Rightarrow> IPv6Prefix option" where
  "IPv6Prefix_raw ip len maintainAddress = (if maintainAddress then Some \<lparr>pfx6_addr = ip, pfx6_len = len\<rparr>
     else pfx6_addPrefixLen len \<lparr>pfx6_addr = ip, pfx6_len = 0\<rparr>)"

definition IPv6Prefix_addr :: "IPAddress \<Rightarrow> u8 \<Rightarrow> bool \<Rightarrow> IPv6Prefix option" where
  "IPv6Prefix_addr ip len maintainAddress = IPv6Prefix_raw (raw ip) len maintainAddress"

definition IPv6Prefix_of :: "IPPrefix \<Rightarrow> bool \<Rightarrow> IPv6Prefix option" where
  "IPv6Prefix_of p maintainAddress = IPv6Prefix_raw (pfx_addr p) (pfx_len p) maintainAddress"

definition IPv6Prefix_bytes :: "u8 list \<Rightarrow> u8 \<Rightarrow> bool \<Rightarrow> IPv6Prefix option" where
  "IPv6Prefix_bytes bytes len maintainAddress = (if maintainAddress
     then map_option (\<lambda>a. \<lparr>pfx6_addr = a, pfx6_len = len\<rparr>) (readU128 bytes)
     else Option.bind (readBytes bytes (byteCount len))
       (\<lambda>a. pfx6_addPrefixLen len \<lparr>pfx6_addr = a, pfx6_len = 0\<rparr>))"

definition pfx6_contains :: "IPv6Prefix \<Rightarrow> IPv6Prefix \<Rightarrow> bool option" where
  "pfx6_contains p q = containsPlain (pfx6_len p) (pfx6_addr p) (pfx6_addr q)"

definition pfx6_containsAddr :: "IPv6Prefix \<Rightarrow> IPv6Address \<Rightarrow> bool option" where
  "pfx6_containsAddr p ip = containsPlain (pfx6_len p) (pfx6_addr p) (addr6 ip)"

definition pfx6_isMulticast :: "IPv6Prefix \<Rightarrow> bool" where
  "pfx6_isMulticast p = multicast6 (pfx6_addr p)"

definition pfx6_isLocalLink :: "IPv6Prefix \<Rightarrow> bool" where
  "pfx6_isLocalLink p = linkLocal6 (pfx6_addr p)"

definition pfx6_isGlobalUnicast :: "IPv6Prefix \<Rightarrow> bool" where
  "pfx6_isGlobalUnicast p = globalUnicast6 (pfx6_addr p)"

definition pfx6_isLocalUnicast :: "IPv6Prefix \<Rightarrow> bool" where
  "pfx6_isLocalUnicast p = localUnicast6 (pfx6_addr p)"

section \<open>Comparison operators\<close>

text \<open>The operands of an operator as address and length: for a comparison with an IPv4 prefix the
  dual-stack side contributes its low 32 bits.\<close>

abbreviation "kP p \<equiv> (pfx_addr p, pfx_len p)"
abbreviation "kP4 p \<equiv> (pfx_v4 p, pfx_len p)"
abbreviation "k4 p \<equiv> (pfx4_addr p, pfx4_len p)"
abbreviation "k6 p \<equiv> (pfx6_addr p, pfx6_len p)"

definition eq_PP :: "IPPrefix \<Rightarrow> IPPrefix \<Rightarrow> bool" where
  "eq_PP p q = (kP p = kP q)"

definition ne_PP :: "IPPrefix \<Rightarrow> IPPrefix \<Rightarrow> bool" where
  "ne_PP p q = (fst (kP p) \<noteq> fst (kP q) \<or> snd (kP p) \<noteq> snd (kP q))"

definition lt_PP :: "IPPrefix \<Rightarrow> IPPrefix \<Rightarrow> bool" where
  "lt_PP p q = lexLess (kP p) (kP q)"

definition gt_PP :: "IPPrefix \<Rightarrow> IPPrefix \<Rightarrow> bool" where
  "gt_PP p q = lexGreater (kP p) (kP q)"

definition le_PP :: "IPPrefix \<Rightarrow> IPPrefix \<Rightarrow> bool" where
  "le_PP p q = (if eq_PP p q then True else lt_PP p q)"

definition ge_PP :: "IPPrefix \<Rightarrow> IPPrefix \<Rightarrow> bool" where
  "ge_PP p q = (if eq_PP p q then True else gt_PP p q)"

definition eq_P4 :: "IPPrefix \<Rightarrow> IPv4Prefix \<Rightarrow> bool" where
  "eq_P4 p q = (kP4 p = k4 q)"

definition ne_P4 :: "IPPrefix \<Rightarrow> IPv4Prefix \<Rightarrow> bool" where
  "ne_P4 p q = (fst (kP4 p) \<noteq> fst (k4 q) \<or> snd (kP4 p) \<noteq> snd (k4 q))"

definition lt_P4 :: "IPPrefix \<Rightarrow> IPv4Prefix \<Rightarrow> bool" where
  "lt_P4 p q = lexLess (kP4 p) (k4 q)"

definition gt_P4 :: "IPPrefix \<Rightarrow> IPv4Prefix \<Rightarrow> bool" where
  "gt_P4 p q = lexGreater (kP4 p) (k4 q)"

definition le_P4 :: "IPPrefix \<Rightarrow> IPv4Prefix \<Rightarrow> bool" where
  "le_P4 p q = (if eq_P4 p q then True else lt_P4 p q)"

definition ge_P4 :: "IPPrefix \<Rightarrow> IPv4Prefix \<Rightarrow> bool" where
  "ge_P4 p q = (if eq_P4 p q then True else gt_P4 p q)"

definition eq_P6 :: "IPPrefix \<Rightarrow> IPv6Prefix \<Rightarrow> bool" where
  "eq_P6 p q = (kP p = k6 q)"

definition ne_P6 :: "IPPrefix \<Rightarrow> IPv6Prefix \<Rightarrow> bool" where
  "ne_P6 p q = (fst (kP p) \<noteq> fst (k6 q) \<or> snd (kP p) \<noteq> snd (k6 q))"

text \<open>The two operators between a dual-stack and an IPv6 prefix are written the other way round: the
  addresses are compared when they are equal, and \<open><\<close> compares the length with an address.\<close>

definition lt_P6 :: "IPPrefix \<Rightarrow> IPv6Prefix \<Rightarrow> bool" where
  "lt_P6 p q = (if pfx_addr p = pfx6_addr q then pfx_addr p < pfx6_addr q else ucast (pfx_len p) < pfx6_addr q)"

definition gt_P6 :: "IPPrefix \<Rightarrow> IPv6Prefix \<Rightarrow> bool" where
  "gt_P6 p q = (if pfx_addr p = pfx6_addr q then pfx_addr p > pfx6_addr q else pfx_len p > pfx6_len q)"

definition le_P6 :: "IPPrefix \<Rightarrow> IPv6Prefix \<Rightarrow> bool" where
  "le_P6 p q = (if eq_P6 p q then True else lt_P6 p q)"

definition ge_P6 :: "IPPrefix \<Rightarrow> IPv6Prefix \<Rightarrow> bool" where
  "ge_P6 p q = (if eq_P6 p q then True else gt_P6 p q)"

definition eq_44 :: "IPv4Prefix \<Rightarrow> IPv4Prefix \<Rightarrow> bool" where
  "eq_44 p q = (k4 p = k4 q)"

definition ne_44 :: "IPv4Prefix \<Rightarrow> IPv4Prefix \<Rightarrow> bool" where
  "ne_44 p q = (fst (k4 p) \<noteq> fst (k4 q) \<or> snd (k4 p) \<noteq> snd (k4 q))"

definition lt_44 :: "IPv4Prefix \<Rightarrow> IPv4Prefix \<Rightarrow> bool" where
  "lt_44 p q = lexLess (k4 p) (k4 q)"

definition gt_44 :: "IPv4Prefix \<Rightarrow> IPv4Prefix \<Rightarrow> bool" where
  "gt_44 p q = lexGreater (k4 p) (k4 q)"

definition le_44 :: "IPv4Prefix \<Rightarrow> IPv4Prefix \<Rightarrow> bool" where
  "le_44 p q = (if eq_44 p q then True else lt_44 p q)"

definition ge_44 :: "IPv4Prefix \<Rightarrow> IPv4Prefix \<Rightarrow> bool" where
  "ge_44 p q = (if eq_44 p q then True else gt_44 p q)"

definition eq_4P :: "IPv4Prefix \<Rightarrow> IPPrefix \<Rightarrow> bool" where
  "eq_4P p q = (k4 p = kP4 q)"

definition ne_4P :: "IPv4Prefix \<Rightarrow> IPPrefix \<Rightarrow> bool" where
  "ne_4P p q = (fst (k4 p) \<noteq> fst (kP4 q) \<or> snd (k4 p) \<noteq> snd (kP4 q))"

definition lt_4P :: "IPv4Prefix \<Rightarrow> IPPrefix \<Rightarrow> bool" where
  "lt_4P p q = lexLess (k4 p) (kP4 q)"

definition gt_4P :: "IPv4Prefix \<Rightarrow> IPPrefix \<Rightarrow> bool" where
  "gt_4P p q = lexGreater (k4 p) (kP4 q)"

definition le_4P :: "IPv4Prefix \<Rightarrow> IPPrefix \<Rightarrow> bool" where
  "le_4P p q = (if eq_4P p q then True else lt_4P p q)"

definition ge_4P :: "IPv4Prefix \<Rightarrow> IPPrefix \<Rightarrow> bool" where
  "ge_4P p q = (if eq_4P p q then True else gt_4P p q)"

definition eq_66 :: "IPv6Prefix \<Rightarrow> IPv6Prefix \<Rightarrow> bool" where
  "eq_66 p q = (k6 p = k6 q)"

definition ne_66 :: "IPv6Prefix \<Rightarrow> IPv6Prefix \<Rightarrow> bool" where
  "ne_66 p q = (fst (k6 p) \<noteq> fst (k6 q) \<or> snd (k6 p) \<noteq> snd (k6 q))"

definition lt_66 :: "IPv6Prefix \<Rightarrow> IPv6Prefix \<Rightarrow> bool" where
  "lt_66 p q = lexLess (k6 p) (k6 q)"

definition gt_66 :: "IPv6Prefix \<Rightarrow> IPv6Prefix \<Rightarrow> bool" where
  "gt_66 p q = lexGreater (k6 p) (k6 q)"

definition le_66 :: "IPv6Prefix \<Rightarrow> IPv6Prefix \<Rightarrow> bool" where
  "le_66 p q = (if eq_66 p q then True else lt_66 p q)"

definition ge_66 :: "IPv6Prefix \<Rightarrow> IPv6Prefix \<Rightarrow> bool" where
  "ge_66 p q = (if eq_66 p q then True else gt_66 p q)"

definition eq_6P :: "IPv6Prefix \<Rightarrow> IPPrefix \<Rightarrow> bool" where
  "eq_6P p q = (k6 p = kP q)"

definition ne_6P :: "IPv6Prefix \<Rightarrow> IPPrefix \<Rightarrow> bool" where
  "ne_6P p q = (fst (k6 p) \<noteq> fst (kP q) \<or> snd (k6 p) \<noteq> snd (kP q))"

definition lt_6P :: "IPv6Prefix \<Rightarrow> IPPrefix \<Rightarrow> bool" where
  "lt_6P p q = lexLess (k6 p) (kP q)"

definition gt_6P :: "IPv6Prefix \<Rightarrow> IPPrefix \<Rightarrow> bool" where
  "gt_6P p q = lexGreater (k6 p) (kP q)"

definition le_6P :: "IPv6Prefix \<Rightarrow> IPPrefix \<Rightarrow> bool" where
  "le_6P p q = (if eq_6P p q then True else lt_6P p q)"

definition ge_6P :: "IPv6Prefix \<Rightarrow> IPPrefix \<Rightarrow> bool" where
  "ge_6P p q = (if eq_6P p q then True else gt_6P p q)"

section \<open>Masks as leading bits\<close>

text \<open>The specification of a prefix: two addresses agree on their first \<open>n\<close> bits.\<close>

definition lead_eq :: "nat \<Rightarrow> 'a::len word \<Rightarrow> 'a word \<Rightarrow> bool" where
  "lead_eq n a b = (drop_bit (LENGTH('a) - n) a = drop_bit (LENGTH('a) - n) b)"

definition lead :: "nat \<Rightarrow> 'a::len word \<Rightarrow> 'a word" where
  "lead n a = push_bit (LENGTH('a) - n) (drop_bit (LENGTH('a) - n) a)"

lemma bit_lead: "bit (lead n a) i \<longleftrightarrow> LENGTH('a) - n \<le> i \<and> bit (a :: 'a::len word) i"
  by (auto simp: lead_def bit_simps dest: bit_imp_le_length)

lemma lead_eq_bits: "lead_eq n a b \<longleftrightarrow> (\<forall>i\<ge>LENGTH('a) - n. bit (a :: 'a::len word) i = bit b i)"
proof
  assume e: "lead_eq n a b"
  show "\<forall>i\<ge>LENGTH('a) - n. bit a i = bit b i"
  proof (intro allI impI)
    fix i assume i: "LENGTH('a) - n \<le> i"
    from e have "bit (drop_bit (LENGTH('a) - n) a) (i - (LENGTH('a) - n))
        = bit (drop_bit (LENGTH('a) - n) b) (i - (LENGTH('a) - n))" by (simp add: lead_eq_def)
    with i show "bit a i = bit b i" by (simp add: bit_simps)
  qed
qed (auto simp: lead_eq_def bit_simps intro!: bit_word_eqI)

lemma lead_eq_lead: "lead_eq n a b \<longleftrightarrow> lead n a = lead n b"
proof
  assume "lead n a = lead n b"
  then show "lead_eq n a b" unfolding lead_eq_bits by (metis bit_lead)
qed (simp add: lead_def lead_eq_def)

lemma lead_eq_refl [simp]: "lead_eq n a a"
  by (simp add: lead_eq_def)

lemma lead_eq_trans: "m \<le> n \<Longrightarrow> lead_eq m a b \<Longrightarrow> lead_eq n b c \<Longrightarrow> lead_eq m a c"
  by (fastforce simp: lead_eq_bits)

lemma lead_lead [simp]: "lead n (lead n a) = lead n a"
  by (rule bit_word_eqI) (simp add: bit_lead)

lemma lead_eq_zero [simp]: "lead_eq 0 a b"
  by (auto simp: lead_eq_bits dest: bit_imp_le_length)

lemma shiftMask_Some: "shiftMask len = Some (m :: 'a::len word) \<Longrightarrow> a AND m = lead (unat len) a"
  by (rule bit_word_eqI)
    (auto simp: shiftMask_def bit_simps bit_lead unat_eq_0 split: if_splits dest: bit_imp_le_length)

lemma shiftMask_dom: "(\<exists>m. shiftMask len = Some (m :: 'a::len word)) \<longleftrightarrow> unat len \<le> LENGTH('a)"
  by (auto simp: shiftMask_def)

lemma maskTo_eq: "maskTo len (a :: 'a::len word) = (if unat len \<le> LENGTH('a) then Some (lead (unat len) a) else None)"
  using shiftMask_dom [of len, where 'a = 'a] shiftMask_Some [of len _ a]
  by (cases "shiftMask len :: 'a word option") (auto simp: maskTo_def)

lemma agree_eq: "agree (shiftMask len) (a :: 'a::len word) b
    = (if unat len \<le> LENGTH('a) then Some (lead_eq (unat len) a b) else None)"
  using shiftMask_dom [of len, where 'a = 'a] shiftMask_Some [of len _ a] shiftMask_Some [of len _ b]
  by (cases "shiftMask len :: 'a word option") (auto simp: agree_def lead_eq_lead)

lemma containsPlain_eq: "containsPlain len (a :: 'a::len word) b
    = (if unat len \<le> LENGTH('a) then Some (lead_eq (unat len) a b) else None)"
proof (cases "unat len = LENGTH('a)")
  case True
  then have "len \<noteq> 0" by auto
  with True show ?thesis by (simp add: containsPlain_def agree_def lead_eq_def)
qed (simp add: containsPlain_def agree_eq)

lemmas mask_eqs = maskTo_eq agree_eq containsPlain_eq v4Mask_def v6Mask_def

lemma low32_eq: "low32 r = ucast r"
proof -
  have "(0xFFFFFFFF :: u128) = mask 32" by (simp add: mask_eq_exp_minus_1)
  then have "low32 r = ucast (r AND mask 32)" unfolding low32_def by (rule arg_cong)
  also have "\<dots> = ucast r" by (rule bit_word_eqI) (auto simp: bit_simps)
  finally show ?thesis .
qed

lemma low32_mapped [simp]: "low32 (mapped a) = a"
proof -
  have "(ucast (ucast a OR push_bit 32 y :: u128) :: u32) = a" for y
    by (rule bit_word_eqI) (auto simp: bit_simps)
  then show ?thesis unfolding low32_eq mapped_def .
qed

lemma isMapped_mapped [simp]: "isMapped (mapped a)"
proof -
  have "drop_bit 32 (ucast a :: u128) = 0"
    by (rule bit_word_eqI) (auto simp: bit_simps dest: bit_imp_le_length)
  moreover have "drop_bit 32 (push_bit 32 0xFFFF :: u128) = 0xFFFF" by simp
  ultimately show ?thesis unfolding isMapped_def mapped_def drop_bit_or by simp
qed

lemma isMapped_lead: "isMapped (lead n r) \<Longrightarrow> isMapped r"
proof -
  assume m: "isMapped (lead n r)"
  have "bit (drop_bit 32 (lead n r)) 0" using m by (simp add: isMapped_def)
  then have "LENGTH(128) - n \<le> 32" by (simp add: bit_simps bit_lead)
  then have "drop_bit 32 r = drop_bit 32 (lead n r)"
    by (auto intro!: bit_word_eqI simp: bit_simps bit_lead)
  with m show ?thesis by (simp add: isMapped_def)
qed

lemma mapped_low32: "isMapped r \<Longrightarrow> mapped (low32 r) = r"
proof -
  assume m: "isMapped r"
  have "push_bit 32 0xFFFF = push_bit 32 (drop_bit 32 r)" using m by (simp only: isMapped_def)
  moreover have "ucast (ucast r :: u32) OR push_bit 32 (drop_bit 32 r) = r"
  proof (rule bit_word_eqI)
    fix i assume "i < LENGTH(128)"
    then show "bit (ucast (ucast r :: u32) OR push_bit 32 (drop_bit 32 r)) i = bit r i"
      by (cases "i < 32") (auto simp: bit_simps)
  qed
  ultimately show ?thesis by (simp only: mapped_def low32_eq)
qed

lemma mapped_inject [simp]: "mapped a = mapped b \<longleftrightarrow> a = b"
  by (metis low32_mapped)

lemma maskDual_eq:
  "maskDual len r = (if isMapped r then (if unat len \<le> 32 then Some (mapped (lead (unat len) (low32 r))) else None)
     else (if unat len \<le> 128 then Some (lead (unat len) r) else None))"
  by (simp add: maskDual_def mask_eqs)

abbreviation width_of :: "u128 \<Rightarrow> nat" where
  "width_of a \<equiv> (if isMapped a then 32 else 128)"

text \<open>The network a dual-stack value belongs to: its family and leading bits.\<close>

definition same_net :: "nat \<Rightarrow> u128 \<Rightarrow> u128 \<Rightarrow> bool" where
  "same_net n a b = (isMapped a = isMapped b \<and>
     (if isMapped a then lead_eq n (low32 a) (low32 b) else lead_eq n a b))"

lemma lead_eq_sym: "lead_eq n a b = lead_eq n b a"
  by (auto simp: lead_eq_def)

lemma pfx_contains_eq:
  "unat (pfx_len p) \<le> width_of (pfx_addr p) \<Longrightarrow>
   pfx_contains p q = Some (same_net (unat (pfx_len p)) (pfx_addr p) (pfx_addr q))"
  by (auto simp: pfx_contains_def pfx_isIPv4_def pfx_v4_def mask_eqs same_net_def lead_eq_sym split: if_splits)

lemma pfx_containsAddr_eq:
  "unat (pfx_len p) \<le> width_of (pfx_addr p) \<Longrightarrow>
   pfx_containsAddr p ip = Some (same_net (unat (pfx_len p)) (pfx_addr p) (raw ip))"
  by (auto simp: pfx_containsAddr_def containsDual_def mask_eqs same_net_def split: if_splits)

lemma same_net_mask:
  assumes "unat len \<le> width_of a" and "maskDual len a = Some a'"
  shows "isMapped a' = isMapped a" and "maskDual len a' = Some a'"
    and "same_net (unat len) a' b \<longleftrightarrow> maskDual len b = Some a'"
proof -
  show f: "isMapped a' = isMapped a"
    using assms isMapped_lead by (auto simp: maskDual_eq split: if_splits)
  show "maskDual len a' = Some a'"
    using assms f by (auto simp: maskDual_eq split: if_splits)
  show "same_net (unat len) a' b \<longleftrightarrow> maskDual len b = Some a'"
    using assms f isMapped_lead [of "unat len" b]
    by (auto simp: maskDual_eq same_net_def lead_eq_lead split: if_splits dest: arg_cong [where f = isMapped])
qed

lemma lex_gt: "lexGreater k m = lexLess m k"
  by (auto simp: lexLess_def lexGreater_def)

lemma lex_laws:
  "lexLess k m \<noteq> (k = m \<or> lexGreater k m)" "lexGreater k m = lexLess m k"
  "(fst k \<noteq> fst m \<or> snd k \<noteq> snd m) = (k \<noteq> m)"
  "(if k = m then True else lexLess k m) = (\<not> lexGreater k m)"
  "(if k = m then True else lexGreater k m) = (\<not> lexLess k m)"
  "lexLess k m \<longrightarrow> lexLess m l \<longrightarrow> lexLess k l"
  by (auto simp: lexLess_def lexGreater_def prod_eq_iff)

lemma lex_mirror:
  "lexLess k m = lexGreater m k" "(k = m) = (m = k)"
  "(if k = m then True else lexLess k m) = (if m = k then True else lexGreater m k)"
  "(if k = m then True else lexGreater k m) = (if m = k then True else lexLess m k)"
  by (auto simp: lex_gt)

section \<open>Properties\<close>

text \<open>(C28) Masking a prefix to a length its family allows gives the network: the family is kept, the
  length is set, masking again changes nothing, and the prefix contains exactly the prefixes that
  mask to it.\<close>

theorem prefix_normalization:
  assumes "unat len \<le> (if pfx_isIPv4 p then 32 else 128)"
  shows "\<exists>n. pfx_addPrefixLen len p = Some n \<and> pfx_len n = len \<and> pfx_isIPv4 n = pfx_isIPv4 p
    \<and> pfx_addPrefixLen len n = Some n
    \<and> (\<forall>q. pfx_contains n q = Some (pfx_addPrefixLen len q = Some n))
    \<and> (\<forall>ip. pfx_containsAddr n ip = Some (maskDual len (raw ip) = Some (pfx_addr n)))"
proof -
  from assms obtain a where a: "maskDual len (pfx_addr p) = Some a"
    by (auto simp: maskDual_eq pfx_isIPv4_def split: if_splits)
  have w: "unat len \<le> width_of (pfx_addr p)" using assms by (simp add: pfx_isIPv4_def)
  note s = same_net_mask [OF w a]
  have w': "unat len \<le> width_of a" using w by (simp add: s(1))
  have "pfx_addPrefixLen len q = Some \<lparr>pfx_addr = a, pfx_len = len\<rparr> \<longleftrightarrow> maskDual len (pfx_addr q) = Some a" for q
    by (auto simp: pfx_addPrefixLen_def)
  then show ?thesis using a s w'
    by (intro exI [of _ "\<lparr>pfx_addr = a, pfx_len = len\<rparr>"])
      (simp add: pfx_addPrefixLen_def [of len p] pfx_isIPv4_def pfx_contains_eq pfx_containsAddr_eq)
qed

theorem prefix_normalization_witness:
  "\<exists>n. pfx_addPrefixLen 8 \<lparr>pfx_addr = mapped 0x0A010203, pfx_len = 32\<rparr> = Some n \<and> pfx_len n = 8
     \<and> pfx_isIPv4 n"
  using prefix_normalization [of 8 "\<lparr>pfx_addr = mapped 0x0A010203, pfx_len = 32\<rparr>"]
  by (auto simp: pfx_isIPv4_def)

text \<open>The comparison operators of prefixes of one kind are a total order: the strict order is
  irreflexive and transitive, exactly one of \<open><\<close>, \<open>==\<close> and \<open>>\<close> holds, and the other operators follow
  from them. The mixed operators between a dual-stack and an IPv4 prefix mirror each other.\<close>

theorem prefix_order:
  "(lt_PP p q \<noteq> (eq_PP p q \<or> gt_PP p q)) \<and> gt_PP p q = lt_PP q p \<and> ne_PP p q = (\<not> eq_PP p q)
     \<and> le_PP p q = (\<not> gt_PP p q) \<and> ge_PP p q = (\<not> lt_PP p q) \<and> (lt_PP p q \<longrightarrow> lt_PP q r \<longrightarrow> lt_PP p r)
   \<and> (lt_44 a b \<noteq> (eq_44 a b \<or> gt_44 a b)) \<and> gt_44 a b = lt_44 b a \<and> ne_44 a b = (\<not> eq_44 a b)
     \<and> le_44 a b = (\<not> gt_44 a b) \<and> ge_44 a b = (\<not> lt_44 a b) \<and> (lt_44 a b \<longrightarrow> lt_44 b c \<longrightarrow> lt_44 a c)
   \<and> (lt_66 x y \<noteq> (eq_66 x y \<or> gt_66 x y)) \<and> gt_66 x y = lt_66 y x \<and> ne_66 x y = (\<not> eq_66 x y)
     \<and> le_66 x y = (\<not> gt_66 x y) \<and> ge_66 x y = (\<not> lt_66 x y) \<and> (lt_66 x y \<longrightarrow> lt_66 y z \<longrightarrow> lt_66 x z)
   \<and> lt_P4 p a = gt_4P a p \<and> gt_P4 p a = lt_4P a p \<and> eq_P4 p a = eq_4P a p \<and> le_P4 p a = ge_4P a p
     \<and> ge_P4 p a = le_4P a p"
  unfolding lt_PP_def gt_PP_def eq_PP_def ne_PP_def le_PP_def ge_PP_def
    lt_44_def gt_44_def eq_44_def ne_44_def le_44_def ge_44_def
    lt_66_def gt_66_def eq_66_def ne_66_def le_66_def ge_66_def
    lt_P4_def gt_P4_def eq_P4_def le_P4_def ge_P4_def lt_4P_def gt_4P_def eq_4P_def le_4P_def ge_4P_def
  by (intro conjI lex_laws lex_mirror)

definition ex_net :: "u32 \<Rightarrow> u8 \<Rightarrow> IPPrefix" where
  "ex_net a l = \<lparr>pfx_addr = mapped a, pfx_len = l\<rparr>"

theorem prefix_order_witness:
  "lt_PP (ex_net 0x0A000000 8) (ex_net 0x0A000000 16) \<and> lt_PP (ex_net 0x0A000000 16) (ex_net 0x0A000000 24)
   \<and> lt_PP (ex_net 0x0A000000 8) (ex_net 0x0A000000 24)"
proof -
  have "lt_PP (ex_net 0x0A000000 8) (ex_net 0x0A000000 16)" "lt_PP (ex_net 0x0A000000 16) (ex_net 0x0A000000 24)"
    by (simp_all add: lt_PP_def lexLess_def ex_net_def)
  with prefix_order [of "ex_net 0x0A000000 8" "ex_net 0x0A000000 16" "ex_net 0x0A000000 24"]
  show ?thesis by blast
qed

text \<open>A dual-stack and an IPv6 prefix with the same address and different lengths are unequal but
  neither \<open><\<close> nor \<open>>\<close>: the two operators between these types test the addresses the wrong way
  round.\<close>

theorem mixed_v6_comparison_is_no_order:
  assumes "pfx_addr p = pfx6_addr q" and "pfx_len p \<noteq> pfx6_len q"
  shows "ne_P6 p q \<and> \<not> lt_P6 p q \<and> \<not> gt_P6 p q \<and> \<not> le_P6 p q \<and> \<not> ge_P6 p q"
  using assms by (simp add: ne_P6_def lt_P6_def gt_P6_def le_P6_def ge_P6_def eq_P6_def)

theorem mixed_v6_comparison_is_no_order_witness:
  "\<not> lt_P6 \<lparr>pfx_addr = 0, pfx_len = 8\<rparr> \<lparr>pfx6_addr = 0, pfx6_len = 16\<rparr>
   \<and> \<not> gt_P6 \<lparr>pfx_addr = 0, pfx_len = 8\<rparr> \<lparr>pfx6_addr = 0, pfx6_len = 16\<rparr>"
  using mixed_v6_comparison_is_no_order [of "\<lparr>pfx_addr = 0, pfx_len = 8\<rparr>" "\<lparr>pfx6_addr = 0, pfx6_len = 16\<rparr>"]
  by simp

text \<open>An IPv6 prefix built from an address and a length without keeping the host bits has length
  0 whatever length was asked for, so it contains every IPv6 prefix and address.\<close>

theorem ipv6_prefix_loses_length:
  assumes "IPv6Prefix_raw ip len False = Some p"
  shows "pfx6_len p = 0 \<and> pfx6_addr p = lead (unat len) ip
    \<and> pfx6_contains p q = Some True \<and> pfx6_containsAddr p a = Some True"
  using assms
  by (auto simp: IPv6Prefix_raw_def pfx6_addPrefixLen_def mask_eqs pfx6_contains_def pfx6_containsAddr_def
      split: if_splits)

theorem ipv6_prefix_loses_length_witness:
  "\<exists>p. IPv6Prefix_raw 0x20010DB8000000000000000000000001 64 False = Some p \<and> pfx6_len p = 0
     \<and> pfx6_containsAddr p \<lparr>addr6 = 0xFE800000000000000000000000000001\<rparr> = Some True"
proof -
  obtain p where p: "IPv6Prefix_raw 0x20010DB8000000000000000000000001 64 False = Some p"
    by (auto simp: IPv6Prefix_raw_def pfx6_addPrefixLen_def mask_eqs)
  show ?thesis
    using p ipv6_prefix_loses_length [OF p, of undefined "\<lparr>addr6 = 0xFE800000000000000000000000000001\<rparr>"]
    by blast
qed

text \<open>Building a prefix from received bytes asks \<open>readBytes\<close> for eight times the bytes the
  length needs: the behaviour is undefined for every IPv4 prefix of non-zero length and every IPv6
  prefix longer than 16 bits, whatever the buffer holds.\<close>

theorem prefix_from_bytes_overruns:
  "(0 < len \<longrightarrow> IPv4Prefix_bytes bs len False = None \<and> IPPrefix_bytes bs len IPv4 False = None)
   \<and> (16 < len \<longrightarrow> IPv6Prefix_bytes bs len False = None \<and> IPPrefix_bytes bs len IPv6 False = None)"
proof (intro conjI impI)
  assume "0 < len"
  then have "0 < unat len" by (simp add: unat_gt_0)
  then have "4 < byteCount len" unfolding byteCount_def by presburger
  then have "readBytes bs (byteCount len) = (None :: u32 option)"
    by (intro readBytes_overrun) simp_all
  then show "IPv4Prefix_bytes bs len False = None" "IPPrefix_bytes bs len IPv4 False = None"
    by (simp_all add: IPv4Prefix_bytes_def IPPrefix_bytes_def)
next
  assume "16 < len"
  then have "16 < unat len" by (simp add: word_less_nat_alt)
  then have "16 < byteCount len" unfolding byteCount_def by presburger
  then have "readBytes bs (byteCount len) = (None :: u128 option)"
    by (intro readBytes_overrun) simp_all
  then show "IPv6Prefix_bytes bs len False = None" "IPPrefix_bytes bs len IPv6 False = None"
    by (simp_all add: IPv6Prefix_bytes_def IPPrefix_bytes_def)
qed

theorem prefix_from_bytes_overruns_witness:
  "IPv4Prefix_bytes [10, 0, 0, 0, 0, 0, 0, 0] 8 False = None \<and> IPv6Prefix_bytes (replicate 64 0) 64 False = None"
  using prefix_from_bytes_overruns [of 8 "[10, 0, 0, 0, 0, 0, 0, 0]"]
    prefix_from_bytes_overruns [of 64 "replicate 64 0"] by simp

end
