(* ===== verification/BgpAttributes.thy ===== *)
theory BgpAttributes
  imports BgpSession IpAddress
begin

text \<open>
  Path attributes of BGP routes: the decoded attributes of \<open>routing/bgp/attributes/AttributeTypes.hpp\<close>
  and the manager of \<open>AttributeManager.hpp\<close> that stores every distinct attribute set and every distinct
  path once and hands out reference-counted identifiers.

  The hash maps are association lists (keys are compared by \<open>operator==\<close>), the free lists are lists
  whose last element is the back of the \<open>deque\<close>. Identifiers and reference counts are natural
  numbers: the 32-bit counters of the code agree with them as long as fewer than \<open>2 ^ 32\<close> routes refer
  to the manager.
\<close>

section \<open>Attributes\<close>

record AsPathSegment =
  segmentType :: u8
  asns :: "u32 list"

record UnknownAttribute =
  uaFlags :: u8
  uaType :: u8
  uaValue :: "u8 list"

record Aggregator =
  aggAsn :: u32
  speaker :: IPAddress

record Attributes =
  originAttr :: "u8 option"
  asPath :: "AsPathSegment list"
  as4Path :: "AsPathSegment list"
  localPref :: "u32 option"
  atomicAggregate :: bool
  med :: "u32 option"
  asAggregator :: "Aggregator option"
  as4Aggregator :: "Aggregator option"
  communities :: "u32 list"
  extendedCommunities :: "u64 list"
  largeCommunities :: "(u32 \<times> u32 \<times> u32) list"
  originatorId :: "u32 option"
  clusterList :: "u32 list"
  aigp :: "u64 option"
  unknownTransitive :: "UnknownAttribute list"

record Path =
  family :: AfiSafi
  pathNextHop :: IPAddress
  linkLocal :: "IPAddress option"
  rd :: "u64 option"

record PathAttribute =
  attrs :: Attributes
  path :: Path

definition BGP_AS_SET :: u8 where "BGP_AS_SET = 1"
definition BGP_AS_SEQUENCE :: u8 where "BGP_AS_SEQUENCE = 2"
definition BGP_AS_CONFED_SEQUENCE :: u8 where "BGP_AS_CONFED_SEQUENCE = 3"
definition BGP_AS_CONFED_SET :: u8 where "BGP_AS_CONFED_SET = 4"

definition segmentLength :: "AsPathSegment \<Rightarrow> nat" where
  "segmentLength seg =
     (if segmentType seg = BGP_AS_CONFED_SEQUENCE \<or> segmentType seg = BGP_AS_CONFED_SET then 0
      else if segmentType seg = BGP_AS_SET then (if asns seg = [] then 0 else 1)
      else length (asns seg))"

definition asPathLength :: "Attributes \<Rightarrow> nat" where
  "asPathLength a = fold (\<lambda>seg total. total + segmentLength seg) (asPath a) 0"

fun firstAsOf :: "AsPathSegment list \<Rightarrow> u32" where
  "firstAsOf [] = 0"
| "firstAsOf (seg # segs) =
     (if segmentType seg = BGP_AS_SEQUENCE \<and> asns seg \<noteq> [] then hd (asns seg) else firstAsOf segs)"

definition firstAs :: "Attributes \<Rightarrow> u32" where
  "firstAs a = firstAsOf (asPath a)"

section \<open>The attribute manager\<close>

text \<open>The manager only compares attributes and paths, so it is modelled for any types of them.\<close>

record 'a AttrEntry =
  entryAttrs :: 'a
  attrRefCount :: nat
  attrUsed :: bool

record 'p PathEntry =
  entryPath :: 'p
  entryAttrId :: nat
  pathRefCount :: nat
  pathUsed :: bool

record ('a, 'p) AttributeManager =
  attrToId :: "('a \<times> nat) list"
  idToAttr :: "'a AttrEntry list"
  freeAttrIds :: "nat list"
  pathToId :: "((nat \<times> 'p) \<times> nat) list"
  idToPath :: "'p PathEntry list"
  freePathIds :: "nat list"

definition mgr_new :: "('a, 'p) AttributeManager" where
  "mgr_new = \<lparr>attrToId = [], idToAttr = [], freeAttrIds = [], pathToId = [], idToPath = [], freePathIds = []\<rparr>"

text \<open>A slot from the free list, or a new one at the end.\<close>

definition slot :: "nat list \<Rightarrow> 'e list \<Rightarrow> nat" where
  "slot free es = (if free \<noteq> [] then last free else length es)"

definition put_slot :: "nat list \<Rightarrow> 'e \<Rightarrow> 'e list \<Rightarrow> 'e list" where
  "put_slot free e es = (if free \<noteq> [] then es[last free := e] else es @ [e])"

definition internAttr :: "'a \<Rightarrow> ('a, 'p) AttributeManager \<Rightarrow> nat \<times> ('a, 'p) AttributeManager" where
  "internAttr a m = (case al_get (attrToId m) a of
     Some i \<Rightarrow> (i, m)
   | None \<Rightarrow>
       (let i = slot (freeAttrIds m) (idToAttr m) in
        (i, m\<lparr>idToAttr := put_slot (freeAttrIds m) \<lparr>entryAttrs = a, attrRefCount = 0, attrUsed = True\<rparr> (idToAttr m),
              freeAttrIds := butlast (freeAttrIds m),
              attrToId := al_put a i (attrToId m)\<rparr>)))"

definition acquire :: "'a \<Rightarrow> 'p \<Rightarrow> ('a, 'p) AttributeManager \<Rightarrow> nat \<times> ('a, 'p) AttributeManager" where
  "acquire a p m =
     (let (attrId, m1) = internAttr a m in
      case al_get (pathToId m1) (attrId, p) of
        Some pathId \<Rightarrow>
          (pathId, m1\<lparr>idToPath := (idToPath m1)[pathId := (idToPath m1 ! pathId)
             \<lparr>pathRefCount := Suc (pathRefCount (idToPath m1 ! pathId))\<rparr>]\<rparr>)
      | None \<Rightarrow>
          (let pathId = slot (freePathIds m1) (idToPath m1);
               e = idToAttr m1 ! attrId
           in (pathId, m1\<lparr>idToAttr := (idToAttr m1)[attrId := e\<lparr>attrRefCount := Suc (attrRefCount e)\<rparr>],
                 idToPath := put_slot (freePathIds m1)
                   \<lparr>entryPath = p, entryAttrId = attrId, pathRefCount = 1, pathUsed = True\<rparr> (idToPath m1),
                 freePathIds := butlast (freePathIds m1),
                 pathToId := al_put (attrId, p) pathId (pathToId m1)\<rparr>)))"

definition retain :: "nat \<Rightarrow> ('a, 'p) AttributeManager \<Rightarrow> bool \<times> ('a, 'p) AttributeManager" where
  "retain i m =
     (if length (idToPath m) \<le> i then (False, m)
      else let e = idToPath m ! i in
        if \<not> pathUsed e then (False, m)
        else (True, m\<lparr>idToPath := (idToPath m)[i := e\<lparr>pathRefCount := Suc (pathRefCount e)\<rparr>]\<rparr>))"

definition releaseAttr :: "nat \<Rightarrow> ('a, 'p) AttributeManager \<Rightarrow> ('a, 'p) AttributeManager" where
  "releaseAttr i m =
     (if length (idToAttr m) \<le> i then m
      else let e = idToAttr m ! i in
        if \<not> attrUsed e then m
        else if attrRefCount e = 0 then m
        else let e1 = e\<lparr>attrRefCount := attrRefCount e - 1\<rparr> in
          if 0 < attrRefCount e1 then m\<lparr>idToAttr := (idToAttr m)[i := e1]\<rparr>
          else m\<lparr>attrToId := al_del (entryAttrs e) (attrToId m),
                 idToAttr := (idToAttr m)[i := e1\<lparr>attrUsed := False\<rparr>],
                 freeAttrIds := freeAttrIds m @ [i]\<rparr>)"

definition release :: "nat \<Rightarrow> ('a, 'p) AttributeManager \<Rightarrow> ('a, 'p) AttributeManager" where
  "release i m =
     (if length (idToPath m) \<le> i then m
      else let e = idToPath m ! i in
        if \<not> pathUsed e then m
        else if pathRefCount e = 0 then m
        else let e1 = e\<lparr>pathRefCount := pathRefCount e - 1\<rparr> in
          if 0 < pathRefCount e1 then m\<lparr>idToPath := (idToPath m)[i := e1]\<rparr>
          else
            (let m1 = m\<lparr>pathToId := al_del (entryAttrId e, entryPath e) (pathToId m)\<rparr>;
                 m2 = releaseAttr (entryAttrId e) m1
             in m2\<lparr>idToPath := (idToPath m2)[i := e1\<lparr>pathUsed := False\<rparr>],
                   freePathIds := freePathIds m2 @ [i]\<rparr>))"

text \<open>\<open>get\<close>: \<open>None\<close> where an assertion of the code fails.\<close>

definition mgr_get :: "nat \<Rightarrow> ('a, 'p) AttributeManager \<Rightarrow> ('a \<times> 'p) option" where
  "mgr_get i m =
     (if i < length (idToPath m) \<and> pathUsed (idToPath m ! i) \<and> entryAttrId (idToPath m ! i) < length (idToAttr m)
      then Some (entryAttrs (idToAttr m ! entryAttrId (idToPath m ! i)), entryPath (idToPath m ! i))
      else None)"

definition mgr_clear :: "('a, 'p) AttributeManager \<Rightarrow> ('a, 'p) AttributeManager" where
  "mgr_clear m = mgr_new"

section \<open>Slot tables\<close>

text \<open>Both tables of the manager have the same shape: a map from keys to slots, an array of slots with
  a key and a count where used, and the list of free slots.\<close>

definition slot_ok :: "('k \<rightharpoonup> nat) \<Rightarrow> (nat \<rightharpoonup> 'k \<times> nat) \<Rightarrow> nat list \<Rightarrow> nat \<Rightarrow> bool" where
  "slot_ok get at free len \<longleftrightarrow>
     (\<forall>k i. get k = Some i \<longleftrightarrow> (\<exists>r. at i = Some (k, r)))
   \<and> distinct free \<and> (\<forall>i. i \<in> set free \<longleftrightarrow> i < len \<and> at i = None) \<and> (\<forall>i. at i \<noteq> None \<longrightarrow> i < len)"

abbreviation slot_of :: "nat list \<Rightarrow> nat \<Rightarrow> nat" where
  "slot_of free len \<equiv> (if free \<noteq> [] then last free else len)"

lemma slot_okD: "slot_ok get at free len \<Longrightarrow> get k = Some i \<longleftrightarrow> (\<exists>r. at i = Some (k, r))"
  by (auto simp: slot_ok_def)

lemma slot_inj: "slot_ok get at free len \<Longrightarrow> at i = Some (k, r) \<Longrightarrow> at j = Some (k, q) \<Longrightarrow> i = j"
  by (metis option.inject slot_okD)

lemma slot_lt: "slot_ok get at free len \<Longrightarrow> at i = Some x \<Longrightarrow> i < len"
  unfolding slot_ok_def by (metis option.distinct(1))

lemma slot_free: "slot_ok get at free len \<Longrightarrow> i \<in> set free \<longleftrightarrow> i < len \<and> at i = None"
  unfolding slot_ok_def by blast

lemma slot_distinct: "slot_ok get at free len \<Longrightarrow> distinct free"
  unfolding slot_ok_def by blast

lemma slot_fresh: "slot_ok get at free len \<Longrightarrow> at (slot_of free len) = None"
proof (cases "free = []")
  case True
  assume "slot_ok get at free len"
  with True show ?thesis using slot_lt [of get at free len len] by (cases "at len") auto
next
  case False
  assume "slot_ok get at free len"
  with False show ?thesis using slot_free [of get at free len "last free"] by simp
qed

lemma slot_ok_add:
  assumes "slot_ok get at free len" and "get k = None"
  defines "s \<equiv> slot_of free len"
  shows "slot_ok (get(k \<mapsto> s)) (at(s \<mapsto> (k, r))) (butlast free) (if free \<noteq> [] then len else Suc len)"
proof -
  have s: "at s = None" using slot_fresh [OF assms(1)] by (simp add: s_def)
  have k: "at i \<noteq> Some (k, q)" for i q using slot_okD [OF assms(1), of k i] assms(2) by auto
  show ?thesis
  proof (cases "free = []")
    case True
    with assms(1) s k show ?thesis by (auto simp: slot_ok_def s_def less_Suc_eq)
  next
    case False
    then have f: "free = butlast free @ [s]" by (simp add: s_def)
    with assms(1) have "distinct (butlast free @ [s])" and "s < len" "\<forall>i. i \<in> set (butlast free @ [s]) \<longleftrightarrow> i < len \<and> at i = None"
      by (metis slot_ok_def) (metis f assms(1) slot_ok_def in_set_conv_decomp)+
    with False assms(1) s k show ?thesis by (auto simp: slot_ok_def)
  qed
qed

lemma slot_ok_upd: "slot_ok get at free len \<Longrightarrow> at i = Some (k, r) \<Longrightarrow> slot_ok get (at(i \<mapsto> (k, r'))) free len"
  unfolding slot_ok_def by auto

lemma slot_ok_del:
  assumes "slot_ok get at free len" and "at i = Some (k, r)"
  shows "slot_ok (get(k := None)) (at(i := None)) (free @ [i]) len"
proof -
  have k: "get k = Some i" using slot_okD [OF assms(1), of k i] assms(2) by simp
  have "(get(k := None)) k' = Some j \<longleftrightarrow> (\<exists>q. (at(i := None)) j = Some (k', q))" for k' j
  proof (cases "j = i")
    case True
    then show ?thesis using slot_okD [OF assms(1), of k' i] assms(2) by simp
  next
    case False
    then show ?thesis using slot_okD [OF assms(1), of k' j] k by auto
  qed
  moreover have "i < len" "i \<notin> set free" using slot_lt [OF assms] slot_free [OF assms(1), of i] assms(2) by auto
  moreover have "j \<in> set (free @ [i]) \<longleftrightarrow> j < len \<and> (at(i := None)) j = None" for j
    using slot_free [OF assms(1), of j] \<open>i < len\<close> by auto
  moreover have "(at(i := None)) j \<noteq> None \<Longrightarrow> j < len" for j
    using slot_lt [OF assms(1), of j] by (auto split: if_splits)
  moreover have "distinct (free @ [i])" using slot_distinct [OF assms(1)] \<open>i \<notin> set free\<close> by simp
  ultimately show ?thesis unfolding slot_ok_def by blast
qed

section \<open>The invariant\<close>

definition aslots :: "'a AttrEntry list \<Rightarrow> nat \<rightharpoonup> 'a \<times> nat" where
  "aslots es i = (if i < length es \<and> attrUsed (es ! i) then Some (entryAttrs (es ! i), attrRefCount (es ! i)) else None)"

definition pslots :: "'p PathEntry list \<Rightarrow> nat \<rightharpoonup> (nat \<times> 'p) \<times> nat" where
  "pslots es j = (if j < length es \<and> pathUsed (es ! j)
     then Some ((entryAttrId (es ! j), entryPath (es ! j)), pathRefCount (es ! j)) else None)"

abbreviation attrAt :: "('a, 'p) AttributeManager \<Rightarrow> nat \<rightharpoonup> 'a \<times> nat" where
  "attrAt m \<equiv> aslots (idToAttr m)"

abbreviation pathAt :: "('a, 'p) AttributeManager \<Rightarrow> nat \<rightharpoonup> (nat \<times> 'p) \<times> nat" where
  "pathAt m \<equiv> pslots (idToPath m)"

definition users :: "(nat \<rightharpoonup> (nat \<times> 'p) \<times> nat) \<Rightarrow> nat \<Rightarrow> nat set" where
  "users pa i = {j. \<exists>p r. pa j = Some ((i, p), r)}"

text \<open>Every path refers to a stored attribute set, path counts are positive, and the count of an
  attribute set is the number of paths that refer to it.\<close>

definition links :: "(nat \<rightharpoonup> 'a \<times> nat) \<Rightarrow> (nat \<rightharpoonup> (nat \<times> 'p) \<times> nat) \<Rightarrow> bool" where
  "links aa pa \<longleftrightarrow> (\<forall>j i p r. pa j = Some ((i, p), r) \<longrightarrow> 0 < r \<and> aa i \<noteq> None)
     \<and> (\<forall>i a r. aa i = Some (a, r) \<longrightarrow> r = card (users pa i))"

definition attr_tab :: "('a, 'p) AttributeManager \<Rightarrow> bool" where
  "attr_tab m = slot_ok (al_get (attrToId m)) (attrAt m) (freeAttrIds m) (length (idToAttr m))"

definition path_tab :: "('a, 'p) AttributeManager \<Rightarrow> bool" where
  "path_tab m = slot_ok (al_get (pathToId m)) (pathAt m) (freePathIds m) (length (idToPath m))"

definition mgr_ok :: "('a, 'p) AttributeManager \<Rightarrow> bool" where
  "mgr_ok m \<longleftrightarrow> attr_tab m \<and> path_tab m \<and> links (attrAt m) (pathAt m) \<and> (\<forall>i a r. attrAt m i = Some (a, r) \<longrightarrow> 0 < r)"

text \<open>What the manager promises: how many references are held to a pair of attributes and path.\<close>

definition refs :: "('a, 'p) AttributeManager \<Rightarrow> 'a \<times> 'p \<Rightarrow> nat" where
  "refs m ap = (case al_get (attrToId m) (fst ap) of None \<Rightarrow> 0
     | Some i \<Rightarrow> (case al_get (pathToId m) (i, snd ap) of None \<Rightarrow> 0
         | Some j \<Rightarrow> pathRefCount (idToPath m ! j)))"

section \<open>Operations on the slot functions\<close>

lemma al_get_put_fun: "al_get (al_put k v t) = (al_get t)(k \<mapsto> v)"
  by (rule ext) simp

lemma al_get_del_fun: "al_get (al_del k t) = (al_get t)(k := None)"
  by (rule ext) simp

lemma attrAt_add:
  assumes "attr_tab m"
  shows "aslots (put_slot (freeAttrIds m) \<lparr>entryAttrs = a, attrRefCount = r, attrUsed = True\<rparr> (idToAttr m))
    = (attrAt m)(slot (freeAttrIds m) (idToAttr m) \<mapsto> (a, r))"
proof -
  have "last (freeAttrIds m) < length (idToAttr m)" if "freeAttrIds m \<noteq> []"
    using slot_free [OF assms [unfolded attr_tab_def], of "last (freeAttrIds m)"] that by simp
  then show ?thesis
    by (rule_tac ext) (auto simp: aslots_def put_slot_def slot_def nth_append nth_list_update less_Suc_eq)
qed

lemma pathAt_add:
  assumes "path_tab m"
  shows "pslots (put_slot (freePathIds m) \<lparr>entryPath = p, entryAttrId = i, pathRefCount = r, pathUsed = True\<rparr> (idToPath m))
    = (pathAt m)(slot (freePathIds m) (idToPath m) \<mapsto> ((i, p), r))"
proof -
  have "last (freePathIds m) < length (idToPath m)" if "freePathIds m \<noteq> []"
    using slot_free [OF assms [unfolded path_tab_def], of "last (freePathIds m)"] that by simp
  then show ?thesis
    by (rule_tac ext) (auto simp: pslots_def put_slot_def slot_def nth_append nth_list_update less_Suc_eq)
qed

lemma aslots_upd: "aslots es i = Some (a, r) \<Longrightarrow>
    aslots (es[i := (es ! i)\<lparr>attrRefCount := r'\<rparr>]) = (aslots es)(i \<mapsto> (a, r'))"
  by (rule ext) (auto simp: aslots_def nth_list_update split: if_splits)

lemma pslots_upd: "pslots es j = Some (k, r) \<Longrightarrow>
    pslots (es[j := (es ! j)\<lparr>pathRefCount := r'\<rparr>]) = (pslots es)(j \<mapsto> (k, r'))"
  by (rule ext) (auto simp: pslots_def nth_list_update split: if_splits)

lemma aslots_free: "aslots es i = Some (a, r) \<Longrightarrow>
    aslots (es[i := (es ! i)\<lparr>attrRefCount := r', attrUsed := False\<rparr>]) = (aslots es)(i := None)"
  by (rule ext) (auto simp: aslots_def nth_list_update split: if_splits)

lemma pslots_free: "pslots es j = Some (k, r) \<Longrightarrow>
    pslots (es[j := (es ! j)\<lparr>pathRefCount := r', pathUsed := False\<rparr>]) = (pslots es)(j := None)"
  by (rule ext) (auto simp: pslots_def nth_list_update split: if_splits)

lemma length_put_slot: "length (put_slot free e es) = (if free \<noteq> [] then length es else Suc (length es))"
  by (simp add: put_slot_def)

lemma finite_users: "path_tab m \<Longrightarrow> finite (users (pathAt m) i)"
  by (rule finite_subset [of _ "{..<length (idToPath m)}"]) (auto simp: users_def path_tab_def slot_ok_def)

text \<open>Interning an attribute set: afterwards it has a slot, nothing else changed.\<close>

lemma internAttr_spec:
  assumes "attr_tab m" "links (attrAt m) (pathAt m)" "internAttr a m = (i, m1)"
  shows "attr_tab m1" "\<exists>r. attrAt m1 i = Some (a, r)" "pathAt m1 = pathAt m" "pathToId m1 = pathToId m"
    "idToPath m1 = idToPath m" "freePathIds m1 = freePathIds m" "links (attrAt m1) (pathAt m)"
    "\<forall>i'. attrAt m i' \<noteq> None \<longrightarrow> attrAt m1 i' = attrAt m i'" "\<forall>i'. i' \<noteq> i \<longrightarrow> attrAt m1 i' = attrAt m i'"
proof -
  let ?s = "slot (freeAttrIds m) (idToAttr m)"
  have s: "?s = slot_of (freeAttrIds m) (length (idToAttr m))" by (simp add: slot_def)
  have fresh: "attrAt m ?s = None" using slot_fresh assms(1) unfolding attr_tab_def s .
  have "attr_tab m1 \<and> (\<exists>r. attrAt m1 i = Some (a, r)) \<and> pathAt m1 = pathAt m \<and> pathToId m1 = pathToId m
    \<and> idToPath m1 = idToPath m \<and> freePathIds m1 = freePathIds m \<and> links (attrAt m1) (pathAt m)
    \<and> (\<forall>i'. attrAt m i' \<noteq> None \<longrightarrow> attrAt m1 i' = attrAt m i') \<and> (\<forall>i'. i' \<noteq> i \<longrightarrow> attrAt m1 i' = attrAt m i')"
  proof (cases "al_get (attrToId m) a")
    case (Some j)
    moreover from this have "\<exists>r. attrAt m j = Some (a, r)"
      using slot_okD assms(1) unfolding attr_tab_def by metis
    ultimately show ?thesis using assms by (auto simp: internAttr_def)
  next
    case None
    with assms(3) have i: "i = ?s" and m1: "m1 = m\<lparr>idToAttr := put_slot (freeAttrIds m)
        \<lparr>entryAttrs = a, attrRefCount = 0, attrUsed = True\<rparr> (idToAttr m),
        freeAttrIds := butlast (freeAttrIds m), attrToId := al_put a i (attrToId m)\<rparr>"
      by (auto simp: internAttr_def Let_def)
    have at: "attrAt m1 = (attrAt m)(i \<mapsto> (a, 0))"
      using attrAt_add [OF assms(1), of a 0] by (simp add: m1 i)
    have "slot_ok ((al_get (attrToId m))(a \<mapsto> i)) ((attrAt m)(i \<mapsto> (a, 0))) (butlast (freeAttrIds m))
        (if freeAttrIds m \<noteq> [] then length (idToAttr m) else Suc (length (idToAttr m)))"
      unfolding i s using assms(1) None unfolding attr_tab_def by (rule slot_ok_add)
    then have tab: "attr_tab m1" unfolding attr_tab_def at by (simp add: m1 al_get_put_fun length_put_slot)
    have none: "users (pathAt m) i = {}"
      using assms(2) fresh i unfolding users_def links_def by blast
    have "links (attrAt m1) (pathAt m)"
      using assms(2) none unfolding at links_def by auto
    with tab at fresh show ?thesis by (auto simp: i m1)
  qed
  then show "attr_tab m1" "\<exists>r. attrAt m1 i = Some (a, r)" "pathAt m1 = pathAt m" "pathToId m1 = pathToId m"
    "idToPath m1 = idToPath m" "freePathIds m1 = freePathIds m" "links (attrAt m1) (pathAt m)"
    "\<forall>i'. attrAt m i' \<noteq> None \<longrightarrow> attrAt m1 i' = attrAt m i'" "\<forall>i'. i' \<noteq> i \<longrightarrow> attrAt m1 i' = attrAt m i'"
    by blast+
qed

text \<open>What a client sees: for every identifier handed out the attributes, the path and the count.\<close>

definition view :: "('a, 'p) AttributeManager \<Rightarrow> nat \<rightharpoonup> ('a \<times> 'p) \<times> nat" where
  "view m j = (case pathAt m j of None \<Rightarrow> None
     | Some ((i, p), r) \<Rightarrow> map_option (\<lambda>(a, _). ((a, p), r)) (attrAt m i))"

lemma mgr_okD:
  assumes "mgr_ok m"
  shows "attr_tab m" "path_tab m" "links (attrAt m) (pathAt m)" "attrAt m i = Some (a, r) \<Longrightarrow> 0 < r"
  using assms unfolding mgr_ok_def by blast+

lemma path_attr: "mgr_ok m \<Longrightarrow> pathAt m j = Some ((i, p), r) \<Longrightarrow> \<exists>a q. attrAt m i = Some (a, q)"
  unfolding mgr_ok_def links_def by (metis option.exhaust prod.exhaust)

lemma view_Some: "view m j = Some ((a, p), r) \<longleftrightarrow> (\<exists>i q. pathAt m j = Some ((i, p), r) \<and> attrAt m i = Some (a, q))"
  by (auto simp: view_def split: option.splits)

lemma view_None: "mgr_ok m \<Longrightarrow> view m j = None \<longleftrightarrow> pathAt m j = None"
  using path_attr [of m j] by (fastforce simp: view_def split: option.splits)

lemma mgr_get_view: "mgr_ok m \<Longrightarrow> mgr_get j m = map_option fst (view m j)"
proof (cases "pathAt m j")
  case None
  then show ?thesis by (auto simp: mgr_get_def view_def pslots_def split: if_splits)
next
  case (Some x)
  assume ok: "mgr_ok m"
  obtain i p r where x: "x = ((i, p), r)" by (metis prod.exhaust)
  obtain a q where a: "attrAt m i = Some (a, q)" using path_attr [OF ok Some [unfolded x]] by blast
  with Some x show ?thesis
    by (auto simp: mgr_get_def view_def pslots_def aslots_def split: if_splits)
qed

lemma view_inj:
  assumes "mgr_ok m" "view m j = Some (ap, r)" "view m j' = Some (ap, r')"
  shows "j = j'"
proof -
  obtain a p where ap: "ap = (a, p)" by (cases ap)
  from assms(2) obtain i q where i: "pathAt m j = Some ((i, p), r)" "attrAt m i = Some (a, q)"
    by (auto simp: view_Some ap)
  from assms(3) obtain i' q' where i': "pathAt m j' = Some ((i', p), r')" "attrAt m i' = Some (a, q')"
    by (auto simp: view_Some ap)
  have "i = i'" using slot_inj [OF mgr_okD(1) [OF assms(1), unfolded attr_tab_def] i(2) i'(2)] .
  with slot_inj [OF mgr_okD(2) [OF assms(1), unfolded path_tab_def] i(1)] i'(1) show ?thesis by blast
qed

lemma refs_view:
  assumes "mgr_ok m"
  shows "view m j = Some (ap, r) \<Longrightarrow> refs m ap = r"
    and "(\<And>j r. view m j \<noteq> Some (ap, r)) \<Longrightarrow> refs m ap = 0"
proof -
  obtain a p where ap: "ap = (a, p)" by (cases ap)
  note at = slot_okD [OF mgr_okD(1) [OF assms, unfolded attr_tab_def]]
  note pt = slot_okD [OF mgr_okD(2) [OF assms, unfolded path_tab_def]]
  show "refs m ap = r" if v: "view m j = Some (ap, r)"
  proof -
    from v obtain i q where i: "pathAt m j = Some ((i, p), r)" "attrAt m i = Some (a, q)"
      by (auto simp: view_Some ap)
    then have "al_get (attrToId m) a = Some i" "al_get (pathToId m) (i, p) = Some j" using at pt by blast+
    with i show ?thesis by (simp add: refs_def ap pslots_def split: if_splits)
  qed
  show "refs m ap = 0" if "\<And>j r. view m j \<noteq> Some (ap, r)"
  proof -
    have "al_get (pathToId m) (i, p) = None" if "al_get (attrToId m) a = Some i" for i
      using that \<open>\<And>j r. view m j \<noteq> Some (ap, r)\<close> at pt
      by (cases "al_get (pathToId m) (i, p)") (auto simp: view_Some ap)
    then show ?thesis by (simp add: refs_def ap split: option.splits)
  qed
qed

lemma refs_upd:
  assumes "mgr_ok m" "mgr_ok m'" and v: "view m' = (view m)(j := x)"
    and x: "x = None \<or> (\<exists>r. x = Some (ap, r))" and old: "view m j = None \<or> (\<exists>r. view m j = Some (ap, r))"
    and one: "x \<noteq> None \<or> view m j \<noteq> None"
  shows "refs m' = (refs m)(ap := (case x of None \<Rightarrow> 0 | Some y \<Rightarrow> snd y))"
proof (rule ext)
  fix bq
  show "refs m' bq = ((refs m)(ap := (case x of None \<Rightarrow> 0 | Some y \<Rightarrow> snd y))) bq"
  proof (cases "bq = ap")
    case True
    show ?thesis
    proof (cases x)
      case None
      then have "view m' k \<noteq> Some (ap, r)" for k r
        using v one old view_inj [OF assms(1), of k ap r j] by (auto split: if_splits)
      with None True show ?thesis using refs_view(2) [OF assms(2)] by simp
    next
      case (Some y)
      with x v have "view m' j = Some (ap, snd y)" by auto
      with Some True show ?thesis using refs_view(1) [OF assms(2)] by simp
    qed
  next
    case False
    show ?thesis
    proof (cases "\<exists>k r. view m k = Some (bq, r)")
      case True
      then obtain k r where k: "view m k = Some (bq, r)" by blast
      with False old have "k \<noteq> j" by auto
      with k v have "view m' k = Some (bq, r)" by simp
      with k False show ?thesis using refs_view(1) [OF assms(1)] refs_view(1) [OF assms(2)] by simp
    next
      case none: False
      then have "view m' k \<noteq> Some (bq, r)" for k r using v x False by (auto split: if_splits)
      with none False show ?thesis using refs_view(2) [OF assms(1)] refs_view(2) [OF assms(2)] by simp
    qed
  qed
qed

section \<open>Each operation on the invariant and the view\<close>

lemma users_upd_same: "pa j = Some ((i, p), r) \<Longrightarrow> users (pa(j \<mapsto> ((i, p), r'))) = users pa"
  by (auto simp: users_def fun_eq_iff)

lemma links_upd_count:
  "links aa pa \<Longrightarrow> pa j = Some ((i, p), r) \<Longrightarrow> 0 < r' \<Longrightarrow> links aa (pa(j \<mapsto> ((i, p), r')))"
  by (auto simp: links_def users_upd_same)

text \<open>A change of one path count, by \<open>retain\<close>, \<open>release\<close> or a repeated \<open>acquire\<close>.\<close>

lemma count_change:
  assumes "mgr_ok m" "pathAt m j = Some ((i, p), r)" "0 < r'"
  defines "m' \<equiv> m\<lparr>idToPath := (idToPath m)[j := (idToPath m ! j)\<lparr>pathRefCount := r'\<rparr>]\<rparr>"
  shows "mgr_ok m'" "\<exists>a. view m j = Some ((a, p), r) \<and> view m' = (view m)(j \<mapsto> ((a, p), r'))"
proof -
  have pa: "pathAt m' = (pathAt m)(j \<mapsto> ((i, p), r'))" using pslots_upd [OF assms(2)] by (simp add: m'_def)
  have aa: "attrAt m' = attrAt m" by (simp add: m'_def)
  have "path_tab m'"
    using slot_ok_upd [OF mgr_okD(2) [OF assms(1), unfolded path_tab_def] assms(2)]
    unfolding path_tab_def pa by (simp add: m'_def)
  moreover have "attr_tab m'" using mgr_okD(1) [OF assms(1)] by (simp add: attr_tab_def aa) (simp add: m'_def)
  moreover have "links (attrAt m') (pathAt m')"
    unfolding aa pa by (rule links_upd_count [OF mgr_okD(3) [OF assms(1)] assms(2,3)])
  ultimately show "mgr_ok m'" using mgr_okD(4) [OF assms(1)] unfolding mgr_ok_def aa by blast
  obtain a q where "attrAt m i = Some (a, q)" using path_attr [OF assms(1,2)] by blast
  then show "\<exists>a. view m j = Some ((a, p), r) \<and> view m' = (view m)(j \<mapsto> ((a, p), r'))"
    using assms(2) unfolding view_def [abs_def] aa pa by (intro exI [of _ a]) (auto simp: fun_eq_iff)
qed

lemma acquire_new:
  assumes "mgr_ok m" "internAttr a m = (i, m1)" "al_get (pathToId m1) (i, p) = None"
    and "acquire a p m = (j, m')"
  shows "mgr_ok m' \<and> view m j = None \<and> view m' = (view m)(j \<mapsto> ((a, p), 1))"
proof -
  note I = internAttr_spec [OF mgr_okD(1,3) [OF assms(1)] assms(2)]
  obtain q where q: "attrAt m1 i = Some (a, q)" using I(2) by blast
  have j: "j = slot (freePathIds m1) (idToPath m1)"
    and m': "m' = m1\<lparr>idToAttr := (idToAttr m1)[i := (idToAttr m1 ! i)\<lparr>attrRefCount := Suc (attrRefCount (idToAttr m1 ! i))\<rparr>],
      idToPath := put_slot (freePathIds m1) \<lparr>entryPath = p, entryAttrId = i, pathRefCount = 1, pathUsed = True\<rparr> (idToPath m1),
      freePathIds := butlast (freePathIds m1), pathToId := al_put (i, p) j (pathToId m1)\<rparr>"
    using assms(2-4) by (auto simp: acquire_def Let_def)
  have q': "attrRefCount (idToAttr m1 ! i) = q" using q by (simp add: aslots_def split: if_splits)
  have pt1: "path_tab m1" using mgr_okD(2) [OF assms(1)] I by (simp add: path_tab_def)
  have aa: "attrAt m' = (attrAt m1)(i \<mapsto> (a, Suc q))" using aslots_upd [OF q, of "Suc q"] by (simp add: m' q')
  have pa: "pathAt m' = (pathAt m)(j \<mapsto> ((i, p), 1))"
    using pathAt_add [OF pt1, of p i 1] I(3) by (simp add: m' j)
  have s: "j = slot_of (freePathIds m1) (length (idToPath m1))" by (simp add: j slot_def)
  have fresh: "pathAt m j = None" using slot_fresh pt1 I(3) unfolding path_tab_def s by metis
  have "path_tab m'"
    using slot_ok_add [OF pt1 [unfolded path_tab_def] assms(3), of 1] I(3)
    unfolding path_tab_def pa s by (simp add: m' al_get_put_fun length_put_slot s)
  moreover have "attr_tab m'"
    using slot_ok_upd [OF I(1) [unfolded attr_tab_def] q] unfolding attr_tab_def aa by (simp add: m')
  moreover have us: "users (pathAt m') k = (if k = i then {j} \<union> users (pathAt m) k else users (pathAt m) k)" for k
    using fresh by (auto simp: users_def pa)
  then have "links (attrAt m') (pathAt m')"
    using I(7) q fresh finite_users [OF mgr_okD(2) [OF assms(1)]]
    unfolding links_def aa by (auto simp: pa us users_def card_insert_if split: if_splits)
  moreover have "0 < r" if "attrAt m' k = Some (b, r)" for k b r
    using that mgr_okD(4) [OF assms(1)] I(9) unfolding aa by (auto split: if_splits)
  ultimately have ok: "mgr_ok m'" unfolding mgr_ok_def by blast
  have "view m' k = ((view m)(j \<mapsto> ((a, p), 1))) k" for k
  proof (cases "k = j")
    case True
    then show ?thesis by (simp add: view_def aa pa)
  next
    case False
    have "attrAt m' l = attrAt m l \<or> (\<exists>c. map_option fst (attrAt m l) = Some c \<and> map_option fst (attrAt m' l) = Some c)"
      if "pathAt m k = Some ((l, x), y)" for l x y
      using path_attr [OF assms(1) that] I(8) q unfolding aa by fastforce
    with False show ?thesis by (auto simp: view_def pa split: option.splits)
  qed
  with ok fresh show ?thesis by (auto simp: view_def fun_eq_iff)
qed

lemma acquire_spec:
  assumes "mgr_ok m" "acquire a p m = (j, m')"
  shows "mgr_ok m' \<and> (\<exists>r. (view m j = None \<and> r = 0 \<or> view m j = Some ((a, p), r))
    \<and> view m' = (view m)(j \<mapsto> ((a, p), Suc r)))"
proof -
  obtain i m1 where in1: "internAttr a m = (i, m1)" by (metis prod.exhaust)
  note I = internAttr_spec [OF mgr_okD(1,3) [OF assms(1)] in1]
  show ?thesis
  proof (cases "al_get (pathToId m1) (i, p)")
    case None
    with acquire_new [OF assms(1) in1 _ assms(2)] show ?thesis by auto
  next
    case (Some k)
    obtain q where q: "attrAt m1 i = Some (a, q)" using I(2) by blast
    have "\<exists>r. pathAt m k = Some ((i, p), r)"
      using Some slot_okD [OF mgr_okD(2) [OF assms(1), unfolded path_tab_def]] I(4) by simp
    then obtain r where r: "pathAt m k = Some ((i, p), r)" by blast
    then obtain b q' where b: "attrAt m i = Some (b, q')" using path_attr [OF assms(1)] by blast
    with I(8) q have ba: "attrAt m i = Some (a, q)" by auto
    with I(1) mgr_okD(1) [OF assms(1)] have "al_get (attrToId m) a = Some i"
      using slot_okD unfolding attr_tab_def by metis
    with in1 have mm: "m1 = m" by (simp add: internAttr_def)
    have jm: "j = k" "m' = m\<lparr>idToPath := (idToPath m)[k := (idToPath m ! k)
        \<lparr>pathRefCount := Suc (pathRefCount (idToPath m ! k))\<rparr>]\<rparr>"
      using assms(2) in1 Some by (auto simp: acquire_def mm)
    have rr: "pathRefCount (idToPath m ! k) = r" using r by (simp add: pslots_def split: if_splits)
    from count_change [OF assms(1) r, of "Suc r"] r ba show ?thesis
      by (auto simp: jm rr view_Some)
  qed
qed

lemma retain_spec:
  assumes "mgr_ok m"
  shows "mgr_ok (snd (retain j m)) \<and> (case view m j of
      None \<Rightarrow> retain j m = (False, m)
    | Some (ap, r) \<Rightarrow> fst (retain j m) \<and> view (snd (retain j m)) = (view m)(j \<mapsto> (ap, Suc r)))"
proof (cases "pathAt m j")
  case None
  then have "retain j m = (False, m)" by (auto simp: retain_def pslots_def Let_def split: if_splits)
  with None assms show ?thesis by (simp add: view_None [OF assms, THEN iffD2])
next
  case (Some x)
  obtain i p r where x: "x = ((i, p), r)" by (metis prod.exhaust)
  note Some = Some [unfolded x]
  have "retain j m = (True, m\<lparr>idToPath := (idToPath m)[j := (idToPath m ! j)\<lparr>pathRefCount := Suc r\<rparr>]\<rparr>)"
    using Some by (auto simp: retain_def pslots_def Let_def split: if_splits)
  with count_change [OF assms Some, of "Suc r"] show ?thesis by (auto split: option.splits)
qed

text \<open>Giving up the last reference of a path.\<close>

lemma releaseAttr_spec:
  assumes "attr_tab m" "attrAt m i = Some (a, q)" "0 < q"
  shows "attr_tab (releaseAttr i m)" "pathToId (releaseAttr i m) = pathToId m"
    "idToPath (releaseAttr i m) = idToPath m" "freePathIds (releaseAttr i m) = freePathIds m"
    "attrAt (releaseAttr i m) = (attrAt m)(i := (if q = 1 then None else Some (a, q - 1)))"
proof -
  have e: "i < length (idToAttr m)" "attrUsed (idToAttr m ! i)" "entryAttrs (idToAttr m ! i) = a"
    "attrRefCount (idToAttr m ! i) = q" using assms(2) by (auto simp: aslots_def split: if_splits)
  have "attr_tab (releaseAttr i m) \<and> pathToId (releaseAttr i m) = pathToId m
    \<and> idToPath (releaseAttr i m) = idToPath m \<and> freePathIds (releaseAttr i m) = freePathIds m
    \<and> attrAt (releaseAttr i m) = (attrAt m)(i := (if q = 1 then None else Some (a, q - 1)))"
  proof (cases "q = 1")
    case True
    then have m': "releaseAttr i m = m\<lparr>attrToId := al_del a (attrToId m),
        idToAttr := (idToAttr m)[i := (idToAttr m ! i)\<lparr>attrRefCount := 0, attrUsed := False\<rparr>],
        freeAttrIds := freeAttrIds m @ [i]\<rparr>"
      using e by (simp add: releaseAttr_def Let_def)
    show ?thesis
      using slot_ok_del [OF assms(1) [unfolded attr_tab_def] assms(2)] True aslots_free [OF assms(2), of 0]
      by (simp add: m' attr_tab_def al_get_del_fun)
  next
    case False
    then have m': "releaseAttr i m = m\<lparr>idToAttr := (idToAttr m)[i := (idToAttr m ! i)\<lparr>attrRefCount := q - 1\<rparr>]\<rparr>"
      using e assms(3) by (simp add: releaseAttr_def Let_def)
    show ?thesis
      using slot_ok_upd [OF assms(1) [unfolded attr_tab_def] assms(2), of "q - 1"] False
        aslots_upd [OF assms(2), of "q - 1"]
      by (simp add: m' attr_tab_def)
  qed
  then show "attr_tab (releaseAttr i m)" "pathToId (releaseAttr i m) = pathToId m"
    "idToPath (releaseAttr i m) = idToPath m" "freePathIds (releaseAttr i m) = freePathIds m"
    "attrAt (releaseAttr i m) = (attrAt m)(i := (if q = 1 then None else Some (a, q - 1)))" by blast+
qed

lemma release_last:
  assumes "mgr_ok m" "pathAt m j = Some ((i, p), 1)"
  shows "mgr_ok (release j m) \<and> view (release j m) = (view m)(j := None)"
proof -
  obtain a q where q: "attrAt m i = Some (a, q)" using path_attr [OF assms] by blast
  have q0: "0 < q" by (rule mgr_okD(4) [OF assms(1) q])
  define m1 where "m1 = m\<lparr>pathToId := al_del (i, p) (pathToId m)\<rparr>"
  have at1: "attr_tab m1" "attrAt m1 i = Some (a, q)"
    using mgr_okD(1) [OF assms(1)] q by (simp_all add: m1_def attr_tab_def)
  note R = releaseAttr_spec [OF at1 q0]
  let ?m2 = "releaseAttr i m1" and ?m' = "release j m"
  have m': "?m' = ?m2\<lparr>idToPath := (idToPath m)[j := (idToPath m ! j)\<lparr>pathRefCount := 0, pathUsed := False\<rparr>],
      freePathIds := freePathIds m @ [j]\<rparr>"
    using assms(2) R(3,4) by (auto simp: release_def Let_def pslots_def m1_def split: if_splits)
  have pa: "pathAt ?m' = (pathAt m)(j := None)" using pslots_free [OF assms(2), of 0] by (simp add: m')
  have aa: "attrAt ?m' = (attrAt m)(i := (if q = 1 then None else Some (a, q - 1)))"
    using R(5) by (simp add: m' m1_def)
  have "path_tab ?m'"
    using slot_ok_del [OF mgr_okD(2) [OF assms(1), unfolded path_tab_def] assms(2)] R(2)
    unfolding path_tab_def pa by (simp add: m' m1_def al_get_del_fun)
  moreover have "attr_tab ?m'" using R(1) by (simp add: attr_tab_def m')
  moreover have us: "users (pathAt ?m') k = (if k = i then users (pathAt m) k - {j} else users (pathAt m) k)" for k
    using assms(2) by (auto simp: users_def pa)
  have ju: "j \<in> users (pathAt m) i" using assms(2) by (auto simp: users_def)
  have L: "links (attrAt m) (pathAt m)" by (rule mgr_okD(3) [OF assms(1)])
  then have cq: "q = card (users (pathAt m) i)" using q by (auto simp: links_def)
  have only: "k = j" if "q = 1" "pathAt m k = Some ((i, x), y)" for k x y
  proof -
    have "k \<in> users (pathAt m) i" using that by (auto simp: users_def)
    with ju cq that(1) show ?thesis by (metis card_1_singletonE singletonD)
  qed
  have "links (attrAt ?m') (pathAt ?m')"
    unfolding links_def
  proof (intro conjI allI impI)
    fix k l x y assume k: "pathAt ?m' k = Some ((l, x), y)"
    then have k': "k \<noteq> j" "pathAt m k = Some ((l, x), y)" by (auto simp: pa split: if_splits)
    with L show "0 < y" by (auto simp: links_def)
    from L k'(2) have "attrAt m l \<noteq> None" by (auto simp: links_def)
    moreover have "l \<noteq> i" if "q = 1" using only that k' by blast
    ultimately show "attrAt ?m' l \<noteq> None" by (auto simp: aa)
  next
    fix l b y assume "attrAt ?m' l = Some (b, y)"
    then show "y = card (users (pathAt ?m') l)"
      using L cq ju finite_users [OF mgr_okD(2) [OF assms(1)], of i] unfolding us aa
      by (auto simp: links_def split: if_splits)
  qed
  moreover have "0 < y" if "attrAt ?m' l = Some (b, y)" for l b y
    using that mgr_okD(4) [OF assms(1)] q0 by (auto simp: aa split: if_splits)
  ultimately have "mgr_ok ?m'" unfolding mgr_ok_def by blast
  moreover have "view ?m' k = ((view m)(j := None)) k" for k
    using only q by (auto simp: view_def pa aa split: option.splits)
  ultimately show ?thesis by blast
qed

lemma release_spec:
  assumes "mgr_ok m"
  shows "mgr_ok (release j m) \<and> (case view m j of
      None \<Rightarrow> release j m = m
    | Some (ap, r) \<Rightarrow> view (release j m) = (view m)(j := (if r = 1 then None else Some (ap, r - 1))))"
proof (cases "pathAt m j")
  case None
  then have "release j m = m" by (auto simp: release_def pslots_def Let_def split: if_splits)
  with None assms show ?thesis by (simp add: view_None [OF assms, THEN iffD2])
next
  case (Some x)
  obtain i p r where x: "x = ((i, p), r)" by (metis prod.exhaust)
  note Some = Some [unfolded x]
  have r: "0 < r" using mgr_okD(3) [OF assms] Some by (auto simp: links_def)
  obtain a q where "attrAt m i = Some (a, q)" using path_attr [OF assms Some] by blast
  with Some have v: "view m j = Some ((a, p), r)" by (auto simp: view_Some)
  show ?thesis
  proof (cases "r = 1")
    case True
    with release_last [OF assms, of j i p] Some v show ?thesis by simp
  next
    case False
    then have "release j m = m\<lparr>idToPath := (idToPath m)[j := (idToPath m ! j)\<lparr>pathRefCount := r - 1\<rparr>]\<rparr>"
      using Some r by (auto simp: release_def pslots_def Let_def split: if_splits)
    with count_change [OF assms Some, of "r - 1"] v False r show ?thesis by auto
  qed
qed

section \<open>Properties\<close>

datatype ('a, 'p) mgrOp = Acquire 'a 'p | Retain nat | Release nat | Clear

fun mgr_op :: "('a, 'p) mgrOp \<Rightarrow> ('a, 'p) AttributeManager \<Rightarrow> ('a, 'p) AttributeManager" where
  "mgr_op (Acquire a p) m = snd (acquire a p m)"
| "mgr_op (Retain j) m = snd (retain j m)"
| "mgr_op (Release j) m = release j m"
| "mgr_op Clear m = mgr_clear m"

definition mgr_run :: "('a, 'p) mgrOp list \<Rightarrow> ('a, 'p) AttributeManager" where
  "mgr_run ops = fold mgr_op ops mgr_new"

lemma mgr_new_ok: "mgr_ok mgr_new"
  by (auto simp: mgr_ok_def mgr_new_def attr_tab_def path_tab_def slot_ok_def links_def aslots_def pslots_def)

lemma acquire_ok: "mgr_ok m \<Longrightarrow> mgr_ok (snd (acquire a p m))"
  using acquire_spec [of m a p "fst (acquire a p m)" "snd (acquire a p m)"] by simp

lemma mgr_op_ok: "mgr_ok m \<Longrightarrow> mgr_ok (mgr_op op m)"
  using retain_spec [of m] release_spec [of m] by (cases op) (auto simp: mgr_clear_def mgr_new_ok acquire_ok)

lemma mgr_run_ok: "mgr_ok (mgr_run ops)"
proof -
  have "mgr_ok m \<Longrightarrow> mgr_ok (fold mgr_op ops m)" for m :: "('a, 'b) AttributeManager"
    by (induction ops arbitrary: m) (simp_all add: mgr_op_ok)
  then show ?thesis by (simp add: mgr_run_def mgr_new_ok)
qed

lemma mgr_get_Some: "mgr_ok m \<Longrightarrow> mgr_get j m = Some ap \<longleftrightarrow> view m j = Some (ap, refs m ap)"
  using refs_view(1) [of m j] by (cases "view m j") (auto simp: mgr_get_view)

lemma acquire_refs:
  assumes "mgr_ok m" "acquire a p m = (j, m')"
  shows "mgr_get j m' = Some (a, p)" "refs m' = (refs m)((a, p) := Suc (refs m (a, p)))"
    "mgr_get k m \<noteq> None \<Longrightarrow> mgr_get k m' = mgr_get k m"
proof -
  from acquire_spec [OF assms] obtain r where ok: "mgr_ok m'"
    and old: "view m j = None \<and> r = 0 \<or> view m j = Some ((a, p), r)"
    and v: "view m' = (view m)(j \<mapsto> ((a, p), Suc r))" by blast
  show "mgr_get j m' = Some (a, p)" by (simp add: mgr_get_view [OF ok] v)
  show "mgr_get k m' = mgr_get k m" if "mgr_get k m \<noteq> None"
    using that old by (auto simp: mgr_get_view [OF ok] mgr_get_view [OF assms(1)] v)
  have "refs m (a, p) = r"
    using old
  proof
    assume "view m j = Some ((a, p), r)"
    then show ?thesis by (rule refs_view(1) [OF assms(1)])
  next
    assume o0: "view m j = None \<and> r = 0"
    have "view m k \<noteq> Some ((a, p), r')" for k r'
    proof
      assume k: "view m k = Some ((a, p), r')"
      with o0 have "k \<noteq> j" by auto
      with k v have "view m' k = Some ((a, p), r')" "view m' j = Some ((a, p), Suc r)" by auto
      from view_inj [OF ok this] \<open>k \<noteq> j\<close> show False by simp
    qed
    then show ?thesis using refs_view(2) [OF assms(1)] o0 by simp
  qed
  with refs_upd [OF assms(1) ok v, of "(a, p)"] old
  show "refs m' = (refs m)((a, p) := Suc (refs m (a, p)))" by auto
qed

lemma release_refs:
  assumes "mgr_ok m" "mgr_get j m = Some ap"
  shows "refs (release j m) = (refs m)(ap := refs m ap - 1)"
    "mgr_get j (release j m) = (if refs m ap = 1 then None else Some ap)"
    "k \<noteq> j \<Longrightarrow> mgr_get k (release j m) = mgr_get k m"
proof -
  let ?r = "refs m ap"
  have v: "view m j = Some (ap, ?r)" using assms mgr_get_Some by blast
  then have ok: "mgr_ok (release j m)"
    and v': "view (release j m) = (view m)(j := (if ?r = 1 then None else Some (ap, ?r - 1)))"
    using release_spec [OF assms(1), of j] by auto
  show "refs (release j m) = (refs m)(ap := refs m ap - 1)"
    using refs_upd [OF assms(1) ok v', of ap] v by (auto split: if_splits)
  show "mgr_get j (release j m) = (if ?r = 1 then None else Some ap)"
    "k \<noteq> j \<Longrightarrow> mgr_get k (release j m) = mgr_get k m"
    by (auto simp: mgr_get_view [OF ok] mgr_get_view [OF assms(1)] v')
qed




end
