(* ===== verification/BgpUpdate.thy ===== *)
theory BgpUpdate
  imports BgpCapabilities BgpAttributes
begin

text \<open>
  The contents of BGP UPDATE messages: the path attributes as \<open>BgpTx::appendPathAttrs\<close> writes and \<open>BgpRx::parsePathAttributes\<close>
  reads them, and the reconstruction of paths with 4-byte numbers.

  A pointer into a message is the list of bytes from there to the end of the receive buffer, so that a read behind the
  attribute gives the bytes that follow and one behind the buffer is \<open>None\<close>. The parser returns the notification of the error or the
  update; the flags it sets and never reads are left out. A \<open>std::span\<close> into the message is such a pointer with the number of its bytes,
  a \<open>size_t\<close> that wraps around.
\<close>

section \<open>Updates\<close>

record Notification =
  notif_code :: u16
  notif_data :: "u8 list"

abbreviation err :: "u16 \<Rightarrow> Notification" where
  "err c \<equiv> \<lparr>notif_code = c, notif_data = []\<rparr>"

definition Attributes_new :: Attributes where
  "Attributes_new = \<lparr>originAttr = None, asPath = [], as4Path = [], localPref = None, atomicAggregate = False, med = None,
     asAggregator = None, as4Aggregator = None, communities = [], extendedCommunities = [], largeCommunities = [],
     originatorId = None, clusterList = [], aigp = None, unknownTransitive = []\<rparr>"

type_synonym byteSpan = "u8 list \<times> nat"

record IncomingUpdate =
  up_attrs :: Attributes
  up_path :: Path
  up_afi :: AfiSafi
  withdrawnData :: byteSpan
  nlriData :: byteSpan

definition IncomingUpdate_new :: IncomingUpdate where
  "IncomingUpdate_new = \<lparr>up_attrs = Attributes_new, up_path = \<lparr>family = \<lparr>afi = 0, safi = 0\<rparr>, pathNextHop = \<lparr>raw = 0\<rparr>, linkLocal = None, rd = None\<rparr>,
     up_afi = ipv4uni, withdrawnData = ([], 0), nlriData = ([], 0)\<rparr>"

record AttrParse =
  ap_update :: IncomingUpdate
  reachAfi :: "AfiSafi option"
  unreachAfi :: "AfiSafi option"

abbreviation upd_attrs :: "(Attributes \<Rightarrow> Attributes) \<Rightarrow> AttrParse \<Rightarrow> AttrParse" where
  "upd_attrs f \<equiv> ap_update_update (up_attrs_update f)"

abbreviation upd_path :: "(Path \<Rightarrow> Path) \<Rightarrow> AttrParse \<Rightarrow> AttrParse" where
  "upd_path f \<equiv> ap_update_update (up_path_update f)"

section \<open>The AS path\<close>

text \<open>The loop over the segments: \<open>r\<close> bytes of the attribute are left. The number of numbers is added to their width, not multiplied.\<close>

function asPathLoop :: "bool \<Rightarrow> nat \<Rightarrow> u8 list \<Rightarrow> AsPathSegment list \<Rightarrow> (Notification + AsPathSegment list) option" where
  "asPathLoop use4 r p acc = (let w = (if use4 then 4 else 2) in
     if r < 2 then Some (Inr acc)
     else do {
       segType \<leftarrow> byteAt 0 p;
       sl \<leftarrow> byteAt 1 p;
       let n = unat sl;
       if 2 + n + w > r then Some (Inl (err 0x030B))
       else do {
         asns \<leftarrow> entries w (\<lambda>q. if use4 then readU32 q else map_option ucast (readU16 q)) n (drop 2 p);
         asPathLoop use4 (r - (2 + n * w)) (drop (2 + n * w) p) (acc @ [\<lparr>segmentType = segType, asns = asns\<rparr>]) } })"
  by auto
termination by (relation "measure (\<lambda>(use4, r, p, acc). r)") auto

declare asPathLoop.simps [simp del]

function as4PathLoop :: "nat \<Rightarrow> u8 list \<Rightarrow> AsPathSegment list \<Rightarrow> AsPathSegment list option" where
  "as4PathLoop r p acc = (if r < 2 then Some acc
     else do {
       segType \<leftarrow> byteAt 0 p;
       sl \<leftarrow> byteAt 1 p;
       let n = unat sl;
       if 2 + n * 4 > r then Some acc
       else do {
         asns \<leftarrow> entries 4 readU32 n (drop 2 p);
         as4PathLoop (r - (2 + n * 4)) (drop (2 + n * 4) p) (acc @ [\<lparr>segmentType = segType, asns = asns\<rparr>]) } })"
  by auto
termination by (relation "measure (\<lambda>(r, p, acc). r)") auto

declare as4PathLoop.simps [simp del]

definition segHops :: "AsPathSegment \<Rightarrow> nat" where
  "segHops s = (if segmentType s = BGP_AS_SET then (if asns s = [] then 0 else 1) else length (asns s))"

definition countHops :: "AsPathSegment list \<Rightarrow> nat" where
  "countHops segs = sum_list (map segHops segs)"

fun keepHops :: "nat \<Rightarrow> AsPathSegment list \<Rightarrow> AsPathSegment list" where
  "keepHops toKeep [] = []"
| "keepHops toKeep (seg # segs) = (if toKeep = 0 then []
     else if segHops seg \<le> toKeep then seg # keepHops (toKeep - segHops seg) segs
     else [seg\<lparr>asns := take toKeep (asns seg)\<rparr>])"

definition reconstructAs4 :: "bool \<Rightarrow> Attributes \<Rightarrow> Attributes" where
  "reconstructAs4 use4 a = (if \<not> use4 \<and> as4Path a \<noteq> []
     then (let asLen = countHops (asPath a); as4Len = countHops (as4Path a);
               toKeep = (if asLen > as4Len then asLen - as4Len else 0)
           in a\<lparr>asPath := keepHops toKeep (asPath a) @ as4Path a, as4Path := []\<rparr>)
     else a)"

section \<open>Parsing attributes\<close>

definition fixed :: "nat \<Rightarrow> nat \<Rightarrow> AttrParse option \<Rightarrow> (Notification + AttrParse) option" where
  "fixed want len x = (if len \<noteq> want then Some (Inl (err 0x0305)) else map_option Inr x)"

definition words32 :: "nat \<Rightarrow> u8 list \<Rightarrow> u32 list option" where
  "words32 len p = entries 4 readU32 (len div 4) p"

definition aggregatorAt :: "bool \<Rightarrow> u8 list \<Rightarrow> Aggregator option" where
  "aggregatorAt use4 p = (if use4
     then do { a \<leftarrow> readU32 p; s \<leftarrow> readU32 (drop 4 p); Some \<lparr>aggAsn = a, speaker = IPAddress_v4 s\<rparr> }
     else do { a \<leftarrow> readU16 p; s \<leftarrow> readU32 (drop 2 p); Some \<lparr>aggAsn = ucast a, speaker = IPAddress_v4 s\<rparr> })"

text \<open>The 16 bytes are copied into the number of a little-endian host.\<close>

definition rawCopy :: "u8 list \<Rightarrow> IPAddress option" where
  "rawCopy p = (if length p < 16 then None else Some \<lparr>raw = be_word (rev (take 16 p))\<rparr>)"

definition mpNextHop :: "u16 \<Rightarrow> nat \<Rightarrow> u8 list \<Rightarrow> AttrParse \<Rightarrow> AttrParse option" where
  "mpNextHop af nhLen p st = (if af = 2
     then (if nhLen = 16 then do { a \<leftarrow> rawCopy (drop 4 p); Some (upd_path (pathNextHop_update (\<lambda>_. a)) st) }
           else if nhLen = 32 then do { a \<leftarrow> rawCopy (drop 4 p); l \<leftarrow> rawCopy (drop 20 p);
             Some (upd_path (\<lambda>x. x\<lparr>pathNextHop := a, linkLocal := Some l\<rparr>) st) }
           else Some st)
     else if nhLen = 4 then do { a \<leftarrow> readU32 (drop 4 p); Some (upd_path (pathNextHop_update (\<lambda>_. IPAddress_v4 a)) st) }
     else if nhLen = 12 then do { d \<leftarrow> readU64 (drop 4 p); a \<leftarrow> readU32 (drop 12 p);
       Some (upd_path (\<lambda>x. x\<lparr>rd := Some d, pathNextHop := IPAddress_v4 a\<rparr>) st) }
     else Some st)"

fun skipSnpa :: "nat \<Rightarrow> nat \<Rightarrow> nat \<Rightarrow> u8 list \<Rightarrow> nat option" where
  "skipSnpa 0 mpPos len p = Some mpPos"
| "skipSnpa (Suc i) mpPos len p = (if mpPos < len
     then do { l \<leftarrow> byteAt mpPos p; skipSnpa i (mpPos + 1 + (unat l + 1) div 2) len p } else Some mpPos)"

definition mpReach :: "nat \<Rightarrow> u8 list \<Rightarrow> AttrParse \<Rightarrow> (Notification + AttrParse) option" where
  "mpReach len p st = (if len < 4 then Some (Inl (err 0x0305))
     else do {
       af \<leftarrow> readU16 p; sf \<leftarrow> byteAt 2 p; nh \<leftarrow> byteAt 3 p;
       let nhLen = unat nh;
       let fam = \<lparr>afi = af, safi = sf\<rparr>;
       if 4 + nhLen > len then Some (Inl (err 0x0305))
       else if unreachAfi st \<noteq> None \<and> unreachAfi st \<noteq> Some fam then Some (Inl (err 0x0301))
       else do {
         st \<leftarrow> mpNextHop af nhLen p (st\<lparr>reachAfi := Some fam\<rparr>);
         if 4 + nhLen \<ge> len then Some (Inr st)
         else do {
           c \<leftarrow> byteAt (4 + nhLen) p;
           pos \<leftarrow> skipSnpa (unat c) (4 + nhLen + 1) len p;
           Some (Inr (ap_update_update (nlriData_update (\<lambda>_. (drop pos p, unat (of_nat len - of_nat pos :: u64)))) st)) } } })"

definition mpUnreach :: "nat \<Rightarrow> u8 list \<Rightarrow> AttrParse \<Rightarrow> (Notification + AttrParse) option" where
  "mpUnreach len p st = (if len < 3 then Some (Inl (err 0x0305))
     else do {
       fam \<leftarrow> famAt p;
       if reachAfi st \<noteq> None \<and> reachAfi st \<noteq> Some fam then Some (Inl (err 0x0301))
       else Some (Inr (ap_update_update (withdrawnData_update (\<lambda>_. (drop 3 p, len - 3))) (st\<lparr>unreachAfi := Some fam\<rparr>))) })"

text \<open>The case of one attribute, with the codes of \<open>BgpHeader.hpp\<close>: \<open>len\<close> bytes at \<open>p\<close>. There is no case for ATOMIC\_AGGREGATE (6) and
  for extended communities (16).\<close>

definition attrStep :: "bool \<Rightarrow> u8 \<Rightarrow> u8 \<Rightarrow> nat \<Rightarrow> u8 list \<Rightarrow> AttrParse \<Rightarrow> (Notification + AttrParse) option" where
  "attrStep use4 flags ty len p st = (let
     optional = (flags AND 0x80 \<noteq> 0); transitive = (flags AND 0x40 \<noteq> 0);
     flagError = Some (Inl \<lparr>notif_code = 0x0304, notif_data = take len p\<rparr>);
     lengthError = Some (Inl (err 0x0305))
   in if ty \<in> {1, 2, 3, 5} \<and> (optional \<or> \<not> transitive) then flagError
      else if ty = 1 then (if len \<noteq> 1 then lengthError else do { o' \<leftarrow> byteAt 0 p;
           if o' > 2 then Some (Inl (err 0x0306)) else Some (Inr (upd_attrs (originAttr_update (\<lambda>_. Some o')) st)) })
      else if ty = 2 then do { res \<leftarrow> asPathLoop use4 len p [];
           Some (case res of Inl e \<Rightarrow> Inl e | Inr segs \<Rightarrow> Inr (upd_attrs (asPath_update (\<lambda>x. x @ segs)) st)) }
      else if ty = 3 then fixed 4 len (do { a \<leftarrow> readU32 p; Some (upd_path (pathNextHop_update (\<lambda>_. IPAddress_v4 a)) st) })
      else if ty = 4 then fixed 4 len (do { a \<leftarrow> readU32 p; Some (upd_attrs (med_update (\<lambda>_. Some a)) st) })
      else if ty = 5 then fixed 4 len (do { a \<leftarrow> readU32 p; Some (upd_attrs (localPref_update (\<lambda>_. Some a)) st) })
      else if ty = 7 then fixed (if use4 then 8 else 6) len (do { a \<leftarrow> aggregatorAt use4 p;
           Some (upd_attrs (asAggregator_update (\<lambda>_. Some a)) st) })
      else if ty = 8 then (if len mod 4 \<noteq> 0 then lengthError else do { cs \<leftarrow> words32 len p;
           Some (Inr (upd_attrs (communities_update (\<lambda>x. x @ cs)) st)) })
      else if ty = 9 then fixed 4 len (do { a \<leftarrow> readU32 p; Some (upd_attrs (originatorId_update (\<lambda>_. Some a)) st) })
      else if ty = 10 then (if len mod 4 \<noteq> 0 then lengthError else do { cs \<leftarrow> words32 len p;
           Some (Inr (upd_attrs (clusterList_update (\<lambda>x. x @ cs)) st)) })
      else if ty = 14 then mpReach len p st
      else if ty = 15 then mpUnreach len p st
      else if ty = 17 then do { segs \<leftarrow> as4PathLoop len p []; Some (Inr (upd_attrs (as4Path_update (\<lambda>x. x @ segs)) st)) }
      else if ty = 18 then fixed 8 len (do { a \<leftarrow> aggregatorAt True p; Some (upd_attrs (as4Aggregator_update (\<lambda>_. Some a)) st) })
      else if ty = 26 then (if len < 11 then Some (Inr st) else do {
           t \<leftarrow> byteAt 0 p; l \<leftarrow> readU16 (drop 1 p); v \<leftarrow> readU64 (drop 3 p);
           Some (Inr (if t = 1 \<and> l = 11 then upd_attrs (aigp_update (\<lambda>_. Some v)) st else st)) })
      else if ty = 32 then (if len mod 12 \<noteq> 0 then lengthError else do {
           cs \<leftarrow> entries 12 (\<lambda>q. do { a \<leftarrow> readU32 q; b \<leftarrow> readU32 (drop 4 q); c \<leftarrow> readU32 (drop 8 q); Some (a, b, c) }) (len div 12) p;
           Some (Inr (upd_attrs (largeCommunities_update (\<lambda>x. x @ cs)) st)) })
      else if \<not> optional then Some (Inl \<lparr>notif_code = 0x0302, notif_data = take len p\<rparr>)
      else if transitive then (if length p < len then None
        else Some (Inr (upd_attrs (unknownTransitive_update (\<lambda>x. x @ [\<lparr>uaFlags = flags OR 0x20, uaType = ty, uaValue = take len p\<rparr>])) st)))
      else Some (Inr st))"

text \<open>The configured ranges of attribute codes that are skipped and that turn the update into a withdrawal.\<close>

record AttrRanges =
  ar_discard :: "u8 \<Rightarrow> bool"
  ar_withdraw :: "u8 \<Rightarrow> bool"

text \<open>The loop over the attributes, \<open>rest\<close> bytes of which are left. A withdrawal has the error code 0.\<close>

function parseAttrs :: "AttrRanges \<Rightarrow> bool \<Rightarrow> nat \<Rightarrow> u8 list \<Rightarrow> AttrParse \<Rightarrow> (Notification + AttrParse) option" where
  "parseAttrs rg use4 rest p st = (if rest = 0 then Some (Inr st)
     else if rest < 2 then Some (Inl (err 0x0301))
     else do {
       flags \<leftarrow> byteAt 0 p;
       ty \<leftarrow> byteAt 1 p;
       let hl = (if flags AND 0x10 \<noteq> 0 then 4 else 3);
       if rest < hl then Some (Inl (err 0x0305))
       else do {
         len \<leftarrow> (if flags AND 0x10 \<noteq> 0 then map_option unat (readU16 (drop 2 p)) else map_option unat (byteAt 2 p));
         if hl + len > rest then Some (Inl (err 0x0305))
         else if ar_discard rg ty then parseAttrs rg use4 (rest - (hl + len)) (drop (hl + len) p) st
         else if ar_withdraw rg ty then Some (Inl (err 0))
         else do {
           res \<leftarrow> attrStep use4 flags ty len (drop hl p) st;
           case res of Inl e \<Rightarrow> Some (Inl e) | Inr st \<Rightarrow> parseAttrs rg use4 (rest - (hl + len)) (drop (hl + len) p) st } } })"
  by auto
termination by (relation "measure (\<lambda>(rg, use4, rest, p, st). rest)") auto

declare parseAttrs.simps [simp del]

definition parsePathAttributes :: "AttrRanges \<Rightarrow> bool \<Rightarrow> nat \<Rightarrow> u8 list \<Rightarrow> IncomingUpdate \<Rightarrow> (Notification + IncomingUpdate) option" where
  "parsePathAttributes rg use4 rest p u = do {
     res \<leftarrow> parseAttrs rg use4 rest p \<lparr>ap_update = u, reachAfi = None, unreachAfi = None\<rparr>;
     Some (case res of Inl e \<Rightarrow> Inl e
       | Inr st \<Rightarrow> Inr ((ap_update st)\<lparr>up_attrs := reconstructAs4 use4 (up_attrs (ap_update st)),
           up_afi := (case reachAfi st of Some f \<Rightarrow> f | None \<Rightarrow> (case unreachAfi st of Some f \<Rightarrow> f | None \<Rightarrow> ipv4uni))\<rparr>)) }"

section \<open>Building attributes\<close>

definition appendAttrHdr :: "u8 \<Rightarrow> u8 \<Rightarrow> nat \<Rightarrow> u8 list" where
  "appendAttrHdr flags ty n = (if n > 255 then [flags OR 0x10, ty] @ be_bytes 2 (of_nat n :: u16) else [flags, ty, of_nat n])"

definition attr :: "u8 \<Rightarrow> u8 \<Rightarrow> u8 list \<Rightarrow> u8 list" where
  "attr flags ty v = appendAttrHdr flags ty (length v) @ v"

definition kAsTrans :: u32 where
  "kAsTrans = 23456"

definition as2 :: "u32 \<Rightarrow> u16" where
  "as2 asn = (if asn > 65535 then ucast kAsTrans else ucast asn)"

definition encSegment :: "bool \<Rightarrow> AsPathSegment \<Rightarrow> u8 list" where
  "encSegment use4 s = [segmentType s, of_nat (length (asns s))]
     @ concat (map (\<lambda>asn. if use4 then be_bytes 4 asn else be_bytes 2 (as2 asn)) (asns s))"

definition as4Segments :: "AsPathSegment list \<Rightarrow> AsPathSegment list" where
  "as4Segments segs = filter (\<lambda>s. asns s \<noteq> []) (map (\<lambda>s. s\<lparr>asns := filter (\<lambda>a. a > 65535) (asns s)\<rparr>) segs)"

definition optAttr :: "u8 \<Rightarrow> u8 \<Rightarrow> ('a \<Rightarrow> u8 list) \<Rightarrow> 'a option \<Rightarrow> u8 list" where
  "optAttr flags ty enc x = (case x of None \<Rightarrow> [] | Some v \<Rightarrow> attr flags ty (enc v))"

definition listAttr :: "u8 \<Rightarrow> u8 \<Rightarrow> ('a \<Rightarrow> u8 list) \<Rightarrow> 'a list \<Rightarrow> u8 list" where
  "listAttr flags ty enc xs = (if xs = [] then [] else attr flags ty (concat (map enc xs)))"

definition aggregatorAttr :: "bool \<Rightarrow> Aggregator \<Rightarrow> u8 list" where
  "aggregatorAttr use4 g = (if use4 then attr 0xC0 7 (be_bytes 4 (aggAsn g) @ be_bytes 4 (addr_v4 (speaker g)))
     else attr 0xC0 7 (be_bytes 2 (as2 (aggAsn g)) @ be_bytes 4 (addr_v4 (speaker g)))
       @ (if aggAsn g > 65535 then attr 0xC0 18 (be_bytes 4 (aggAsn g) @ be_bytes 4 (addr_v4 (speaker g))) else []))"

definition unknownAttr :: "UnknownAttribute \<Rightarrow> u8 list" where
  "unknownAttr u = attr (uaFlags u OR 0x20) (uaType u) (uaValue u)"

definition appendPathAttrs :: "bool \<Rightarrow> bool \<Rightarrow> PathAttribute \<Rightarrow> u8 list" where
  "appendPathAttrs use4 ebgp pa = (let a = attrs pa in concat [
     optAttr 0x40 1 (\<lambda>x. [x]) (originAttr a),
     listAttr 0x40 2 (encSegment use4) (asPath a),
     (if use4 then [] else listAttr 0xC0 17 (encSegment True) (as4Segments (as4Path a))),
     attr 0x40 3 (be_bytes 4 (addr_v4 (pathNextHop (path pa)))),
     optAttr 0x80 4 (be_bytes 4) (med a),
     (if ebgp then [] else optAttr 0x40 5 (be_bytes 4) (localPref a)),
     (if atomicAggregate a then attr 0x40 6 [] else []),
     (case asAggregator a of None \<Rightarrow> [] | Some g \<Rightarrow> aggregatorAttr use4 g),
     listAttr 0xC0 8 (be_bytes 4) (communities a),
     optAttr 0x80 9 (be_bytes 4) (originatorId a),
     listAttr 0x80 10 (be_bytes 4) (clusterList a),
     listAttr 0xC0 16 (be_bytes 8) (extendedCommunities a),
     optAttr 0x80 26 (\<lambda>v. [1] @ be_bytes 2 (11 :: u16) @ be_bytes 8 v) (aigp a),
     listAttr 0xC0 32 (\<lambda>(x, y, z). be_bytes 4 x @ be_bytes 4 y @ be_bytes 4 z) (largeCommunities a),
     concat (map unknownAttr (unknownTransitive a))])"

section \<open>Reconstructed paths\<close>

lemma countHops_simps [simp]: "countHops [] = 0" "countHops (s # segs) = segHops s + countHops segs"
  by (simp_all add: countHops_def)

lemma countHops_append [simp]: "countHops (xs @ ys) = countHops xs + countHops ys"
  by (simp add: countHops_def)

lemma countHops_keepHops: "n \<le> countHops segs \<Longrightarrow> countHops (keepHops n segs) = n"
proof (induction n segs rule: keepHops.induct)
  case (2 n seg segs)
  have "segHops (seg\<lparr>asns := take n (asns seg)\<rparr>) = n" if "0 < n" "n < segHops seg"
    using that by (auto simp: segHops_def split: if_splits)
  with 2 show ?case by auto
qed simp

text \<open>The code takes the first hops of the path of 2-byte numbers: nothing but these is kept of it.\<close>

lemma keepHops_prefix: "\<exists>rest. concat (map asns segs) = concat (map asns (keepHops n segs)) @ rest"
proof (induction n segs rule: keepHops.induct)
  case (2 n seg segs)
  show ?case
  proof (cases "n = 0 \<or> n < segHops seg")
    case True
    hence "concat (map asns (keepHops n (seg # segs))) = take n (asns seg)" by auto
    thus ?thesis by (intro exI [of _ "drop n (asns seg) @ concat (map asns segs)"]) simp
  next
    case False
    with 2 obtain rest where "concat (map asns segs) = concat (map asns (keepHops (n - segHops seg) segs)) @ rest" by auto
    with False show ?thesis by (intro exI [of _ rest]) simp
  qed
qed simp

section \<open>Encoded paths\<close>

lemma asn_roundtrip:
  assumes "use4 \<or> asn \<le> 65535"
  shows "(if use4 then readU32 else map_option ucast \<circ> readU16) ((if use4 then be_bytes 4 asn else be_bytes 2 (as2 asn)) @ r) = Some asn"
proof (cases use4)
  case False
  with assms have "asn \<le> 65535" by simp
  hence "unat asn < 2 ^ 16" by (simp add: word_le_nat_alt)
  hence "ucast (ucast asn :: u16) = asn" by (simp add: word_unat_eq_iff unsigned_ucast_eq unsigned_take_bit_eq take_bit_nat_eq_self)
  with False \<open>asn \<le> 65535\<close> show ?thesis by (simp add: as2_def leD)
qed simp


abbreviation asnWidth :: "bool \<Rightarrow> nat" where
  "asnWidth use4 \<equiv> if use4 then 4 else 2"

lemma length_encSegment: "length (encSegment use4 s) = 2 + length (asns s) * asnWidth use4"
  by (simp add: encSegment_def length_concat comp_def sum_list_triv)

definition plainSegment :: "bool \<Rightarrow> AsPathSegment \<Rightarrow> bool" where
  "plainSegment use4 s \<longleftrightarrow> length (asns s) < 256 \<and> (use4 \<or> (\<forall>a\<in>set (asns s). a \<le> 65535))"

lemma entries_encSegment:
  assumes "plainSegment use4 s"
  shows "entries (asnWidth use4) (\<lambda>q. if use4 then readU32 q else map_option ucast (readU16 q)) (length (asns s)) (drop 2 (encSegment use4 s @ r))
    = Some (asns s)"
proof -
  have "entries (asnWidth use4) (\<lambda>q. if use4 then readU32 q else map_option ucast (readU16 q)) (length (asns s))
      (concat (map (\<lambda>asn. if use4 then be_bytes 4 asn else be_bytes 2 (as2 asn)) (asns s)) @ r) = Some (asns s)"
  proof (rule entries_concat_tail)
    fix x q assume "x \<in> set (asns s)"
    with assms have "use4 \<or> x \<le> 65535" by (auto simp: plainSegment_def)
    from asn_roundtrip [OF this, of q]
    show "(if use4 then readU32 ((if use4 then be_bytes 4 x else be_bytes 2 (as2 x)) @ q)
        else map_option ucast (readU16 ((if use4 then be_bytes 4 x else be_bytes 2 (as2 x)) @ q))) = Some x" by (cases use4) simp_all
  qed simp
  thus ?thesis by (simp add: encSegment_def)
qed

lemma segment_eta [simp]: "\<lparr>segmentType = segmentType s, asns = asns s\<rparr> = s"
  by (cases s) simp

lemma asPathLoop_0: "asPathLoop use4 0 p acc = Some (Inr acc)"
  by (simp add: asPathLoop.simps)

lemma asPathLoop_segment:
  assumes "plainSegment use4 s" "length (encSegment use4 s) \<le> r"
  shows "asPathLoop use4 r (encSegment use4 s @ p) acc = (if 2 + length (asns s) + asnWidth use4 > r then Some (Inl (err 0x030B))
     else asPathLoop use4 (r - length (encSegment use4 s)) p (acc @ [s]))"
proof -
  have hd: "byteAt 0 (encSegment use4 s @ p) = Some (segmentType s)" "byteAt 1 (encSegment use4 s @ p) = Some (of_nat (length (asns s)))"
    by (simp_all add: encSegment_def byteAt_def)
  have n: "unat (of_nat (length (asns s)) :: u8) = length (asns s)" using assms(1) by (simp add: plainSegment_def unat_of_nat8)
  have d: "drop (2 + length (asns s) * asnWidth use4) (encSegment use4 s @ p) = p" by (simp add: length_encSegment)
  have "2 \<le> r" using assms(2) by (simp add: length_encSegment)
  thus ?thesis
    using entries_encSegment [OF assms(1), of p] hd n d
    by (cases "2 + length (asns s) + asnWidth use4 > r"; subst asPathLoop.simps)
      (simp_all add: Let_def length_encSegment not_less del: drop_append split del: if_split)
qed

text \<open>The check in front of a segment lets exactly the paths through whose last segment has two numbers.\<close>

lemma asPathLoop_encoded:
  assumes "segs \<noteq> []" "\<forall>s\<in>set segs. plainSegment use4 s"
  shows "asPathLoop use4 (length (concat (map (encSegment use4) segs))) (concat (map (encSegment use4) segs) @ p) acc
    = Some (if length (asns (last segs)) < 2 then Inl (err 0x030B) else Inr (acc @ segs))"
  using assms
proof (induction segs arbitrary: acc)
  case (Cons s segs)
  let ?r = "length (concat (map (encSegment use4) segs))"
  have step: "asPathLoop use4 (length (encSegment use4 s) + ?r) (encSegment use4 s @ concat (map (encSegment use4) segs) @ p) acc
      = (if length (asns s) + asnWidth use4 > length (asns s) * asnWidth use4 + ?r then Some (Inl (err 0x030B))
         else asPathLoop use4 ?r (concat (map (encSegment use4) segs) @ p) (acc @ [s]))"
    using Cons.prems by (subst asPathLoop_segment) (simp_all add: length_encSegment)
  show ?case
  proof (cases "segs = []")
    case True
    have "length (asns s) + asnWidth use4 > length (asns s) * asnWidth use4 \<longleftrightarrow> length (asns s) < 2"
      by (cases "length (asns s)"; cases "length (asns s) - 1"; cases use4) auto
    with True step show ?thesis by (simp add: asPathLoop_0)
  next
    case False
    have "2 + length (asns (last segs)) * asnWidth use4 \<le> ?r"
      using False by (induction segs) (auto simp: length_encSegment split: if_splits)
    hence "2 \<le> length (asns (last segs)) \<Longrightarrow> \<not> length (asns s) + asnWidth use4 > length (asns s) * asnWidth use4 + ?r"
      by (cases use4) auto
    with False step Cons show ?thesis by simp
  qed
qed simp

section \<open>Parsing what was built\<close>

definition plainRanges :: "AttrRanges \<Rightarrow> bool" where
  "plainRanges rg \<longleftrightarrow> (\<forall>t. \<not> ar_discard rg t \<and> \<not> ar_withdraw rg t)"

text \<open>A piece of the attributes that changes what was parsed by \<open>g\<close>.\<close>

definition delivers :: "bool \<Rightarrow> u8 list \<Rightarrow> (AttrParse \<Rightarrow> AttrParse) \<Rightarrow> bool" where
  "delivers use4 bs g \<longleftrightarrow> (\<forall>rg tail n st. plainRanges rg \<longrightarrow>
     parseAttrs rg use4 (length bs + n) (bs @ tail) st = parseAttrs rg use4 n tail (g st))"

lemma delivers_Nil: "delivers use4 [] (\<lambda>st. st)"
  by (simp add: delivers_def)

lemma delivers_append: "delivers use4 as f \<Longrightarrow> delivers use4 bs g \<Longrightarrow> delivers use4 (as @ bs) (\<lambda>st. g (f st))"
  by (simp add: delivers_def add.assoc)

lemma delivers_concat: "list_all2 (delivers use4) parts gs \<Longrightarrow> delivers use4 (concat parts) (fold (\<lambda>g. g) gs)"
proof (induction rule: list_all2_induct)
  case (Cons bs parts g gs)
  from delivers_append [OF Cons(1) Cons(3)] show ?case by (simp add: comp_def)
qed (simp add: delivers_Nil id_def)

lemma flag_or: "(f OR g) AND m = 0 \<longleftrightarrow> f AND m = 0 \<and> g AND m = (0 :: u8)"
  by (simp add: bit.conj_disj_distrib2 or_eq_0_iff)

lemma parseAttrs_attr:
  assumes "plainRanges rg" "length v < 65536" "flags AND 0x10 = 0 \<or> 255 < length v"
  shows "parseAttrs rg use4 (length (attr flags ty v) + n) (attr flags ty v @ tail) st
    = do { res \<leftarrow> attrStep use4 (flags OR (if 255 < length v then 0x10 else 0)) ty (length v) (v @ tail) st;
           case res of Inl e \<Rightarrow> Some (Inl e) | Inr st \<Rightarrow> parseAttrs rg use4 n tail st }"
proof (cases "255 < length v")
  case True
  have "drop (4 + length v) (a # b # be_bytes 2 w @ v @ tail) = tail" for a b and w :: u16
    by (simp add: eval_nat_numeral)
  moreover have "unat (of_nat (length v) :: u16) = length v" using assms(2) by (simp add: unsigned_of_nat take_bit_nat_eq_self)
  ultimately show ?thesis using True assms(1)
    by (subst parseAttrs.simps) (simp add: attr_def appendAttrHdr_def byteAt_def plainRanges_def flag_or Let_def nth_append)
next
  case False
  hence "unat (of_nat (length v) :: u8) = length v" by (intro unat_of_nat8) simp
  moreover have "drop (3 + length v) (a # b # c # v @ tail) = tail" for a b c by (simp add: eval_nat_numeral)
  ultimately show ?thesis using False assms
    by (subst parseAttrs.simps) (simp add: attr_def appendAttrHdr_def byteAt_def plainRanges_def Let_def)
qed

lemma delivers_attr:
  assumes "length v < 65536" "flags AND 0x10 = 0 \<or> 255 < length v"
    and "\<And>tail st. attrStep use4 (flags OR (if 255 < length v then 0x10 else 0)) ty (length v) (v @ tail) st = Some (Inr (g st))"
  shows "delivers use4 (attr flags ty v) g"
  unfolding delivers_def using parseAttrs_attr [OF _ assms(1,2)] assms(3) by simp

definition optSet :: "'a option \<Rightarrow> 'a option \<Rightarrow> 'a option" where
  "optSet x y = (case x of None \<Rightarrow> y | Some v \<Rightarrow> Some v)"

lemma optSet_simps [simp]: "optSet x None = x" "optSet None = (\<lambda>y. y)" "optSet (Some v) = (\<lambda>y. Some v)"
  by (auto simp: optSet_def fun_eq_iff split: option.splits)

lemma upd_attrs_ident: "(\<And>a. f a = a) \<Longrightarrow> upd_attrs f = (\<lambda>st. st)"
proof
  fix st assume "\<And>a. f a = a"
  hence "f = (\<lambda>a. a)" by auto
  moreover have "up_attrs_update (\<lambda>a. a) u = u" for u by (cases u) simp
  ultimately show "upd_attrs f st = st" by (cases st) (simp add: fun_eq_iff)
qed

lemma delivers_optAttr:
  assumes "\<And>v. x = Some v \<Longrightarrow> length (enc v) \<le> 255" "flags AND 0x10 = 0" "\<And>a. upd (\<lambda>y. y) a = a"
    and "\<And>v tail st. x = Some v \<Longrightarrow> attrStep use4 flags ty (length (enc v)) (enc v @ tail) st = Some (Inr (upd_attrs (upd (\<lambda>_. Some v)) st))"
  shows "delivers use4 (optAttr flags ty enc x) (upd_attrs (upd (optSet x)))"
proof (cases x)
  case None
  with upd_attrs_ident [OF assms(3)] show ?thesis by (simp add: optAttr_def delivers_Nil)
next
  case (Some v)
  with assms(1) have "\<not> 255 < length (enc v)" "length (enc v) < 65536" by fastforce+
  with assms(2,4) Some delivers_attr [of "enc v" flags use4 ty "upd_attrs (upd (\<lambda>_. Some v))"] show ?thesis
    by (simp add: optAttr_def)
qed

lemma delivers_listAttr:
  assumes "length (concat (map enc xs)) < 65536" "flags AND 0x10 = 0" "xs = [] \<Longrightarrow> upd_attrs f = (\<lambda>st. st)"
    and "\<And>fl tail st. xs \<noteq> [] \<Longrightarrow> fl = flags \<or> fl = flags OR 0x10 \<Longrightarrow>
      attrStep use4 fl ty (length (concat (map enc xs))) (concat (map enc xs) @ tail) st = Some (Inr (upd_attrs f st))"
  shows "delivers use4 (listAttr flags ty enc xs) (upd_attrs f)"
proof (cases "xs = []")
  case True
  with assms(3) show ?thesis by (simp add: listAttr_def delivers_Nil)
next
  case False
  with assms show ?thesis by (auto simp: listAttr_def intro!: delivers_attr)
qed

section \<open>The attributes one by one\<close>

lemma be_read64 [simp]: "readU64 (be_bytes 8 a @ r) = Some a"
  by (simp add: readU64_spec be_roundtrip)

lemma words32_concat:
  "words32 (length (concat (map (be_bytes 4) xs))) (concat (map (be_bytes 4) xs) @ tail) = Some (xs :: u32 list)"
  "length (concat (map (be_bytes 4) xs)) mod 4 = 0"
  using entries_concat_tail [of xs readU32 "be_bytes 4" 4 tail] by (simp_all add: words32_def length_concat_enc [of _ 4])

lemma origin_part:
  "(\<And>x. o' = Some x \<Longrightarrow> x \<le> 2) \<Longrightarrow> delivers use4 (optAttr 0x40 1 (\<lambda>x. [x]) o') (upd_attrs (originAttr_update (optSet o')))"
  by (rule delivers_optAttr) (auto simp: attrStep_def byteAt_def not_less)

lemma asPath_part:
  assumes "\<forall>s\<in>set segs. plainSegment use4 s" "segs \<noteq> [] \<longrightarrow> 2 \<le> length (asns (last segs))"
    and "length (concat (map (encSegment use4) segs)) < 65536"
  shows "delivers use4 (listAttr 0x40 2 (encSegment use4) segs) (upd_attrs (asPath_update (\<lambda>x. x @ segs)))"
proof (rule delivers_listAttr)
  fix fl tail st assume "segs \<noteq> []" "fl = 0x40 \<or> fl = 0x40 OR (0x10 :: u8)"
  with assms asPathLoop_encoded [of segs use4 tail "[]"]
  show "attrStep use4 fl 2 (length (concat (map (encSegment use4) segs))) (concat (map (encSegment use4) segs) @ tail) st
      = Some (Inr (upd_attrs (asPath_update (\<lambda>x. x @ segs)) st))"
    by (auto simp: attrStep_def)
qed (use assms in \<open>auto intro: upd_attrs_ident\<close>)

lemma nextHop_part: "delivers use4 (attr 0x40 3 (be_bytes 4 a)) (upd_path (pathNextHop_update (\<lambda>_. IPAddress_v4 a)))"
  by (rule delivers_attr) (simp_all add: attrStep_def fixed_def)

lemma med_part: "delivers use4 (optAttr 0x80 4 (be_bytes 4) x) (upd_attrs (med_update (optSet x)))"
  by (rule delivers_optAttr) (simp_all add: attrStep_def fixed_def)

lemma localPref_part: "delivers use4 (optAttr 0x40 5 (be_bytes 4) x) (upd_attrs (localPref_update (optSet x)))"
  by (rule delivers_optAttr) (simp_all add: attrStep_def fixed_def)

lemma originatorId_part: "delivers use4 (optAttr 0x80 9 (be_bytes 4) x) (upd_attrs (originatorId_update (optSet x)))"
  by (rule delivers_optAttr) (simp_all add: attrStep_def fixed_def)

lemma aigp_part:
  "delivers use4 (optAttr 0x80 26 (\<lambda>v. [1] @ be_bytes 2 (11 :: u16) @ be_bytes 8 v) x) (upd_attrs (aigp_update (optSet x)))"
  by (rule delivers_optAttr) (simp_all add: attrStep_def byteAt_def)

lemma communities_part:
  assumes "length xs < 16384"
  shows "delivers use4 (listAttr 0xC0 8 (be_bytes 4) xs) (upd_attrs (communities_update (\<lambda>x. x @ xs)))"
  using assms words32_concat [of xs]
  by (intro delivers_listAttr) (auto simp: attrStep_def length_concat_enc [of _ 4] intro: upd_attrs_ident)

lemma clusterList_part:
  assumes "length xs < 16384"
  shows "delivers use4 (listAttr 0x80 10 (be_bytes 4) xs) (upd_attrs (clusterList_update (\<lambda>x. x @ xs)))"
  using assms words32_concat [of xs]
  by (intro delivers_listAttr) (auto simp: attrStep_def length_concat_enc [of _ 4] intro: upd_attrs_ident)

abbreviation v4_aggregator :: "bool \<Rightarrow> Aggregator \<Rightarrow> bool" where
  "v4_aggregator use4 g \<equiv> IPAddress_v4 (addr_v4 (speaker g)) = speaker g \<and> (use4 \<or> aggAsn g \<le> 65535)"

lemma aggregator_part:
  assumes "\<And>g. x = Some g \<Longrightarrow> v4_aggregator use4 g"
  shows "delivers use4 (case x of None \<Rightarrow> [] | Some g \<Rightarrow> aggregatorAttr use4 g) (upd_attrs (asAggregator_update (optSet x)))"
proof (cases x)
  case (Some g)
  have "\<lparr>aggAsn = aggAsn g, speaker = speaker g\<rparr> = g" by (cases g) simp
  hence "aggregatorAt use4 ((if use4 then be_bytes 4 (aggAsn g) else be_bytes 2 (as2 (aggAsn g))) @ be_bytes 4 (addr_v4 (speaker g)) @ tail) = Some g"
    for tail using assms [OF Some] asn_roundtrip [of use4 "aggAsn g" "be_bytes 4 (addr_v4 (speaker g)) @ tail"]
    by (cases use4) (auto simp: aggregatorAt_def)
  with assms [OF Some] Some show ?thesis
    by (cases use4) (auto simp: aggregatorAttr_def attrStep_def fixed_def leD intro!: delivers_attr)
qed (simp add: upd_attrs_ident delivers_Nil)

lemma largeCommunities_part:
  assumes "length xs < 5461"
  shows "delivers use4 (listAttr 0xC0 32 (\<lambda>(x, y, z). be_bytes 4 x @ be_bytes 4 y @ be_bytes 4 z) xs)
    (upd_attrs (largeCommunities_update (\<lambda>x. x @ xs)))"
proof -
  let ?enc = "\<lambda>(x :: u32, y :: u32, z :: u32). be_bytes 4 x @ be_bytes 4 y @ be_bytes 4 z"
  have len: "length (concat (map ?enc xs)) = length xs * 12" by (rule length_concat_enc) auto
  have "entries 12 (\<lambda>q. do { a \<leftarrow> readU32 q; b \<leftarrow> readU32 (drop 4 q); c \<leftarrow> readU32 (drop 8 q); Some (a, b, c) }) (length xs)
      (concat (map ?enc xs) @ tail) = Some xs" for tail
    by (rule entries_concat_tail) auto
  with assms len show ?thesis
    by (intro delivers_listAttr) (auto simp: attrStep_def intro: upd_attrs_ident)
qed

definition knownTypes :: "u8 set" where
  "knownTypes = {1, 2, 3, 4, 5, 7, 8, 9, 10, 14, 15, 17, 18, 26, 32}"

text \<open>An attribute the parser keeps as it is: optional and transitive, with the extended-length flag only where its length needs it.\<close>

definition opaque :: "UnknownAttribute \<Rightarrow> bool" where
  "opaque u \<longleftrightarrow> uaType u \<notin> knownTypes \<and> uaFlags u AND 0x80 \<noteq> 0 \<and> uaFlags u AND 0x40 \<noteq> 0
     \<and> (uaFlags u AND 0x10 = 0 \<or> 255 < length (uaValue u)) \<and> length (uaValue u) < 65536"

definition forwarded :: "UnknownAttribute \<Rightarrow> UnknownAttribute" where
  "forwarded u = u\<lparr>uaFlags := uaFlags u OR 0x20 OR (if 255 < length (uaValue u) then 0x10 else 0)\<rparr>"

definition extendedAsUnknown :: "u64 list \<Rightarrow> UnknownAttribute list" where
  "extendedAsUnknown ecs = (if ecs = [] then []
     else [forwarded \<lparr>uaFlags = 0xC0, uaType = 16, uaValue = concat (map (be_bytes 8) ecs)\<rparr>])"

lemma attrStep_unknown:
  assumes "ty \<notin> knownTypes" "flags AND 0x80 \<noteq> 0" "flags AND 0x40 \<noteq> 0"
  shows "attrStep use4 flags ty (length v) (v @ tail) st
    = Some (Inr (upd_attrs (unknownTransitive_update (\<lambda>x. x @ [\<lparr>uaFlags = flags OR 0x20, uaType = ty, uaValue = v\<rparr>])) st))"
  using assms by (simp add: attrStep_def knownTypes_def)

lemma opaque_part:
  assumes "opaque u"
  shows "delivers use4 (attr (uaFlags u) (uaType u) (uaValue u)) (upd_attrs (unknownTransitive_update (\<lambda>x. x @ [forwarded u])))"
proof (rule delivers_attr)
  fix tail st
  let ?e = "if 255 < length (uaValue u) then 0x10 else 0 :: u8"
  have "\<lparr>uaFlags = (uaFlags u OR ?e) OR 0x20, uaType = uaType u, uaValue = uaValue u\<rparr> = forwarded u"
    by (cases u) (simp add: forwarded_def or.commute or.left_commute)
  moreover have "(uaFlags u OR ?e) AND 0x80 \<noteq> 0" "(uaFlags u OR ?e) AND 0x40 \<noteq> 0"
    using assms by (simp_all add: flag_or opaque_def)
  ultimately show "attrStep use4 (uaFlags u OR ?e) (uaType u) (length (uaValue u)) (uaValue u @ tail) st
      = Some (Inr (upd_attrs (unknownTransitive_update (\<lambda>x. x @ [forwarded u])) st))"
    using assms attrStep_unknown [of "uaType u" "uaFlags u OR ?e" use4 "uaValue u" tail st] by (simp add: opaque_def)
qed (use assms in \<open>auto simp: opaque_def\<close>)

lemma unknown_part:
  assumes "opaque u"
  shows "delivers use4 (unknownAttr u) (upd_attrs (unknownTransitive_update (\<lambda>x. x @ [forwarded u])))"
proof -
  let ?u = "u\<lparr>uaFlags := uaFlags u OR 0x20\<rparr>"
  have "opaque ?u" using assms by (simp add: opaque_def flag_or)
  moreover have "forwarded ?u = forwarded u" by (simp add: forwarded_def or.assoc [symmetric])
  ultimately show ?thesis using opaque_part [of ?u] by (simp add: unknownAttr_def)
qed

lemma unknowns_part:
  "\<forall>u\<in>set us. opaque u \<Longrightarrow>
    delivers use4 (concat (map unknownAttr us)) (upd_attrs (unknownTransitive_update (\<lambda>x. x @ map forwarded us)))"
proof (induction us)
  case (Cons u us)
  with delivers_append [OF unknown_part [of u]] show ?case by (fastforce simp: comp_def)
qed (simp add: upd_attrs_ident delivers_Nil)

lemma extended_part:
  assumes "length ecs < 8192"
  shows "delivers use4 (listAttr 0xC0 16 (be_bytes 8) ecs) (upd_attrs (unknownTransitive_update (\<lambda>x. x @ extendedAsUnknown ecs)))"
proof -
  let ?v = "concat (map (be_bytes 8) ecs)"
  have len: "length ?v = length ecs * 8" by (rule length_concat_enc) simp
  have "opaque \<lparr>uaFlags = 0xC0, uaType = 16, uaValue = ?v\<rparr>" using assms len by (simp add: opaque_def knownTypes_def)
  from opaque_part [OF this, of use4] show ?thesis
    by (cases "ecs = []") (simp_all add: listAttr_def extendedAsUnknown_def upd_attrs_ident delivers_Nil)
qed

section \<open>All attributes of a route\<close>

text \<open>The routes the format carries: no ATOMIC\_AGGREGATE, at least two numbers in the last segment, sizes that fit the length fields,
  and without the capability no number of more than 16 bits.\<close>

definition transmissible :: "bool \<Rightarrow> Attributes \<Rightarrow> bool" where
  "transmissible use4 a \<longleftrightarrow> \<not> atomicAggregate a \<and> (\<forall>x. originAttr a = Some x \<longrightarrow> x \<le> 2)
     \<and> (\<forall>s\<in>set (asPath a). plainSegment use4 s) \<and> (asPath a \<noteq> [] \<longrightarrow> 2 \<le> length (asns (last (asPath a))))
     \<and> length (concat (map (encSegment use4) (asPath a))) < 65536 \<and> (use4 \<or> as4Path a = [])
     \<and> (\<forall>g. asAggregator a = Some g \<longrightarrow> v4_aggregator use4 g) \<and> length (communities a) < 16384 \<and> length (clusterList a) < 16384
     \<and> length (extendedCommunities a) < 8192 \<and> length (largeCommunities a) < 5461 \<and> (\<forall>u\<in>set (unknownTransitive a). opaque u)"

text \<open>What arrives of them: not the local preference over an external session, and the extended communities as an unknown attribute.\<close>

definition arriving :: "bool \<Rightarrow> Attributes \<Rightarrow> Attributes" where
  "arriving ebgp a = a\<lparr>as4Path := [], localPref := (if ebgp then None else localPref a), as4Aggregator := None, extendedCommunities := [],
     unknownTransitive := extendedAsUnknown (extendedCommunities a) @ map forwarded (unknownTransitive a)\<rparr>"

lemma attributes_delivered:
  assumes "transmissible use4 (attrs pa)"
  defines "a \<equiv> attrs pa"
  shows "delivers use4 (appendPathAttrs use4 ebgp pa) (fold (\<lambda>g. g) [
     upd_attrs (originAttr_update (optSet (originAttr a))), upd_attrs (asPath_update (\<lambda>x. x @ asPath a)), (\<lambda>st. st),
     upd_path (pathNextHop_update (\<lambda>_. IPAddress_v4 (addr_v4 (pathNextHop (path pa))))), upd_attrs (med_update (optSet (med a))),
     upd_attrs (localPref_update (optSet (if ebgp then None else localPref a))), (\<lambda>st. st),
     upd_attrs (asAggregator_update (optSet (asAggregator a))), upd_attrs (communities_update (\<lambda>x. x @ communities a)),
     upd_attrs (originatorId_update (optSet (originatorId a))), upd_attrs (clusterList_update (\<lambda>x. x @ clusterList a)),
     upd_attrs (unknownTransitive_update (\<lambda>x. x @ extendedAsUnknown (extendedCommunities a))),
     upd_attrs (aigp_update (optSet (aigp a))), upd_attrs (largeCommunities_update (\<lambda>x. x @ largeCommunities a)),
     upd_attrs (unknownTransitive_update (\<lambda>x. x @ map forwarded (unknownTransitive a)))])"
proof -
  have as4: "delivers use4 (if use4 then [] else listAttr 0xC0 17 (encSegment True) (as4Segments (as4Path a))) (\<lambda>st. st)"
    using assms by (auto simp: transmissible_def as4Segments_def listAttr_def delivers_Nil)
  have lp: "delivers use4 (if ebgp then [] else optAttr 0x40 5 (be_bytes 4) (localPref a))
      (upd_attrs (localPref_update (optSet (if ebgp then None else localPref a))))"
    using localPref_part by (simp add: upd_attrs_ident delivers_Nil)
  have at: "delivers use4 (if atomicAggregate a then attr 0x40 6 [] else []) (\<lambda>st. st)"
    using assms by (simp add: transmissible_def delivers_Nil)
  show ?thesis
    unfolding appendPathAttrs_def Let_def a_def [symmetric]
    by (intro delivers_concat list_all2_Cons [THEN iffD2] conjI list_all2_Nil [THEN iffD2] as4 lp at origin_part asPath_part nextHop_part
        med_part aggregator_part communities_part originatorId_part clusterList_part extended_part aigp_part largeCommunities_part unknowns_part)
      (use assms in \<open>auto simp: transmissible_def\<close>)
qed

lemma parseAttrs_0: "parseAttrs rg use4 0 p st = Some (Inr st)"
  by (simp add: parseAttrs.simps)

lemma parsePathAttributes_built:
  assumes "plainRanges rg" "transmissible use4 (attrs pa)" "up_attrs u = Attributes_new"
  shows "parsePathAttributes rg use4 (length (appendPathAttrs use4 ebgp pa)) (appendPathAttrs use4 ebgp pa @ tail) u
    = Some (Inr (u\<lparr>up_attrs := arriving ebgp (attrs pa),
        up_path := (up_path u)\<lparr>pathNextHop := IPAddress_v4 (addr_v4 (pathNextHop (path pa)))\<rparr>, up_afi := ipv4uni\<rparr>))"
proof -
  obtain p f w n where u: "u = \<lparr>up_attrs = Attributes_new, up_path = p, up_afi = f, withdrawnData = w, nlriData = n\<rparr>"
    using assms(3) by (cases u) auto
  have "parseAttrs rg use4 (length (appendPathAttrs use4 ebgp pa) + 0) (appendPathAttrs use4 ebgp pa @ tail) st
      = parseAttrs rg use4 0 tail (g st)" if "delivers use4 (appendPathAttrs use4 ebgp pa) g" for st g
    using that assms(1) unfolding delivers_def by blast
  from this [OF attributes_delivered [OF assms(2)]] have step: "parseAttrs rg use4 (length (appendPathAttrs use4 ebgp pa))
      (appendPathAttrs use4 ebgp pa @ tail) \<lparr>ap_update = u, reachAfi = None, unreachAfi = None\<rparr>
    = Some (Inr \<lparr>ap_update = u\<lparr>up_attrs := arriving ebgp (attrs pa),
        up_path := p\<lparr>pathNextHop := IPAddress_v4 (addr_v4 (pathNextHop (path pa)))\<rparr>\<rparr>, reachAfi = None, unreachAfi = None\<rparr>)"
    using assms(2) by (simp add: parseAttrs_0 u Attributes_new_def arriving_def transmissible_def)
  show ?thesis
    unfolding parsePathAttributes_def step by (simp add: u reconstructAs4_def arriving_def)
qed

lemma reads_as4PathLoop: "r \<le> length q \<Longrightarrow> reads (as4PathLoop r q acc)"
proof (induction r arbitrary: q acc rule: less_induct)
  case (less r)
  thus ?case by (subst as4PathLoop.simps) (auto simp: Let_def intro!: read_intros less.IH)
qed

lemma reads_map: "reads (map_option f x) = reads x"
  by (cases x) auto

lemma reads_if: "(c \<Longrightarrow> reads x) \<Longrightarrow> (\<not> c \<Longrightarrow> reads y) \<Longrightarrow> reads (if c then x else y)"
  by simp

lemma reads_attrStep:
  assumes "len \<le> length p" "ty \<noteq> 2" "ty \<noteq> 14"
  shows "reads (attrStep use4 flags ty len p st)"
proof -
  have "reads (aggregatorAt u4 p)" if "(if u4 then 8 else 6) \<le> length p" for u4
    using that unfolding aggregatorAt_def by (auto intro!: read_intros)
  moreover have "reads (as4PathLoop len p acc)" for acc using assms(1) by (rule reads_as4PathLoop)
  moreover have "reads (words32 len p)" unfolding words32_def using assms(1) by (auto intro!: read_intros)
  moreover have "reads (mpUnreach len p st)" unfolding mpUnreach_def using assms(1) by (auto intro!: read_intros)
  ultimately show ?thesis
    unfolding attrStep_def Let_def fixed_def using assms
    by - (intro reads_if; (intro reads_simps)?; simp add: reads_map; (intro reads_simps read_intros reads_if; simp?; force?)?)
qed

section \<open>Properties\<close>


text \<open>(C38) The AS path a speaker sends is accepted exactly when its last segment has two numbers or more: the length check adds
  the number of entries to their width instead of multiplying them, so that the path of a neighbor's own route, one
  segment with one number, is answered with a malformed-path notification.\<close>

theorem as_path_acceptance:
  assumes "plainRanges rg" "segs \<noteq> []" "\<forall>s\<in>set segs. plainSegment use4 s" "length (concat (map (encSegment use4) segs)) < 65536"
    and "v = listAttr 0x40 2 (encSegment use4) segs"
  shows "parsePathAttributes rg use4 (length v) v IncomingUpdate_new
    = Some (if length (asns (last segs)) < 2 then Inl (err 0x030B)
        else Inr (IncomingUpdate_new\<lparr>up_attrs := Attributes_new\<lparr>asPath := segs\<rparr>\<rparr>))"
proof -
  have v: "v = attr 0x40 2 (concat (map (encSegment use4) segs))" using assms(2,5) by (simp add: listAttr_def)
  have "attrStep use4 (0x40 OR (if 255 < length w then 0x10 else 0)) 2 (length w) w st
      = Some (if length (asns (last segs)) < 2 then Inl (err 0x030B) else Inr (upd_attrs (asPath_update (\<lambda>x. x @ segs)) st))"
    if "w = concat (map (encSegment use4) segs)" for w st
    using asPathLoop_encoded [OF assms(2,3), of "[]" "[]"] that by (simp add: attrStep_def)
  with parseAttrs_attr [OF assms(1,4), where flags = "0x40" and ?use4.0 = use4 and ty = 2 and n = 0 and tail = "[]"] show ?thesis
    by (simp add: parsePathAttributes_def v parseAttrs_0 reconstructAs4_def Attributes_new_def IncomingUpdate_new_def)
qed

text \<open>Paths from speakers with 2-byte numbers: the path merged from AS\_PATH and AS4\_PATH has as many hops as the longer
  of the two, it ends with AS4\_PATH, and what is in front is the beginning of AS\_PATH.\<close>

theorem as4_reconstruction:
  assumes "as4Path a \<noteq> []"
  shows "countHops (asPath (reconstructAs4 False a)) = max (countHops (asPath a)) (countHops (as4Path a))
    \<and> (\<exists>front rest. asPath (reconstructAs4 False a) = front @ as4Path a \<and> concat (map asns (asPath a)) = concat (map asns front) @ rest)
    \<and> as4Path (reconstructAs4 False a) = []"
proof -
  let ?n = "if countHops (asPath a) > countHops (as4Path a) then countHops (asPath a) - countHops (as4Path a) else 0"
  have "countHops (keepHops ?n (asPath a)) = ?n" by (rule countHops_keepHops) auto
  moreover have "asPath (reconstructAs4 False a) = keepHops ?n (asPath a) @ as4Path a" "as4Path (reconstructAs4 False a) = []"
    using assms by (simp_all add: reconstructAs4_def Let_def)
  ultimately show ?thesis using keepHops_prefix [of "asPath a" ?n] by auto
qed

lemma atomic_aggregate_rejected:
  "plainRanges rg \<Longrightarrow> parseAttrs rg use4 (3 + n) (attr 0x40 6 [] @ tail) st = Some (Inl \<lparr>notif_code = 0x0302, notif_data = []\<rparr>)"
  by (subst parseAttrs.simps) (simp add: attr_def appendAttrHdr_def byteAt_def plainRanges_def attrStep_def)

text \<open>A segment may announce more numbers than the attribute has bytes: the loop then reads what follows the message, here the end of the buffer.\<close>

lemma those_None: "x \<in> set xs \<Longrightarrow> f x = None \<Longrightarrow> those (map f xs) = None"
  by (induction xs) (auto split: option.splits)

lemma as_path_overread:
  assumes "p = [ty, n] @ d" "unat n + 4 \<le> length d" "length d < unat n * 4"
  shows "asPathLoop True (length p) p acc = None"
proof -
  have "readU32 (drop ((unat n - 1) * 4) d) = None" using assms(3) by (auto simp: readU32_def)
  moreover have "unat n - 1 \<in> set [0..<unat n]" using assms(3) by (cases "unat n") auto
  ultimately have "entries 4 readU32 (unat n) d = None" unfolding entries_def by (rule those_None [rotated])
  with assms show ?thesis by (subst asPathLoop.simps) (simp add: byteAt_def Let_def)
qed

text \<open>An unknown attribute received with the extended-length flag is sent on with the flag and a length of one byte.\<close>

lemma extended_length_kept:
  "unknownAttr \<lparr>uaFlags = 0xD0, uaType = 99, uaValue = [7]\<rparr> = [0xF0, 99, 1, 7]
   \<and> (plainRanges rg \<longrightarrow> parseAttrs rg use4 4 [0xF0, 99, 1, 7] st = Some (Inl (err 0x0305)))"
  by (subst parseAttrs.simps) (simp add: unknownAttr_def attr_def appendAttrHdr_def byteAt_def readU16_def)

section \<open>Witnesses\<close>

definition ex_ranges :: AttrRanges where
  "ex_ranges = \<lparr>ar_discard = \<lambda>_. False, ar_withdraw = \<lambda>_. False\<rparr>"

lemma ex_ranges_plain: "plainRanges ex_ranges"
  by (simp add: plainRanges_def ex_ranges_def)

definition ex_pa :: PathAttribute where
  "ex_pa = \<lparr>attrs = Attributes_new\<lparr>originAttr := Some 2, asPath := [\<lparr>segmentType = 2, asns = [65001, 70000]\<rparr>], localPref := Some 100,
     med := Some 5, communities := [0xFFFFFF01], extendedCommunities := [7],
     unknownTransitive := [\<lparr>uaFlags = 0xC0, uaType = 99, uaValue = [1, 2]\<rparr>]\<rparr>,
     path = \<lparr>family = ipv4uni, pathNextHop = IPAddress_v4 0x0A000001, linkLocal = None, rd = None\<rparr>\<rparr>"

lemma ex_pa_transmissible: "transmissible True (attrs ex_pa)"
  by (simp add: transmissible_def ex_pa_def Attributes_new_def plainSegment_def opaque_def knownTypes_def encSegment_def)


abbreviation ex_as_path :: "u32 list \<Rightarrow> u8 list" where
  "ex_as_path as \<equiv> listAttr 0x40 2 (encSegment True) [\<lparr>segmentType = 2, asns = as\<rparr>]"

theorem as_path_acceptance_witness:
  "parsePathAttributes ex_ranges True (length (ex_as_path [65001])) (ex_as_path [65001]) IncomingUpdate_new = Some (Inl (err 0x030B))"
  using as_path_acceptance [OF ex_ranges_plain, of "[\<lparr>segmentType = 2, asns = [65001]\<rparr>]" True "ex_as_path [65001]"]
  by (simp add: plainSegment_def length_encSegment)

theorem as4_reconstruction_witness:
  "countHops (asPath (reconstructAs4 False (Attributes_new\<lparr>asPath := [\<lparr>segmentType = 2, asns = [1, 23456, 3]\<rparr>],
     as4Path := [\<lparr>segmentType = 2, asns = [70000, 3]\<rparr>]\<rparr>))) = 3"
  using as4_reconstruction [of "Attributes_new\<lparr>asPath := [\<lparr>segmentType = 2, asns = [1, 23456, 3]\<rparr>],
     as4Path := [\<lparr>segmentType = 2, asns = [70000, 3]\<rparr>]\<rparr>"]
  by (simp add: segHops_def BGP_AS_SET_def)

end
