(* ===== verification/BgpNlri.thy ===== *)
theory BgpNlri
  imports BgpUpdate
begin

text \<open>
  The prefixes of UPDATE messages and whole UPDATE messages: the codec of \<open>routing/bgp/af/Nlri.hpp\<close>, \<open>BgpTx::buildUpdate\<close> with the
  splitting over messages, and both functions \<open>BgpRx::processUpdate\<close>. The only instance of the templates is IPv4 unicast
  (\<open>ExampleNlri\<close>), so the branches of other families are not compiled.

  \<open>findAddPath\<close> of the negotiated capabilities is declared and not defined in the sources; its result is the argument \<open>ap\<close>.
  The messages a speaker writes are the lists of their bytes, in the order in which the spans are reserved.
\<close>

section \<open>Prefixes\<close>

record NlriPath =
  np_nlri :: IPv4Prefix
  np_pathId :: u32

definition nlriBytes :: "u8 \<Rightarrow> nat" where
  "nlriBytes l = (unat l + 7) div 8"

definition nlriEncodedSize :: "IPv4Prefix \<Rightarrow> nat" where
  "nlriEncodedSize n = 1 + nlriBytes (pfx4_len n)"

definition encodeNlri :: "IPv4Prefix \<Rightarrow> u8 list option" where
  "encodeNlri n = map_option ((#) (pfx4_len n)) (writeBytes (replicate (nlriBytes (pfx4_len n)) 0) (pfx4_addr n) (nlriBytes (pfx4_len n)))"

text \<open>The address is read from the start of the entry, not from behind the length.\<close>

definition decodeNlri :: "u8 list \<Rightarrow> (nat \<times> IPv4Prefix) option" where
  "decodeNlri p = do {
     l \<leftarrow> byteAt 0 p;
     let bytes = nlriBytes l;
     a \<leftarrow> readBytes p bytes;
     Some (1 + bytes, \<lparr>pfx4_addr = a, pfx4_len = l\<rparr>) }"

function parseNlris :: "bool \<Rightarrow> nat \<Rightarrow> u8 list \<Rightarrow> NlriPath list \<Rightarrow> (Notification + NlriPath list) option" where
  "parseNlris ap n p acc = (if n = 0 then Some (Inr acc)
     else if ap \<and> n < 4 then Some (Inl (err 0x0301))
     else do {
       pathId \<leftarrow> (if ap then readU32 p else Some 0);
       let k = (if ap then 4 else 0);
       (consumed, nlri) \<leftarrow> decodeNlri (drop k p);
       if consumed = 0 \<or> k + consumed > n then Some (Inl (err 0x0301))
       else parseNlris ap (n - (k + consumed)) (drop (k + consumed) p) (acc @ [\<lparr>np_nlri = nlri, np_pathId = pathId\<rparr>]) })"
  by auto
termination by (relation "measure (\<lambda>(ap, n, p, acc). n)") auto

declare parseNlris.simps [simp del]

record ParsedUpdate =
  pu_withdrawn :: "NlriPath list"
  pu_announcements :: "NlriPath list"
  pu_attrs :: "PathAttribute option"

text \<open>\<open>BgpRx::processUpdate<N>\<close>, which \<open>onUpdateFromPeer\<close> calls.\<close>

definition processUpdateNlri :: "bool \<Rightarrow> IncomingUpdate \<Rightarrow> (Notification + ParsedUpdate) option" where
  "processUpdateNlri ap u = do {
     w \<leftarrow> parseNlris ap (snd (withdrawnData u)) (fst (withdrawnData u)) [];
     case w of Inl e \<Rightarrow> Some (Inl e)
     | Inr ws \<Rightarrow> do {
         a \<leftarrow> parseNlris ap (snd (nlriData u)) (fst (nlriData u)) [];
         Some (case a of Inl e \<Rightarrow> Inl e
           | Inr as \<Rightarrow> Inr \<lparr>pu_withdrawn = ws, pu_announcements = as, pu_attrs = Some \<lparr>attrs = up_attrs u, path = up_path u\<rparr>\<rparr>) } }"

section \<open>Received UPDATE messages\<close>

record UpdateContext =
  uc_ranges :: AttrRanges
  uc_asn32 :: bool
  uc_addPath :: bool
  uc_families :: "AfiSafi \<Rightarrow> bool"

text \<open>\<open>BgpRx::processUpdate\<close> with the call of the address family: a message of \<open>n\<close> bytes at \<open>p\<close>. The result is the notification of an
  error, nothing for an update that is dropped (an error without a code), or the update the family processes.\<close>

definition processUpdate :: "UpdateContext \<Rightarrow> nat \<Rightarrow> u8 list \<Rightarrow> (Notification + ParsedUpdate option) option" where
  "processUpdate c n p = (if n < 4 then Some (Inl (err 0x0301))
     else do {
       w \<leftarrow> readU16 p;
       let withdrawnLen = unat w;
       if 2 + withdrawnLen > n then Some (Inl (err 0x030B))
       else if 2 + withdrawnLen + 2 > n then Some (Inl (err 0x0301))
       else do {
         a \<leftarrow> readU16 (drop (2 + withdrawnLen) p);
         let attrLen = unat a;
         let off = 2 + withdrawnLen + 2;
         if off + attrLen > n then Some (Inl (err 0x0301))
         else do {
           let u = IncomingUpdate_new\<lparr>withdrawnData := (drop 2 p, withdrawnLen)\<rparr>;
           res \<leftarrow> (if attrLen = 0 then Some (Inr u) else parsePathAttributes (uc_ranges c) (uc_asn32 c) attrLen (drop off p) u);
           case res of Inl e \<Rightarrow> Some (if notif_code e = 0 then Inr None else Inl e)
           | Inr u \<Rightarrow> do {
               let u = (if up_afi u = ipv4uni then u\<lparr>nlriData := (drop (off + attrLen) p, n - (off + attrLen))\<rparr> else u);
               if \<not> uc_families c (up_afi u) then Some (Inl (err 0x0301))
               else do { r \<leftarrow> processUpdateNlri (uc_addPath c) u; Some (case r of Inl e \<Rightarrow> Inl e | Inr v \<Rightarrow> Inr (Some v)) } } } } })"

section \<open>Built UPDATE messages\<close>

definition buildHeader :: "u8 \<Rightarrow> u16 \<Rightarrow> u8 list" where
  "buildHeader ty payloadSize = replicate 16 0xFF @ be_bytes 2 (payloadSize + 19) @ [ty]"

definition entrySize :: "bool \<Rightarrow> NlriPath \<Rightarrow> nat" where
  "entrySize ap n = (if ap then 4 else 0) + nlriEncodedSize (np_nlri n)"

fun computeNlriLen :: "bool \<Rightarrow> nat \<Rightarrow> NlriPath list \<Rightarrow> nat \<Rightarrow> nat \<times> nat" where
  "computeNlriLen ap maxNlriSize [] acc = (0, acc)"
| "computeNlriLen ap maxNlriSize (n # ns) acc = (if acc + entrySize ap n > maxNlriSize then (0, acc)
     else (case computeNlriLen ap maxNlriSize ns (acc + entrySize ap n) of (k, t) \<Rightarrow> (Suc k, t)))"

definition appendNlri :: "bool \<Rightarrow> NlriPath list \<Rightarrow> u8 list option" where
  "appendNlri ap ns = catAll (map (\<lambda>n. map_option (\<lambda>b. (if ap then be_bytes 4 (np_pathId n) else []) @ b) (encodeNlri (np_nlri n))) ns)"

text \<open>A message of \<open>buildUpdate\<close>: the budgets are \<open>size_t\<close> and wrap around. The withdrawn prefixes stand behind the attributes.
  The result is the message and how many withdrawn and announced prefixes it has.\<close>

definition updateRound :: "bool \<Rightarrow> nat \<Rightarrow> u8 list \<Rightarrow> NlriPath list \<Rightarrow> NlriPath list \<Rightarrow> (u8 list \<times> nat \<times> nat) option" where
  "updateRound ap maxMsg as wds ns = (let
     wdBudget = of_nat maxMsg - 19 - 4 - of_nat (length as) :: u64;
     (wdEntries, wdBytes) = computeNlriLen ap (unat wdBudget) wds 0;
     nlriBudget = wdBudget - of_nat wdBytes;
     (nlriEntries, nlriTotal) = computeNlriLen ap (unat nlriBudget) ns 0
   in do {
     w \<leftarrow> appendNlri ap (take wdEntries wds);
     x \<leftarrow> appendNlri ap (take nlriEntries ns);
     Some (buildHeader 2 (of_nat (4 + wdBytes + length as + nlriTotal)) @ be_bytes 2 (of_nat wdBytes :: u16)
       @ be_bytes 2 (of_nat (length as) :: u16) @ as @ w @ x, wdEntries, nlriEntries) })"

text \<open>The loops of \<open>buildUpdate\<close> need not end: \<open>None\<close> is also their value when a message takes no prefix.\<close>

partial_function (option) announceLoop :: "bool \<Rightarrow> nat \<Rightarrow> u8 list \<Rightarrow> NlriPath list \<Rightarrow> NlriPath list \<Rightarrow> (u8 list list \<times> NlriPath list) option" where
  "announceLoop ap maxMsg as wds ns = (if ns = [] \<and> wds = [] then Some ([], wds)
     else do {
       (m, wdEntries, nlriEntries) \<leftarrow> updateRound ap maxMsg as wds ns;
       (ms, left) \<leftarrow> announceLoop ap maxMsg as (drop wdEntries wds) (drop nlriEntries ns);
       Some (m # ms, left) })"

definition drainRound :: "bool \<Rightarrow> nat \<Rightarrow> NlriPath list \<Rightarrow> (u8 list \<times> nat) option" where
  "drainRound ap maxMsg wds = (case computeNlriLen ap (unat (of_nat maxMsg - 19 - 4 :: u64)) wds 0 of (wdEntries, wdBytes) \<Rightarrow> do {
     w \<leftarrow> appendNlri ap (take wdEntries wds);
     Some (buildHeader 2 (of_nat (4 + wdBytes)) @ be_bytes 2 (of_nat wdBytes :: u16) @ be_bytes 2 (0 :: u16) @ w, wdEntries) })"

partial_function (option) drainLoop :: "bool \<Rightarrow> nat \<Rightarrow> NlriPath list \<Rightarrow> u8 list list option" where
  "drainLoop ap maxMsg wds = (if wds = [] then Some []
     else do {
       (m, wdEntries) \<leftarrow> drainRound ap maxMsg wds;
       ms \<leftarrow> drainLoop ap maxMsg (drop wdEntries wds);
       Some (m # ms) })"

record Announcement =
  ann_attrs :: PathAttribute
  ann_nlri :: "NlriPath list"

fun announceAll :: "bool \<Rightarrow> bool \<Rightarrow> bool \<Rightarrow> nat \<Rightarrow> Announcement list \<Rightarrow> NlriPath list \<Rightarrow> (u8 list list \<times> NlriPath list) option" where
  "announceAll use4 ebgp ap maxMsg [] wds = Some ([], wds)"
| "announceAll use4 ebgp ap maxMsg (a # as) wds = do {
     (ms, wds) \<leftarrow> announceLoop ap maxMsg (appendPathAttrs use4 ebgp (ann_attrs a)) wds (ann_nlri a);
     (ms', wds) \<leftarrow> announceAll use4 ebgp ap maxMsg as wds;
     Some (ms @ ms', wds) }"

definition buildUpdate :: "bool \<Rightarrow> bool \<Rightarrow> bool \<Rightarrow> bool \<Rightarrow> Announcement list \<Rightarrow> NlriPath list \<Rightarrow> u8 list list option" where
  "buildUpdate use4 ebgp ap ext as wds = (let maxMsg = (if ext then 65535 else 4096) in do {
     (ms, left) \<leftarrow> announceAll use4 ebgp ap maxMsg as wds;
     ms' \<leftarrow> drainLoop ap maxMsg left;
     Some (ms @ ms') })"

section \<open>Encoded prefixes\<close>

definition plainPrefix :: "NlriPath \<Rightarrow> bool" where
  "plainPrefix n \<longleftrightarrow> pfx4_len (np_nlri n) \<le> 32"

definition wireNlri :: "bool \<Rightarrow> NlriPath \<Rightarrow> u8 list" where
  "wireNlri ap n = (if ap then be_bytes 4 (np_pathId n) else [])
     @ pfx4_len (np_nlri n) # take (nlriBytes (pfx4_len (np_nlri n))) (be_bytes 4 (pfx4_addr (np_nlri n)))"

lemma nlriBytes_le: "l \<le> 32 \<Longrightarrow> nlriBytes l \<le> 4"
  by (simp add: nlriBytes_def word_le_nat_alt)

lemma appendNlri_plain:
  assumes "\<forall>n\<in>set ns. plainPrefix n"
  shows "appendNlri ap ns = Some (concat (map (wireNlri ap) ns))"
  using assms
proof (induction ns)
  case (Cons n ns)
  let ?b = "nlriBytes (pfx4_len (np_nlri n))"
  have "writeBytes (replicate ?b 0) (pfx4_addr (np_nlri n)) ?b = Some (take ?b (be_bytes 4 (pfx4_addr (np_nlri n))))"
    using Cons.prems nlriBytes_le by (subst writeBytes_spec) (auto simp: plainPrefix_def)
  with Cons show ?case by (simp add: appendNlri_def encodeNlri_def wireNlri_def)
qed (simp add: appendNlri_def)

lemma length_wireNlri: "plainPrefix n \<Longrightarrow> length (wireNlri ap n) = entrySize ap n"
  using nlriBytes_le [of "pfx4_len (np_nlri n)"] by (simp add: wireNlri_def entrySize_def nlriEncodedSize_def plainPrefix_def min_def)

text \<open>What the receiver makes of an entry: the length takes the place of the first byte of the address.\<close>

definition misread :: "bool \<Rightarrow> NlriPath \<Rightarrow> NlriPath" where
  "misread ap n = (let l = pfx4_len (np_nlri n); b = nlriBytes l in
     \<lparr>np_nlri = \<lparr>pfx4_addr = push_bit (8 * (4 - b)) (be_word (take b (l # be_bytes 4 (pfx4_addr (np_nlri n))))), pfx4_len = l\<rparr>,
      np_pathId = (if ap then np_pathId n else 0)\<rparr>)"

lemma decodeNlri_wire:
  assumes "plainPrefix n"
  shows "decodeNlri (drop (if ap then 4 else 0) (wireNlri ap n) @ tail) = Some (nlriEncodedSize (np_nlri n), np_nlri (misread ap n))"
proof -
  let ?l = "pfx4_len (np_nlri n)" and ?a = "be_bytes 4 (pfx4_addr (np_nlri n))"
  let ?b = "nlriBytes ?l" and ?p = "drop (if ap then 4 else 0) (wireNlri ap n) @ tail"
  have b: "?b \<le> 4" using assms nlriBytes_le by (simp add: plainPrefix_def)
  have p: "?p = ?l # take ?b ?a @ tail" by (simp add: wireNlri_def)
  have "take ?b ?p = take ?b (?l # ?a)" using b by (cases ?b) (auto simp: p take_Cons')
  moreover have "readBytes ?p ?b = Some (push_bit (8 * (4 - ?b)) (be_word (take ?b ?p)) :: u32)"
    using b by (subst readBytes_spec) (auto simp: p)
  ultimately show ?thesis
    by (simp add: decodeNlri_def byteAt_def p misread_def Let_def nlriEncodedSize_def)
qed

lemma misread_eta:
  "\<lparr>np_nlri = np_nlri (misread True n), np_pathId = np_pathId (misread True n)\<rparr> = misread True n"
  "\<lparr>np_nlri = np_nlri (misread False n), np_pathId = 0\<rparr> = misread False n"
  by (simp_all add: misread_def Let_def)

lemma parseNlris_wire:
  "\<forall>n\<in>set ns. plainPrefix n \<Longrightarrow> parseNlris ap (length (concat (map (wireNlri ap) ns))) (concat (map (wireNlri ap) ns) @ tail) acc
    = Some (Inr (acc @ map (misread ap) ns))"
proof (induction ns arbitrary: acc)
  case (Cons n ns)
  let ?r = "concat (map (wireNlri ap) ns)"
  have n: "plainPrefix n" using Cons.prems by simp
  have len: "length (wireNlri ap n) = (if ap then 4 else 0) + nlriEncodedSize (np_nlri n)" using length_wireNlri [OF n] by (simp add: entrySize_def)
  have pid: "(if ap then readU32 (wireNlri ap n @ q) else Some 0) = Some (np_pathId (misread ap n))" for q
    by (simp add: wireNlri_def misread_def Let_def)
  have dec: "decodeNlri (drop (if ap then 4 else 0) (wireNlri ap n @ ?r @ tail)) = Some (nlriEncodedSize (np_nlri n), np_nlri (misread ap n))"
    using decodeNlri_wire [OF n, of ap "?r @ tail"] len by simp
  have d: "drop ((if ap then 4 else 0) + nlriEncodedSize (np_nlri n)) (wireNlri ap n @ ?r @ tail) = ?r @ tail" using len by simp
  have "parseNlris ap (length (wireNlri ap n) + length ?r) (wireNlri ap n @ ?r @ tail) acc
      = parseNlris ap (length ?r) (?r @ tail) (acc @ [misread ap n])"
    using pid [of "?r @ tail"] dec len d
    by (cases ap; subst parseNlris.simps) (simp_all add: misread_eta nlriEncodedSize_def del: drop_append)
  with Cons show ?case by simp
qed (simp add: parseNlris.simps)

section \<open>Splitting over messages\<close>

lemma computeNlriLen_takes:
  assumes "computeNlriLen ap mx ns t0 = (k, t)" "\<forall>n\<in>set ns. plainPrefix n" "t0 \<le> mx"
  shows "t = t0 + length (concat (map (wireNlri ap) (take k ns))) \<and> t \<le> mx \<and> k \<le> length ns
    \<and> (ns \<noteq> [] \<and> t0 + 9 \<le> mx \<longrightarrow> 0 < k)"
  using assms
proof (induction ns arbitrary: t0 k t)
  case (Cons n ns)
  have n: "plainPrefix n" using Cons.prems by simp
  hence "nlriBytes (pfx4_len (np_nlri n)) \<le> 4" by (simp add: plainPrefix_def nlriBytes_le)
  hence size: "entrySize ap n \<le> 9" by (simp add: entrySize_def nlriEncodedSize_def)
  show ?case
  proof (cases "t0 + entrySize ap n > mx")
    case False
    then obtain j where "computeNlriLen ap mx ns (t0 + entrySize ap n) = (j, t)" "k = Suc j"
      using Cons.prems(1) by (auto split: prod.splits)
    with Cons.IH [of "t0 + entrySize ap n" j t] Cons.prems False length_wireNlri [OF n] show ?thesis by auto
  qed (use Cons.prems size in auto)
qed simp

text \<open>A message with announcements only.\<close>

definition announcement :: "bool \<Rightarrow> u8 list \<Rightarrow> NlriPath list \<Rightarrow> u8 list" where
  "announcement ap as ns = (let x = concat (map (wireNlri ap) ns) in
     buildHeader 2 (of_nat (4 + length as + length x)) @ be_bytes 2 (0 :: u16) @ be_bytes 2 (of_nat (length as) :: u16) @ as @ x)"

lemma length_announcement: "length (announcement ap as ns) = 23 + length as + length (concat (map (wireNlri ap) ns))"
  by (simp add: announcement_def buildHeader_def Let_def)

lemma updateRound_announces:
  assumes "\<forall>n\<in>set ns. plainPrefix n" "ns \<noteq> []" "length as + 32 \<le> mx" "mx < 2 ^ 16"
  shows "\<exists>k. 0 < k \<and> k \<le> length ns \<and> updateRound ap mx as [] ns = Some (announcement ap as (take k ns), 0, k)
    \<and> length (announcement ap as (take k ns)) \<le> mx"
proof -
  let ?b = "of_nat mx - 19 - 4 - of_nat (length as) :: u64"
  have "?b = of_nat (mx - 23 - length as)" using assms(3) by (simp add: of_nat_diff)
  hence b: "unat ?b = mx - 23 - length as" using assms(4) by (simp add: unsigned_of_nat take_bit_nat_eq_self)
  obtain k t where kt: "computeNlriLen ap (unat ?b) ns 0 = (k, t)" by fastforce
  from computeNlriLen_takes [OF kt assms(1)] have "t = length (concat (map (wireNlri ap) (take k ns)))" "t \<le> unat ?b" "k \<le> length ns" "0 < k"
    using assms(2,3) b by auto
  moreover have "appendNlri ap (take k ns) = Some (concat (map (wireNlri ap) (take k ns)))"
    using assms(1) by (intro appendNlri_plain) (auto dest: in_set_takeD)
  moreover have "appendNlri ap [] = Some []" by (simp add: appendNlri_def)
  ultimately show ?thesis
    using kt b assms(3) by (intro exI [of _ k]) (simp add: updateRound_def Let_def announcement_def length_announcement buildHeader_def)
qed

lemma announceLoop_splits:
  assumes "\<forall>n\<in>set ns. plainPrefix n" "length as + 32 \<le> mx" "mx < 2 ^ 16"
  shows "\<exists>parts. announceLoop ap mx as [] ns = Some (map (announcement ap as) parts, []) \<and> concat parts = ns
    \<and> (\<forall>p\<in>set parts. p \<noteq> [] \<and> length (announcement ap as p) \<le> mx)"
  using assms(1)
proof (induction "length ns" arbitrary: ns rule: less_induct)
  case less
  show ?case
  proof (cases "ns = []")
    case True
    thus ?thesis by (intro exI [of _ "[]"]) (simp add: announceLoop.simps)
  next
    case False
    from updateRound_announces [OF less.prems False assms(2,3)] obtain k where k: "0 < k" "k \<le> length ns"
      "updateRound ap mx as [] ns = Some (announcement ap as (take k ns), 0, k)" "length (announcement ap as (take k ns)) \<le> mx" by blast
    have "length (drop k ns) < length ns" "\<forall>n\<in>set (drop k ns). plainPrefix n"
      using k False less.prems by (auto dest: in_set_dropD)
    from less.hyps [OF this] obtain parts where "announceLoop ap mx as [] (drop k ns) = Some (map (announcement ap as) parts, [])"
      "concat parts = drop k ns" "\<forall>p\<in>set parts. p \<noteq> [] \<and> length (announcement ap as p) \<le> mx" by blast
    with k False show ?thesis
      by (intro exI [of _ "take k ns # parts"]) (simp add: announceLoop.simps [of ap mx as "[]" ns])
  qed
qed

section \<open>Announcements end to end\<close>

lemma appendPathAttrs_nonempty: "appendPathAttrs use4 ebgp pa \<noteq> []"
  by (simp add: appendPathAttrs_def Let_def attr_def appendAttrHdr_def)

text \<open>What the address family gets for a message.\<close>

definition delivered :: "bool \<Rightarrow> bool \<Rightarrow> PathAttribute \<Rightarrow> NlriPath list \<Rightarrow> ParsedUpdate" where
  "delivered ebgp ap pa ns = \<lparr>pu_withdrawn = [], pu_announcements = map (misread ap) ns, pu_attrs = Some \<lparr>attrs = arriving ebgp (attrs pa),
     path = (up_path IncomingUpdate_new)\<lparr>pathNextHop := IPAddress_v4 (addr_v4 (pathNextHop (path pa)))\<rparr>\<rparr>\<rparr>"

lemma processUpdate_announcement:
  assumes "plainRanges (uc_ranges c)" "uc_families c ipv4uni" "transmissible (uc_asn32 c) (attrs pa)" "\<forall>n\<in>set ns. plainPrefix n"
    and "length (appendPathAttrs (uc_asn32 c) ebgp pa) < 65536"
  defines "m \<equiv> drop 19 (announcement (uc_addPath c) (appendPathAttrs (uc_asn32 c) ebgp pa) ns)"
  shows "processUpdate c (length m) (m @ tail) = Some (Inr (Some (delivered ebgp (uc_addPath c) pa ns)))"
proof -
  let ?as = "appendPathAttrs (uc_asn32 c) ebgp pa" and ?x = "concat (map (wireNlri (uc_addPath c)) ns)"
  have m: "m = be_bytes 2 (0 :: u16) @ be_bytes 2 (of_nat (length ?as) :: u16) @ ?as @ ?x"
    by (simp add: m_def announcement_def Let_def buildHeader_def)
  have l: "unat (of_nat (length ?as) :: u16) = length ?as" using assms(5) by (simp add: unsigned_of_nat take_bit_nat_eq_self)
  have u: "up_attrs (IncomingUpdate_new\<lparr>withdrawnData := w\<rparr>) = Attributes_new" for w by (simp add: IncomingUpdate_new_def)
  have "parseNlris (uc_addPath c) 0 q [] = Some (Inr [])" for q by (simp add: parseNlris.simps)
  with parsePathAttributes_built [OF assms(1,3) u] parseNlris_wire [OF assms(4), of "uc_addPath c" tail "[]"] show ?thesis
    using appendPathAttrs_nonempty [of "uc_asn32 c" ebgp pa] assms(2) l
    by (simp add: processUpdate_def m Let_def processUpdateNlri_def delivered_def)
qed

definition deliverable :: "bool \<Rightarrow> bool \<Rightarrow> nat \<Rightarrow> Announcement \<Rightarrow> bool" where
  "deliverable use4 ebgp mx a \<longleftrightarrow> transmissible use4 (attrs (ann_attrs a)) \<and> (\<forall>n\<in>set (ann_nlri a). plainPrefix n)
     \<and> length (appendPathAttrs use4 ebgp (ann_attrs a)) + 32 \<le> mx"

lemma announceAll_splits:
  assumes "\<forall>a\<in>set as. deliverable use4 ebgp mx a" "mx < 2 ^ 16"
  shows "\<exists>sent. announceAll use4 ebgp ap mx as [] = Some (map (\<lambda>(pa, p). announcement ap (appendPathAttrs use4 ebgp pa) p) sent, [])
    \<and> concat (map (\<lambda>(pa, p). map (Pair pa) p) sent) = concat (map (\<lambda>a. map (Pair (ann_attrs a)) (ann_nlri a)) as)
    \<and> (\<forall>(pa, p)\<in>set sent. length (announcement ap (appendPathAttrs use4 ebgp pa) p) \<le> mx \<and> transmissible use4 (attrs pa)
        \<and> (\<forall>n\<in>set p. plainPrefix n))"
  using assms(1)
proof (induction as)
  case (Cons a as)
  let ?pa = "ann_attrs a" and ?bs = "appendPathAttrs use4 ebgp (ann_attrs a)"
  have a: "transmissible use4 (attrs ?pa)" "\<forall>n\<in>set (ann_nlri a). plainPrefix n" "length ?bs + 32 \<le> mx"
    using Cons.prems by (simp_all add: deliverable_def)
  from announceLoop_splits [OF a(2,3) assms(2), of ap] obtain parts where
    parts: "announceLoop ap mx ?bs [] (ann_nlri a) = Some (map (announcement ap ?bs) parts, [])" "concat parts = ann_nlri a"
      "\<forall>p\<in>set parts. p \<noteq> [] \<and> length (announcement ap ?bs p) \<le> mx" by blast
  from Cons obtain sent where sent: "announceAll use4 ebgp ap mx as [] = Some (map (\<lambda>(pa, p). announcement ap (appendPathAttrs use4 ebgp pa) p) sent, [])"
    "concat (map (\<lambda>(pa, p). map (Pair pa) p) sent) = concat (map (\<lambda>a. map (Pair (ann_attrs a)) (ann_nlri a)) as)"
    "\<forall>(pa, p)\<in>set sent. length (announcement ap (appendPathAttrs use4 ebgp pa) p) \<le> mx \<and> transmissible use4 (attrs pa) \<and> (\<forall>n\<in>set p. plainPrefix n)"
    by auto
  have "\<forall>p\<in>set parts. \<forall>n\<in>set p. plainPrefix n" using a(2) unfolding parts(2) [symmetric] by auto
  moreover have "concat (map (map (Pair ?pa)) parts) = map (Pair ?pa) (ann_nlri a)" using parts(2) by (metis map_concat)
  ultimately show ?case
    using parts(1,3) sent a(1)
    by (intro exI [of _ "map (Pair ?pa) parts @ sent"]) (auto simp: comp_def)
qed simp

section \<open>Properties\<close>

text \<open>Announcements end to end: building the messages for announced routes returns, no message is longer than the peer accepts, the
  receiver processes every one without error, and the sequence of pairs of attributes and prefixes is that of the
  announcements, in order. The address of every prefix, though, arrives shifted by the byte of its length
  (\<open>misread\<close>).\<close>

theorem announcements_delivered:
  assumes "mx = (if ext then 65535 else 4096)" "\<forall>a\<in>set as. deliverable (uc_asn32 c) ebgp mx a"
    and "plainRanges (uc_ranges c)" "uc_families c ipv4uni"
  shows "\<exists>ms sent. buildUpdate (uc_asn32 c) ebgp (uc_addPath c) ext as [] = Some ms
    \<and> list_all2 (\<lambda>m (pa, p). length m \<le> mx
        \<and> processUpdate c (length (drop 19 m)) (drop 19 m) = Some (Inr (Some (delivered ebgp (uc_addPath c) pa p)))) ms sent
    \<and> concat (map (\<lambda>(pa, p). map (Pair pa) p) sent) = concat (map (\<lambda>a. map (Pair (ann_attrs a)) (ann_nlri a)) as)"
proof -
  let ?msg = "\<lambda>(pa, p). announcement (uc_addPath c) (appendPathAttrs (uc_asn32 c) ebgp pa) p"
  have mx: "mx < 2 ^ 16" using assms(1) by simp
  from announceAll_splits [OF assms(2) mx, of "uc_addPath c"] obtain sent where
    sent: "announceAll (uc_asn32 c) ebgp (uc_addPath c) mx as [] = Some (map ?msg sent, [])"
      "concat (map (\<lambda>(pa, p). map (Pair pa) p) sent) = concat (map (\<lambda>a. map (Pair (ann_attrs a)) (ann_nlri a)) as)"
      "\<forall>(pa, p)\<in>set sent. length (?msg (pa, p)) \<le> mx \<and> transmissible (uc_asn32 c) (attrs pa) \<and> (\<forall>n\<in>set p. plainPrefix n)"
    by auto
  have each: "length (?msg (pa, p)) \<le> mx
      \<and> processUpdate c (length (drop 19 (?msg (pa, p)))) (drop 19 (?msg (pa, p))) = Some (Inr (Some (delivered ebgp (uc_addPath c) pa p)))"
    if "(pa, p) \<in> set sent" for pa p
  proof -
    from that sent(3) have "length (?msg (pa, p)) \<le> mx" "transmissible (uc_asn32 c) (attrs pa)" "\<forall>n\<in>set p. plainPrefix n" by auto
    with processUpdate_announcement [OF assms(3,4), of pa p ebgp "[]"] mx show ?thesis by (simp add: length_announcement)
  qed
  have "buildUpdate (uc_asn32 c) ebgp (uc_addPath c) ext as [] = Some (map ?msg sent)"
    using sent(1) by (simp add: buildUpdate_def Let_def drainLoop.simps flip: assms(1))
  moreover have "list_all2 (\<lambda>m (pa, p). length m \<le> mx
      \<and> processUpdate c (length (drop 19 m)) (drop 19 m) = Some (Inr (Some (delivered ebgp (uc_addPath c) pa p)))) (map ?msg sent) sent"
    using each by (auto simp: list_all2_map1 list_all2_same)
  ultimately show ?thesis using sent(2) by blast
qed

text \<open>The loop over an announcement does not end when the attributes leave no room for its first prefix: every round writes a
  message without prefixes.\<close>

theorem full_message_never_ends:
  assumes "\<forall>n\<in>set ns. plainPrefix n" "ns \<noteq> []" "length as + 23 \<le> mx" "mx < length as + 23 + entrySize ap (hd ns)" "mx < 2 ^ 16"
  shows "updateRound ap mx as [] ns = Some (announcement ap as [], 0, 0) \<and> announceLoop ap mx as [] ns = None"
proof
  let ?b = "of_nat mx - 19 - 4 - of_nat (length as) :: u64"
  have "?b = of_nat (mx - 23 - length as)" using assms(3) by (simp add: of_nat_diff)
  hence b: "unat ?b = mx - 23 - length as" using assms(5) by (simp add: unsigned_of_nat take_bit_nat_eq_self)
  obtain n ns' where ns: "ns = n # ns'" using assms(2) by (cases ns) auto
  hence "mx - 23 - length as < entrySize ap n" using assms(3,4) by simp
  hence "computeNlriLen ap (unat ?b) ns 0 = (0, 0)" unfolding b ns by simp
  thus step: "updateRound ap mx as [] ns = Some (announcement ap as [], 0, 0)"
    by (simp add: updateRound_def Let_def announcement_def buildHeader_def appendNlri_def)
  show "announceLoop ap mx as [] ns = None"
  proof (rule ccontr)
    assume "announceLoop ap mx as [] ns \<noteq> None"
    then obtain ms l where r: "announceLoop ap mx as [] ns = Some (ms, l)" by auto
    moreover have "announceLoop ap mx as [] ns = Some (announcement ap as [] # ms, l)"
      using step assms(2) by (subst announceLoop.simps) (simp add: r)
    ultimately show False by simp
  qed
qed

text \<open>A received length of more than 32 bits is undefined: the shift of \<open>readBytes\<close> becomes larger than the type.\<close>

lemma overlong_prefix_undefined: "32 < l \<Longrightarrow> decodeNlri (l # p) = None"
proof -
  assume "32 < l"
  hence "4 < nlriBytes l" by (simp add: nlriBytes_def word_less_nat_alt)
  hence "(readBytes (l # p) (nlriBytes l) :: u32 option) = None" by (intro readBytes_overrun) auto
  thus ?thesis by (simp add: decodeNlri_def byteAt_def)
qed

text \<open>10.1.2.0/24 arrives as 24.10.1.0/24.\<close>

lemma misread_example:
  "np_nlri (misread False \<lparr>np_nlri = \<lparr>pfx4_addr = 0x0A010200, pfx4_len = 24\<rparr>, np_pathId = 0\<rparr>) = \<lparr>pfx4_addr = 0x180A0100, pfx4_len = 24\<rparr>"
  by code_simp

text \<open>The withdrawn prefixes are written behind both lengths and read between them: the withdrawal of 10.1.2.0/24 is refused.\<close>

lemma withdrawal_misread:
  "buildUpdate use4 ebgp False False [] [\<lparr>np_nlri = \<lparr>pfx4_addr = 0x0A010200, pfx4_len = 24\<rparr>, np_pathId = 0\<rparr>]
     = Some [buildHeader 2 8 @ [0, 4, 0, 0, 24, 10, 1, 2]]
   \<and> processUpdate c 8 [0, 4, 0, 0, 24, 10, 1, 2] = Some (Inl (err 0x0301))"
proof
  have "drainRound False 4096 [\<lparr>np_nlri = \<lparr>pfx4_addr = 0x0A010200, pfx4_len = 24\<rparr>, np_pathId = 0\<rparr>]
      = Some (buildHeader 2 8 @ [0, 4, 0, 0, 24, 10, 1, 2], 1)"
    by code_simp
  thus "buildUpdate use4 ebgp False False [] [\<lparr>np_nlri = \<lparr>pfx4_addr = 0x0A010200, pfx4_len = 24\<rparr>, np_pathId = 0\<rparr>]
      = Some [buildHeader 2 8 @ [0, 4, 0, 0, 24, 10, 1, 2]]"
    by (simp add: buildUpdate_def drainLoop.simps)
  show "processUpdate c 8 [0, 4, 0, 0, 24, 10, 1, 2] = Some (Inl (err 0x0301))"
    by (simp add: processUpdate_def readU16_def)
qed

section \<open>Witnesses\<close>

definition ex_context :: UpdateContext where
  "ex_context = \<lparr>uc_ranges = ex_ranges, uc_asn32 = True, uc_addPath = False, uc_families = (\<lambda>f. f = ipv4uni)\<rparr>"

definition ex_announcement :: Announcement where
  "ex_announcement = \<lparr>ann_attrs = ex_pa, ann_nlri = [\<lparr>np_nlri = \<lparr>pfx4_addr = 0x0A010000, pfx4_len = 16\<rparr>, np_pathId = 0\<rparr>]\<rparr>"

lemma ex_deliverable: "deliverable True False 4096 ex_announcement"
proof -
  have "length (appendPathAttrs True False ex_pa) \<le> 200"
    by (simp add: appendPathAttrs_def Let_def ex_pa_def Attributes_new_def optAttr_def listAttr_def attr_def appendAttrHdr_def encSegment_def
        unknownAttr_def)
  with ex_pa_transmissible show ?thesis by (simp add: deliverable_def ex_announcement_def plainPrefix_def)
qed

theorem announcements_delivered_witness:
  "\<exists>ms sent. buildUpdate True False False False [ex_announcement] [] = Some ms
    \<and> list_all2 (\<lambda>m (pa, p). length m \<le> 4096
        \<and> processUpdate ex_context (length (drop 19 m)) (drop 19 m) = Some (Inr (Some (delivered False False pa p)))) ms sent
    \<and> concat (map (\<lambda>(pa, p). map (Pair pa) p) sent) = [(ex_pa, hd (ann_nlri ex_announcement))]"
  using announcements_delivered [of 4096 False "[ex_announcement]" ex_context False] ex_deliverable ex_ranges_plain
  by (simp add: ex_context_def) (simp add: ex_announcement_def)

theorem full_message_never_ends_witness:
  "announceLoop False 4096 (replicate 4071 0) [] (ann_nlri ex_announcement) = None"
  using full_message_never_ends [of "ann_nlri ex_announcement" "replicate 4071 0" 4096 False]
  by (simp add: ex_announcement_def plainPrefix_def entrySize_def nlriEncodedSize_def nlriBytes_def)

end
