(* ===== verification/BgpOrf.thy ===== *)
theory BgpOrf
  imports BgpNlri
begin

text \<open>
  Outbound route filters (\<open>routing/bgp/rib/RibTypes.hpp\<close>, \<open>routing/bgp/neighbor/NeighborAf.cpp\<close>) and the ROUTE-REFRESH messages that carry
  them: \<open>BgpTx::buildRouteRefresh\<close> and the parsing part of \<open>BgpRx::processRouteRefresh\<close>.

  The filter a neighbor keeps is a list sorted by sequence numbers; it refines a map from sequence numbers to entries.
  \<open>std::sort\<close> is modelled by the stable sort: on a list of distinct keys there is only one sorted list.
\<close>

section \<open>Entries and the filter of a neighbor\<close>

record OrfPrefixEntry =
  orf_action :: u8
  orf_match :: u8
  orf_sequence :: u32
  orf_minLen :: u8
  orf_maxLen :: u8
  orf_prefix :: IPPrefix

fun orfErase :: "u32 \<Rightarrow> OrfPrefixEntry list \<Rightarrow> OrfPrefixEntry list" where
  "orfErase s [] = []"
| "orfErase s (f # fs) = (if orf_sequence f = s then fs else f # orfErase s fs)"

fun orfAssign :: "OrfPrefixEntry \<Rightarrow> OrfPrefixEntry list \<Rightarrow> OrfPrefixEntry list" where
  "orfAssign e [] = [e]"
| "orfAssign e (f # fs) = (if orf_sequence f = orf_sequence e then e # fs else f # orfAssign e fs)"

definition orfApply :: "OrfPrefixEntry \<Rightarrow> OrfPrefixEntry list \<Rightarrow> OrfPrefixEntry list" where
  "orfApply e fs = (if orf_action e = 2 then [] else if orf_action e = 1 then orfErase (orf_sequence e) fs else orfAssign e fs)"

definition updateOrfFilter :: "OrfPrefixEntry list \<Rightarrow> OrfPrefixEntry list \<Rightarrow> OrfPrefixEntry list" where
  "updateOrfFilter es fs = sort_key orf_sequence (fold orfApply es fs)"

section \<open>Parsing\<close>

definition orfPrefixAt :: "u16 \<Rightarrow> u8 \<Rightarrow> u8 list \<Rightarrow> IPPrefix option" where
  "orfPrefixAt af l p = (if af = 2 then do { a \<leftarrow> readBytes p (nlriBytes l); Some \<lparr>pfx_addr = a, pfx_len = l\<rparr> }
     else do { a \<leftarrow> readBytes p (nlriBytes l); Some \<lparr>pfx_addr = mapped a, pfx_len = l\<rparr> })"

text \<open>The loop over the entries: \<open>r\<close> bytes of the filter are left.\<close>

function parseOrfEntries :: "u16 \<Rightarrow> nat \<Rightarrow> u8 list \<Rightarrow> OrfPrefixEntry list \<Rightarrow> OrfPrefixEntry list option" where
  "parseOrfEntries af r p acc = (if r = 0 then Some acc
     else do {
       am \<leftarrow> byteAt 0 p;
       let action = drop_bit 6 am AND 3;
       let e = \<lparr>orf_action = action, orf_match = am AND 1, orf_sequence = 0, orf_minLen = 0, orf_maxLen = 0, orf_prefix = \<lparr>pfx_addr = 0, pfx_len = 0\<rparr>\<rparr>;
       if action = 2 then parseOrfEntries af (r - 1) (drop 1 p) (acc @ [e])
       else if r < 7 then Some acc
       else do {
         s \<leftarrow> readU32 (drop 1 p);
         mn \<leftarrow> byteAt 5 p;
         mx \<leftarrow> byteAt 6 p;
         if r \<le> 7 then Some acc
         else do {
           l \<leftarrow> byteAt 7 p;
           if 8 + nlriBytes l > r then Some acc
           else do {
             pfx \<leftarrow> orfPrefixAt af l (drop 8 p);
             parseOrfEntries af (r - (8 + nlriBytes l)) (drop (8 + nlriBytes l) p)
               (acc @ [e\<lparr>orf_sequence := s, orf_minLen := mn, orf_maxLen := mx, orf_prefix := pfx\<rparr>]) } } } })"
  by auto
termination by (relation "measure (\<lambda>(af, r, p, acc). r)") auto

declare parseOrfEntries.simps [simp del]

text \<open>The loop over the filters behind the first four bytes of the message.\<close>

function parseOrfs :: "u16 \<Rightarrow> nat \<Rightarrow> u8 list \<Rightarrow> OrfPrefixEntry list \<Rightarrow> OrfPrefixEntry list option" where
  "parseOrfs af n p acc = (if n < 3 then Some acc
     else do {
       ty \<leftarrow> byteAt 0 p;
       l \<leftarrow> readU16 (drop 1 p);
       let orfLen = unat l;
       if 3 + orfLen > n then Some acc
       else do {
         acc \<leftarrow> (if ty = 64 then parseOrfEntries af orfLen (drop 3 p) acc else Some acc);
         parseOrfs af (n - (3 + orfLen)) (drop (3 + orfLen) p) acc } })"
  by auto
termination by (relation "measure (\<lambda>(af, n, p, acc). n)") auto

declare parseOrfs.simps [simp del]

section \<open>Building\<close>

definition encOrfEntry :: "OrfPrefixEntry \<Rightarrow> u8 list option" where
  "encOrfEntry e = (let am = push_bit 6 (orf_action e) OR (orf_match e AND 1); b = nlriBytes (pfx_len (orf_prefix e)) in
     if orf_action e = 2 then Some [am]
     else map_option (\<lambda>x. am # be_bytes 4 (orf_sequence e) @ [orf_minLen e, orf_maxLen e, pfx_len (orf_prefix e)] @ x)
       (if pfx_isIPv4 (orf_prefix e) then writeBytes (replicate b 0) (pfx_v4 (orf_prefix e)) b
        else writeBytes (replicate b 0) (pfx_addr (orf_prefix e)) b))"

definition orfPayload :: "OrfPrefixEntry list \<Rightarrow> u16" where
  "orfPayload es = sum_list (map (\<lambda>e. if orf_action e = 2 then 1 else of_nat (8 + nlriBytes (pfx_len (orf_prefix e)))) es)"

text \<open>\<open>canSend\<close> is the result of \<open>canSendOrf\<close>, which is declared and not defined.\<close>

definition buildRouteRefresh :: "bool \<Rightarrow> bool \<Rightarrow> OrfPrefixEntry list \<Rightarrow> AfiSafi \<Rightarrow> u8 \<Rightarrow> u8 list option" where
  "buildRouteRefresh enhanced canSend orfOutbound fam reason = (let subtype = (if \<not> enhanced \<and> reason \<noteq> 0 then 0 else reason) in
     if orfOutbound \<noteq> [] \<and> canSend
     then do {
       es \<leftarrow> catAll (map encOrfEntry orfOutbound);
       Some (buildHeader 5 (4 + 3 + orfPayload orfOutbound) @ be_bytes 2 (afi fam) @ [0, safi fam, 64] @ be_bytes 2 (orfPayload orfOutbound) @ es) }
     else Some (buildHeader 5 4 @ be_bytes 2 (afi fam) @ [subtype, safi fam]))"

section \<open>The filter as a map\<close>

text \<open>The specification: the entry of every sequence number.\<close>

definition orfMap :: "OrfPrefixEntry list \<Rightarrow> u32 \<Rightarrow> OrfPrefixEntry option" where
  "orfMap fs s = List.find (\<lambda>f. orf_sequence f = s) fs"

definition orfSpec :: "OrfPrefixEntry \<Rightarrow> (u32 \<Rightarrow> OrfPrefixEntry option) \<Rightarrow> u32 \<Rightarrow> OrfPrefixEntry option" where
  "orfSpec e m = (if orf_action e = 2 then (\<lambda>_. None) else if orf_action e = 1 then m(orf_sequence e := None) else m(orf_sequence e \<mapsto> e))"

abbreviation orfDistinct :: "OrfPrefixEntry list \<Rightarrow> bool" where
  "orfDistinct fs \<equiv> distinct (map orf_sequence fs)"

lemma orfMap_Some: "orfDistinct fs \<Longrightarrow> orfMap fs s = Some e \<longleftrightarrow> e \<in> set fs \<and> orf_sequence e = s"
  by (induction fs) (auto simp: orfMap_def)

lemma orfMap_cong:
  assumes "orfDistinct fs" "orfDistinct gs" "set fs = set gs"
  shows "orfMap fs = orfMap gs"
proof
  fix s
  have "orfMap fs s = Some e \<longleftrightarrow> orfMap gs s = Some e" for e using assms by (simp add: orfMap_Some)
  thus "orfMap fs s = orfMap gs s" by (metis not_Some_eq)
qed

lemma orfMap_simps [simp]: "orfMap [] = (\<lambda>_. None)" "orfMap (f # fs) = (orfMap fs)(orf_sequence f \<mapsto> f)"
  by (auto simp: orfMap_def fun_eq_iff)

lemma orfMap_absent: "s \<notin> orf_sequence ` set fs \<Longrightarrow> orfMap fs s = None"
  by (auto simp: orfMap_def find_None_iff)

lemma orfErase_set: "orf_sequence ` set (orfErase s fs) \<subseteq> orf_sequence ` set fs"
  by (induction fs) auto

lemma orfErase_distinct: "orfDistinct fs \<Longrightarrow> orfDistinct (orfErase s fs)"
proof (induction fs)
  case (Cons f fs)
  thus ?case using orfErase_set [of s fs] by auto
qed simp

lemma orfErase_map: "orfDistinct fs \<Longrightarrow> orfMap (orfErase s fs) = (orfMap fs)(s := None)"
  by (induction fs) (auto simp: orfMap_absent fun_upd_twist)

lemma orfAssign_set: "orf_sequence ` set (orfAssign e fs) = insert (orf_sequence e) (orf_sequence ` set fs)"
  by (induction fs) auto

lemma orfAssign_distinct: "orfDistinct fs \<Longrightarrow> orfDistinct (orfAssign e fs)"
proof (induction fs)
  case (Cons f fs)
  thus ?case using orfAssign_set [of e fs] by auto
qed simp

lemma orfAssign_map: "orfMap (orfAssign e fs) = (orfMap fs)(orf_sequence e \<mapsto> e)"
  by (induction fs) (auto simp: fun_upd_twist)

lemma orfApply_refines: "orfDistinct fs \<Longrightarrow> orfDistinct (orfApply e fs) \<and> orfMap (orfApply e fs) = orfSpec e (orfMap fs)"
  by (simp add: orfApply_def orfSpec_def orfErase_distinct orfErase_map orfAssign_distinct orfAssign_map)

lemma fold_orfApply: "orfDistinct fs \<Longrightarrow> orfDistinct (fold orfApply es fs) \<and> orfMap (fold orfApply es fs) = fold orfSpec es (orfMap fs)"
  by (induction es arbitrary: fs) (simp_all add: orfApply_refines)

lemma updateOrfFilter_refines:
  assumes "orfDistinct fs"
  shows "orfDistinct (updateOrfFilter es fs) \<and> orfMap (updateOrfFilter es fs) = fold orfSpec es (orfMap fs)"
proof -
  let ?gs = "fold orfApply es fs"
  have "orfDistinct (sort_key orf_sequence ?gs)"
    using fold_orfApply [OF assms, of es] by (simp add: distinct_map)
  moreover from this have "orfMap (sort_key orf_sequence ?gs) = orfMap ?gs"
    using fold_orfApply [OF assms, of es] by (intro orfMap_cong) auto
  ultimately show ?thesis using fold_orfApply [OF assms, of es] by (simp add: updateOrfFilter_def)
qed

section \<open>Entries on the wire\<close>

text \<open>The entries the format carries: two actions, a match of one bit, an IPv4 prefix without bits behind its last byte, and nothing
  else in the entry that removes all.\<close>

definition plainOrf :: "OrfPrefixEntry \<Rightarrow> bool" where
  "plainOrf e \<longleftrightarrow> orf_match e \<le> 1 \<and> (if orf_action e = 2
     then orf_sequence e = 0 \<and> orf_minLen e = 0 \<and> orf_maxLen e = 0 \<and> orf_prefix e = \<lparr>pfx_addr = 0, pfx_len = 0\<rparr>
     else orf_action e \<le> 3 \<and> pfx_len (orf_prefix e) \<le> 32 \<and> (\<exists>a. pfx_addr (orf_prefix e) = mapped a
       \<and> push_bit (32 - 8 * nlriBytes (pfx_len (orf_prefix e))) (drop_bit (32 - 8 * nlriBytes (pfx_len (orf_prefix e))) a) = a))"

lemma partial_prefix:
  fixes a :: u32
  assumes "b \<le> 4" "push_bit (32 - 8 * b) (drop_bit (32 - 8 * b) a) = a"
  shows "writeBytes (replicate b 0) a b = Some (take b (be_bytes 4 a)) \<and> readBytes (take b (be_bytes 4 a) @ tail) b = Some a"
proof -
  from partial_field_roundtrip [of b "replicate b 0 @ tail" a] assms obtain e where
    e: "writeBytes (replicate b 0 @ tail) a b = Some e" "readBytes e b = Some a" by auto
  moreover have "e = take b (be_bytes 4 a) @ tail" using e(1) assms(1) by (simp add: writeBytes_spec)
  ultimately show ?thesis using assms(1) by (simp add: writeBytes_spec)
qed

lemma small_words: "x \<le> 3 \<Longrightarrow> x = 0 \<or> x = 1 \<or> x = 2 \<or> x = (3 :: u8)"
proof -
  assume "x \<le> 3"
  hence "unat x = 0 \<or> unat x = 1 \<or> unat x = 2 \<or> unat x = 3" by (auto simp: word_le_nat_alt)
  thus ?thesis by (auto simp: word_unat_eq_iff)
qed

lemma action_match:
  assumes "act \<le> 3" "mt \<le> (1 :: u8)"
  shows "drop_bit 6 (push_bit 6 act OR mt AND 1) AND 3 = (act :: u8) \<and> (push_bit 6 act OR mt AND 1) AND 1 = mt"
proof -
  have "mt \<le> 3" using assms(2) by (rule order_trans) simp
  with small_words [OF this] assms(2) have "mt = 0 \<or> mt = 1" by (auto simp: word_le_nat_alt)
  with small_words [OF assms(1)] show ?thesis by auto
qed

text \<open>An entry as \<open>encOrfEntry\<close> writes it, and the step that reads it.\<close>

definition wireOrf :: "OrfPrefixEntry \<Rightarrow> u8 list" where
  "wireOrf e = (push_bit 6 (orf_action e) OR (orf_match e AND 1)) # (if orf_action e = 2 then []
     else be_bytes 4 (orf_sequence e) @ [orf_minLen e, orf_maxLen e, pfx_len (orf_prefix e)]
       @ take (nlriBytes (pfx_len (orf_prefix e))) (be_bytes 4 (pfx_v4 (orf_prefix e))))"

lemma plainOrf_prefix:
  assumes "plainOrf e" "orf_action e \<noteq> 2"
  defines "b \<equiv> nlriBytes (pfx_len (orf_prefix e))" and "a \<equiv> pfx_v4 (orf_prefix e)"
  shows "b \<le> 4 \<and> pfx_isIPv4 (orf_prefix e) \<and> orf_prefix e = \<lparr>pfx_addr = mapped a, pfx_len = pfx_len (orf_prefix e)\<rparr>
    \<and> push_bit (32 - 8 * b) (drop_bit (32 - 8 * b) a) = a"
  using assms by (cases "orf_prefix e") (auto simp: plainOrf_def nlriBytes_le pfx_isIPv4_def pfx_v4_def)

lemma encOrfEntry_plain: "plainOrf e \<Longrightarrow> encOrfEntry e = Some (wireOrf e)"
  using plainOrf_prefix [of e] partial_prefix by (auto simp: encOrfEntry_def wireOrf_def Let_def)

lemma length_wireOrf:
  "plainOrf e \<Longrightarrow> length (wireOrf e) = (if orf_action e = 2 then 1 else 8 + nlriBytes (pfx_len (orf_prefix e)))"
  using plainOrf_prefix [of e] by (auto simp: wireOrf_def)

lemma orf_eta:
  "\<lparr>orf_action = orf_action e, orf_match = orf_match e, orf_sequence = orf_sequence e, orf_minLen = orf_minLen e,
      orf_maxLen = orf_maxLen e, orf_prefix = orf_prefix e\<rparr> = e"
  by (cases e) simp

lemma parseOrfEntries_wire:
  assumes "plainOrf e" "af \<noteq> 2"
  shows "parseOrfEntries af (length (wireOrf e) + r) (wireOrf e @ p) acc = parseOrfEntries af r p (acc @ [e])"
proof (cases "orf_action e = 2")
  case True
  with assms(1) have eta: "\<lparr>orf_action = 2, orf_match = orf_match e, orf_sequence = 0, orf_minLen = 0, orf_maxLen = 0,
      orf_prefix = \<lparr>pfx_addr = 0, pfx_len = 0\<rparr>\<rparr> = e"
    by (cases e) (auto simp: plainOrf_def)
  from True assms(1) action_match [of "2" "orf_match e"] show ?thesis
    by (subst parseOrfEntries.simps) (simp add: wireOrf_def byteAt_def plainOrf_def eta)
next
  case False
  let ?b = "nlriBytes (pfx_len (orf_prefix e))" and ?a = "pfx_v4 (orf_prefix e)"
  have pre: "?b \<le> 4" "orf_prefix e = \<lparr>pfx_addr = mapped ?a, pfx_len = pfx_len (orf_prefix e)\<rparr>"
    "push_bit (32 - 8 * ?b) (drop_bit (32 - 8 * ?b) ?a) = ?a" using plainOrf_prefix [OF assms(1) False] by auto
  have w: "wireOrf e @ p = (push_bit 6 (orf_action e) OR (orf_match e AND 1)) # be_bytes 4 (orf_sequence e)
      @ [orf_minLen e, orf_maxLen e, pfx_len (orf_prefix e)] @ take ?b (be_bytes 4 ?a) @ p"
    using False by (simp add: wireOrf_def)
  have d: "drop 8 (wireOrf e @ p) = take ?b (be_bytes 4 ?a) @ p" "drop (8 + ?b) (wireOrf e @ p) = p"
    unfolding w using pre(1) by (simp_all add: eval_nat_numeral)
  have "orfPrefixAt af (pfx_len (orf_prefix e)) (drop 8 (wireOrf e @ p)) = Some (orf_prefix e)"
    unfolding d(1) using assms(2) partial_prefix [OF pre(1,3), of p] by (simp add: orfPrefixAt_def pre(2) [symmetric])
  moreover have "byteAt 0 (wireOrf e @ p) = Some (push_bit 6 (orf_action e) OR (orf_match e AND 1))" "readU32 (drop 1 (wireOrf e @ p)) = Some (orf_sequence e)"
    "byteAt 5 (wireOrf e @ p) = Some (orf_minLen e)" "byteAt 6 (wireOrf e @ p) = Some (orf_maxLen e)"
    "byteAt 7 (wireOrf e @ p) = Some (pfx_len (orf_prefix e))"
    unfolding w by (simp_all add: byteAt_def nth_append nth_Cons')
  moreover have "orf_action e \<le> 3" "orf_match e \<le> 1" using assms(1) False by (auto simp: plainOrf_def)
  ultimately show ?thesis
    using False action_match [of "orf_action e" "orf_match e"] length_wireOrf [OF assms(1)] d(2)
    by (subst parseOrfEntries.simps) (simp add: orf_eta del: drop_append)
qed

lemma parseOrfEntries_concat:
  "\<forall>e\<in>set es. plainOrf e \<Longrightarrow> af \<noteq> 2 \<Longrightarrow>
    parseOrfEntries af (length (concat (map wireOrf es))) (concat (map wireOrf es) @ p) acc = Some (acc @ es)"
  by (induction es arbitrary: acc) (simp_all add: parseOrfEntries_wire parseOrfEntries.simps [of _ 0])

lemma catAll_plain: "\<forall>e\<in>set es. plainOrf e \<Longrightarrow> catAll (map encOrfEntry es) = Some (concat (map wireOrf es))"
  by (induction es) (simp_all add: encOrfEntry_plain)

lemma orfPayload_plain:
  "\<forall>e\<in>set es. plainOrf e \<Longrightarrow> orfPayload es = of_nat (length (concat (map wireOrf es)))"
proof (induction es)
  case (Cons e es)
  thus ?case by (simp add: orfPayload_def length_wireOrf)
qed (simp add: orfPayload_def)

section \<open>Properties\<close>

text \<open>(C26) The filter a neighbor keeps refines a map: after any sequence of received updates it is sorted by sequence numbers without
  duplicates and holds, for every number, the entry last added and not removed.\<close>

theorem orf_filter_refines_map:
  "let fs = fold updateOrfFilter ess [] in sorted (map orf_sequence fs) \<and> orfDistinct fs \<and> orfMap fs = fold (fold orfSpec) ess (\<lambda>_. None)"
proof -
  have "orfDistinct fs \<and> orfMap fs = m \<Longrightarrow> orfDistinct (fold updateOrfFilter ess fs) \<and> orfMap (fold updateOrfFilter ess fs) = fold (fold orfSpec) ess m" for fs m
    by (induction ess arbitrary: fs m) (simp_all add: updateOrfFilter_refines)
  from this [of "[]" "\<lambda>_. None"] have "orfDistinct (fold updateOrfFilter ess [])" "orfMap (fold updateOrfFilter ess []) = fold (fold orfSpec) ess (\<lambda>_. None)"
    by simp_all
  moreover have "sorted (map orf_sequence (fold updateOrfFilter ess []))"
    by (cases ess rule: rev_cases) (simp_all add: updateOrfFilter_def)
  ultimately show ?thesis by (simp add: Let_def)
qed

text \<open>(C39) Filters round trip: the entries a speaker writes into a ROUTE-REFRESH message are the entries its peer parses from it, for
  every IPv4 filter that fits.\<close>

theorem orf_roundtrip:
  assumes "\<forall>e\<in>set es. plainOrf e" "es \<noteq> []" "afi fam \<noteq> 2" "length (concat (map wireOrf es)) < 65536"
  shows "\<exists>m. buildRouteRefresh enhanced True es fam reason = Some m \<and> take 4 (drop 19 m) = be_bytes 2 (afi fam) @ [0, safi fam]
    \<and> parseOrfs (afi fam) (length (drop 23 m)) (drop 23 m) [] = Some es"
proof -
  let ?w = "concat (map wireOrf es)"
  let ?m = "buildHeader 5 (4 + 3 + orfPayload es) @ be_bytes 2 (afi fam) @ [0, safi fam, 64] @ be_bytes 2 (orfPayload es) @ ?w"
  have b: "buildRouteRefresh enhanced True es fam reason = Some ?m"
    using assms(1,2) by (simp add: buildRouteRefresh_def catAll_plain)
  have t: "take 4 (drop 19 ?m) = be_bytes 2 (afi fam) @ [0, safi fam]" by (simp add: buildHeader_def)
  have d: "drop 23 ?m = 64 # be_bytes 2 (orfPayload es) @ ?w" by (simp add: buildHeader_def)
  have u: "unat (orfPayload es) = length ?w"
    using assms(1,4) by (simp add: orfPayload_plain unsigned_of_nat take_bit_nat_eq_self)
  have "parseOrfs (afi fam) (length (drop 23 ?m)) (drop 23 ?m) [] = Some es"
    unfolding d using parseOrfEntries_concat [OF assms(1,3), of "[]" "[]"]
    by (subst parseOrfs.simps) (simp add: byteAt_def u parseOrfs.simps [of _ 0])
  with b t show ?thesis by blast
qed

definition ex_orf :: "OrfPrefixEntry list" where
  "ex_orf = [\<lparr>orf_action = 2, orf_match = 0, orf_sequence = 0, orf_minLen = 0, orf_maxLen = 0, orf_prefix = \<lparr>pfx_addr = 0, pfx_len = 0\<rparr>\<rparr>,
     \<lparr>orf_action = 0, orf_match = 1, orf_sequence = 5, orf_minLen = 16, orf_maxLen = 24, orf_prefix = \<lparr>pfx_addr = mapped 0x0A010000, pfx_len = 16\<rparr>\<rparr>]"

theorem orf_roundtrip_witness:
  "\<exists>m. buildRouteRefresh True True ex_orf ipv4uni 0 = Some m \<and> take 4 (drop 19 m) = be_bytes 2 (afi ipv4uni) @ [0, safi ipv4uni]
    \<and> parseOrfs (afi ipv4uni) (length (drop 23 m)) (drop 23 m) [] = Some ex_orf"
proof (rule orf_roundtrip)
  show plain: "\<forall>e\<in>set ex_orf. plainOrf e" by (auto simp: ex_orf_def plainOrf_def nlriBytes_def)
  show "length (concat (map wireOrf ex_orf)) < 65536" by (simp add: ex_orf_def wireOrf_def)
qed (simp_all add: ex_orf_def ipv4uni_def)

end
