(* ===== verification/BgpReceive.thy ===== *)
theory BgpReceive
  imports BgpFsm BgpOrf
begin

text \<open>
  The reception of BGP messages: the receive buffer of a connection (\<open>transport/tcp/rx\<close>), the framing of \<open>BgpRx::handleIncoming\<close> and
  the handlers of the five message types, composed of the capabilities, attributes, prefixes and filters of the theories
  below and of the session.

  A \<open>peer\<close> is the session with its capabilities, the filters received from it and the calls made of the address families. A handler
  returns the new state and the code of the error, 0 for a failure without a notification; \<open>None\<close> around them is undefined behaviour.
  The functions of the negotiated capabilities that are declared and not defined in the sources are part of the
  context.
\<close>

section \<open>The receive buffer\<close>

record RxBuffer =
  rb_buffered :: bool
  rb_raw :: "u8 list"
  rb_buf :: "u8 list"

definition RxBuffer_new :: "nat \<Rightarrow> RxBuffer" where
  "RxBuffer_new recvSiz = \<lparr>rb_buffered = False, rb_raw = [], rb_buf = replicate recvSiz 0\<rparr>"

definition rxConsume :: "u8 list \<Rightarrow> RxBuffer \<Rightarrow> RxBuffer \<times> u8 list" where
  "rxConsume data rb = (if rb_buffered rb then (rb\<lparr>rb_buf := rb_buf rb @ data\<rparr>, rb_buf rb @ data) else (rb\<lparr>rb_raw := data\<rparr>, data))"

text \<open>The number of unconsumed bytes is computed as \<open>actualConsumed - consumed\<close>.\<close>

definition rxCommit :: "nat \<Rightarrow> RxBuffer \<Rightarrow> RxBuffer" where
  "rxCommit consumed rb = (if rb_buffered rb
     then (let b = drop (min (length (rb_buf rb)) consumed) (rb_buf rb) in rb\<lparr>rb_buf := b, rb_buffered := (b \<noteq> [])\<rparr>)
     else (let actualConsumed = min consumed (length (rb_raw rb)) in
       if actualConsumed \<noteq> length (rb_raw rb)
       then (let unconsumed = actualConsumed - consumed in rb\<lparr>rb_buffered := True, rb_buf := take unconsumed (drop consumed (rb_raw rb))\<rparr>)
       else rb))"

section \<open>The peer\<close>

record RxContext =
  rx_cfg :: session_config
  rx_ranges :: AttrRanges
  rx_families :: "AfiSafi \<Rightarrow> bool"
  rx_remoteAs :: "u32 option"
  rx_supportsFamily :: "Capabilities \<Rightarrow> AfiSafi \<Rightarrow> bool"
  rx_findAddPath :: "NegotiatedCapabilities \<Rightarrow> AfiSafi \<Rightarrow> bool"
  rx_canReceiveOrf :: "NegotiatedCapabilities \<Rightarrow> AfiSafi \<Rightarrow> u8 \<Rightarrow> bool"

datatype FamilyCall =
    OnParsedUpdate ParsedUpdate
  | RefreshPeer AfiSafi
  | OnPeerBorr AfiSafi
  | OnPeerEorr AfiSafi
  | CloseTemporary u64

record peer =
  pr_session :: session
  pr_localCaps :: Capabilities
  pr_peerCaps :: Capabilities
  pr_negotiated :: NegotiatedCapabilities
  pr_orfFilter :: "AfiSafi \<Rightarrow> OrfPrefixEntry list"
  pr_calls :: "FamilyCall list"

abbreviation onSession :: "(session \<Rightarrow> session) \<Rightarrow> peer \<Rightarrow> peer" where
  "onSession f x \<equiv> x\<lparr>pr_session := f (pr_session x)\<rparr>"

definition call :: "FamilyCall \<Rightarrow> peer \<Rightarrow> peer" where
  "call f x = x\<lparr>pr_calls := pr_calls x @ [f]\<rparr>"

section \<open>OPEN messages\<close>

text \<open>\<open>resolveMultiSessionAf\<close>: the inner loop runs over all parameters again, and \<open>multiSession\<close> is never set. \<open>Inl\<close> is an early
  return.\<close>

function msCapabilities :: "u8 list \<Rightarrow> AfiSafi option \<Rightarrow> (unit + AfiSafi option) option" where
  "msCapabilities d mp = (if length d < 2 then Some (Inr mp)
     else let len = unat (d ! 1) in
       if 2 + len > length d then Some (Inl ())
       else if d ! 0 = 1 \<and> len = 4 then do {
           a \<leftarrow> readU16 (drop 2 d); s \<leftarrow> byteAt 5 d;
           if mp \<noteq> None then Some (Inl ()) else msCapabilities (drop (2 + len) d) (Some \<lparr>afi = a, safi = s\<rparr>) }
       else if d ! 0 = 68 then do {
           es \<leftarrow> entries 4 famAt (len div 4) (drop 2 d);
           msCapabilities (drop (2 + len) d) (if es = [] then mp else Some (last es)) }
       else msCapabilities (drop (2 + len) d) mp)"
  by auto
termination by (relation "measure (\<lambda>(d, mp). length d)") auto

function msParameters :: "u8 list \<Rightarrow> u8 list \<Rightarrow> AfiSafi option \<Rightarrow> (unit + AfiSafi option) option" where
  "msParameters data d mp = (if length d < 2 then Some (Inr mp)
     else let len = unat (d ! 1) in
       if 2 + len > length d then Some (Inl ())
       else if d ! 0 = 2 then do {
           r \<leftarrow> msCapabilities data mp;
           case r of Inl _ \<Rightarrow> Some (Inl ()) | Inr mp \<Rightarrow> msParameters data (drop (2 + len) d) mp }
       else msParameters data (drop (2 + len) d) mp)"
  by auto
termination by (relation "measure (\<lambda>(data, d, mp). length d)") auto

declare msCapabilities.simps [simp del] msParameters.simps [simp del]

definition resolveMultiSessionAf :: "u8 list \<Rightarrow> AfiSafi option option" where
  "resolveMultiSessionAf data = do {
     r \<leftarrow> msParameters data data None;
     Some (case r of Inl _ \<Rightarrow> None
       | Inr multiProtocol \<Rightarrow> (let multiSession = None in
           if multiProtocol \<noteq> None \<and> multiSession \<noteq> None \<and> multiProtocol = multiSession then multiSession else None)) }"

definition primaryId :: "session \<Rightarrow> u64 option" where
  "primaryId s = (case primaryConn s of None \<Rightarrow> None | Some ActiveSlot \<Rightarrow> activeConn s | Some PassiveSlot \<Rightarrow> passiveConn s)"

definition hasMultiSession :: "peer \<Rightarrow> bool" where
  "hasMultiSession x \<longleftrightarrow> fsmState (pr_session x) = ESTABLISHED \<and> multiSess (pr_localCaps x)
     \<and> (case multiSession (pr_session x) of BaseSession _ \<Rightarrow> True | ChildOf _ \<Rightarrow> False)"

text \<open>The end of \<open>processOpen\<close>, from the parameters on.\<close>

definition openParameters :: "RxContext \<Rightarrow> u64 \<Rightarrow> u32 \<Rightarrow> u16 \<Rightarrow> u16 \<Rightarrow> u8 list \<Rightarrow> peer \<Rightarrow> (peer \<times> u16 option) option" where
  "openParameters c cid peerRid peerHold peerAs2 params x = do {
     (ok, caps) \<leftarrow> parseParameters params Capabilities_new;
     let x = x\<lparr>pr_peerCaps := caps\<rparr>;
     let resolvedAs = (if asn32bit caps then cap_asn caps else if peerAs2 = ucast kAsTrans then kAsTrans else ucast peerAs2);
     Some (if \<not> ok then (x, Some 0x0204)
       else if verifyConnection cid (pr_session x) then (x, Some 0)
       else if (case rx_remoteAs c of None \<Rightarrow> False | Some cfgAs \<Rightarrow> cfgAs \<noteq> 0 \<and> resolvedAs \<noteq> cfgAs) then (x, Some 0x0202)
       else (let neg = negotiateCapabilities (rx_supportsFamily c) (multiSession (pr_session x)) (pr_localCaps x) caps in
         (onSession (openParsed peerHold peerRid (neg_multiSess neg) (neg_multiSessionFamilies neg)) (x\<lparr>pr_negotiated := neg\<rparr>), None))) }"

text \<open>A message of \<open>n\<close> bytes at \<open>p\<close>. The swap to a child session is not reached, because \<open>resolveMultiSessionAf\<close> never returns a
  family, and is left undefined.\<close>

definition processOpen :: "RxContext \<Rightarrow> u64 \<Rightarrow> nat \<Rightarrow> u8 list \<Rightarrow> peer \<Rightarrow> (peer \<times> u16 option) option" where
  "processOpen c cid n p x = (if n < 10 then Some (x, Some 0x0102)
     else do {
       version \<leftarrow> byteAt 0 p; peerAs2 \<leftarrow> readU16 (drop 1 p); peerHold \<leftarrow> readU16 (drop 3 p); peerRid \<leftarrow> readU32 (drop 5 p); pl \<leftarrow> byteAt 9 p;
       let octet = (ucast (drop_bit 24 peerRid) :: u8);
       let negotiatedHold = (if peerHold = 0 then 0 else min (holdTime (pr_session x)) peerHold);
       if version \<noteq> 4 then Some (x, Some 0x0201)
       else if peerRid = 0 \<or> peerRid = 0xFFFFFFFF \<or> octet \<ge> 224 \<and> octet \<le> 239 then Some (x, Some 0x0203)
       else if peerHold = 1 \<or> peerHold = 2 then Some (x, Some 0x0206)
       else if (case MINIMUM_HOLDTIME (rx_cfg c) of None \<Rightarrow> False | Some minHt \<Rightarrow> negotiatedHold \<noteq> 0 \<and> negotiatedHold < minHt) then Some (x, Some 0x0206)
       else do {
         let ext = (pl = 255 \<and> n \<ge> 12);
         paramLen \<leftarrow> (if ext then map_option unat (readU16 (drop 10 p)) else Some (unat pl));
         let off = (if ext then 12 else 10);
         if off + paramLen \<noteq> n then Some (x, Some 0x0204)
         else let params = take paramLen (drop off p) in
           if hasMultiSession x then do {
             primary \<leftarrow> primaryId (pr_session x);
             if cid \<noteq> primary then do {
               msAfi \<leftarrow> resolveMultiSessionAf params;
               case msAfi of None \<Rightarrow> Some (call (CloseTemporary cid) x, Some 0) | Some _ \<Rightarrow> None }
             else openParameters c cid peerRid peerHold peerAs2 params x }
           else openParameters c cid peerRid peerHold peerAs2 params x } })"

section \<open>The other messages\<close>

definition processUpdateMessage :: "RxContext \<Rightarrow> nat \<Rightarrow> u8 list \<Rightarrow> peer \<Rightarrow> (peer \<times> u16 option) option" where
  "processUpdateMessage c n p x = do {
     r \<leftarrow> processUpdate \<lparr>uc_ranges = rx_ranges c, uc_asn32 = neg_asn32bit (pr_negotiated x),
         uc_addPath = rx_findAddPath c (pr_negotiated x) ipv4uni, uc_families = rx_families c\<rparr> n p;
     Some (case r of Inl e \<Rightarrow> (x, Some (notif_code e)) | Inr None \<Rightarrow> (x, None) | Inr (Some u) \<Rightarrow> (call (OnParsedUpdate u) x, None)) }"

definition processKeepalive :: "nat \<Rightarrow> peer \<Rightarrow> peer \<times> u16 option" where
  "processKeepalive n x = (if n \<noteq> 0 then (x, Some 0x0102) else (onSession (postEvent KEEPALIVE_MSG) x, None))"

definition processNotification :: "nat \<Rightarrow> u8 list \<Rightarrow> peer \<Rightarrow> (peer \<times> u16 option) option" where
  "processNotification n p x = (if n \<ge> 2
     then do { code \<leftarrow> byteAt 0 p; subcode \<leftarrow> byteAt 1 p;
       Some (onSession (postEvent (if code = 2 \<and> subcode = 1 then NOTIF_MSG_VER_ERR else NOTIF_MSG)) x, None) }
     else Some (onSession (postEvent NOTIF_MSG) x, None))"

definition processRouteRefresh :: "RxContext \<Rightarrow> nat \<Rightarrow> u8 list \<Rightarrow> peer \<Rightarrow> (peer \<times> u16 option) option" where
  "processRouteRefresh c n p x = (if n < 4 then Some (x, Some 0x0102)
     else do {
       a \<leftarrow> readU16 p; subtype \<leftarrow> byteAt 2 p; s \<leftarrow> byteAt 3 p;
       let fam = \<lparr>afi = a, safi = s\<rparr>;
       es \<leftarrow> (if n > 4 \<and> rx_canReceiveOrf c (pr_negotiated x) fam 64 then parseOrfs a (n - 4) (drop 4 p) [] else Some []);
       let x = (if es \<noteq> []
           then (let x = x\<lparr>pr_orfFilter := (pr_orfFilter x)(fam := updateOrfFilter es (pr_orfFilter x fam))\<rparr> in
             if subtype = 0 \<and> rx_families c fam then call (RefreshPeer fam) x else x)
           else if rx_families c fam
           then call (if subtype = 1 then OnPeerBorr fam else if subtype = 2 then OnPeerEorr fam else RefreshPeer fam) x
           else x);
       Some (onSession (postEvent ROUTE_REFRESH) x, None) })"

section \<open>Framing\<close>

definition refuse :: "u16 \<Rightarrow> FsmEvent option \<Rightarrow> peer \<Rightarrow> peer" where
  "refuse code ev x = onSession (\<lambda>s. (case ev of None \<Rightarrow> id | Some e \<Rightarrow> postEvent e) (sendNotification code s)) x"

text \<open>The switch of \<open>handleIncoming\<close>: what to do, and what to post after an error.\<close>

definition dispatch :: "RxContext \<Rightarrow> u64 \<Rightarrow> u8 \<Rightarrow> nat \<Rightarrow> u8 list \<Rightarrow> peer \<Rightarrow> (peer \<times> bool) option" where
  "dispatch c cid ty n p x = do {
     (y, res) \<leftarrow> (if ty = 1 then processOpen c cid n p x
        else if ty = 2 then processUpdateMessage c n p x
        else if ty = 3 then processNotification n p x
        else if ty = 4 then Some (processKeepalive n x)
        else processRouteRefresh c n p x);
     Some (case res of None \<Rightarrow> (y, True)
       | Some code \<Rightarrow> (refuse code (if ty = 1 then Some BGP_OPEN_MSG_ERR else if ty = 2 then Some UPDATE_MSG_ERR
           else if ty = 4 then Some BGP_HEADER_ERR else None) y, False)) }"

definition maxLen :: "peer \<Rightarrow> nat" where
  "maxLen x = (if neg_extendedMessage (pr_negotiated x) then 65535 else 4096)"

text \<open>The number that is returned is that of the bytes committed.\<close>

function handleIncoming :: "RxContext \<Rightarrow> u64 \<Rightarrow> u8 list \<Rightarrow> peer \<Rightarrow> (peer \<times> nat) option" where
  "handleIncoming c cid buf x = (if length buf < 19 then Some (x, 0)
     else if take 16 buf \<noteq> replicate 16 0xFF then Some (refuse 0x0101 (Some BGP_HEADER_ERR) x, 0)
     else do {
       l \<leftarrow> readU16 (drop 16 buf);
       ty \<leftarrow> byteAt 18 buf;
       let len = unat l;
       if len < 19 \<or> len > maxLen x then Some (refuse 0x0102 (Some BGP_HEADER_ERR) x, 0)
       else if length buf < len then Some (x, 0)
       else if ty = 0 \<or> ty > 5 then Some (refuse 0x0103 (Some BGP_HEADER_ERR) x, 0)
       else do {
         (y, ok) \<leftarrow> dispatch c cid ty (len - 19) (drop 19 buf) x;
         if ok then map_option (\<lambda>(z, k). (z, len + k)) (handleIncoming c cid (drop len buf) y)
         else Some (y, len) } })"
  by auto
termination by (relation "measure (\<lambda>(c, cid, buf, x). length buf)") auto

declare handleIncoming.simps [simp del]

definition receive :: "RxContext \<Rightarrow> u64 \<Rightarrow> u8 list \<Rightarrow> RxBuffer \<times> peer \<Rightarrow> (RxBuffer \<times> peer) option" where
  "receive c cid data st = (case rxConsume data (fst st) of (rb, bytes) \<Rightarrow>
     map_option (\<lambda>(y, k). (rxCommit k rb, y)) (handleIncoming c cid bytes (snd st)))"

section \<open>What a message leaves alone\<close>

text \<open>Reception posts events and sends notifications. It does not touch the connections and the state of the machine.\<close>

definition opens :: "session \<Rightarrow> nat" where
  "opens s = count_list (posted s) BGP_OPEN"

definition untouched :: "peer \<Rightarrow> peer \<Rightarrow> bool" where
  "untouched x y \<longleftrightarrow> (let s = pr_session x; t = pr_session y in activeConn t = activeConn s \<and> passiveConn t = passiveConn s
     \<and> primaryConn t = primaryConn s \<and> fsmState t = fsmState s \<and> holdTime t = holdTime s \<and> peerRouterId t = peerRouterId s \<and> opens t = opens s)"

lemma untouched_refl [simp]: "untouched x x"
  by (simp add: untouched_def)

lemma untouched_trans: "untouched x y \<Longrightarrow> untouched y z \<Longrightarrow> untouched x z"
  by (simp add: untouched_def Let_def)

lemma untouched_session: "pr_session y = pr_session x \<Longrightarrow> untouched x y"
  by (simp add: untouched_def)

lemma untouched_call [simp]: "untouched x (call f y) = untouched x y"
  by (simp add: untouched_def call_def)

lemma untouched_post: "e \<noteq> BGP_OPEN \<Longrightarrow> untouched x (onSession (postEvent e) y) = untouched x y"
  by (simp add: untouched_def postEvent_def opens_def Let_def)

lemma untouched_refuse: "ev \<noteq> Some BGP_OPEN \<Longrightarrow> untouched x (refuse code ev y) = untouched x y"
  by (auto simp: untouched_def refuse_def postEvent_def sendNotification_def emit_def opens_def Let_def split: option.splits)

lemma verify_untouched: "untouched x y \<Longrightarrow> verifyConnection cid (pr_session y) = verifyConnection cid (pr_session x)"
  by (simp add: untouched_def verifyConnection_def Let_def)

section \<open>Messages of the session's own connections\<close>

lemma openParameters_own:
  assumes "verifyConnection cid (pr_session x)"
  shows "\<exists>y code. openParameters c cid rid hold asn params x = Some (y, Some code) \<and> pr_session y = pr_session x \<and> pr_negotiated y = pr_negotiated x"
proof -
  obtain ok caps where "parseParameters params Capabilities_new = Some (ok, caps)"
    using reads_parseParameters [of params Capabilities_new] by (auto simp: reads_def)
  with assms show ?thesis by (cases ok) (simp_all add: openParameters_def Let_def)
qed

text \<open>What holds of every value an option may have.\<close>

definition yields :: "('a \<Rightarrow> bool) \<Rightarrow> 'a option \<Rightarrow> bool" where
  "yields P res \<longleftrightarrow> (\<forall>a. res = Some a \<longrightarrow> P a)"

lemma yields_Some [simp]: "yields P (Some a) = P a" "yields P None"
  by (simp_all add: yields_def)

lemma yields_bind: "(\<And>a. m = Some a \<Longrightarrow> yields P (g a)) \<Longrightarrow> yields P (Option.bind m g)"
  by (cases m) simp_all

lemma yields_if: "(b \<Longrightarrow> yields P u) \<Longrightarrow> (\<not> b \<Longrightarrow> yields P v) \<Longrightarrow> yields P (if b then u else v)"
  by simp

lemma yields_option: "yields P u \<Longrightarrow> (\<And>a. yields P (h a)) \<Longrightarrow> yields P (case w of None \<Rightarrow> u | Some a \<Rightarrow> h a)"
  by (cases w) simp_all

lemma yields_mono: "yields P res \<Longrightarrow> (\<And>a. P a \<Longrightarrow> Q a) \<Longrightarrow> yields Q res"
  by (simp add: yields_def)

text \<open>A handler that does not accept: whatever it returns is an error and the session is as before.\<close>

abbreviation refused :: "peer \<Rightarrow> peer \<times> u16 option \<Rightarrow> bool" where
  "refused x \<equiv> \<lambda>(y, r). r \<noteq> None \<and> pr_session y = pr_session x \<and> pr_negotiated y = pr_negotiated x"

lemma refused_leaf:
  "yields (refused x) (Some (x, Some code))" "yields (refused x) (Some (call f x, Some code))" "yields (refused x) None"
  by (simp_all add: call_def)

lemma processOpen_own:
  assumes "verifyConnection cid (pr_session x)"
  shows "yields (refused x) (processOpen c cid n p x)"
proof -
  have own: "yields (refused x) (openParameters c cid rid hold asn params x)" for rid hold asn params
    using openParameters_own [OF assms, of c rid hold asn params] by auto
  show ?thesis
    unfolding processOpen_def Let_def by (intro yields_if yields_bind yields_option refused_leaf own)
qed

lemma dispatch_own:
  assumes "verifyConnection cid (pr_session x)" "dispatch c cid ty n p x = Some (y, ok)"
  shows "untouched x y"
proof -
  let ?keeps = "yields (\<lambda>(y, r). untouched x y)"
  have "?keeps (processOpen c cid n p x)"
    by (rule yields_mono [OF processOpen_own [OF assms(1)]]) (auto intro: untouched_session)
  moreover have "?keeps (processUpdateMessage c n p x)"
    unfolding processUpdateMessage_def by (rule yields_bind) (auto split: sum.split option.split)
  moreover have "?keeps (processNotification n p x)"
    unfolding processNotification_def by (intro yields_if yields_bind) (simp_all add: untouched_post)
  moreover have "?keeps (Some (processKeepalive n x))" by (simp add: processKeepalive_def untouched_post)
  moreover have "?keeps (processRouteRefresh c n p x)"
  proof -
    have "untouched x (x\<lparr>pr_orfFilter := f\<rparr>)" for f by (rule untouched_session) simp
    thus ?thesis
      unfolding processRouteRefresh_def Let_def by (intro yields_if yields_bind) (simp_all add: untouched_post)
  qed
  ultimately have "?keeps (if ty = 1 then processOpen c cid n p x else if ty = 2 then processUpdateMessage c n p x
      else if ty = 3 then processNotification n p x else if ty = 4 then Some (processKeepalive n x) else processRouteRefresh c n p x)"
    by (intro yields_if)
  hence "yields (\<lambda>(y, ok). untouched x y) (dispatch c cid ty n p x)"
    unfolding dispatch_def by (intro yields_bind) (auto simp: untouched_refuse split: option.split)
  with assms(2) show ?thesis by simp
qed

lemma handleIncoming_own:
  "handleIncoming c cid buf x = Some (y, k) \<Longrightarrow> verifyConnection cid (pr_session x) \<Longrightarrow> untouched x y"
proof (induction "length buf" arbitrary: buf x y k rule: less_induct)
  case less
  have step: "untouched x y" if "handleIncoming c cid (drop len buf) x' = Some (y, j)" "dispatch c cid ty n p x = Some (x', True)" "19 \<le> len" "19 \<le> length buf"
    for x' j len ty n p
  proof -
    from dispatch_own [OF less.prems(2) that(2)] have "untouched x x'" .
    moreover have "untouched x' y" using less.hyps [OF _ that(1)] that(3,4) less.prems(2) verify_untouched [OF calculation] by simp
    ultimately show ?thesis by (rule untouched_trans)
  qed
  show ?case
    using less.prems(1) dispatch_own [OF less.prems(2)] step
    by (subst (asm) handleIncoming.simps)
      (auto simp: bind_eq_Some_conv Let_def untouched_refuse not_less split: if_splits)
qed

section \<open>Parsing OPEN messages returns\<close>

lemma reads_msCapabilities: "reads (msCapabilities d mp)"
proof (induction d arbitrary: mp rule: length_induct)
  case (1 d)
  show ?case
    by (subst msCapabilities.simps) (auto simp: Let_def intro!: reads_bind reads_fields reads_entries reads_famAt div_fits 1 [rule_format])
qed

lemma reads_msParameters: "reads (msParameters data d mp)"
proof (induction d arbitrary: mp rule: length_induct)
  case (1 d)
  show ?case
    by (subst msParameters.simps) (auto simp: Let_def intro!: reads_bind reads_msCapabilities 1 [rule_format] split: sum.split)
qed

lemma multi_session_never_resolved: "resolveMultiSessionAf params = Some None"
  using reads_msParameters [of params params None] by (auto simp: resolveMultiSessionAf_def reads_def Let_def split: sum.split)

lemma reads_processOpen:
  assumes "verifyConnection cid (pr_session x)" "n \<le> length p" "primaryId (pr_session x) \<noteq> None"
  shows "reads (processOpen c cid n p x)"
proof -
  have own: "reads (openParameters c cid rid hold asn params x)" for rid hold asn params
    using openParameters_own [OF assms(1), of c rid hold asn params] by auto
  obtain i where i: "primaryId (pr_session x) = Some i" using assms(3) by auto
  show ?thesis
  proof (cases "n < 10")
    case False
    hence "reads (readU16 (drop 1 p))" "reads (readU16 (drop 3 p))" "reads (readU32 (drop 5 p))" "reads (byteAt 0 p)" "reads (byteAt 9 p)"
      "12 \<le> n \<Longrightarrow> reads (readU16 (drop 10 p))"
      using assms(2) by (auto intro!: reads_fields)
    thus ?thesis
      unfolding processOpen_def Let_def i multi_session_never_resolved bind.bind_lunit option.case
      by (intro reads_if reads_bind own reads_simps) (auto simp: reads_map)
  qed (simp add: processOpen_def)
qed

section \<open>A stream of announcements\<close>

lemma announcement_header:
  assumes "length (announcement ap bs ns) < 65536"
  shows "take 16 (announcement ap bs ns @ q) = replicate 16 0xFF \<and> byteAt 18 (announcement ap bs ns @ q) = Some 2
    \<and> map_option unat (readU16 (drop 16 (announcement ap bs ns @ q))) = Some (length (announcement ap bs ns))"
proof -
  let ?x = "concat (map (wireNlri ap) ns)"
  have "announcement ap bs ns @ q = replicate 16 0xFF @ be_bytes 2 (of_nat (4 + length bs + length ?x) + 19 :: u16) @ 2
      # be_bytes 2 (0 :: u16) @ be_bytes 2 (of_nat (length bs) :: u16) @ bs @ ?x @ q"
    by (simp add: announcement_def buildHeader_def Let_def)
  moreover have "of_nat (4 + length bs + length ?x) + 19 = (of_nat (length (announcement ap bs ns)) :: u16)"
    by (simp add: length_announcement)
  moreover have "unat (of_nat (length (announcement ap bs ns)) :: u16) = length (announcement ap bs ns)"
    using assms by (simp add: unsigned_of_nat take_bit_nat_eq_self)
  ultimately show ?thesis by (simp add: byteAt_def nth_append)
qed

lemma handleIncoming_announcement:
  assumes "plainRanges (rx_ranges c)" "rx_families c ipv4uni" "transmissible use4 (attrs pa)" "\<forall>n\<in>set ns. plainPrefix n"
    and "use4 = neg_asn32bit (pr_negotiated x)" "ap = rx_findAddPath c (pr_negotiated x) ipv4uni"
    and "m = announcement ap (appendPathAttrs use4 ebgp pa) ns" "length m \<le> maxLen x"
  shows "handleIncoming c cid (m @ q) x
    = map_option (\<lambda>(z, k). (z, length m + k)) (handleIncoming c cid q (call (OnParsedUpdate (delivered ebgp ap pa ns)) x))"
proof -
  have len: "19 \<le> length m" "length m < 65536" "length (appendPathAttrs use4 ebgp pa) < 65536"
    using assms(7,8) by (auto simp: length_announcement maxLen_def split: if_splits)
  obtain l where l: "readU16 (drop 16 (m @ q)) = Some l" "unat l = length m"
    using announcement_header [of ap "appendPathAttrs use4 ebgp pa" ns q] len(2) assms(7) by auto
  let ?c = "\<lparr>uc_ranges = rx_ranges c, uc_asn32 = use4, uc_addPath = ap, uc_families = rx_families c\<rparr>"
  have "processUpdate ?c (length (drop 19 m)) (drop 19 m @ q) = Some (Inr (Some (delivered ebgp ap pa ns)))"
    using processUpdate_announcement [of ?c pa ns ebgp q] assms(1-4,7) len(3) by simp
  hence "dispatch c cid 2 (length m - 19) (drop 19 (m @ q)) x = Some (call (OnParsedUpdate (delivered ebgp ap pa ns)) x, True)"
    using len(1) assms(5,6) by (simp add: dispatch_def processUpdateMessage_def)
  moreover have "drop (length m) (m @ q) = q" by simp
  ultimately show ?thesis using l len announcement_header [of ap "appendPathAttrs use4 ebgp pa" ns q] assms(7,8)
    by (subst handleIncoming.simps) (simp add: Let_def del: drop_append take_append)
qed

lemma maxLen_call [simp]: "maxLen (call f x) = maxLen x" "pr_negotiated (call f x) = pr_negotiated x" "pr_calls (call f x) = pr_calls x @ [f]"
  by (simp_all add: maxLen_def call_def)

lemma handleIncoming_announcements:
  assumes "plainRanges (rx_ranges c)" "rx_families c ipv4uni" "use4 = neg_asn32bit (pr_negotiated x)" "ap = rx_findAddPath c (pr_negotiated x) ipv4uni"
    and "\<forall>(pa, p)\<in>set sent. length (announcement ap (appendPathAttrs use4 ebgp pa) p) \<le> maxLen x \<and> transmissible use4 (attrs pa) \<and> (\<forall>n\<in>set p. plainPrefix n)"
    and "ms = map (\<lambda>(pa, p). announcement ap (appendPathAttrs use4 ebgp pa) p) sent"
  shows "handleIncoming c cid (concat ms) x
    = Some (x\<lparr>pr_calls := pr_calls x @ map (\<lambda>(pa, p). OnParsedUpdate (delivered ebgp ap pa p)) sent\<rparr>, length (concat ms))"
  using assms(3-6)
proof (induction sent arbitrary: x ms)
  case Nil
  have "x\<lparr>pr_calls := pr_calls x\<rparr> = x" by simp
  with Nil show ?case by (subst handleIncoming.simps) simp
next
  case (Cons a sent)
  obtain pa p where a: "a = (pa, p)" by fastforce
  let ?m = "announcement ap (appendPathAttrs use4 ebgp pa) p" and ?ms = "map (\<lambda>(pa, p). announcement ap (appendPathAttrs use4 ebgp pa) p) sent"
  let ?x = "call (OnParsedUpdate (delivered ebgp ap pa p)) x"
  have head: "handleIncoming c cid (?m @ concat ?ms) x = map_option (\<lambda>(z, k). (z, length ?m + k)) (handleIncoming c cid (concat ?ms) ?x)"
    by (rule handleIncoming_announcement [OF assms(1,2) _ _ Cons.prems(1,2) refl]) (use Cons.prems(3) a in auto)
  have tail: "handleIncoming c cid (concat ?ms) ?x
      = Some (?x\<lparr>pr_calls := pr_calls ?x @ map (\<lambda>(pa, p). OnParsedUpdate (delivered ebgp ap pa p)) sent\<rparr>, length (concat ?ms))"
    using Cons.prems a by (intro Cons.IH) auto
  show ?case using head unfolding tail Cons.prems(4) a by (simp add: call_def)
qed

fun receiveAll :: "RxContext \<Rightarrow> u64 \<Rightarrow> u8 list list \<Rightarrow> RxBuffer \<times> peer \<Rightarrow> (RxBuffer \<times> peer) option" where
  "receiveAll c cid [] st = Some st"
| "receiveAll c cid (d # ds) st = Option.bind (receive c cid d st) (receiveAll c cid ds)"

section \<open>Properties\<close>


text \<open>(C25) No OPEN message is accepted on a connection of the session: the test of the connection is inverted, so that processing it
  returns an error and leaves the session and what it negotiated as they were.\<close>

theorem no_open_accepted:
  assumes "verifyConnection cid (pr_session x)" "n \<le> length p" "primaryId (pr_session x) \<noteq> None"
  shows "\<exists>y code. processOpen c cid n p x = Some (y, Some code) \<and> pr_session y = pr_session x \<and> pr_negotiated y = pr_negotiated x"
proof -
  obtain y r where r: "processOpen c cid n p x = Some (y, r)" using reads_processOpen [OF assms, of c] by (auto simp: reads_def)
  with processOpen_own [OF assms(1), of c n p] show ?thesis by auto
qed

text \<open>(C24) Whatever bytes arrive on a connection of the session, in whatever segments, the event of a received OPEN is never posted, and the
  connections, the state of the machine, the hold time and the identifier of the peer are not changed by reception.\<close>

theorem reception_posts_no_open:
  assumes "receiveAll c cid segs (rb, x) = Some (rb', y)" "verifyConnection cid (pr_session x)"
  shows "untouched x y"
  using assms
proof (induction segs arbitrary: rb x)
  case (Cons d segs)
  obtain rb1 x1 where "receive c cid d (rb, x) = Some (rb1, x1)" "receiveAll c cid segs (rb1, x1) = Some (rb', y)"
    using Cons.prems(1) by (auto simp: bind_eq_Some_conv)
  moreover from this(1) obtain k where "handleIncoming c cid (snd (rxConsume d rb)) x = Some (x1, k)"
    by (auto simp: receive_def split: prod.splits)
  hence "untouched x x1" using Cons.prems(2) by (rule handleIncoming_own)
  ultimately show ?case using Cons.IH Cons.prems(2) verify_untouched untouched_trans by metis
qed simp

text \<open>(C40) What is carried over to the next segment: in buffered mode the bytes that were not consumed; in raw mode, in which every
  connection starts, nothing, so that the beginning of a message at the end of a segment is lost.\<close>

theorem segment_carry_over:
  assumes "receive c cid a (rb, x) = Some (rb', y)"
  shows "\<exists>k. handleIncoming c cid (snd (rxConsume a rb)) x = Some (y, k)
    \<and> snd (rxConsume b rb') = (if rb_buffered rb then drop k (rb_buf rb @ a) else []) @ b"
proof -
  obtain k where k: "handleIncoming c cid (snd (rxConsume a rb)) x = Some (y, k)" "rb' = rxCommit k (fst (rxConsume a rb))"
    using assms by (auto simp: receive_def split: prod.splits)
  have "drop (min (length w) k) w = drop k w" for w :: "u8 list" by (simp add: min_def)
  hence "snd (rxConsume b rb') = (if rb_buffered rb then drop k (rb_buf rb @ a) else []) @ b"
    unfolding k(2) by (auto simp: rxConsume_def rxCommit_def Let_def simp del: drop_append)
  with k(1) show ?thesis by blast
qed

text \<open>A KEEPALIVE message in two segments: it is lost, and the next one is refused for its marker.\<close>

abbreviation keepalive :: "u8 list" where
  "keepalive \<equiv> replicate 16 0xFF @ [0, 19, 4]"

lemma keepalive_built: "buildHeader 4 0 = keepalive"
  by code_simp

lemma short_buffer: "length buf < 19 \<Longrightarrow> handleIncoming c cid buf x = Some (x, 0)"
  by (simp add: handleIncoming.simps)

lemma bad_marker:
  "19 \<le> length buf \<Longrightarrow> take 16 buf \<noteq> replicate 16 0xFF \<Longrightarrow> handleIncoming c cid buf x = Some (refuse 0x0101 (Some BGP_HEADER_ERR) x, 0)"
  by (simp add: handleIncoming.simps)

lemma split_keepalive_lost:
  "\<exists>rb. receiveAll c cid [take 10 keepalive, drop 10 keepalive, keepalive] (RxBuffer_new sz, x)
    = Some (rb, refuse 0x0101 (Some BGP_HEADER_ERR) x)"
proof -
  let ?r = "\<lparr>rb_buffered = True, rb_raw = take 10 keepalive, rb_buf = []\<rparr>"
  have 1: "receive c cid (take 10 keepalive) (RxBuffer_new sz, x) = Some (?r, x)"
    by (simp add: receive_def RxBuffer_new_def rxConsume_def rxCommit_def short_buffer)
  have 2: "receive c cid (drop 10 keepalive) (?r, x) = Some (?r\<lparr>rb_buf := drop 10 keepalive\<rparr>, x)"
    by (simp add: receive_def rxConsume_def rxCommit_def short_buffer)
  have "take 16 (drop 10 keepalive @ keepalive) \<noteq> replicate 16 0xFF" by code_simp
  hence "handleIncoming c cid (drop 10 keepalive @ keepalive) x = Some (refuse 0x0101 (Some BGP_HEADER_ERR) x, 0)"
    by (intro bad_marker) auto
  hence "receive c cid keepalive (?r\<lparr>rb_buf := drop 10 keepalive\<rparr>, x)
      = Some (rxCommit 0 (?r\<lparr>rb_buf := drop 10 keepalive @ keepalive\<rparr>), refuse 0x0101 (Some BGP_HEADER_ERR) x)"
    by (simp add: receive_def rxConsume_def)
  with 1 2 show ?thesis by (simp del: take_append drop_append)
qed

section \<open>Witnesses\<close>

definition ex_neg :: NegotiatedCapabilities where
  "ex_neg = negotiateCapabilities (\<lambda>p f. f \<in> set (mpFamilies p)) (BaseSession []) ex_caps ex_caps"

definition ex_peer :: peer where
  "ex_peer = \<lparr>pr_session = ex_open_sent, pr_localCaps = ex_caps, pr_peerCaps = ex_caps, pr_negotiated = ex_neg\<lparr>neg_asn32bit := True, neg_extendedMessage := False\<rparr>,
     pr_orfFilter = (\<lambda>_. []), pr_calls = []\<rparr>"

definition ex_rx :: RxContext where
  "ex_rx = \<lparr>rx_cfg = ex_cfg, rx_ranges = ex_ranges, rx_families = (\<lambda>f. f = ipv4uni), rx_remoteAs = None,
     rx_supportsFamily = (\<lambda>p f. f \<in> set (mpFamilies p)), rx_findAddPath = (\<lambda>_ _. False), rx_canReceiveOrf = (\<lambda>_ _ _. False)\<rparr>"


lemma ex_connection: "verifyConnection 7 ex_open_sent" "primaryId ex_open_sent = Some 7"
  by code_simp+

lemma ex_verified: "verifyConnection 7 (pr_session ex_peer)" "primaryId (pr_session ex_peer) \<noteq> None"
  by (simp_all add: ex_peer_def ex_connection)

theorem no_open_accepted_witness:
  "\<exists>y code. processOpen ex_rx 7 10 [4, 0, 1, 0, 90, 10, 0, 0, 1, 0] ex_peer = Some (y, Some code) \<and> pr_session y = pr_session ex_peer
    \<and> pr_negotiated y = pr_negotiated ex_peer"
  by (rule no_open_accepted) (simp_all add: ex_verified)

lemma one_keepalive: "handleIncoming c cid keepalive x = Some (onSession (postEvent KEEPALIVE_MSG) x, 19)"
  by (subst handleIncoming.simps) (simp add: readU16_def byteAt_def maxLen_def dispatch_def processKeepalive_def nth_append short_buffer)

theorem reception_posts_no_open_witness:
  "\<exists>rb y. receiveAll ex_rx 7 [keepalive] (RxBuffer_new 0, ex_peer) = Some (rb, y) \<and> untouched ex_peer y"
proof -
  have "receiveAll ex_rx 7 [keepalive] (RxBuffer_new 0, ex_peer) = Some (\<lparr>rb_buffered = False, rb_raw = keepalive, rb_buf = []\<rparr>,
      onSession (postEvent KEEPALIVE_MSG) ex_peer)"
    by (simp add: receive_def RxBuffer_new_def rxConsume_def rxCommit_def one_keepalive)
  with reception_posts_no_open [OF this ex_verified(1)] show ?thesis by blast
qed

theorem segment_carry_over_witness:
  "\<exists>k. handleIncoming ex_rx 7 (snd (rxConsume [0xFF] (RxBuffer_new 0))) ex_peer = Some (ex_peer, k)
    \<and> snd (rxConsume [1] \<lparr>rb_buffered = True, rb_raw = [0xFF], rb_buf = []\<rparr>) = (if rb_buffered (RxBuffer_new 0) then drop k (rb_buf (RxBuffer_new 0) @ [0xFF]) else []) @ [1]"
proof (rule segment_carry_over)
  show "receive ex_rx 7 [0xFF] (RxBuffer_new 0, ex_peer) = Some (\<lparr>rb_buffered = True, rb_raw = [0xFF], rb_buf = []\<rparr>, ex_peer)"
    by (simp add: receive_def RxBuffer_new_def rxConsume_def rxCommit_def short_buffer)
qed

end
