(* ===== verification/LpcTrie.thy ===== *)
theory LpcTrie
  imports Bytes
begin

text \<open>
  The level-compressed trie of the forwarding table, \<open>types/LpcTrie.hpp\<close>, for addresses of
  \<open>'a\<close> bits and a stride \<open>S\<close>. A node keeps the fields of the C++ \<open>Node\<close>; the pointers a
  prefix entry stores are values of type \<open>'v\<close>. The child array has \<open>FANOUT\<close> slots, computed as
  the code computes it, in 8 bits.

  Undefined behaviour is a value: an access to a child slot outside the array, and a shift by a
  negative amount, give \<open>None\<close>. Operations are \<open>option\<close>-valued for that reason only. The count of
  a node's prefixes is 8 bits wide in the code; it is the length of a list here, which is the same
  for the nodes of fewer than 256 prefixes the theorems speak of.
\<close>

section \<open>Widths and masks\<close>

definition FANOUT :: "nat \<Rightarrow> nat" where
  "FANOUT S = unat ((of_nat (2 ^ S)) :: u8)"

text \<open>\<open>SMASK = static_cast<AddrT>(FANOUT - 1u)\<close>: for \<open>FANOUT = 0\<close> the subtraction is done in 32-bit
  unsigned arithmetic. The index is then cut to 8 bits.\<close>

definition SMASK :: "nat \<Rightarrow> u32" where
  "SMASK S = of_nat (FANOUT S) - 1"

definition strideIdx :: "nat \<Rightarrow> nat \<Rightarrow> 'a::len word \<Rightarrow> nat option" where
  "strideIdx S pos addr = (if LENGTH('a) < pos + S then None
     else Some (unat ((ucast (drop_bit (LENGTH('a) - pos - S) addr AND ucast (SMASK S))) :: u8)))"

definition applyMask :: "'a::len word \<Rightarrow> nat \<Rightarrow> 'a word" where
  "applyMask addr len = (if len = 0 then 0 else if LENGTH('a) \<le> len then addr
     else addr AND push_bit (LENGTH('a) - len) (- 1))"

definition makeMask :: "nat \<Rightarrow> nat \<Rightarrow> 'a::len word" where
  "makeMask pos len = (if len = 0 then 0 else if LENGTH('a) \<le> len then - 1
     else push_bit (LENGTH('a) - pos - len) (mask len))"

fun commonSkipLen :: "'a::len word \<Rightarrow> 'a word \<Rightarrow> nat \<Rightarrow> nat \<Rightarrow> nat" where
  "commonSkipLen a b pos 0 = 0"
| "commonSkipLen a b pos (Suc k) =
     (if bit a (LENGTH('a) - pos - 1) \<noteq> bit b (LENGTH('a) - pos - 1) then 0
      else Suc (commonSkipLen a b (Suc pos) k))"

text \<open>Network-order bytes to an integer, and back (\<open>Fib::toBytes\<close>).\<close>

definition toHostOrder :: "u8 list \<Rightarrow> 'a::len word" where
  "toHostOrder bs = fold (\<lambda>b v. push_bit 8 v OR ucast b) bs 0"

definition toBytes :: "'a::len word \<Rightarrow> u8 list" where
  "toBytes a = map (\<lambda>i. ucast (drop_bit ((LENGTH('a) div 8 - 1 - i) * 8) a)) [0..<LENGTH('a) div 8]"

section \<open>Nodes\<close>

record ('p, 'v) PrefixEntry =
  paddr :: 'p
  pptr :: 'v
  plen :: nat

datatype ('p, 'v) Node = Node
  (skipPattern: 'p) (skipMask: 'p) (skipLen: nat)
  (best: "'v option")
  (prefixes: "('p, 'v) PrefixEntry list")
  (children: "('p, 'v) Node option list option")
  (depth: nat)

definition emptyNode :: "('a::len word, 'v) Node" where
  "emptyNode = Node 0 0 0 None [] None 0"

definition entry_less :: "('a::len word, 'v) PrefixEntry \<Rightarrow> ('a word, 'v) PrefixEntry \<Rightarrow> bool" where
  "entry_less x y = (if plen x \<noteq> plen y then plen x < plen y else paddr x < paddr y)"

definition same_key :: "'p \<Rightarrow> nat \<Rightarrow> ('p, 'v) PrefixEntry \<Rightarrow> bool" where
  "same_key a l p = (plen p = l \<and> paddr p = a)"

definition findPrefix :: "'p \<Rightarrow> nat \<Rightarrow> ('p, 'v) PrefixEntry list \<Rightarrow> ('p, 'v) PrefixEntry option" where
  "findPrefix a l ps = find (same_key a l) ps"

text \<open>The list is kept sorted by \<open>entry_less\<close>; sorting the old entries with one new one is
  inserting it, the keys being distinct.\<close>

fun insertSorted :: "('a::len word, 'v) PrefixEntry \<Rightarrow> ('a word, 'v) PrefixEntry list
    \<Rightarrow> ('a word, 'v) PrefixEntry list" where
  "insertSorted e [] = [e]"
| "insertSorted e (p # ps) = (if entry_less e p then e # p # ps else p # insertSorted e ps)"

definition insertPrefix :: "'a::len word \<Rightarrow> nat \<Rightarrow> 'v \<Rightarrow> ('a word, 'v) PrefixEntry list
    \<Rightarrow> ('a word, 'v) PrefixEntry list" where
  "insertPrefix a l v ps =
     (if findPrefix a l ps \<noteq> None then map (\<lambda>p. if same_key a l p then p\<lparr>pptr := v\<rparr> else p) ps
      else insertSorted \<lparr>paddr = a, pptr = v, plen = l\<rparr> ps)"

fun removePrefix :: "'p \<Rightarrow> nat \<Rightarrow> ('p, 'v) PrefixEntry list \<Rightarrow> ('p, 'v) PrefixEntry list option" where
  "removePrefix a l [] = None"
| "removePrefix a l (p # ps) = (if same_key a l p then Some ps
     else map_option ((#) p) (removePrefix a l ps))"

definition localBest :: "('p, 'v) PrefixEntry list \<Rightarrow> 'v option" where
  "localBest ps = (if ps = [] then None else Some (pptr (last ps)))"

text \<open>Slots are read and written by index; a missing array reads as empty, an index outside the
  array is undefined behaviour.\<close>

definition getChild :: "nat \<Rightarrow> ('p, 'v) Node \<Rightarrow> ('p, 'v) Node option option" where
  "getChild i n = (case children n of None \<Rightarrow> Some None
     | Some cs \<Rightarrow> if i < length cs then Some (cs ! i) else None)"

definition set_children :: "('p, 'v) Node option list option \<Rightarrow> ('p, 'v) Node \<Rightarrow> ('p, 'v) Node" where
  "set_children cs n = Node (skipPattern n) (skipMask n) (skipLen n) (best n) (prefixes n) cs (depth n)"

definition set_best :: "'v option \<Rightarrow> ('p, 'v) Node \<Rightarrow> ('p, 'v) Node" where
  "set_best b n = Node (skipPattern n) (skipMask n) (skipLen n) b (prefixes n) (children n) (depth n)"

definition set_prefixes :: "('p, 'v) PrefixEntry list \<Rightarrow> ('p, 'v) Node \<Rightarrow> ('p, 'v) Node" where
  "set_prefixes ps n = Node (skipPattern n) (skipMask n) (skipLen n) (best n) ps (children n) (depth n)"

definition setChild :: "nat \<Rightarrow> nat \<Rightarrow> ('p, 'v) Node option \<Rightarrow> ('p, 'v) Node \<Rightarrow> ('p, 'v) Node option" where
  "setChild S i c n =
     (let cs = (case children n of None \<Rightarrow> replicate (FANOUT S) None | Some cs \<Rightarrow> cs)
      in if i < length cs then Some (set_children (Some (cs[i := c])) n) else None)"

definition isEmpty :: "nat \<Rightarrow> ('p, 'v) Node \<Rightarrow> bool" where
  "isEmpty S n = (prefixes n = []
     \<and> (case children n of None \<Rightarrow> True | Some cs \<Rightarrow> (\<forall>i<FANOUT S. cs ! i = None)))"

definition updateBest :: "'v option \<Rightarrow> ('p, 'v) Node \<Rightarrow> ('p, 'v) Node" where
  "updateBest e n = (if e = None then n else set_best e n)"

definition recomputeBest :: "('p, 'v) Node \<Rightarrow> ('p, 'v) Node" where
  "recomputeBest n = set_best (localBest (prefixes n)) n"

section \<open>Lookup\<close>

text \<open>The loop advances \<open>pos\<close> by at least the stride in every round and stops at the address
  width.\<close>

function lookupLoop :: "nat \<Rightarrow> 'a::len word \<Rightarrow> ('a word, 'v) Node option \<Rightarrow> 'v option \<Rightarrow> nat
    \<Rightarrow> 'v option option" where
  "lookupLoop S addr None b pos = Some b"
| "lookupLoop S addr (Some n) b pos =
     (if skipLen n \<noteq> 0 \<and> (addr XOR skipPattern n) AND skipMask n \<noteq> 0 then Some b
      else
        let pos1 = pos + skipLen n;
            b1 = (case best n of None \<Rightarrow> b | Some v \<Rightarrow> Some v)
        in if LENGTH('a) \<le> pos1 then Some b1
           else case strideIdx S pos1 addr of None \<Rightarrow> None
             | Some idx \<Rightarrow>
                 if children n = None then Some b1
                 else case getChild idx n of None \<Rightarrow> None
                   | Some c \<Rightarrow> if S = 0 then None else lookupLoop S addr c b1 (pos1 + S))"
  by pat_completeness auto
termination
  by (relation "measures [\<lambda>(S, a :: 'a word, n, b, pos). if n = None then 0 else 1,
      \<lambda>(S, a :: 'a word, n, b, pos). LENGTH('a) - pos]") (auto split: option.splits)

definition lookup :: "nat \<Rightarrow> ('a::len word, 'v) Node option \<Rightarrow> 'a word \<Rightarrow> 'v option option" where
  "lookup S root a = lookupLoop S a root None 0"

function lookupExactLoop :: "nat \<Rightarrow> 'a::len word \<Rightarrow> nat \<Rightarrow> ('a word, 'v) Node option \<Rightarrow> nat
    \<Rightarrow> 'v option option" where
  "lookupExactLoop S masked l None pos = Some None"
| "lookupExactLoop S masked l (Some n) pos =
     (if skipLen n \<noteq> 0 \<and> (masked XOR skipPattern n) AND skipMask n \<noteq> 0 then Some None
      else
        let pos1 = pos + skipLen n
        in case findPrefix masked l (prefixes n) of Some e \<Rightarrow> Some (Some (pptr e))
           | None \<Rightarrow>
               if LENGTH('a) \<le> pos1 then Some None
               else case strideIdx S pos1 masked of None \<Rightarrow> None
                 | Some idx \<Rightarrow>
                     (case getChild idx n of None \<Rightarrow> None
                      | Some c \<Rightarrow> if S = 0 then None else lookupExactLoop S masked l c (pos1 + S)))"
  by pat_completeness auto
termination
  by (relation "measures [\<lambda>(S, a :: 'a word, l, n, pos). if n = None then 0 else 1,
      \<lambda>(S, a :: 'a word, l, n, pos). LENGTH('a) - pos]") (auto split: option.splits)

definition lookupExact :: "nat \<Rightarrow> ('a::len word, 'v) Node option \<Rightarrow> u8 list \<Rightarrow> nat \<Rightarrow> 'v option option" where
  "lookupExact S root pfx l = (if LENGTH('a) < l then Some None
     else lookupExactLoop S (applyMask (toHostOrder pfx) l) l root 0)"

section \<open>Insertion\<close>

text \<open>\<open>splitNode\<close> moves the node's prefixes and children below a new branch and shortens its own
  skip to the part that matched. The C++ then re-enters \<open>insertAt\<close>, where the shortened skip
  matches, so insertion continues on the node itself.\<close>

definition splitNode :: "nat \<Rightarrow> nat \<Rightarrow> nat \<Rightarrow> ('a::len word, 'v) Node \<Rightarrow> ('a word, 'v) Node option" where
  "splitNode S pos matchLen n =
     (let branchPos = pos + matchLen;
          subSkip = (if matchLen + S < skipLen n then skipLen n - (matchLen + S) else 0);
          sub = Node (if subSkip = 0 then 0 else skipPattern n)
                     (if subSkip = 0 then 0 else makeMask (branchPos + S) subSkip)
                     subSkip (localBest (prefixes n)) (prefixes n) (children n) 0;
          n1 = Node (skipPattern n) (makeMask pos matchLen) matchLen None [] None (depth n)
      in case strideIdx S branchPos (skipPattern n) of None \<Rightarrow> None
         | Some oldIdx \<Rightarrow> setChild S oldIdx (Some sub) n1)"

definition newLeaf :: "nat \<Rightarrow> 'a::len word \<Rightarrow> nat \<Rightarrow> 'v \<Rightarrow> nat \<Rightarrow> ('a word, 'v) Node" where
  "newLeaf S pfx l v pos =
     (let remaining = l - pos;
          skip = (if remaining > 255 then 255 else remaining)
      in Node (if remaining > 0 then pfx else 0) (if remaining > 0 then makeMask pos skip else 0)
           skip (Some v) (insertPrefix pfx l v []) None (pos div S))"

function insertHere :: "nat \<Rightarrow> ('a::len word, 'v) Node \<Rightarrow> 'a word \<Rightarrow> nat \<Rightarrow> 'v \<Rightarrow> nat
    \<Rightarrow> ('a word, 'v) Node option" where
  "insertHere S n pfx l v pos =
     (if l \<le> pos \<or> l - pos \<le> S \<or> S = 0 then
        (let ps = insertPrefix pfx l v (prefixes n)
         in Some (set_best (localBest ps) (set_prefixes ps n)))
      else case strideIdx S pos pfx of None \<Rightarrow> None
        | Some idx \<Rightarrow>
            (case getChild idx n of None \<Rightarrow> None
             | Some None \<Rightarrow> setChild S idx (Some (newLeaf S pfx l v (pos + S))) n
             | Some (Some child) \<Rightarrow>
                 let c0 = updateBest (best n) child;
                     pos1 = pos + S;
                     matchLen = commonSkipLen pfx (skipPattern c0) pos1 (skipLen c0);
                     c1 = (if matchLen < skipLen c0 then splitNode S pos1 matchLen c0 else Some c0)
                 in (case c1 of None \<Rightarrow> None
                     | Some c2 \<Rightarrow>
                         (case insertHere S c2 pfx l v (pos1 + matchLen) of None \<Rightarrow> None
                          | Some c3 \<Rightarrow> setChild S idx (Some c3) n))))"
  by pat_completeness auto
termination
  by (relation "measure (\<lambda>(S, n, p, l, v, pos). l - pos)") (auto split: option.splits if_splits)

definition insertAt :: "nat \<Rightarrow> ('a::len word, 'v) Node \<Rightarrow> 'a word \<Rightarrow> nat \<Rightarrow> 'v \<Rightarrow> nat
    \<Rightarrow> ('a word, 'v) Node option" where
  "insertAt S n pfx l v pos =
     (let matchLen = commonSkipLen pfx (skipPattern n) pos (skipLen n);
          n1 = (if matchLen < skipLen n then splitNode S pos matchLen n else Some n)
      in case n1 of None \<Rightarrow> None | Some n2 \<Rightarrow> insertHere S n2 pfx l v (pos + matchLen))"

text \<open>The result of an update: undefined behaviour, refused, or the new root.\<close>

definition insert :: "nat \<Rightarrow> u8 list \<Rightarrow> nat \<Rightarrow> 'v \<Rightarrow> ('a::len word, 'v) Node option
    \<Rightarrow> (bool \<times> ('a word, 'v) Node option) option" where
  "insert S pfx l v root = (if LENGTH('a) < l then Some (False, root)
     else let r = (case root of None \<Rightarrow> emptyNode | Some r \<Rightarrow> r)
          in map_option (\<lambda>r'. (True, Some r')) (insertAt S r (applyMask (toHostOrder pfx) l) l v 0))"

section \<open>Removal\<close>

text \<open>\<open>eraseAt\<close> returns whether the prefix was found, with the node's replacement: \<open>None\<close> when the
  parent must drop the node.\<close>

function eraseAt :: "nat \<Rightarrow> bool \<Rightarrow> 'a::len word \<Rightarrow> nat \<Rightarrow> ('a word, 'v) Node \<Rightarrow> nat
    \<Rightarrow> (bool \<times> ('a word, 'v) Node option) option" where
  "eraseAt S hasParent pfx l n pos =
     (if skipLen n \<noteq> 0 \<and> (pfx XOR skipPattern n) AND skipMask n \<noteq> 0 then Some (False, Some n)
      else
        let pos1 = pos + skipLen n
        in case removePrefix pfx l (prefixes n) of
             Some ps \<Rightarrow>
               (let n1 = recomputeBest (set_prefixes ps n)
                in Some (True, if isEmpty S n1 \<and> hasParent then None else Some n1))
           | None \<Rightarrow>
               if LENGTH('a) \<le> pos1 then Some (False, Some n)
               else case strideIdx S pos1 pfx of None \<Rightarrow> None
                 | Some idx \<Rightarrow>
                     (case getChild idx n of None \<Rightarrow> None
                      | Some None \<Rightarrow> Some (False, Some n)
                      | Some (Some child) \<Rightarrow>
                          if S = 0 then None
                          else (case eraseAt S True pfx l child (pos1 + S) of None \<Rightarrow> None
                                | Some (removed, c') \<Rightarrow>
                                    (case setChild S idx c' n of None \<Rightarrow> None
                                     | Some n1 \<Rightarrow>
                                         Some (removed, Some (if removed then recomputeBest n1 else n1))))))"
  by pat_completeness auto
termination
  by (relation "measure (\<lambda>(S, h, p :: 'a word, l, n, pos). LENGTH('a) - pos)") (auto split: option.splits)

definition erase :: "nat \<Rightarrow> u8 list \<Rightarrow> nat \<Rightarrow> ('a::len word, 'v) Node option
    \<Rightarrow> (bool \<times> ('a word, 'v) Node option) option" where
  "erase S pfx l root = (if LENGTH('a) < l then Some (False, root)
     else case root of None \<Rightarrow> Some (False, None)
       | Some r \<Rightarrow> eraseAt S False (applyMask (toHostOrder pfx) l) l r 0)"

declare lookupLoop.simps(2) [simp del] lookupExactLoop.simps(2) [simp del]
  insertHere.simps [simp del] eraseAt.simps [simp del]

section \<open>The prefix list of a node\<close>

definition keyset :: "('p, 'v) PrefixEntry list \<Rightarrow> ('p \<times> nat) list" where
  "keyset ps = map (\<lambda>p. (paddr p, plen p)) ps"

definition prefixes_ok :: "('a::len word, 'v) PrefixEntry list \<Rightarrow> bool" where
  "prefixes_ok ps \<longleftrightarrow> sorted_wrt entry_less ps"

lemma entry_less_trans: "entry_less x y \<Longrightarrow> entry_less y z \<Longrightarrow> entry_less x z"
  by (auto simp: entry_less_def split: if_splits)

lemma entry_less_irrefl: "\<not> entry_less x x"
  by (simp add: entry_less_def)

lemma entry_less_total: "\<not> same_key (paddr x) (plen x) y \<Longrightarrow> entry_less x y \<or> entry_less y x"
  by (auto simp: entry_less_def same_key_def split: if_splits)

lemma entry_less_ptr: "entry_less (x\<lparr>pptr := v\<rparr>) y = entry_less x y"
  "entry_less x (y\<lparr>pptr := v\<rparr>) = entry_less x y"
  by (simp_all add: entry_less_def)

lemma set_insertSorted: "set (insertSorted e ps) = Set.insert e (set ps)"
  by (induction ps) auto

lemma insertSorted_ok:
  "sorted_wrt entry_less ps \<Longrightarrow> \<forall>p\<in>set ps. \<not> same_key (paddr e) (plen e) p \<Longrightarrow>
   sorted_wrt entry_less (insertSorted e ps)"
  by (induction ps) (auto simp: set_insertSorted dest: entry_less_total entry_less_trans)

lemma findPrefix_None: "findPrefix a l ps = None \<longleftrightarrow> (\<forall>p\<in>set ps. \<not> same_key a l p)"
  by (auto simp: findPrefix_def find_None_iff)

lemma same_key_unique:
  "sorted_wrt entry_less ps \<Longrightarrow> p \<in> set ps \<Longrightarrow> q \<in> set ps \<Longrightarrow> same_key a l p \<Longrightarrow> same_key a l q \<Longrightarrow> p = q"
  by (induction ps) (auto simp: same_key_def entry_less_def)

lemma findPrefix_Some:
  assumes "sorted_wrt entry_less ps"
  shows "findPrefix a l ps = Some p \<longleftrightarrow> p \<in> set ps \<and> same_key a l p"
proof
  assume "findPrefix a l ps = Some p"
  then show "p \<in> set ps \<and> same_key a l p"
    by (auto simp: findPrefix_def find_Some_iff)
next
  assume p: "p \<in> set ps \<and> same_key a l p"
  then obtain q where q: "findPrefix a l ps = Some q"
    using findPrefix_None [of a l ps] by (cases "findPrefix a l ps") auto
  then have "q \<in> set ps \<and> same_key a l q"
    by (auto simp: findPrefix_def find_Some_iff)
  with p q same_key_unique [OF assms] show "findPrefix a l ps = Some p" by blast
qed

lemma insertPrefix_ok:
  assumes "sorted_wrt entry_less ps"
  shows "sorted_wrt entry_less (insertPrefix a l v ps)"
proof (cases "findPrefix a l ps = None")
  case True
  then show ?thesis using assms insertSorted_ok [of ps "\<lparr>paddr = a, pptr = v, plen = l\<rparr>"]
    by (simp add: insertPrefix_def findPrefix_None)
next
  case False
  have "sorted_wrt entry_less (map (\<lambda>p. if same_key a l p then p\<lparr>pptr := v\<rparr> else p) ps)"
    using assms unfolding sorted_wrt_map
    by (rule sorted_wrt_mono_rel [rotated]) (simp add: entry_less_ptr)
  with False show ?thesis by (simp add: insertPrefix_def)
qed

lemma insertPrefix_mem:
  fixes ps :: "('a::len word, 'v) PrefixEntry list"
  assumes "sorted_wrt entry_less ps"
  shows "p \<in> set (insertPrefix a l v ps) \<longleftrightarrow>
    (if same_key a l p then p = \<lparr>paddr = a, pptr = v, plen = l\<rparr> else p \<in> set ps)"
proof -
  have upd: "same_key a l q \<Longrightarrow> q\<lparr>pptr := v\<rparr> = \<lparr>paddr = a, pptr = v, plen = l\<rparr>"
    for q :: "('a word, 'v) PrefixEntry" by (cases q) (simp add: same_key_def)
  have key: "same_key a l \<lparr>paddr = a, pptr = v, plen = l\<rparr>" by (simp add: same_key_def)
  show ?thesis
  proof (cases "findPrefix a l ps")
    case None
    with key show ?thesis
      by (auto simp: insertPrefix_def set_insertSorted findPrefix_None)
  next
    case (Some q)
    with assms have "q \<in> set ps" "same_key a l q" by (auto simp: findPrefix_Some)
    with Some upd key show ?thesis
      by (auto simp: insertPrefix_def image_iff split: if_splits)
  qed
qed

lemma removePrefix_Some:
  "removePrefix a l ps = Some qs \<Longrightarrow> sorted_wrt entry_less ps \<Longrightarrow>
   sorted_wrt entry_less qs \<and> set qs = {p \<in> set ps. \<not> same_key a l p}"
proof (induction ps arbitrary: qs)
  case (Cons p ps)
  show ?case
  proof (cases "same_key a l p")
    case True
    with Cons.prems have "\<forall>q\<in>set ps. \<not> same_key a l q"
      by (auto simp: same_key_def entry_less_def)
    with True Cons.prems show ?thesis by auto
  next
    case False
    with Cons.prems obtain rs where "removePrefix a l ps = Some rs" "qs = p # rs" by auto
    with Cons.IH Cons.prems False show ?thesis by auto
  qed
qed simp

lemma localBest_longest:
  assumes "sorted_wrt entry_less ps" "ps \<noteq> []" "p \<in> set ps"
  shows "plen p \<le> plen (last ps)"
proof -
  obtain qs where ps: "ps = qs @ [last ps]" using assms(2) by (metis append_butlast_last_id)
  with assms(1) have "sorted_wrt entry_less (qs @ [last ps])" by simp
  then have "\<forall>q\<in>set qs. entry_less q (last ps)" by (simp add: sorted_wrt_append)
  moreover have "p \<in> set qs \<or> p = last ps" using assms(3) ps by (metis UnE empty_iff insert_iff list.set(1,2) set_append)
  ultimately show ?thesis by (auto simp: entry_less_def split: if_splits)
qed

section \<open>Bytes\<close>

lemma toHostOrder_be: "toHostOrder = be_word"
  by (rule ext) (simp add: toHostOrder_def be_word_def)

lemma toBytes_be: "toBytes (a :: 'a::len word) = be_bytes (LENGTH('a) div 8) a"
  by (rule nth_equalityI) (simp_all add: toBytes_def be_bytes_nth mult.commute)

definition ex_entries :: "(u32, nat) PrefixEntry list" where
  "ex_entries = [\<lparr>paddr = 0x0A000000, pptr = 7, plen = 8\<rparr>]"

section \<open>Properties\<close>

text \<open>A network-order byte representation of an address converts back to the address, for every
  address width that is a whole number of bytes (\<open>Fib::toBytes\<close> followed by
  \<open>LPCTrie::toHostOrder\<close>).\<close>

theorem toBytes_roundtrip:
  fixes a :: "'a::len word"
  assumes "8 dvd LENGTH('a)"
  shows "toHostOrder (toBytes a) = a"
proof -
  obtain n where n: "LENGTH('a) = 8 * n" using assms by (elim dvdE)
  then show ?thesis by (simp add: toHostOrder_be toBytes_be be_roundtrip)
qed

theorem toBytes_roundtrip_witness:
  "toBytes (0x0A010203 :: u32) = [10, 1, 2, 3] \<and> toHostOrder (toBytes (0x0A010203 :: u32)) = (0x0A010203 :: u32)"
proof -
  have "8 dvd LENGTH(32)" by simp
  then show ?thesis using toBytes_roundtrip [of "0x0A010203 :: u32"]
    by (simp add: toBytes_def upt_rec)
qed

text \<open>The prefixes stored on a trie node, as long as their 8-bit count does not wrap: inserting keeps them sorted by length and then by
  address (so the keys stay distinct), makes the inserted key map to the new value and leaves every
  other key alone; removing deletes exactly the given key; the cached best value is the one of a
  longest prefix of the node.\<close>

theorem node_prefix_list:
  fixes ps :: "('a::len word, 'v) PrefixEntry list"
  assumes "prefixes_ok ps" and "length ps < 255"
  shows "prefixes_ok (insertPrefix a l v ps)
    \<and> (\<forall>b m. map_option pptr (findPrefix b m (insertPrefix a l v ps))
         = (if b = a \<and> m = l then Some v else map_option pptr (findPrefix b m ps)))
    \<and> (\<forall>qs. removePrefix a l ps = Some qs \<longrightarrow> prefixes_ok qs
         \<and> (\<forall>b m. findPrefix b m qs = (if b = a \<and> m = l then None else findPrefix b m ps)))
    \<and> (ps \<noteq> [] \<longrightarrow> (\<exists>p\<in>set ps. localBest ps = Some (pptr p) \<and> (\<forall>q\<in>set ps. plen q \<le> plen p)))"
proof -
  have sp: "sorted_wrt entry_less ps" using assms(1) by (simp add: prefixes_ok_def)
  have si: "sorted_wrt entry_less (insertPrefix a l v ps)" by (rule insertPrefix_ok [OF sp])
  have ins: "map_option pptr (findPrefix b m (insertPrefix a l v ps))
      = (if b = a \<and> m = l then Some v else map_option pptr (findPrefix b m ps))" for b m
  proof (cases "b = a \<and> m = l")
    case True
    then have "findPrefix b m (insertPrefix a l v ps) = Some \<lparr>paddr = a, pptr = v, plen = l\<rparr>"
      by (simp add: findPrefix_Some [OF si] insertPrefix_mem [OF sp] same_key_def)
    with True show ?thesis by simp
  next
    case False
    then have "findPrefix b m (insertPrefix a l v ps) = Some p \<longleftrightarrow> findPrefix b m ps = Some p" for p
      by (auto simp: findPrefix_Some [OF si] findPrefix_Some [OF sp] insertPrefix_mem [OF sp] same_key_def)
    then have "findPrefix b m (insertPrefix a l v ps) = findPrefix b m ps"
      by (metis option.exhaust)
    with False show ?thesis by auto
  qed
  have rem: "prefixes_ok qs \<and> (\<forall>b m. findPrefix b m qs = (if b = a \<and> m = l then None else findPrefix b m ps))"
    if "removePrefix a l ps = Some qs" for qs
  proof -
    have sq: "sorted_wrt entry_less qs" and qs: "set qs = {p \<in> set ps. \<not> same_key a l p}"
      using removePrefix_Some [OF that sp] by auto
    have "findPrefix b m qs = (if b = a \<and> m = l then None else findPrefix b m ps)" for b m
    proof (cases "b = a \<and> m = l")
      case True
      with qs show ?thesis by (simp add: findPrefix_None)
    next
      case False
      then have "findPrefix b m qs = Some p \<longleftrightarrow> findPrefix b m ps = Some p" for p
        by (auto simp: findPrefix_Some [OF sq] findPrefix_Some [OF sp] qs same_key_def)
      then show ?thesis using False by (metis option.exhaust)
    qed
    with sq show ?thesis by (simp add: prefixes_ok_def)
  qed
  have "\<exists>p\<in>set ps. localBest ps = Some (pptr p) \<and> (\<forall>q\<in>set ps. plen q \<le> plen p)" if "ps \<noteq> []"
    using that localBest_longest [OF sp that] by (intro bexI [of _ "last ps"]) (auto simp: localBest_def)
  with si ins rem show ?thesis by (simp add: prefixes_ok_def)
qed

theorem node_prefix_list_witness:
  "prefixes_ok ex_entries
   \<and> map_option pptr (findPrefix 0x0B000000 8 (insertPrefix 0x0B000000 8 9 ex_entries)) = Some 9
   \<and> map_option pptr (findPrefix 0x0A000000 8 (insertPrefix 0x0B000000 8 9 ex_entries)) = Some 7"
proof -
  have ok: "prefixes_ok ex_entries" by (simp add: prefixes_ok_def ex_entries_def)
  have len: "length ex_entries < 255" by (simp add: ex_entries_def)
  have old: "map_option pptr (findPrefix 0x0A000000 8 ex_entries) = Some 7"
    by (simp add: findPrefix_def same_key_def ex_entries_def)
  have "\<forall>b m. map_option pptr (findPrefix b m (insertPrefix 0x0B000000 8 9 ex_entries))
      = (if b = 0x0B000000 \<and> m = 8 then Some 9 else map_option pptr (findPrefix b m ex_entries))"
    using node_prefix_list [OF ok len, of "0x0B000000" 8 9] by blast
  from this [rule_format, of "0x0B000000" 8] this [rule_format, of "0x0A000000" 8] old ok show ?thesis
    by (simp del: map_option_eq_Some)
qed

text \<open>With the stride of 8 the forwarding table uses, the child array has no slots (the fanout,
  256, is computed in 8 bits), so inserting any prefix longer than 8 bits into an empty table stores
  out of bounds.\<close>

theorem stride8_insert_out_of_bounds:
  assumes "8 < l" and "l \<le> LENGTH('a::len)"
  shows "FANOUT 8 = 0 \<and> insert 8 pfx l v (None :: ('a word, 'v) Node option) = None"
proof -
  have f: "FANOUT 8 = 0" by (simp add: FANOUT_def)
  have "strideIdx 8 0 m \<noteq> None" for m :: "'a word"
    using assms by (simp add: strideIdx_def)
  then have "insertHere 8 emptyNode m l v 0 = None" for m :: "'a word"
    using assms f by (subst insertHere.simps)
      (auto simp: getChild_def setChild_def emptyNode_def split: option.splits)
  then show ?thesis using assms f
    by (simp add: insert_def insertAt_def emptyNode_def [symmetric] Let_def)
      (simp add: emptyNode_def)
qed

theorem stride8_insert_out_of_bounds_witness:
  "FANOUT 8 = 0 \<and> insert 8 [10, 1, 0, 0] 16 (1::nat) (None :: (u32, nat) Node option) = None"
  by (rule stride8_insert_out_of_bounds) simp_all

text \<open>A lookup returns a prefix that does not cover the address: after a single prefix no longer
  than the stride is inserted into an empty table, every address resolves to it, because the
  prefixes kept on a node are not compared with the address.\<close>

theorem lookup_ignores_node_prefixes:
  assumes "1 \<le> S" and "S \<le> 8" and "l \<le> S" and "S \<le> LENGTH('a::len)"
  shows "\<exists>r :: ('a word, 'v) Node. insert S pfx l v None = Some (True, Some r)
    \<and> (\<forall>a. lookup S (Some r) a = Some (Some v))"
proof -
  let ?m = "applyMask (toHostOrder pfx) l :: 'a word"
  let ?r = "Node 0 0 0 (Some v) [\<lparr>paddr = ?m, pptr = v, plen = l\<rparr>] None 0"
  have "insertHere S emptyNode ?m l v 0 = Some ?r"
    using assms by (subst insertHere.simps)
      (simp add: emptyNode_def insertPrefix_def findPrefix_def set_best_def set_prefixes_def localBest_def)
  then have "insert S pfx l v None = Some (True, Some ?r)"
    using assms by (simp add: insert_def insertAt_def Let_def) (simp add: emptyNode_def)
  moreover have "lookup S (Some ?r) a = Some (Some v)" for a
    using assms by (simp add: lookup_def lookupLoop.simps strideIdx_def)
  ultimately show ?thesis by blast
qed

theorem lookup_ignores_node_prefixes_witness:
  "\<exists>r :: (u32, nat) Node. insert 8 [10, 0, 0, 0] 8 1 None = Some (True, Some r)
    \<and> lookup 8 (Some r) 0xC0A80101 = Some (Some 1)"
  using lookup_ignores_node_prefixes [of 8 8, where 'a = 32 and 'v = nat and pfx = "[10, 0, 0, 0]" and v = 1]
  by auto

end
