(* ===== verification/Rib.thy ===== *)
theory Rib
  imports LpcTrie
begin

text \<open>
  The routing information base of one address family: \<open>core/routing/rib/\<close> and
  \<open>core/routing/fib/Fib.hpp\<close>. An address is a value of type \<open>'a\<close> (a word where masking
  matters).

  \<^item> The array of next hops and its count are the list of the active slots.
  \<^item> A pointer into \<open>RibBucket::routes\<close> is the pair of the vector's buffer and an index; a
    \<open>push_back\<close> that finds the capacity used up moves the routes to a new buffer of twice the size
    (the growth of the standard library the code is built with), which makes old pointers dangle.
  \<^item> The forwarding trie stores, for a prefix, the address of the bucket's \<open>fibEntry\<close> slot: the key
    of the bucket. \<open>ribFib\<close> is \<open>None\<close> once a trie operation had undefined behaviour.
  \<^item> Calls to the route watcher are recorded in \<open>announced\<close>, with the test its prefix watches make
    first, \<open>bucket.bestEntry != bucket.prevBest\<close>.
\<close>

section \<open>Routes\<close>

datatype RouteSource = DYNAMIC | CONNECTED | STATIC | EIGRP_INTERNAL | EIGRP_EXTERNAL | OSPF_INTRA
  | OSPF_INTER | OSPF_EXTERNAL | OSPF_NSSA | BGP | RIP | UNKNOWN

record 'a NextHopPath =
  nextHop :: "'a option"
  iface :: u32
  weight :: u32

record 'a RibEntry =
  prefix :: 'a
  plength :: u8
  source :: RouteSource
  processId :: u64
  adminDistance :: u8
  metric :: u64
  tag :: u32
  topInfo :: u64
  nextHops :: "'a NextHopPath list"

record 'a FibEntry =
  fprefix :: 'a
  fplength :: u8
  fnextHops :: "'a NextHopPath list"

definition MAX_NEXTHOP :: nat where
  "MAX_NEXTHOP = 8"

definition FibEntry_of :: "'a RibEntry \<Rightarrow> 'a FibEntry" where
  "FibEntry_of e = \<lparr>fprefix = prefix e, fplength = plength e, fnextHops = nextHops e\<rparr>"

text \<open>The search loop of \<open>addNextHop\<close>: \<open>None\<close> when no slot decides the call.\<close>

fun nextHopLoop :: "'a \<Rightarrow> u32 \<Rightarrow> 'a NextHopPath list \<Rightarrow> (bool \<times> 'a NextHopPath list) option" where
  "nextHopLoop a i [] = None"
| "nextHopLoop a i (h # hs) =
     (if nextHop h = None \<and> iface h = i then Some (True, h\<lparr>nextHop := Some a\<rparr> # hs)
      else if nextHop h = Some a \<and> iface h = i then Some (False, h # hs)
      else map_option (\<lambda>(b, hs'). (b, h # hs')) (nextHopLoop a i hs))"

definition addNextHop :: "'a \<Rightarrow> u32 \<Rightarrow> u32 \<Rightarrow> 'a NextHopPath list \<Rightarrow> bool \<times> 'a NextHopPath list" where
  "addNextHop a i w hs = (if MAX_NEXTHOP \<le> length hs then (False, hs)
     else case nextHopLoop a i hs of
       Some r \<Rightarrow> r
     | None \<Rightarrow> (True, hs @ [\<lparr>nextHop = Some a, iface = i, weight = w\<rparr>]))"

definition addNextHopInterface :: "u32 \<Rightarrow> u32 \<Rightarrow> 'a NextHopPath list \<Rightarrow> bool \<times> 'a NextHopPath list" where
  "addNextHopInterface i w hs = (if MAX_NEXTHOP \<le> length hs then (False, hs)
     else if \<exists>h\<in>set hs. iface h = i then (False, hs)
     else (True, hs @ [\<lparr>nextHop = None, iface = i, weight = w\<rparr>]))"

section \<open>Buckets\<close>

record 'a RibBucket =
  routes :: "'a RibEntry list"
  routesBuf :: nat
  routesCap :: nat
  bestEntry :: "(nat \<times> nat) option"
  prevBest :: "(nat \<times> nat) option"
  fibEntry :: "'a RibEntry option"

definition RibBucket_new :: "'a RibBucket" where
  "RibBucket_new = \<lparr>routes = [], routesBuf = 0, routesCap = 0, bestEntry = None, prevBest = None,
     fibEntry = None\<rparr>"

definition route_better :: "'a RibEntry \<Rightarrow> 'a RibEntry \<Rightarrow> bool" where
  "route_better r b = (adminDistance r < adminDistance b
     \<or> (adminDistance r = adminDistance b \<and> metric r < metric b))"

definition selectBest :: "'a RibBucket \<Rightarrow> 'a RibBucket" where
  "selectBest b = (let sel = scan_best route_better (\<lambda>_. True) (routes b) in
     b\<lparr>prevBest := bestEntry b,
       bestEntry := map_option (\<lambda>(i, r). (routesBuf b, i)) sel,
       fibEntry := map_option snd sel\<rparr>)"

definition same_origin :: "RouteSource \<Rightarrow> u64 \<Rightarrow> 'a RibEntry \<Rightarrow> bool" where
  "same_origin src pid r = (source r = src \<and> processId r = pid)"

definition unchanged :: "'a RibEntry \<Rightarrow> 'a RibEntry \<Rightarrow> bool" where
  "unchanged e r = (metric r = metric e \<and> length (nextHops r) = length (nextHops e)
     \<and> adminDistance r = adminDistance e)"

text \<open>The loop of \<open>addRoute\<close> over the routes: the first route of the same origin is either
  unchanged (the call returns) or overwritten; without one the route is appended.\<close>

datatype 'a addResult = AlreadyThere | Replaced "'a RibEntry list" | NotFound

fun addLoop :: "'a RibEntry \<Rightarrow> 'a RibEntry list \<Rightarrow> 'a addResult" where
  "addLoop e [] = NotFound"
| "addLoop e (r # rs) =
     (if same_origin (source e) (processId e) r then
        (if unchanged e r then AlreadyThere else Replaced (e # rs))
      else case addLoop e rs of Replaced rs' \<Rightarrow> Replaced (r # rs') | x \<Rightarrow> x)"

definition pushRoute :: "'a RibEntry \<Rightarrow> 'a RibBucket \<Rightarrow> 'a RibBucket" where
  "pushRoute e b = (let b1 = b\<lparr>routes := routes b @ [e]\<rparr> in
     if length (routes b) < routesCap b then b1
     else b1\<lparr>routesBuf := Suc (routesBuf b), routesCap := max 1 (2 * length (routes b))\<rparr>)"

definition addRoute :: "'a RibEntry \<Rightarrow> 'a RibBucket \<Rightarrow> bool \<times> 'a RibBucket" where
  "addRoute e b = (case addLoop e (routes b) of
     AlreadyThere \<Rightarrow> (False, b)
   | Replaced rs \<Rightarrow> (True, selectBest (b\<lparr>routes := rs\<rparr>))
   | NotFound \<Rightarrow> (True, selectBest (pushRoute e b)))"

definition removeRoute :: "RouteSource \<Rightarrow> u64 \<Rightarrow> 'a RibBucket \<Rightarrow> 'a RibBucket" where
  "removeRoute src pid b = selectBest (b\<lparr>routes := filter (\<lambda>r. \<not> same_origin src pid r) (routes b)\<rparr>)"

definition getBestRoute :: "RouteSource \<Rightarrow> u64 \<Rightarrow> 'a RibBucket \<Rightarrow> 'a RibEntry option" where
  "getBestRoute src pid b = map_option snd (scan_best route_better (same_origin src pid) (routes b))"

definition getBestRoutePid :: "u64 \<Rightarrow> 'a RibBucket \<Rightarrow> 'a RibEntry option" where
  "getBestRoutePid pid b = map_option snd (scan_best route_better (\<lambda>r. processId r = pid) (routes b))"

definition getBestRouteSource :: "RouteSource \<Rightarrow> 'a RibBucket \<Rightarrow> 'a RibEntry option" where
  "getBestRouteSource src b = map_option snd (scan_best route_better (\<lambda>r. source r = src) (routes b))"

definition bucketEmpty :: "'a RibBucket \<Rightarrow> bool" where
  "bucketEmpty b = (fibEntry b = None)"

definition bucketClear :: "'a RibBucket \<Rightarrow> 'a RibBucket" where
  "bucketClear b = b\<lparr>fibEntry := None, routes := [], bestEntry := None, prevBest := None\<rparr>"

text \<open>The test \<open>RouteWatcher::announceRouteChange\<close> makes before it looks at prefix watches.\<close>

definition bestMoved :: "'a RibBucket \<Rightarrow> bool" where
  "bestMoved b = (bestEntry b \<noteq> prevBest b)"

section \<open>The table\<close>

type_synonym 'a prefix_key = "'a \<times> u8"

datatype 'a announcement = RouteChange "'a prefix_key" bool "'a RibEntry option" | AllGone

record 'a rib =
  ribTable :: "('a prefix_key \<times> 'a RibBucket) list"
  ribFib :: "('a, 'a prefix_key) Node option option"
  announced :: "'a announcement list"

definition Rib_new :: "'a rib" where
  "Rib_new = \<lparr>ribTable = [], ribFib = Some None, announced = []\<rparr>"

definition ribMask :: "'a::len word \<Rightarrow> u8 \<Rightarrow> 'a word" where
  "ribMask p l = (if l = 0 then 0 else if LENGTH('a) \<le> unat l then p
     else p AND push_bit (LENGTH('a) - unat l) (- 1))"

definition announce :: "'a prefix_key \<Rightarrow> 'a RibBucket \<Rightarrow> 'a rib \<Rightarrow> 'a rib" where
  "announce k b r = r\<lparr>announced := announced r @
     [RouteChange k (bestMoved b) (fibEntry b)]\<rparr>"

definition fibInsert :: "'a::len word prefix_key \<Rightarrow> ('a word, 'a word prefix_key) Node option option
    \<Rightarrow> ('a word, 'a word prefix_key) Node option option" where
  "fibInsert k t = Option.bind t (\<lambda>root.
     map_option snd (LpcTrie.insert 8 (toBytes (fst k)) (unat (snd k)) k root))"

definition fibErase :: "'a::len word prefix_key \<Rightarrow> ('a word, 'a word prefix_key) Node option option
    \<Rightarrow> ('a word, 'a word prefix_key) Node option option" where
  "fibErase k t = Option.bind t (\<lambda>root.
     map_option snd (LpcTrie.erase 8 (toBytes (fst k)) (unat (snd k)) root))"

definition installRoute :: "'a::len word RibEntry \<Rightarrow> 'a word rib \<Rightarrow> 'a word rib" where
  "installRoute e r = (let key = (ribMask (prefix e) (plength e), plength e) in
     case al_get (ribTable r) key of
       None \<Rightarrow>
         (let b = snd (addRoute e RibBucket_new)
          in announce key b (r\<lparr>ribFib := fibInsert key (ribFib r), ribTable := al_put key b (ribTable r)\<rparr>))
     | Some b \<Rightarrow>
         (let (changed, b') = addRoute e b; r1 = r\<lparr>ribTable := al_put key b' (ribTable r)\<rparr>
          in if changed then announce key b' r1 else r1))"

definition withdrawRoute :: "'a::len word \<Rightarrow> u8 \<Rightarrow> RouteSource \<Rightarrow> u64 \<Rightarrow> 'a word rib \<Rightarrow> 'a word rib" where
  "withdrawRoute p l src pid r = (let key = (ribMask p l, l) in
     case al_get (ribTable r) key of
       None \<Rightarrow> r
     | Some b \<Rightarrow>
         (let b' = removeRoute src pid b
          in if bucketEmpty b'
             then announce key b' (r\<lparr>ribTable := al_del key (ribTable r), ribFib := fibErase key (ribFib r)\<rparr>)
             else announce key b' (r\<lparr>ribTable := al_put key b' (ribTable r)\<rparr>)))"

definition ribClear :: "'a rib \<Rightarrow> 'a rib" where
  "ribClear r = r\<lparr>ribFib := Some None, ribTable := [], announced := announced r @ [AllGone]\<rparr>"

definition addRoutes :: "'a::len word RibEntry list \<Rightarrow> 'a word rib \<Rightarrow> 'a word rib" where
  "addRoutes es r = fold installRoute es r"

definition removeRoutes :: "('a::len word \<times> u8) list \<Rightarrow> RouteSource \<Rightarrow> u64 \<Rightarrow> 'a word rib \<Rightarrow> 'a word rib" where
  "removeRoutes ws src pid r = fold (\<lambda>(p, l). withdrawRoute p l src pid) ws r"

definition ribLookup :: "'a::len word \<Rightarrow> 'a word rib \<Rightarrow> 'a word RibEntry option option" where
  "ribLookup a r = Option.bind (ribFib r) (\<lambda>root. map_option (\<lambda>hit. case hit of
      None \<Rightarrow> None
    | Some key \<Rightarrow> Option.bind (al_get (ribTable r) key) fibEntry) (LpcTrie.lookup 8 root a))"

section \<open>Next hops\<close>

text \<open>Two slots of one entry agree when they do not name the same gateway on the same interface and
  a slot without a gateway is alone on its interface.\<close>

definition nh_compat :: "'a NextHopPath \<Rightarrow> 'a NextHopPath \<Rightarrow> bool" where
  "nh_compat h h' = (iface h = iface h' \<longrightarrow> nextHop h \<noteq> None \<and> nextHop h' \<noteq> None \<and> nextHop h \<noteq> nextHop h')"

definition nexthops_ok :: "'a NextHopPath list \<Rightarrow> bool" where
  "nexthops_ok hs = (length hs \<le> MAX_NEXTHOP \<and> sorted_wrt nh_compat hs)"

datatype 'a nhCall = ViaGateway 'a u32 u32 | ViaInterface u32 u32

fun nh_call :: "'a nhCall \<Rightarrow> 'a NextHopPath list \<Rightarrow> bool \<times> 'a NextHopPath list" where
  "nh_call (ViaGateway a i w) hs = addNextHop a i w hs"
| "nh_call (ViaInterface i w) hs = addNextHopInterface i w hs"

text \<open>The next hops of an entry after a sequence of calls on a fresh one.\<close>

definition nh_added :: "'a nhCall list \<Rightarrow> 'a NextHopPath list" where
  "nh_added cs = fold (\<lambda>c. snd \<circ> nh_call c) cs []"

lemma nextHopLoop_None:
  "nextHopLoop a i hs = None \<longleftrightarrow> (\<forall>h\<in>set hs. iface h = i \<longrightarrow> nextHop h \<noteq> None \<and> nextHop h \<noteq> Some a)"
  by (induction hs) auto

lemma nextHopLoop_changed: "nextHopLoop a i hs = Some (b, hs') \<Longrightarrow> (hs' \<noteq> hs) = b"
proof (induction hs arbitrary: b hs')
  case (Cons h hs)
  have "h\<lparr>nextHop := Some a\<rparr> \<noteq> h" if "nextHop h = None" for h :: "'a NextHopPath"
    using that by (metis NextHopPath.ext_inject NextHopPath.surjective NextHopPath.update_convs(1) option.distinct(1))
  with Cons show ?case by (auto split: if_splits)
qed simp

lemma nextHopLoop_found:
  "nextHopLoop a i hs = Some (b, hs') \<Longrightarrow> \<exists>h\<in>set hs'. nextHop h = Some a \<and> iface h = i"
  by (induction hs arbitrary: b hs') (auto split: if_splits)

lemma nextHopLoop_old:
  "nextHopLoop a i hs = Some (b, hs') \<Longrightarrow> sorted_wrt nh_compat hs \<Longrightarrow>
     length hs' = length hs \<and> (\<forall>h'\<in>set hs'. h' \<in> set hs \<or>
       (iface h' = i \<and> nextHop h' = Some a \<and> (\<exists>h\<in>set hs. iface h = i \<and> nextHop h = None)))"
  by (induction hs arbitrary: b hs') (fastforce split: if_splits)+

lemma nextHopLoop_compat:
  "nextHopLoop a i hs = Some (b, hs') \<Longrightarrow> sorted_wrt nh_compat hs \<Longrightarrow> sorted_wrt nh_compat hs'"
proof (induction hs arbitrary: b hs')
  case (Cons h hs)
  show ?case
  proof (cases "iface h = i \<and> (nextHop h = None \<or> nextHop h = Some a)")
    case True
    with Cons.prems show ?thesis by (auto simp: nh_compat_def split: if_splits)
  next
    case False
    with Cons.prems obtain hs1 where 1: "nextHopLoop a i hs = Some (b, hs1)" "hs' = h # hs1"
      by (auto split: if_splits)
    with Cons have "sorted_wrt nh_compat hs1" by simp
    moreover have "nh_compat h h'" if "h' \<in> set hs1" for h'
    proof (cases "h' \<in> set hs")
      case True
      with Cons.prems(2) show ?thesis by simp
    next
      case new: False
      with nextHopLoop_old [OF 1(1)] that Cons.prems(2)
      obtain g where "g \<in> set hs" "iface g = i" "nextHop g = None" and h': "iface h' = i" by auto
      with Cons.prems(2) have "iface h \<noteq> i" by (auto simp: nh_compat_def)
      with h' show ?thesis by (simp add: nh_compat_def)
    qed
    ultimately show ?thesis using 1 by simp
  qed
qed simp

lemma nh_call_ok: "nexthops_ok hs \<Longrightarrow> nexthops_ok (snd (nh_call c hs))"
proof (induction c hs rule: nh_call.induct)
  case (1 a i w hs)
  show ?case
  proof (cases "nextHopLoop a i hs")
    case None
    then have "\<forall>h\<in>set hs. iface h = i \<longrightarrow> nextHop h \<noteq> None \<and> nextHop h \<noteq> Some a"
      by (simp add: nextHopLoop_None)
    with 1 None show ?thesis
      by (auto simp: nexthops_ok_def addNextHop_def sorted_wrt_append nh_compat_def)
  next
    case (Some r)
    with 1 nextHopLoop_old [of a i hs "fst r" "snd r"] nextHopLoop_compat [of a i hs "fst r" "snd r"]
    show ?thesis by (auto simp: nexthops_ok_def addNextHop_def)
  qed
qed (auto simp: nexthops_ok_def addNextHopInterface_def sorted_wrt_append nh_compat_def)

lemma nh_call_changed: "fst (nh_call c hs) \<longleftrightarrow> snd (nh_call c hs) \<noteq> hs"
proof (cases c)
  case (ViaGateway a i w)
  then show ?thesis
    using nextHopLoop_changed [of a i hs] by (auto simp: addNextHop_def split: option.splits)
qed (auto simp: addNextHopInterface_def)

lemma nh_calls_ok: "nexthops_ok hs \<Longrightarrow> nexthops_ok (fold (\<lambda>c. snd \<circ> nh_call c) cs hs)"
  by (induction cs arbitrary: hs) (simp_all add: nh_call_ok)

text \<open>Whatever sequence of next hops a protocol adds to an entry, the entry holds at most eight,
  never names a gateway twice on an interface, and keeps a next hop without gateway alone on its
  interface; a call reports success exactly when it changed the entry, and after
  \<open>addNextHop\<close> on an entry with a free slot the gateway is there.\<close>

theorem next_hops_well_formed:
  "nexthops_ok (nh_added cs)
    \<and> (fst (nh_call c (nh_added cs)) \<longleftrightarrow> snd (nh_call c (nh_added cs)) \<noteq> nh_added cs)
    \<and> (length (nh_added cs) < MAX_NEXTHOP \<longrightarrow>
        (\<exists>h\<in>set (snd (addNextHop a i w (nh_added cs))). nextHop h = Some a \<and> iface h = i))"
proof (intro conjI impI)
  show "nexthops_ok (nh_added cs)"
    unfolding nh_added_def by (rule nh_calls_ok) (simp add: nexthops_ok_def)
  show "fst (nh_call c (nh_added cs)) \<longleftrightarrow> snd (nh_call c (nh_added cs)) \<noteq> nh_added cs"
    by (rule nh_call_changed)
  show "\<exists>h\<in>set (snd (addNextHop a i w (nh_added cs))). nextHop h = Some a \<and> iface h = i"
    if "length (nh_added cs) < MAX_NEXTHOP"
    using that nextHopLoop_found [of a i "nh_added cs"] by (auto simp: addNextHop_def split: option.splits)
qed

theorem next_hops_well_formed_witness:
  "length (nh_added [ViaInterface 1 1, ViaGateway (7 :: u32) 1 1]) < MAX_NEXTHOP
   \<and> (\<exists>h\<in>set (snd (addNextHop 9 1 1 (nh_added [ViaInterface 1 1, ViaGateway (7 :: u32) 1 1]))).
        nextHop h = Some (9 :: u32) \<and> iface h = 1)"
proof -
  have "length (nh_added [ViaInterface 1 1, ViaGateway (7 :: u32) 1 1]) < MAX_NEXTHOP"
    by (simp add: nh_added_def addNextHop_def addNextHopInterface_def MAX_NEXTHOP_def)
  with next_hops_well_formed [of "[ViaInterface 1 1, ViaGateway (7 :: u32) 1 1]" _ 9 1 1]
  show ?thesis by blast
qed

section \<open>Buckets\<close>

interpretation rt: preference route_better "\<lambda>_ :: 'a RibEntry. True"
  by unfold_locales (auto simp: route_better_def)

abbreviation origin :: "'a RibEntry \<Rightarrow> RouteSource \<times> u64" where
  "origin r \<equiv> (source r, processId r)"

text \<open>The installed route is the first of the routes with the smallest administrative distance and,
  among those, the smallest metric.\<close>

definition is_installed :: "'a RibEntry list \<Rightarrow> nat \<Rightarrow> 'a RibEntry \<Rightarrow> bool" where
  "is_installed rs i e = (i < length rs \<and> rs ! i = e \<and> (\<forall>r\<in>set rs. \<not> route_better r e)
     \<and> (\<forall>j<i. route_better e (rs ! j)))"

definition bucket_ok :: "'a RibBucket \<Rightarrow> bool" where
  "bucket_ok b = (distinct (map origin (routes b)) \<and> (case fibEntry b of
       None \<Rightarrow> routes b = [] \<and> bestEntry b = None
     | Some e \<Rightarrow> (\<exists>i. bestEntry b = Some (routesBuf b, i) \<and> is_installed (routes b) i e)))"

text \<open>What a bucket promises: one route per origin.\<close>

definition route_of :: "'a RibEntry list \<Rightarrow> RouteSource \<times> u64 \<rightharpoonup> 'a RibEntry" where
  "route_of rs o' = find (\<lambda>r. origin r = o') rs"

lemma same_origin_iff: "same_origin src pid r \<longleftrightarrow> origin r = (src, pid)"
  by (auto simp: same_origin_def)

lemma selectBest_routes [simp]: "routes (selectBest b) = routes b"
  by (simp add: selectBest_def Let_def)

lemma pushRoute_routes [simp]: "routes (pushRoute e b) = routes b @ [e]"
  by (simp add: pushRoute_def Let_def)

lemma selectBest_ok: "distinct (map origin (routes b)) \<Longrightarrow> bucket_ok (selectBest b)"
  using rt.scan_best_ok [of "routes b" "\<lambda>_. True"]
  by (auto simp: bucket_ok_def selectBest_def Let_def scan_ok_def is_installed_def split: option.splits)

lemma selectBest_empty: "bucketEmpty (selectBest b) \<longleftrightarrow> routes b = []"
  using rt.scan_best_None [of "routes b" "\<lambda>_. True"]
  by (auto simp: bucketEmpty_def selectBest_def Let_def split: option.splits)

lemma addLoop_NotFound: "addLoop e rs = NotFound \<longleftrightarrow> origin e \<notin> origin ` set rs"
  by (induction rs) (auto simp: same_origin_iff split: addResult.splits)

lemma addLoop_Replaced: "addLoop e rs = Replaced rs' \<Longrightarrow>
    map origin rs' = map origin rs \<and> route_of rs' = (route_of rs)(origin e \<mapsto> e)
    \<and> set rs' \<subseteq> {e} \<union> set rs \<and> rs' \<noteq> []"
proof (induction rs arbitrary: rs')
  case (Cons r rs)
  show ?case
  proof (cases "same_origin (source e) (processId e) r")
    case True
    with Cons.prems have "rs' = e # rs" by (simp split: if_splits)
    with True show ?thesis by (auto simp: same_origin_iff route_of_def fun_eq_iff)
  next
    case False
    with Cons.prems obtain rs1 where rs1: "addLoop e rs = Replaced rs1" "rs' = r # rs1"
      by (auto split: addResult.splits)
    have "route_of (r # xs) = (route_of xs)(origin r \<mapsto> r)" for xs
      by (auto simp: route_of_def fun_eq_iff)
    with Cons.IH [OF rs1(1)] rs1(2) False show ?thesis
      by (auto simp: same_origin_iff fun_upd_twist)
  qed
qed simp

lemma addLoop_AlreadyThere: "addLoop e rs = AlreadyThere \<Longrightarrow> \<exists>r. route_of rs (origin e) = Some r \<and> unchanged e r"
  by (induction rs) (auto simp: same_origin_iff route_of_def split: if_splits addResult.splits)

lemma route_of_append: "route_of (rs @ [e]) = (if origin e \<in> origin ` set rs then route_of rs else (route_of rs)(origin e \<mapsto> e))"
  by (rule ext, induction rs) (auto simp: route_of_def)

lemma route_of_filter: "route_of (filter (\<lambda>r. \<not> same_origin src pid r) rs) = (route_of rs)((src, pid) := None)"
  by (rule ext, induction rs) (auto simp: route_of_def same_origin_iff)

lemma route_of_SomeD: "route_of rs o' = Some r \<Longrightarrow> r \<in> set rs \<and> origin r = o'"
  by (induction rs) (auto simp: route_of_def split: if_splits)

lemma bucket_new_ok [simp]: "bucket_ok RibBucket_new"
  by (simp add: bucket_ok_def RibBucket_new_def)

lemma addRoute_ok [inv_intros]: "bucket_ok b \<Longrightarrow> bucket_ok (snd (addRoute e b))"
proof (cases "addLoop e (routes b)")
  case (Replaced rs)
  moreover assume "bucket_ok b"
  ultimately show ?thesis
    using addLoop_Replaced [OF Replaced] selectBest_ok [of "b\<lparr>routes := rs\<rparr>"]
    by (simp add: addRoute_def bucket_ok_def [of b])
next
  case NotFound
  moreover assume "bucket_ok b"
  ultimately show ?thesis using NotFound [unfolded addLoop_NotFound]
    using selectBest_ok [of "pushRoute e b"] by (simp add: addRoute_def bucket_ok_def [of b])
qed (simp add: addRoute_def)

lemma removeRoute_ok [inv_intros]: "bucket_ok b \<Longrightarrow> bucket_ok (removeRoute src pid b)"
  unfolding removeRoute_def by (rule selectBest_ok) (auto simp: bucket_ok_def distinct_map intro: inj_on_subset)

lemma addRoute_route_of:
  "route_of (routes (snd (addRoute e b))) = (if fst (addRoute e b) then (route_of (routes b))(origin e \<mapsto> e)
     else route_of (routes b))"
proof (cases "addLoop e (routes b)")
  case (Replaced rs)
  then show ?thesis using addLoop_Replaced [OF Replaced] by (simp add: addRoute_def)
next
  case NotFound
  then show ?thesis using NotFound [unfolded addLoop_NotFound] by (simp add: addRoute_def route_of_append)
qed (simp add: addRoute_def)

lemma addRoute_routes: "set (routes (snd (addRoute e b))) \<subseteq> {e} \<union> (set (routes b))"
  "routes (snd (addRoute e b)) \<noteq> []"
proof -
  have "addLoop e [] = NotFound" by simp
  then have "routes b \<noteq> []" if "addLoop e (routes b) = AlreadyThere" using that by auto
  then show "set (routes (snd (addRoute e b))) \<subseteq> {e} \<union> (set (routes b))"
    "routes (snd (addRoute e b)) \<noteq> []"
    using addLoop_Replaced [of e "routes b"] by (auto simp: addRoute_def split: addResult.splits)
qed

lemma removeRoute_routes: "routes (removeRoute src pid b) = filter (\<lambda>r. \<not> same_origin src pid r) (routes b)"
  by (simp add: removeRoute_def)

lemma addRoute_refused:
  "\<not> fst (addRoute e b) \<longleftrightarrow> (\<exists>r. route_of (routes b) (origin e) = Some r \<and> unchanged e r)"
proof -
  have "addLoop e rs = AlreadyThere \<longleftrightarrow> (\<exists>r. route_of rs (origin e) = Some r \<and> unchanged e r)" for rs
    by (induction rs) (auto simp: same_origin_iff route_of_def split: addResult.splits)
  from this [of "routes b"] show ?thesis
    by (cases "addLoop e (routes b)") (auto simp: addRoute_def)
qed

section \<open>Sequences of operations on a table\<close>

datatype 'a ribOp = Install "'a RibEntry" | Withdraw 'a u8 RouteSource u64 | ClearAll

fun rib_op :: "'a::len word ribOp \<Rightarrow> 'a word rib \<Rightarrow> 'a word rib" where
  "rib_op (Install e) r = installRoute e r"
| "rib_op (Withdraw p l src pid) r = withdrawRoute p l src pid r"
| "rib_op ClearAll r = ribClear r"

definition rib_run :: "'a::len word ribOp list \<Rightarrow> 'a word rib" where
  "rib_run ops = fold rib_op ops Rib_new"

definition key_of :: "'a::len word RibEntry \<Rightarrow> 'a word prefix_key" where
  "key_of e = (ribMask (prefix e) (plength e), plength e)"

definition bucket_at :: "'a::len word prefix_key \<Rightarrow> 'a word RibBucket \<Rightarrow> bool" where
  "bucket_at k b = (bucket_ok b \<and> routes b \<noteq> [] \<and> (\<forall>e\<in>set (routes b). key_of e = k))"

definition rib_ok :: "'a::len word rib \<Rightarrow> bool" where
  "rib_ok r = (al_wf (ribTable r) \<and> (\<forall>k b. al_get (ribTable r) k = Some b \<longrightarrow> bucket_at k b))"

text \<open>The specification: for every prefix one route per origin. An announcement that changes neither
  metric, distance nor the number of next hops is not taken over.\<close>

type_synonym 'a rib_spec = "'a prefix_key \<Rightarrow> RouteSource \<times> u64 \<rightharpoonup> 'a RibEntry"

fun spec_op :: "'a::len word ribOp \<Rightarrow> 'a word rib_spec \<Rightarrow> 'a word rib_spec" where
  "spec_op (Install e) m = (if \<exists>r. m (key_of e) (origin e) = Some r \<and> unchanged e r then m
     else m(key_of e := (m (key_of e))(origin e \<mapsto> e)))"
| "spec_op (Withdraw p l src pid) m = m((ribMask p l, l) := (m (ribMask p l, l))((src, pid) := None))"
| "spec_op ClearAll m = (\<lambda>k. Map.empty)"

definition rib_routes :: "'a rib \<Rightarrow> 'a prefix_key \<Rightarrow> 'a RibEntry list" where
  "rib_routes r k = (case al_get (ribTable r) k of None \<Rightarrow> [] | Some b \<Rightarrow> routes b)"

definition rib_abs :: "'a rib \<Rightarrow> 'a rib_spec" where
  "rib_abs r k = route_of (rib_routes r k)"

definition rib_best :: "'a rib \<Rightarrow> 'a prefix_key \<Rightarrow> 'a RibEntry option" where
  "rib_best r k = Option.bind (al_get (ribTable r) k) fibEntry"

lemma announce_table [simp]: "ribTable (announce k b r) = ribTable r"
  by (simp add: announce_def)

lemma addRoute_new [simp]: "fst (addRoute e RibBucket_new)" "routes RibBucket_new = []"
  by (simp_all add: addRoute_def RibBucket_new_def)

lemma install_table: "ribTable (installRoute e r) = al_put (key_of e)
    (snd (addRoute e (case al_get (ribTable r) (key_of e) of None \<Rightarrow> RibBucket_new | Some b \<Rightarrow> b))) (ribTable r)"
  by (simp add: installRoute_def Let_def key_of_def split: option.splits prod.splits)

lemma withdraw_table: "ribTable (withdrawRoute p l src pid r) = (let k = (ribMask p l, l) in
    case al_get (ribTable r) k of None \<Rightarrow> ribTable r
    | Some b \<Rightarrow> if routes (removeRoute src pid b) = [] then al_del k (ribTable r)
        else al_put k (removeRoute src pid b) (ribTable r))"
  by (simp add: withdrawRoute_def Let_def removeRoute_def selectBest_empty split: option.splits)

lemma bucket_at_add:
  assumes "bucket_ok b" and "\<forall>x\<in>set (routes b). key_of x = key_of e"
  shows "bucket_at (key_of e) (snd (addRoute e b))"
  using assms addRoute_ok [of b e] addRoute_routes [of e b] unfolding bucket_at_def by blast

lemma rib_ok_put: "rib_ok r \<Longrightarrow> bucket_at k b \<Longrightarrow> ribTable r' = al_put k b (ribTable r) \<Longrightarrow> rib_ok r'"
  unfolding rib_ok_def by (simp del: split_paired_All)

lemma install_ok [inv_intros]: "rib_ok r \<Longrightarrow> rib_ok (installRoute e r)"
  by (rule rib_ok_put [OF _ bucket_at_add install_table], assumption)
    (simp_all add: rib_ok_def bucket_at_def del: split_paired_All split: option.splits)

lemma withdraw_ok [inv_intros]:
  assumes "rib_ok r"
  shows "rib_ok (withdrawRoute p l src pid r)"
proof (cases "al_get (ribTable r) (ribMask p l, l)")
  case None
  with assms show ?thesis by (simp add: withdrawRoute_def Let_def)
next
  case (Some b)
  note wt = withdraw_table [of p l src pid r, unfolded Let_def Some option.case]
  show ?thesis
  proof (cases "routes (removeRoute src pid b) = []")
    case True
    with wt assms show ?thesis unfolding rib_ok_def by (simp del: split_paired_All)
  next
    case False
    from assms Some have "bucket_at (ribMask p l, l) b" by (simp add: rib_ok_def del: split_paired_All)
    with False have "bucket_at (ribMask p l, l) (removeRoute src pid b)"
      by (simp add: bucket_at_def removeRoute_ok) (simp add: removeRoute_routes)
    then show ?thesis using wt False by (intro rib_ok_put [OF assms]) simp_all
  qed
qed

lemma rib_op_ok: "rib_ok r \<Longrightarrow> rib_ok (rib_op op r)"
  by (cases op) (simp_all add: inv_intros, simp add: rib_ok_def ribClear_def)

lemma rib_run_ok: "rib_ok (rib_run ops)"
proof -
  have "rib_ok r \<Longrightarrow> rib_ok (fold rib_op ops r)" for r :: "'a word rib"
    by (induction ops arbitrary: r) (simp_all add: rib_op_ok)
  moreover have "rib_ok (Rib_new :: 'a word rib)" by (simp add: rib_ok_def Rib_new_def)
  ultimately show ?thesis by (simp add: rib_run_def)
qed

lemma rib_routes_put: "ribTable r' = al_put k b (ribTable r) \<Longrightarrow> rib_routes r' = (rib_routes r)(k := routes b)"
  by (rule ext) (simp add: rib_routes_def)

lemma install_abs: "rib_abs (installRoute e r) = spec_op (Install e) (rib_abs r)"
proof -
  define b where "b = (case al_get (ribTable r) (key_of e) of None \<Rightarrow> RibBucket_new | Some b \<Rightarrow> b)"
  have rb: "rib_routes r (key_of e) = routes b"
    by (simp add: b_def rib_routes_def split: option.splits)
  have "rib_routes (installRoute e r) = (rib_routes r)(key_of e := routes (snd (addRoute e b)))"
    by (rule rib_routes_put) (simp add: install_table b_def)
  then have "rib_abs (installRoute e r) = (rib_abs r)(key_of e := route_of (routes (snd (addRoute e b))))"
    by (simp add: rib_abs_def fun_eq_iff)
  moreover have "rib_abs r (key_of e) = route_of (routes b)"
    by (simp add: rib_abs_def rb)
  ultimately show ?thesis
    using addRoute_refused [of e b] by (auto simp: addRoute_route_of fun_eq_iff)
qed

lemma withdraw_abs: "rib_abs (withdrawRoute p l src pid r) = spec_op (Withdraw p l src pid) (rib_abs r)"
proof -
  define k where "k = (ribMask p l, l)"
  have "rib_routes (withdrawRoute p l src pid r) = (rib_routes r)(k := filter (\<lambda>r. \<not> same_origin src pid r) (rib_routes r k))"
    by (rule ext) (auto simp: rib_routes_def withdraw_table k_def [symmetric] removeRoute_routes split: option.splits)
  then show ?thesis
    by (simp add: rib_abs_def fun_eq_iff route_of_filter k_def)
qed

lemma rib_op_abs: "rib_abs (rib_op op r) = spec_op op (rib_abs r)"
  by (cases op) (auto simp: install_abs withdraw_abs rib_abs_def rib_routes_def ribClear_def route_of_def fun_eq_iff
    simp del: spec_op.simps(1,2))

lemma rib_run_abs: "rib_abs (rib_run ops) = fold spec_op ops (\<lambda>k. Map.empty)"
proof -
  have "rib_abs (fold rib_op ops r) = fold spec_op ops (rib_abs r)" for r :: "'a word rib"
    by (induction ops arbitrary: r) (simp_all add: rib_op_abs)
  moreover have "rib_abs (Rib_new :: 'a word rib) = (\<lambda>k. Map.empty)"
    by (simp add: rib_abs_def rib_routes_def Rib_new_def route_of_def fun_eq_iff)
  ultimately show ?thesis by (simp add: rib_run_def)
qed

lemma route_of_ran: "distinct (map origin rs) \<Longrightarrow> ran (route_of rs) = set rs"
proof -
  assume d: "distinct (map origin rs)"
  have "r \<in> set rs \<Longrightarrow> route_of rs (origin r) = Some r" for r
    using d by (induction rs) (auto simp: route_of_def image_iff)
  then show ?thesis using route_of_SomeD by (fastforce simp: ran_def)
qed

text \<open>(C15) The routing table after any sequence of installations, withdrawals and clears: every
  bucket sits under its masked prefix, holds at least one route and no two routes of one origin
  (source and process), all its routes have that masked prefix, and \<open>fibEntry\<close> with
  \<open>bestEntry\<close> is the first of the routes of smallest administrative distance and, among those, of
  smallest metric.\<close>

theorem rib_invariant: "rib_ok (rib_run ops)"
  by (rule rib_run_ok)


section \<open>Changes that are lost or not announced\<close>

lemma selectBest_index:
  assumes "is_installed (routes b) i e" and "routes b \<noteq> []"
  shows "bestEntry (selectBest b) = Some (routesBuf b, i) \<and> fibEntry (selectBest b) = Some e"
proof -
  from assms(2) rt.scan_best_None [of "routes b" "\<lambda>_. True"]
  obtain j x where sel: "scan_best route_better (\<lambda>_. True) (routes b) = Some (j, x)"
    by (cases "scan_best route_better (\<lambda>_. True) (routes b)") auto
  note s = rt.scan_best_Some [OF _ sel, simplified]
  have "j = i"
  proof (rule ccontr)
    assume "j \<noteq> i"
    then consider "j < i" | "i < j" by linarith
    then show False
      using assms s by cases (auto simp: is_installed_def dest: nth_mem)
  qed
  with sel s assms show ?thesis by (auto simp: selectBest_def Let_def is_installed_def)
qed

text \<open>A route of the same origin that differs only in its next hops (same metric, distance and
  number of next hops) is dropped: \<open>installRoute\<close> leaves routes, forwarding entry and
  announcements as they were, so traffic keeps using the old gateway.\<close>

theorem changed_next_hop_is_ignored:
  assumes "rib_abs r (key_of e) (origin e) = Some old"
    and "metric old = metric e" and "adminDistance old = adminDistance e"
    and "length (nextHops old) = length (nextHops e)"
  shows "rib_abs (installRoute e r) = rib_abs r \<and> rib_best (installRoute e r) = rib_best r
    \<and> announced (installRoute e r) = announced r"
proof (cases "al_get (ribTable r) (key_of e)")
  case None
  with assms(1) show ?thesis by (simp add: rib_abs_def rib_routes_def route_of_def)
next
  case (Some b)
  from assms have "unchanged e old" by (simp add: unchanged_def)
  with Some assms(1) have "\<not> fst (addRoute e b)"
    by (auto simp: addRoute_refused rib_abs_def rib_routes_def)
  then have "addRoute e b = (False, b)"
    by (auto simp: addRoute_def split: addResult.splits)
  with Some show ?thesis
    by (auto simp: installRoute_def Let_def key_of_def rib_abs_def rib_routes_def rib_best_def fun_eq_iff)
qed

definition ex_route :: "RouteSource \<Rightarrow> u8 \<Rightarrow> u64 \<Rightarrow> u32 \<Rightarrow> u32 RibEntry" where
  "ex_route src ad mt gw = \<lparr>prefix = 0x0A000000, plength = 8, source = src, processId = 1, adminDistance = ad,
     metric = mt, tag = 0, topInfo = 0, nextHops = [\<lparr>nextHop = Some gw, iface = 1, weight = 1\<rparr>]\<rparr>"

lemmas ex_simps = ex_route_def key_of_def ribMask_def rib_abs_def rib_routes_def route_of_def install_table
  addRoute_def selectBest_def pushRoute_def Let_def RibBucket_new_def Rib_new_def scan_best_def


theorem changed_next_hop_is_ignored_witness:
  "rib_best (installRoute (ex_route STATIC 1 0 0x02020202) (installRoute (ex_route STATIC 1 0 0x01010101) Rib_new))
   = rib_best (installRoute (ex_route STATIC 1 0 0x01010101) Rib_new)"
proof -
  have "rib_abs (installRoute (ex_route STATIC 1 0 0x01010101) Rib_new)
      (key_of (ex_route STATIC 1 0 0x02020202)) (origin (ex_route STATIC 1 0 0x02020202))
    = Some (ex_route STATIC 1 0 0x01010101)"
    by (simp add: ex_simps)
  then show ?thesis by (rule changed_next_hop_is_ignored [THEN conjunct2, THEN conjunct1]) (simp_all add: ex_route_def)
qed

text \<open>Withdrawing the best route of a prefix when the next one takes its slot of the vector:
  the forwarding entry changes to the other route, but \<open>bestEntry\<close> and \<open>prevBest\<close> are the same
  address, so the watches of the prefix are not told.\<close>

theorem withdrawal_of_best_not_announced:
  assumes "bucket_ok b" and "bestEntry b = Some (routesBuf b, 0)" and "routes b = r0 # r1 # rs"
    and "\<forall>r\<in>set rs. \<not> route_better r r1"
  shows "fibEntry b = Some r0 \<and> fibEntry (removeRoute (source r0) (processId r0) b) = Some r1
    \<and> \<not> bestMoved (removeRoute (source r0) (processId r0) b)"
proof -
  let ?b = "b\<lparr>routes := r1 # rs\<rparr>"
  have dist: "distinct (map origin (r0 # r1 # rs))" using assms by (simp add: bucket_ok_def)
  from distinct_map_ConsD [OF this]
  have "\<forall>r\<in>set (r1 # rs). \<not> same_origin (source r0) (processId r0) r"
    unfolding same_origin_iff .
  then have "filter (\<lambda>r. \<not> same_origin (source r0) (processId r0) r) (r0 # r1 # rs) = r1 # rs"
    by (subst filter.simps) (simp add: same_origin_def filter_id_conv)
  then have rm: "removeRoute (source r0) (processId r0) b = selectBest ?b"
    by (simp only: removeRoute_def assms(3))
  have fib: "fibEntry b = Some r0"
    using assms(1-3) by (auto simp: bucket_ok_def is_installed_def split: option.splits)
  have "is_installed (r1 # rs) 0 r1"
    using assms(4) by (auto simp: is_installed_def rt.better_irrefl)
  then have "bestEntry (selectBest ?b) = Some (routesBuf b, 0)" "fibEntry (selectBest ?b) = Some r1"
    using selectBest_index [of ?b 0 r1] by simp_all
  moreover have "prevBest (selectBest ?b) = bestEntry b" by (simp add: selectBest_def Let_def)
  ultimately show ?thesis using assms(2) fib by (simp add: rm bestMoved_def)
qed

definition ex_two :: "u32 RibBucket" where
  "ex_two = snd (addRoute (ex_route OSPF_INTRA 110 20 0x02020202)
     (snd (addRoute (ex_route STATIC 1 0 0x01010101) RibBucket_new)))"

theorem withdrawal_of_best_not_announced_witness:
  "fibEntry ex_two = Some (ex_route STATIC 1 0 0x01010101)
   \<and> fibEntry (removeRoute STATIC 1 ex_two) = Some (ex_route OSPF_INTRA 110 20 0x02020202)
   \<and> \<not> bestMoved (removeRoute STATIC 1 ex_two)"
proof -
  have "bucket_ok ex_two" unfolding ex_two_def by (intro inv_intros bucket_new_ok)
  moreover have "bestEntry ex_two = Some (routesBuf ex_two, 0)"
    "routes ex_two = [ex_route STATIC 1 0 0x01010101, ex_route OSPF_INTRA 110 20 0x02020202]"
    by (simp_all add: ex_two_def ex_simps same_origin_def route_better_def)
  ultimately show ?thesis
    using withdrawal_of_best_not_announced [of ex_two "ex_route STATIC 1 0 0x01010101"
        "ex_route OSPF_INTRA 110 20 0x02020202" "[]"] by (simp add: ex_route_def)
qed

end
