(* ===== verification/BgpDecision.thy ===== *)
theory BgpDecision
  imports BgpAttributes
begin

text \<open>
  The BGP decision process: the comparison of two routes (\<open>decision/BestPath.cpp\<close>), the selection of
  the best route with its equal-cost paths and the ranking of candidates
  (\<open>decision/DecisionEngine.hpp\<close>).

  A route carries the path attributes its identifier denotes, and of the neighbor it came from the
  router identifier and the address; without a neighbor it is locally originated. Candidates are
  pointers in the code, and positions of a list here: comparing pointers is comparing positions.
\<close>

section \<open>Routes and configuration\<close>

record NeighborInfo =
  rid :: u32
  neighborAddress :: IPAddress

record InboundRoute =
  pathAttributes :: PathAttribute
  sourceNeighbor :: "NeighborInfo option"
  weigth :: u16
  peerAs :: u32
  ebgp :: bool
  confedEbgp :: bool
  igpCost :: u64
  receivedTime :: nat

record BestPathConfig =
  compareRouterId :: bool
  medMissingAsWorst :: bool
  ignoreIgpMetric :: bool

text \<open>What the comparison reads of the process: the \<open>always-compare-med\<close> setting and its router
  identifier.\<close>

record DecisionEnv =
  config :: BestPathConfig
  alwaysCompareMed :: bool
  routerId :: u32

section \<open>Comparison of two routes\<close>

definition localPrefOrDefault :: "PathAttribute \<Rightarrow> u32" where
  "localPrefOrDefault a = (case localPref (attrs a) of None \<Rightarrow> 100 | Some l \<Rightarrow> l)"

definition medOrDefault :: "PathAttribute \<Rightarrow> bool \<Rightarrow> u32" where
  "medOrDefault a missingAsWorst = (case med (attrs a) of None \<Rightarrow> (if missingAsWorst then - 1 else 0) | Some d \<Rightarrow> d)"

definition originRank :: "PathAttribute \<Rightarrow> u8" where
  "originRank a = (case originAttr (attrs a) of None \<Rightarrow> 2 | Some r \<Rightarrow> r)"

definition compareMed :: "DecisionEnv \<Rightarrow> InboundRoute \<Rightarrow> InboundRoute \<Rightarrow> bool" where
  "compareMed env lhs rhs = (if \<not> alwaysCompareMed env \<and> peerAs lhs \<noteq> peerAs rhs then False
     else medOrDefault (pathAttributes lhs) (medMissingAsWorst (config env))
       < medOrDefault (pathAttributes rhs) (medMissingAsWorst (config env)))"

definition ridOf :: "DecisionEnv \<Rightarrow> InboundRoute \<Rightarrow> u32" where
  "ridOf env r = (case sourceNeighbor r of None \<Rightarrow> routerId env | Some n \<Rightarrow> rid n)"

definition better :: "DecisionEnv \<Rightarrow> InboundRoute \<Rightarrow> IPAddress \<Rightarrow> InboundRoute \<Rightarrow> IPAddress \<Rightarrow> bool" where
  "better env lhs lhsNbr rhs rhsNbr =
     (let la = pathAttributes lhs; ra = pathAttributes rhs; cfg = config env;
          lhsExternal = (ebgp lhs \<or> confedEbgp lhs); rhsExternal = (ebgp rhs \<or> confedEbgp rhs)
      in if weigth lhs \<noteq> weigth rhs then weigth lhs > weigth rhs
         else if localPrefOrDefault la \<noteq> localPrefOrDefault ra then localPrefOrDefault la > localPrefOrDefault ra
         else if sourceNeighbor lhs = None \<and> sourceNeighbor rhs \<noteq> None then True
         else if asPathLength (attrs la) \<noteq> asPathLength (attrs ra) then asPathLength (attrs la) < asPathLength (attrs ra)
         else if originRank la \<noteq> originRank ra then originRank la < originRank ra
         else if compareMed env lhs rhs then True
         else if compareMed env rhs lhs then False
         else if lhsExternal \<noteq> rhsExternal then lhsExternal
         else if \<not> ignoreIgpMetric cfg \<and> igpCost lhs \<noteq> igpCost rhs then igpCost lhs < igpCost rhs
         else if \<not> compareRouterId cfg \<and> receivedTime lhs \<noteq> receivedTime rhs then receivedTime lhs < receivedTime rhs
         else if compareRouterId cfg \<and> ridOf env lhs \<noteq> ridOf env rhs then ridOf env lhs < ridOf env rhs
         else addr_less lhsNbr rhsNbr)"

definition equivalent :: "DecisionEnv \<Rightarrow> InboundRoute \<Rightarrow> IPAddress \<Rightarrow> InboundRoute \<Rightarrow> IPAddress \<Rightarrow> bool" where
  "equivalent env lhs lhsNbr rhs rhsNbr =
     (if better env lhs lhsNbr rhs rhsNbr then False
      else if better env rhs rhsNbr lhs lhsNbr then False
      else True)"

section \<open>Selection and ranking\<close>

definition nbrAddr :: "InboundRoute \<Rightarrow> IPAddress" where
  "nbrAddr r = (case sourceNeighbor r of None \<Rightarrow> \<lparr>raw = 0\<rparr> | Some n \<Rightarrow> neighborAddress n)"

definition prefers :: "DecisionEnv \<Rightarrow> InboundRoute \<Rightarrow> InboundRoute \<Rightarrow> bool" where
  "prefers env a b = better env a (nbrAddr a) b (nbrAddr b)"

record LocalRoute =
  bestRoute :: "nat \<times> InboundRoute"
  multipaths :: "(nat \<times> InboundRoute) list"
  additionalPaths :: "(nat \<times> InboundRoute) list"

fun multipathLoop :: "DecisionEnv \<Rightarrow> nat \<times> InboundRoute \<Rightarrow> nat \<Rightarrow> (nat \<times> InboundRoute) list
    \<Rightarrow> (nat \<times> InboundRoute) list \<Rightarrow> (nat \<times> InboundRoute) list" where
  "multipathLoop env best maxPaths acc [] = acc"
| "multipathLoop env best maxPaths acc (c # cs) =
     (if fst c = fst best then multipathLoop env best maxPaths acc cs
      else if \<not> prefers env (snd best) (snd c) \<and> \<not> prefers env (snd c) (snd best) then
        (if maxPaths \<le> length (acc @ [c]) + 1 then acc @ [c]
         else multipathLoop env best maxPaths (acc @ [c]) cs)
      else multipathLoop env best maxPaths acc cs)"

definition selectBestPath :: "DecisionEnv \<Rightarrow> InboundRoute list \<Rightarrow> nat \<Rightarrow> nat \<Rightarrow> LocalRoute option" where
  "selectBestPath env cands maxEPaths maxIPaths =
     (case scan_best (prefers env) (\<lambda>_. True) cands of
        None \<Rightarrow> None
      | Some best \<Rightarrow>
          (let maxPaths = (if ebgp (snd best) then maxEPaths else maxIPaths)
           in Some \<lparr>bestRoute = best,
                multipaths = (if 1 < maxPaths then multipathLoop env best maxPaths [] (enumerate 0 cands) else []),
                additionalPaths = []\<rparr>))"

text \<open>The stable sort, as insertion from the back: a candidate goes before those it is not worse
  than.\<close>

fun insertRank :: "DecisionEnv \<Rightarrow> InboundRoute \<Rightarrow> InboundRoute list \<Rightarrow> InboundRoute list" where
  "insertRank env c [] = [c]"
| "insertRank env c (x # xs) = (if prefers env x c then x # insertRank env c xs else c # x # xs)"

definition rankCandidates :: "DecisionEnv \<Rightarrow> InboundRoute list \<Rightarrow> InboundRoute list" where
  "rankCandidates env cands = foldr (insertRank env) cands []"

section \<open>The comparison is a strict weak order on comparable routes\<close>

definition swo :: "('a \<Rightarrow> bool) \<Rightarrow> ('a \<Rightarrow> 'a \<Rightarrow> bool) \<Rightarrow> bool" where
  "swo adm lt \<longleftrightarrow> (\<forall>x y. adm x \<longrightarrow> adm y \<longrightarrow> lt x y \<longrightarrow> \<not> lt y x)
     \<and> (\<forall>x y z. adm x \<longrightarrow> adm y \<longrightarrow> adm z \<longrightarrow> \<not> lt x y \<longrightarrow> \<not> lt y z \<longrightarrow> \<not> lt x z)"

lemma swo_key: "swo adm (\<lambda>a b. f a < (f b :: 'k::linorder))"
  by (auto simp: swo_def)

lemma swo_lex:
  assumes "swo adm lt"
  shows "swo adm (\<lambda>a b. if f a \<noteq> (f b :: 'k::linorder) then f a < f b else lt a b)"
proof -
  have asym: "adm x \<Longrightarrow> adm y \<Longrightarrow> lt x y \<Longrightarrow> \<not> lt y x" for x y using assms unfolding swo_def by blast
  have neg: "adm x \<Longrightarrow> adm y \<Longrightarrow> adm z \<Longrightarrow> \<not> lt x y \<Longrightarrow> \<not> lt y z \<Longrightarrow> \<not> lt x z" for x y z
    using assms unfolding swo_def by blast
  show ?thesis
    unfolding swo_def
  proof (intro conjI allI impI)
    fix x y
    assume "adm x" "adm y" "if f x \<noteq> f y then f x < f y else lt x y"
    then show "\<not> (if f y \<noteq> f x then f y < f x else lt y x)" using asym [of x y] by (auto split: if_splits)
  next
    fix x y z
    assume "adm x" "adm y" "adm z" "\<not> (if f x \<noteq> f y then f x < f y else lt x y)" "\<not> (if f y \<noteq> f z then f y < f z else lt y z)"
    then show "\<not> (if f x \<noteq> f z then f x < f z else lt x z)"
      using neg [of x y z]
      by (cases "f x" "f y" rule: linorder_cases; cases "f y" "f z" rule: linorder_cases) (auto split: if_splits)
  qed
qed

lemma swo_flip: "swo adm lt \<Longrightarrow> swo adm (\<lambda>x y. lt y x)"
  unfolding swo_def by blast

lemma swo_lex_rev:
  assumes "swo adm lt"
  shows "swo adm (\<lambda>a b. if f a \<noteq> (f b :: 'k::linorder) then f a > f b else lt a b)"
proof -
  have "(\<lambda>a b. if f a \<noteq> f b then f a > f b else lt a b)
      = (\<lambda>a b. (\<lambda>x y. if f x \<noteq> f y then f x < f y else lt y x) b a)"
    by (simp add: fun_eq_iff)
  then show ?thesis using swo_flip [OF swo_lex [OF swo_flip [OF assms], of f]] by simp
qed

text \<open>Routes are comparable when they are all from neighbors or all local, and MEDs can be compared:
  always, or because the neighboring AS is the same.\<close>

definition comparable :: "DecisionEnv \<Rightarrow> u32 \<Rightarrow> bool \<Rightarrow> InboundRoute \<Rightarrow> bool" where
  "comparable env asn loc r \<longleftrightarrow> (alwaysCompareMed env \<or> peerAs r = asn) \<and> (sourceNeighbor r = None) = loc"

abbreviation medKey :: "DecisionEnv \<Rightarrow> InboundRoute \<Rightarrow> u32" where
  "medKey env r \<equiv> medOrDefault (pathAttributes r) (medMissingAsWorst (config env))"

text \<open>The comparison of comparable routes as a chain of keys.\<close>

definition chain :: "DecisionEnv \<Rightarrow> InboundRoute \<Rightarrow> InboundRoute \<Rightarrow> bool" where
  "chain env a b =
     (if weigth a \<noteq> weigth b then weigth a > weigth b
      else if localPrefOrDefault (pathAttributes a) \<noteq> localPrefOrDefault (pathAttributes b)
        then localPrefOrDefault (pathAttributes a) > localPrefOrDefault (pathAttributes b)
      else if asPathLength (attrs (pathAttributes a)) \<noteq> asPathLength (attrs (pathAttributes b))
        then asPathLength (attrs (pathAttributes a)) < asPathLength (attrs (pathAttributes b))
      else if originRank (pathAttributes a) \<noteq> originRank (pathAttributes b)
        then originRank (pathAttributes a) < originRank (pathAttributes b)
      else if medKey env a \<noteq> medKey env b then medKey env a < medKey env b
      else if (\<not> (ebgp a \<or> confedEbgp a)) \<noteq> (\<not> (ebgp b \<or> confedEbgp b))
        then (\<not> (ebgp a \<or> confedEbgp a)) < (\<not> (ebgp b \<or> confedEbgp b))
      else if (if \<not> ignoreIgpMetric (config env) then igpCost a else 0) \<noteq> (if \<not> ignoreIgpMetric (config env) then igpCost b else 0)
        then (if \<not> ignoreIgpMetric (config env) then igpCost a else 0) < (if \<not> ignoreIgpMetric (config env) then igpCost b else 0)
      else if (if \<not> compareRouterId (config env) then receivedTime a else 0) \<noteq> (if \<not> compareRouterId (config env) then receivedTime b else 0)
        then (if \<not> compareRouterId (config env) then receivedTime a else 0) < (if \<not> compareRouterId (config env) then receivedTime b else 0)
      else if (if compareRouterId (config env) then ridOf env a else 0) \<noteq> (if compareRouterId (config env) then ridOf env b else 0)
        then (if compareRouterId (config env) then ridOf env a else 0) < (if compareRouterId (config env) then ridOf env b else 0)
      else raw (nbrAddr a) < raw (nbrAddr b))"

lemma swo_chain: "swo adm (chain env)"
  unfolding chain_def [abs_def] by (intro swo_lex_rev swo_lex swo_key)

lemma compareMed_comparable:
  assumes "comparable env asn loc a" "comparable env asn loc b"
  shows "compareMed env a b \<longleftrightarrow> medKey env a < medKey env b"
  using assms by (auto simp: compareMed_def comparable_def)

lemma step_forms:
  "(if (p :: u32) < q then True else if q < p then False else R) = (if p \<noteq> q then p < q else R)"
  "(if e \<noteq> e' then e else R) = (if (\<not> e) \<noteq> (\<not> e') then (\<not> e) < (\<not> e') else R)"
  "(if g \<and> v \<noteq> w then v < w else R) = (if (if g then v :: 'k::{linorder,zero} else 0) \<noteq> (if g then w else 0)
     then (if g then v else 0) < (if g then w else 0) else R)"
  by auto

lemma prefers_chain:
  assumes "comparable env asn loc a" "comparable env asn loc b"
  shows "prefers env a b = chain env a b"
proof -
  have local: "(sourceNeighbor a = None \<and> sourceNeighbor b \<noteq> None) = False"
    using assms by (auto simp: comparable_def)
  show ?thesis
    unfolding prefers_def better_def chain_def Let_def addr_less_def local if_False
      compareMed_comparable [OF assms] compareMed_comparable [OF assms(2,1)] step_forms ..
qed

interpretation decision: preference "prefers env" "comparable env asn loc" for env asn loc
proof
  fix x y z
  show "comparable env asn loc x \<Longrightarrow> comparable env asn loc y \<Longrightarrow> prefers env x y \<Longrightarrow> \<not> prefers env y x"
    using swo_chain [of "\<lambda>_. True" env] unfolding swo_def by (metis prefers_chain)
  show "comparable env asn loc x \<Longrightarrow> comparable env asn loc y \<Longrightarrow> comparable env asn loc z \<Longrightarrow>
      \<not> prefers env x y \<Longrightarrow> \<not> prefers env y z \<Longrightarrow> \<not> prefers env x z"
    using swo_chain [of "\<lambda>_. True" env] unfolding swo_def by (metis prefers_chain)
qed

section \<open>Facts on selection and ranking\<close>

text \<open>Two routes from different neighbor addresses always differ in the last step.\<close>

lemma ties:
  "\<not> (if (p :: 'k::linorder) \<noteq> q then p < q else R) \<Longrightarrow> \<not> (if q \<noteq> p then q < p else S) \<Longrightarrow> \<not> R \<and> \<not> S"
  "\<not> (if (p :: 'k::linorder) \<noteq> q then p > q else R) \<Longrightarrow> \<not> (if q \<noteq> p then q > p else S) \<Longrightarrow> \<not> R \<and> \<not> S"
  "\<not> (if A then True else R) \<Longrightarrow> \<not> (if B then True else S) \<Longrightarrow> \<not> R \<and> \<not> S"
  "\<not> (if x then True else if y then False else R) \<Longrightarrow> \<not> (if y then True else if x then False else S) \<Longrightarrow> \<not> R \<and> \<not> S"
  "\<not> (if e \<noteq> e' then e else R) \<Longrightarrow> \<not> (if e' \<noteq> e then e' else S) \<Longrightarrow> \<not> R \<and> \<not> S"
  "\<not> (if g \<and> (p :: 'k::linorder) \<noteq> q then p < q else R) \<Longrightarrow> \<not> (if g \<and> q \<noteq> p then q < p else S) \<Longrightarrow> \<not> R \<and> \<not> S"
  by (auto split: if_splits)

lemma prefers_total:
  assumes "nbrAddr a \<noteq> nbrAddr b"
  shows "prefers env a b \<or> prefers env b a"
proof (rule ccontr)
  assume "\<not> ?thesis"
  then have n: "\<not> prefers env a b" "\<not> prefers env b a" by auto
  note 1 = ties(2) [OF n [unfolded prefers_def better_def Let_def addr_less_def]]
  note 2 = ties(2) [OF 1 [THEN conjunct1] 1 [THEN conjunct2]]
  note 3 = ties(3) [OF 2 [THEN conjunct1] 2 [THEN conjunct2]]
  note 4 = ties(1) [OF 3 [THEN conjunct1] 3 [THEN conjunct2]]
  note 5 = ties(1) [OF 4 [THEN conjunct1] 4 [THEN conjunct2]]
  note 6 = ties(4) [OF 5 [THEN conjunct1] 5 [THEN conjunct2]]
  note 7 = ties(5) [OF 6 [THEN conjunct1] 6 [THEN conjunct2]]
  note 8 = ties(6) [OF 7 [THEN conjunct1] 7 [THEN conjunct2]]
  note 9 = ties(6) [OF 8 [THEN conjunct1] 8 [THEN conjunct2]]
  note 10 = ties(6) [OF 9 [THEN conjunct1] 9 [THEN conjunct2]]
  then have "raw (nbrAddr a) = raw (nbrAddr b)" by (meson not_less order_antisym)
  then have "nbrAddr a = nbrAddr b" by (rule IPAddress.equality) simp
  with assms show False ..
qed

lemma multipathLoop_mem:
  "c \<in> set (multipathLoop env best n acc cs) \<Longrightarrow> c \<in> set acc \<or> (c \<in> set cs \<and> fst c \<noteq> fst best
     \<and> \<not> prefers env (snd best) (snd c) \<and> \<not> prefers env (snd c) (snd best))"
  by (induction env best n acc cs rule: multipathLoop.induct) (auto split: if_splits)

lemma multipathLoop_length:
  "length acc + 1 < n \<Longrightarrow> length (multipathLoop env best n acc cs) + 1 \<le> n"
  by (induction env best n acc cs rule: multipathLoop.induct) auto

lemma multipathLoop_distinct:
  "distinct (acc @ cs) \<Longrightarrow> distinct (multipathLoop env best n acc cs)"
  by (induction env best n acc cs rule: multipathLoop.induct) auto

lemma insertRank_set: "set (insertRank env c xs) = {c} \<union> set xs"
  by (induction xs) auto

lemma rank_set: "set (rankCandidates env cs) = set cs"
  by (induction cs) (auto simp: rankCandidates_def insertRank_set)

lemma insertRank_sorted:
  assumes "\<forall>x\<in>set (c # xs). comparable env asn loc x" "sorted_wrt (\<lambda>x y. \<not> prefers env y x) xs"
  shows "sorted_wrt (\<lambda>x y. \<not> prefers env y x) (insertRank env c xs)"
  using assms
proof (induction xs)
  case (Cons x xs)
  show ?case
  proof (cases "prefers env x c")
    case True
    with Cons decision.better_asym [of env asn loc x c] show ?thesis by (auto simp: insertRank_set)
  next
    case False
    have "\<not> prefers env y c" if "y \<in> set xs" for y
      using that Cons.prems False decision.better_negtrans [of env asn loc y x c] by auto
    with False Cons.prems show ?thesis by auto
  qed
qed simp

lemma rank_sorted:
  "\<forall>x\<in>set cs. comparable env asn loc x \<Longrightarrow> sorted_wrt (\<lambda>x y. \<not> prefers env y x) (rankCandidates env cs)"
proof (induction cs)
  case (Cons c cs)
  then show ?case
    using insertRank_sorted [of c "rankCandidates env cs" env asn loc] rank_set [of env cs]
    by (simp add: rankCandidates_def)
qed (simp add: rankCandidates_def)

lemma rank_perm: "length (rankCandidates env cs) = length cs \<and> (\<forall>x. count_list (rankCandidates env cs) x = count_list cs x)"
proof -
  have "count_list (insertRank env c xs) x = (if x = c then 1 else 0) + count_list xs x
      \<and> length (insertRank env c xs) = Suc (length xs)" for c xs x
    by (induction xs) auto
  then show ?thesis by (induction cs) (auto simp: rankCandidates_def)
qed

text \<open>Sample routes: an AS path of one sequence segment, from a neighbor or local.\<close>

definition ex_attrs :: "u32 list \<Rightarrow> PathAttribute" where
  "ex_attrs ps = \<lparr>attrs = \<lparr>originAttr = Some 0, asPath = [\<lparr>segmentType = 2, asns = ps\<rparr>], as4Path = [],
     localPref = None, atomicAggregate = False, med = None, asAggregator = None, as4Aggregator = None,
     communities = [], extendedCommunities = [], largeCommunities = [], originatorId = None,
     clusterList = [], aigp = None, unknownTransitive = []\<rparr>,
     path = \<lparr>family = \<lparr>afi = 1, safi = 1\<rparr>, pathNextHop = IPAddress_v4 0, linkLocal = None, rd = None\<rparr>\<rparr>"

definition ex_bgp :: "u32 list \<Rightarrow> u32 option \<Rightarrow> InboundRoute" where
  "ex_bgp ps nbr = \<lparr>pathAttributes = ex_attrs ps,
     sourceNeighbor = map_option (\<lambda>n. \<lparr>rid = n, neighborAddress = IPAddress_v4 n\<rparr>) nbr,
     weigth = 0, peerAs = 65001, ebgp = True, confedEbgp = False, igpCost = 0, receivedTime = 0\<rparr>"

definition ex_dec_env :: DecisionEnv where
  "ex_dec_env = \<lparr>config = \<lparr>compareRouterId = False, medMissingAsWorst = False, ignoreIgpMetric = False\<rparr>,
     alwaysCompareMed = False, routerId = 0\<rparr>"

lemma ex_comparable: "comparable ex_dec_env 65001 False (ex_bgp ps (Some n))"
  by (simp add: comparable_def ex_bgp_def ex_dec_env_def)

lemma ex_lengths: "asPathLength (attrs (pathAttributes (ex_bgp ps nbr))) = length ps"
  by (simp add: ex_bgp_def ex_attrs_def asPathLength_def segmentLength_def BGP_AS_SET_def
      BGP_AS_CONFED_SEQUENCE_def BGP_AS_CONFED_SET_def)

section \<open>Properties\<close>

text \<open>(C7) Best-path selection among comparable routes (all from neighbors or all local, MEDs
  comparable): there is a result exactly when there is a candidate; no candidate is preferred to the
  selected one and every earlier candidate is less preferred; the equal-cost paths are other
  candidates, each once, that tie with the best, and together with it they stay within the
  configured maximum.\<close>

theorem best_path_selection:
  assumes "\<forall>c\<in>set cands. comparable env asn loc c"
  shows "case selectBestPath env cands maxE maxI of
      None \<Rightarrow> cands = []
    | Some r \<Rightarrow> (case bestRoute r of (i, b) \<Rightarrow>
        i < length cands \<and> cands ! i = b \<and> (\<forall>c\<in>set cands. \<not> prefers env c b)
        \<and> (\<forall>j<i. prefers env b (cands ! j))
        \<and> distinct (multipaths r)
        \<and> (\<forall>(j, c)\<in>set (multipaths r). j < length cands \<and> j \<noteq> i \<and> cands ! j = c
             \<and> equivalent env b (nbrAddr b) c (nbrAddr c))
        \<and> length (multipaths r) + 1 \<le> max 1 (if ebgp b then maxE else maxI))"
proof (cases "scan_best (prefers env) (\<lambda>_. True) cands")
  case None
  with decision.scan_best_None [of cands "\<lambda>_. True" env asn loc] assms show ?thesis
    by (simp add: selectBestPath_def)
next
  case (Some ib)
  obtain i b where ib: "ib = (i, b)" by (cases ib)
  let ?max = "if ebgp b then maxE else maxI"
  let ?mp = "multipathLoop env (i, b) ?max [] (enumerate 0 cands)"
  note S = decision.scan_best_Some [OF _ Some [unfolded ib], of asn loc]
  have mem: "j < length cands \<and> j \<noteq> i \<and> cands ! j = c \<and> equivalent env b (nbrAddr b) c (nbrAddr c)"
    if "(j, c) \<in> set ?mp" for j c
    using multipathLoop_mem [OF that]
    by (auto simp: in_set_enumerate_eq equivalent_def prefers_def)
  have "distinct ?mp" by (rule multipathLoop_distinct) simp
  moreover have "length ?mp + 1 \<le> ?max" if "1 < ?max" using multipathLoop_length [of "[]" ?max] that by simp
  ultimately show ?thesis
    using S assms Some ib mem by (auto simp: selectBestPath_def Let_def)
qed

theorem best_path_selection_witness:
  "case selectBestPath ex_dec_env [ex_bgp [65001, 1, 2] (Some 1), ex_bgp [65001, 2] (Some 2)] 1 1 of
     None \<Rightarrow> False
   | Some r \<Rightarrow> \<not> prefers ex_dec_env (ex_bgp [65001, 2] (Some 2)) (snd (bestRoute r))
       \<and> \<not> prefers ex_dec_env (ex_bgp [65001, 1, 2] (Some 1)) (snd (bestRoute r))"
proof -
  have "\<forall>c\<in>set [ex_bgp [65001, 1, 2] (Some 1), ex_bgp [65001, 2] (Some 2)]. comparable ex_dec_env 65001 False c"
    by (simp add: ex_comparable)
  from best_path_selection [OF this, of 1 1] show ?thesis by (auto split: option.splits prod.splits)
qed

text \<open>Ranking sorts comparable candidates best first: the result has the same candidates with the
  same multiplicities and no candidate is preferred to one ranked before it.\<close>

theorem candidates_ranked:
  assumes "\<forall>c\<in>set cands. comparable env asn loc c"
  shows "sorted_wrt (\<lambda>x y. \<not> prefers env y x) (rankCandidates env cands)
    \<and> length (rankCandidates env cands) = length cands
    \<and> (\<forall>c. count_list (rankCandidates env cands) c = count_list cands c)"
  using rank_sorted [OF assms] rank_perm by blast

theorem candidates_ranked_witness:
  "sorted_wrt (\<lambda>x y. \<not> prefers ex_dec_env y x)
     (rankCandidates ex_dec_env [ex_bgp [65001, 1, 2] (Some 1), ex_bgp [65001, 2] (Some 2)])"
proof -
  have "\<forall>c\<in>set [ex_bgp [65001, 1, 2] (Some 1), ex_bgp [65001, 2] (Some 2)]. comparable ex_dec_env 65001 False c"
    by (simp add: ex_comparable)
  from candidates_ranked [OF this] show ?thesis by blast
qed

text \<open>A locally originated route and a route from a neighbor with a shorter AS path, equal in
  weight and local preference, are each better than the other: the test for local origin has no
  counterpart for the other side. The comparison is then no order, and the selected route is whichever
  candidate comes last.\<close>

theorem local_origin_step_is_one_sided:
  assumes "sourceNeighbor a = None" and "sourceNeighbor b \<noteq> None" and "weigth a = weigth b"
    and "localPrefOrDefault (pathAttributes a) = localPrefOrDefault (pathAttributes b)"
    and "asPathLength (attrs (pathAttributes b)) < asPathLength (attrs (pathAttributes a))"
  shows "prefers env a b \<and> prefers env b a
    \<and> map_option (snd \<circ> bestRoute) (selectBestPath env [a, b] maxE maxI) = Some b
    \<and> map_option (snd \<circ> bestRoute) (selectBestPath env [b, a] maxE maxI) = Some a"
proof -
  have "prefers env a b" "prefers env b a"
    using assms by (auto simp: prefers_def better_def Let_def)
  then show ?thesis by (simp add: selectBestPath_def scan_best_def Let_def)
qed

theorem local_origin_step_is_one_sided_witness:
  "prefers ex_dec_env (ex_bgp [1, 2] None) (ex_bgp [1] (Some 2)) \<and> prefers ex_dec_env (ex_bgp [1] (Some 2)) (ex_bgp [1, 2] None)"
proof -
  have "asPathLength (attrs (pathAttributes (ex_bgp [1] (Some 2))))
      < asPathLength (attrs (pathAttributes (ex_bgp [1, 2] None)))" by (simp add: ex_lengths)
  from local_origin_step_is_one_sided [OF _ _ _ _ this] show ?thesis
    by (simp add: ex_bgp_def ex_attrs_def localPrefOrDefault_def)
qed

text \<open>Equal-cost multipath never takes effect across neighbors: when the candidates come from
  pairwise different neighbor addresses, the set of additional paths is empty whatever maximum is
  configured, because the tie-break on the neighbor address is part of the equality test.\<close>

theorem multipath_is_empty:
  assumes "distinct (map nbrAddr cands)" and "selectBestPath env cands maxE maxI = Some r"
    and "\<forall>c\<in>set cands. comparable env asn loc c"
  shows "multipaths r = []"
proof (rule ccontr)
  assume "multipaths r \<noteq> []"
  then obtain j c where jc: "(j, c) \<in> set (multipaths r)" by (cases "multipaths r") auto
  obtain i b where best: "scan_best (prefers env) (\<lambda>_. True) cands = Some (i, b)" "bestRoute r = (i, b)"
    using assms(2) by (auto simp: selectBestPath_def Let_def split: option.splits)
  have i: "i < length cands" "cands ! i = b"
    using decision.scan_best_Some(1,2) [OF _ best(1), of asn loc] assms(3) by auto
  have "(j, c) \<in> set (multipathLoop env (i, b) (if ebgp b then maxE else maxI) [] (enumerate 0 cands))"
    using jc assms(2) best by (auto simp: selectBestPath_def Let_def split: if_splits)
  from multipathLoop_mem [OF this] have j: "j < length cands" "cands ! j = c" "j \<noteq> i"
    "\<not> prefers env b c" "\<not> prefers env c b" by (auto simp: in_set_enumerate_eq)
  with i assms(1) have "nbrAddr b \<noteq> nbrAddr c" by (auto simp: distinct_conv_nth)
  with prefers_total j show False by blast
qed

theorem multipath_is_empty_witness:
  "\<exists>r. selectBestPath ex_dec_env [ex_bgp [65001] (Some 1), ex_bgp [65001] (Some 2)] 8 8 = Some r \<and> multipaths r = []"
proof -
  let ?cs = "[ex_bgp [65001] (Some 1), ex_bgp [65001] (Some 2)]"
  have c: "\<forall>c\<in>set ?cs. comparable ex_dec_env 65001 False c" by (simp add: ex_comparable)
  have d: "distinct (map nbrAddr ?cs)" by (simp add: nbrAddr_def ex_bgp_def IPAddress_v4_def)
  obtain r where r: "selectBestPath ex_dec_env ?cs 8 8 = Some r"
    by (cases "selectBestPath ex_dec_env ?cs 8 8") (auto simp: selectBestPath_def scan_best_def Let_def split: if_splits)
  from multipath_is_empty [OF d r c] r show ?thesis by blast
qed

end
