(* ===== verification/EigrpTopology.thy ===== *)
theory EigrpTopology
  imports IpAddress
begin

text \<open>
  The EIGRP topology table: \<open>routing/eigrp/topology/TopologyTable.h\<close> and \<open>TopologyTable.cpp\<close>, and the
  operations of \<open>DuelEngine.cpp\<close> that work on one entry (successor selection, distances, suppression).

  A \<open>std::unordered_map\<close> is an association list in its iteration order. Time points are natural
  numbers in seconds; the clock is an argument of the operations that read it. The sets of summary
  routes in a suppression record are lists of summary identifiers.
\<close>

section \<open>Data\<close>

datatype RouteType = INTERNAL | EXTERNAL | SUMMARY | CONNECTED | STATIC | WITHDRAW

record External =
  originRouter :: u32
  originAS :: u32
  externalMetric :: u32
  ext_type :: u8
  ext_flags :: u8

record Wide =
  isWide :: bool
  wide_topology :: u16
  wide_afi :: u16
  wide_rid :: u32
  wide_priority :: u8
  wide_data :: "u8 list"

record ReceivedRoute =
  rr_prefix :: IPPrefix
  nextHop :: IPAddress
  originInterface :: u32
  reportedDistance :: u64
  feasibleDistance :: u64
  delay :: u64
  bandwidth :: u64
  mtu :: u16
  reliability :: u8
  load :: u8
  hopCount :: u8
  rr_tag :: u32
  adminDistance :: u8
  external :: External
  wide :: Wide
  flags :: u8
  routeType :: RouteType

record RouteInfo =
  routeInfo :: ReceivedRoute
  isSuccessor :: bool
  isFeasibleSuccessor :: bool
  notFeasible :: bool
  ri_topology :: "IPPrefix option"
  lastUpdate :: nat

datatype TopologyState = ACTIVE | PASSIVE | POISENED

record TopologyEntry =
  te_prefix :: IPPrefix
  routesBySource :: "(IPAddress \<times> RouteInfo) list"
  feasibleSuccessors :: "IPAddress list"
  successors :: "IPAddress list"
  bestFD :: u64
  bestAD :: u8
  bestNeighbor :: IPAddress
  suppression :: "(u32 \<times> nat list) list"
  te_state :: TopologyState
  valid :: "nat option"

datatype TrafficShareMode = BALENCED | MINIMUM

text \<open>What the engine reads of the process configuration, \<open>EigrpConfig.h\<close>.\<close>

record EigrpCfg =
  trafficMode :: TrafficShareMode
  variance :: u8
  maxHops :: u8
  delTimer :: nat
  siaTime :: nat
  stubEnabled :: bool
  base_af :: AddressFamily

abbreviation max64 :: u64 where "max64 \<equiv> - 1"
abbreviation max8 :: u8 where "max8 \<equiv> - 1"

definition RF_WITHDRAWL :: u8 where "RF_WITHDRAWL = 1"
definition RF_ACTIVE :: u8 where "RF_ACTIVE = 4"

definition setFlag :: "u8 \<Rightarrow> ReceivedRoute \<Rightarrow> ReceivedRoute" where
  "setFlag b r = r\<lparr>flags := flags r OR b\<rparr>"

definition clearFlag :: "u8 \<Rightarrow> ReceivedRoute \<Rightarrow> ReceivedRoute" where
  "clearFlag b r = r\<lparr>flags := flags r AND NOT b\<rparr>"

definition new_entry :: "IPPrefix \<Rightarrow> TopologyEntry" where
  "new_entry p = \<lparr>te_prefix = p, routesBySource = [], feasibleSuccessors = [], successors = [],
     bestFD = max64, bestAD = max8, bestNeighbor = \<lparr>raw = 0\<rparr>, suppression = [], te_state = PASSIVE,
     valid = None\<rparr>"

definition RouteInfo_of :: "ReceivedRoute \<Rightarrow> RouteInfo" where
  "RouteInfo_of r = \<lparr>routeInfo = r, isSuccessor = False, isFeasibleSuccessor = False,
     notFeasible = False, ri_topology = None, lastUpdate = 0\<rparr>"

definition te_isSuppressed :: "u32 \<Rightarrow> TopologyEntry \<Rightarrow> bool" where
  "te_isSuppressed key e = (al_get (suppression e) key \<noteq> None)"

section \<open>Topology table\<close>

text \<open>The record stored for the source, found or emplaced, before it is overwritten.\<close>

definition routeEntry_of :: "ReceivedRoute \<Rightarrow> IPAddress \<Rightarrow> TopologyEntry \<Rightarrow> RouteInfo" where
  "routeEntry_of route src e = (case al_get (routesBySource e) src of
     None \<Rightarrow> RouteInfo_of route | Some ri \<Rightarrow> ri)"

definition stamp_update :: "nat \<Rightarrow> ReceivedRoute \<Rightarrow> IPPrefix \<Rightarrow> RouteInfo \<Rightarrow> RouteInfo" where
  "stamp_update now route p ri =
     (let ri = ri\<lparr>routeInfo := route, lastUpdate := now, ri_topology := Some p\<rparr>
      in if delay route = max64
         then ri\<lparr>isFeasibleSuccessor := False, isSuccessor := False, notFeasible := True,
                routeInfo := (if isWide (wide route) then setFlag RF_WITHDRAWL route else route)\<rparr>
         else ri)"

definition addRouteUpdate :: "nat \<Rightarrow> ReceivedRoute \<Rightarrow> IPAddress option \<Rightarrow> TopologyEntry \<Rightarrow> TopologyEntry" where
  "addRouteUpdate now route neighbor e =
     (let src = (case neighbor of Some ip \<Rightarrow> ip | None \<Rightarrow> nextHop route)
      in e\<lparr>routesBySource := al_put src (stamp_update now route (te_prefix e) (routeEntry_of route src e))
             (routesBySource e)\<rparr>)"

definition make_unreachable :: "RouteInfo \<Rightarrow> RouteInfo" where
  "make_unreachable ri = ri\<lparr>
     routeInfo := setFlag RF_WITHDRAWL ((routeInfo ri)\<lparr>feasibleDistance := max64, delay := max64\<rparr>),
     isFeasibleSuccessor := False, isSuccessor := False, notFeasible := True\<rparr>"

definition drop_source :: "IPAddress \<Rightarrow> TopologyEntry \<Rightarrow> TopologyEntry" where
  "drop_source ip e = e\<lparr>feasibleSuccessors := removeAll ip (feasibleSuccessors e),
     successors := removeAll ip (successors e)\<rparr>"

text \<open>The callers pass the record stored for the neighbor; without one the reference does not exist
  and nothing is changed.\<close>

definition markRouteUnreachable :: "IPAddress \<Rightarrow> TopologyEntry \<Rightarrow> TopologyEntry" where
  "markRouteUnreachable ip e = (case al_get (routesBySource e) ip of
     None \<Rightarrow> e
   | Some ri \<Rightarrow> drop_source ip (e\<lparr>routesBySource := al_put ip (make_unreachable ri) (routesBySource e)\<rparr>))"

type_synonym topology_table = "(IPPrefix \<times> TopologyEntry) list"

definition findPair :: "IPPrefix \<Rightarrow> IPAddress \<Rightarrow> topology_table \<Rightarrow> (TopologyEntry \<times> RouteInfo) option" where
  "findPair p ip t = (case al_get t p of
     None \<Rightarrow> None
   | Some e \<Rightarrow> (case al_get (routesBySource e) ip of None \<Rightarrow> None | Some ri \<Rightarrow> Some (e, ri)))"

definition expired :: "nat \<Rightarrow> TopologyEntry \<Rightarrow> bool" where
  "expired now e = (case valid e of None \<Rightarrow> False | Some t \<Rightarrow> t < now)"

definition pruneExpired :: "nat \<Rightarrow> topology_table \<Rightarrow> topology_table" where
  "pruneExpired now t = filter (\<lambda>(p, e). \<not> expired now e) t"

definition prune_source :: "IPAddress \<Rightarrow> TopologyEntry \<Rightarrow> TopologyEntry" where
  "prune_source ip e = (case al_get (routesBySource e) ip of
     None \<Rightarrow> e
   | Some _ \<Rightarrow> (drop_source ip e)\<lparr>routesBySource := al_del ip (routesBySource e)\<rparr>)"

definition pruneNeighbor :: "nat \<Rightarrow> IPAddress \<Rightarrow> topology_table \<Rightarrow> topology_table" where
  "pruneNeighbor now ip t = pruneExpired now (map (\<lambda>(p, e). (p, prune_source ip e)) t)"

section \<open>One entry of the DUAL engine\<close>

definition setSuppression :: "u32 \<Rightarrow> TopologyEntry \<Rightarrow> bool \<times> TopologyEntry" where
  "setSuppression key e = (case al_get (suppression e) key of
     None \<Rightarrow> (False, e)
   | Some summaries \<Rightarrow> if summaries = [] then (False, e\<lparr>suppression := al_del key (suppression e)\<rparr>)
       else (True, e))"

text \<open>The loop that looks for the least distance among the reachable routes.\<close>

fun bestScan :: "(IPAddress \<times> RouteInfo) list \<Rightarrow> u64 \<times> u8 \<times> IPAddress \<Rightarrow> u64 \<times> u8 \<times> IPAddress" where
  "bestScan [] acc = acc"
| "bestScan ((nbr, ri) # rs) (fd, ad, best) =
     (if feasibleDistance (routeInfo ri) = max64 then bestScan rs (fd, ad, best)
      else if feasibleDistance (routeInfo ri) < fd
           then bestScan rs (feasibleDistance (routeInfo ri), adminDistance (routeInfo ri), nbr)
           else bestScan rs (fd, ad, best))"

text \<open>The loop that sets the flags; the two lists receive the neighbors whose flag it sets.\<close>

definition classify :: "u64 \<Rightarrow> u8 \<Rightarrow> RouteInfo \<Rightarrow> RouteInfo" where
  "classify fd var ri = (if feasibleDistance (routeInfo ri) = max64 then ri
     else ri\<lparr>isFeasibleSuccessor := reportedDistance (routeInfo ri) < fd,
             isSuccessor := feasibleDistance (routeInfo ri) \<le> fd * ucast var\<rparr>)"

definition on_routes :: "(RouteInfo \<Rightarrow> RouteInfo) \<Rightarrow> (IPAddress \<times> RouteInfo) list \<Rightarrow> (IPAddress \<times> RouteInfo) list" where
  "on_routes f = map (\<lambda>(n, ri). (n, f ri))"

definition flagged :: "(RouteInfo \<Rightarrow> bool) \<Rightarrow> (IPAddress \<times> RouteInfo) list \<Rightarrow> IPAddress list" where
  "flagged p rs = map fst (filter (\<lambda>(n, ri). p ri) rs)"

definition recalculateSuccessors :: "EigrpCfg \<Rightarrow> TopologyEntry \<Rightarrow> bool \<times> TopologyEntry" where
  "recalculateSuccessors cfg e =
     (if routesBySource e = [] then (False, e)
      else let rs = on_routes (\<lambda>ri. ri\<lparr>isFeasibleSuccessor := False, isSuccessor := False\<rparr>) (routesBySource e);
               (fd, ad, best) = bestScan rs (max64, max8, bestNeighbor e);
               rs = on_routes (classify fd (variance cfg)) rs;
               fs = flagged isFeasibleSuccessor rs;
               ss = flagged isSuccessor rs;
               rs = on_routes (\<lambda>ri. ri\<lparr>routeInfo := clearFlag RF_ACTIVE (routeInfo ri)\<rparr>) rs;
               e = e\<lparr>routesBySource := rs, feasibleSuccessors := fs, successors := ss,
                     bestFD := fd, bestAD := ad, bestNeighbor := best\<rparr>
           in if ss = [] then (False, e\<lparr>bestFD := max64\<rparr>)
              else (True, e\<lparr>successors := (if trafficMode cfg = MINIMUM then [hd ss] else ss),
                            te_state := PASSIVE\<rparr>))"

fun distanceScan :: "u64 \<Rightarrow> (IPAddress \<times> RouteInfo) list \<Rightarrow> u64 \<times> u8 \<times> IPAddress \<Rightarrow> u64 \<times> u8 \<times> IPAddress" where
  "distanceScan local [] acc = acc"
| "distanceScan local ((nbr, ri) # rs) (fd, ad, best) =
     (let d = reportedDistance (routeInfo ri) + local; a = adminDistance (routeInfo ri)
      in distanceScan local rs (if d < fd \<or> d = fd \<and> a < ad then (d, a, nbr) else (fd, ad, best)))"

definition recalculateDistances :: "EigrpCfg \<Rightarrow> u64 \<Rightarrow> TopologyEntry \<Rightarrow> bool \<times> TopologyEntry" where
  "recalculateDistances cfg local e =
     (let zero = (if base_af cfg = IPv4 then IPAddress_v4 0 else IPAddress_v6 0);
          (fd, ad, best) = distanceScan local (routesBySource e) (max64, max8, zero);
          e' = e\<lparr>routesBySource := on_routes (\<lambda>ri. ri\<lparr>routeInfo := (routeInfo ri)\<lparr>feasibleDistance :=
                   reportedDistance (routeInfo ri) + local\<rparr>\<rparr>) (routesBySource e)\<rparr>
      in if fd \<noteq> bestFD e \<or> best \<noteq> bestNeighbor e
         then (True, e'\<lparr>bestFD := fd, bestAD := ad, bestNeighbor := best\<rparr>) else (False, e'))"

definition findBestRoute :: "IPPrefix \<Rightarrow> topology_table \<Rightarrow> (IPAddress \<times> RouteInfo) option" where
  "findBestRoute p t = (case al_get t p of
     None \<Rightarrow> None
   | Some e \<Rightarrow> if routesBySource e = [] \<or> successors e = [] then None
       else map_option (Pair (hd (successors e))) (al_get (routesBySource e) (hd (successors e))))"

definition isRouteAdvertised :: "EigrpCfg \<Rightarrow> u8 list \<Rightarrow> u8 \<Rightarrow> topology_table \<Rightarrow> bool option" where
  "isRouteAdvertised cfg network len t = map_option
     (\<lambda>p. case al_get t p of None \<Rightarrow> False | Some e \<Rightarrow> successors e \<noteq> [])
     (IPPrefix_bytes network len (base_af cfg) True)"

section \<open>Lemmas\<close>

lemma on_routes_simps [simp]:
  "on_routes f [] = []" "on_routes f ((n, ri) # rs) = (n, f ri) # on_routes f rs"
  by (simp_all add: on_routes_def)

lemma on_routes_keys [simp]: "map fst (on_routes f rs) = map fst rs"
  by (induction rs) auto

lemma al_get_on_routes [simp]: "al_get (on_routes f rs) n = map_option f (al_get rs n)"
  by (induction rs) auto

lemma on_routes_Nil_iff [simp]: "on_routes f rs = [] \<longleftrightarrow> rs = []"
  by (cases rs) auto

lemma al_wf_on_routes [simp]: "al_wf (on_routes f rs) = al_wf rs"
  by simp

lemma set_flagged: "set (flagged p rs) = {n. \<exists>ri. (n, ri) \<in> set rs \<and> p ri}"
  by (force simp: flagged_def)

lemma set_on_routes: "(n, ri) \<in> set (on_routes f rs) \<longleftrightarrow> (\<exists>r. (n, r) \<in> set rs \<and> ri = f r)"
  by (force simp: on_routes_def)

lemma set_flagged_on_routes: "set (flagged p (on_routes f rs)) = {n. \<exists>ri. (n, ri) \<in> set rs \<and> p (f ri)}"
  by (auto simp: set_flagged set_on_routes)

lemma on_routes_on_routes [simp]: "on_routes f (on_routes g rs) = on_routes (f \<circ> g) rs"
  by (induction rs) auto

lemma classify_reset:
  "isSuccessor (classify fd v (ri\<lparr>isFeasibleSuccessor := False, isSuccessor := False\<rparr>)) \<longleftrightarrow>
     feasibleDistance (routeInfo ri) \<noteq> max64 \<and> feasibleDistance (routeInfo ri) \<le> fd * ucast v"
  "isFeasibleSuccessor (classify fd v (ri\<lparr>isFeasibleSuccessor := False, isSuccessor := False\<rparr>)) \<longleftrightarrow>
     feasibleDistance (routeInfo ri) \<noteq> max64 \<and> reportedDistance (routeInfo ri) < fd"
  by (simp_all add: classify_def)

text \<open>The routes of an entry that have a finite distance.\<close>

definition reachable_via :: "TopologyEntry \<Rightarrow> IPAddress \<Rightarrow> ReceivedRoute \<Rightarrow> bool" where
  "reachable_via e n r = (\<exists>ri. (n, ri) \<in> set (routesBySource e) \<and> routeInfo ri = r \<and> feasibleDistance r \<noteq> max64)"

lemma bestScan_flags: "bestScan (on_routes (\<lambda>ri. ri\<lparr>isFeasibleSuccessor := a, isSuccessor := b\<rparr>) rs) acc = bestScan rs acc"
  by (induction rs acc rule: bestScan.induct) auto

lemma bestScan_correct:
  assumes "bestScan rs (fd0, ad0, b0) = (fd, ad, b)"
  shows bestScan_mono: "fd \<le> fd0"
    and bestScan_least: "(n, ri) \<in> set rs \<Longrightarrow> feasibleDistance (routeInfo ri) \<noteq> max64
          \<Longrightarrow> fd \<le> feasibleDistance (routeInfo ri)"
    and bestScan_from: "fd = fd0 \<and> b = b0
          \<or> fd < fd0 \<and> (\<exists>ri. (b, ri) \<in> set rs \<and> feasibleDistance (routeInfo ri) = fd)"
proof -
  have "fd \<le> fd0 \<and> (\<forall>n ri. (n, ri) \<in> set rs \<longrightarrow> feasibleDistance (routeInfo ri) \<noteq> max64
            \<longrightarrow> fd \<le> feasibleDistance (routeInfo ri))
      \<and> (fd = fd0 \<and> b = b0 \<or> fd < fd0 \<and> (\<exists>ri. (b, ri) \<in> set rs \<and> feasibleDistance (routeInfo ri) = fd))"
    using assms
  proof (induction rs arbitrary: fd0 ad0 b0)
    case (Cons x rs)
    obtain nbr ri where x: "x = (nbr, ri)" by (cases x)
    define d where "d = feasibleDistance (routeInfo ri)"
    show ?case
    proof (cases "d \<noteq> max64 \<and> d < fd0")
      case True
      then have "bestScan rs (d, adminDistance (routeInfo ri), nbr) = (fd, ad, b)"
        using Cons.prems by (simp add: x d_def)
      from Cons.IH [OF this] True show ?thesis
        unfolding x d_def by (auto intro: order.strict_trans1 order.trans)
    next
      case False
      then have "bestScan rs (fd0, ad0, b0) = (fd, ad, b)"
        using Cons.prems by (auto simp: x d_def split: if_splits)
      from Cons.IH [OF this] False show ?thesis
        unfolding x d_def by (auto simp: not_less intro: order.trans)
    qed
  qed auto
  then show "fd \<le> fd0" "(n, ri) \<in> set rs \<Longrightarrow> feasibleDistance (routeInfo ri) \<noteq> max64
          \<Longrightarrow> fd \<le> feasibleDistance (routeInfo ri)"
    "fd = fd0 \<and> b = b0 \<or> fd < fd0 \<and> (\<exists>ri. (b, ri) \<in> set rs \<and> feasibleDistance (routeInfo ri) = fd)"
    by blast+
qed

text \<open>The outcome of the selection, field by field.\<close>

definition chosen :: "EigrpCfg \<Rightarrow> TopologyEntry \<Rightarrow> u64 \<times> u8 \<times> IPAddress" where
  "chosen cfg e = bestScan (routesBySource e) (max64, max8, bestNeighbor e)"

definition loadSharing :: "EigrpCfg \<Rightarrow> TopologyEntry \<Rightarrow> u64 \<Rightarrow> IPAddress set" where
  "loadSharing cfg e fd = {n. \<exists>r. reachable_via e n r \<and> feasibleDistance r \<le> fd * ucast (variance cfg)}"

lemma chosen_correct:
  assumes "chosen cfg e = (fd, ad, best)"
  shows chosen_le: "reachable_via e n r \<Longrightarrow> fd \<le> feasibleDistance r"
    and chosen_cases: "fd = max64 \<and> best = bestNeighbor e
      \<or> fd \<noteq> max64 \<and> (\<exists>r. reachable_via e best r \<and> feasibleDistance r = fd)"
proof -
  note scan = bestScan_correct [OF assms [unfolded chosen_def]]
  show "reachable_via e n r \<Longrightarrow> fd \<le> feasibleDistance r"
    using scan(2) by (auto simp: reachable_via_def)
  show "fd = max64 \<and> best = bestNeighbor e
      \<or> fd \<noteq> max64 \<and> (\<exists>r. reachable_via e best r \<and> feasibleDistance r = fd)"
    using scan(3) unfolding reachable_via_def by (metis order.strict_implies_not_eq)
qed

lemma recalculate_fields:
  fixes cfg e
  assumes ne: "routesBySource e \<noteq> []" and ch: "chosen cfg e = (fd, ad, best)"
    and res: "recalculateSuccessors cfg e = (ok, e')"
  shows recalculate_ok: "ok \<longleftrightarrow> loadSharing cfg e fd \<noteq> {}"
    and recalculate_succ: "successors e' = [] \<longleftrightarrow> \<not> ok"
    and recalculate_bal: "trafficMode cfg = BALENCED \<Longrightarrow> set (successors e') = loadSharing cfg e fd"
    and recalculate_min: "trafficMode cfg = MINIMUM \<Longrightarrow> ok \<Longrightarrow> \<exists>n\<in>loadSharing cfg e fd. successors e' = [n]"
    and recalculate_feas: "set (feasibleSuccessors e') =
          {n. \<exists>r. reachable_via e n r \<and> reportedDistance r < fd}"
    and recalculate_best: "bestNeighbor e' = best" "bestFD e' = (if ok then fd else max64)"
    and recalculate_state: "te_state e' = (if ok then PASSIVE else te_state e)"
proof -
  define rs where "rs = on_routes (classify fd (variance cfg))
    (on_routes (\<lambda>ri. ri\<lparr>isFeasibleSuccessor := False, isSuccessor := False\<rparr>) (routesBySource e))"
  define ss where "ss = flagged isSuccessor rs"
  have ss: "set ss = loadSharing cfg e fd"
    by (auto simp: ss_def rs_def set_flagged_on_routes classify_reset loadSharing_def reachable_via_def)
  have fs: "set (flagged isFeasibleSuccessor rs) = {n. \<exists>r. reachable_via e n r \<and> reportedDistance r < fd}"
    by (auto simp: rs_def set_flagged_on_routes classify_reset reachable_via_def)
  have eq: "recalculateSuccessors cfg e =
      (let e1 = e\<lparr>routesBySource := on_routes (\<lambda>ri. ri\<lparr>routeInfo := clearFlag RF_ACTIVE (routeInfo ri)\<rparr>) rs,
             feasibleSuccessors := flagged isFeasibleSuccessor rs, successors := ss,
             bestFD := fd, bestAD := ad, bestNeighbor := best\<rparr>
       in if ss = [] then (False, e1\<lparr>bestFD := max64\<rparr>)
          else (True, e1\<lparr>successors := (if trafficMode cfg = MINIMUM then [hd ss] else ss), te_state := PASSIVE\<rparr>))"
    using ne ch by (simp add: recalculateSuccessors_def bestScan_flags chosen_def rs_def ss_def Let_def)
  have emp: "ss = [] \<longleftrightarrow> loadSharing cfg e fd = {}" using ss by (metis set_empty)
  have hd: "ss \<noteq> [] \<Longrightarrow> hd ss \<in> loadSharing cfg e fd" using ss hd_in_set by metis
  show "ok \<longleftrightarrow> loadSharing cfg e fd \<noteq> {}" "successors e' = [] \<longleftrightarrow> \<not> ok"
    "trafficMode cfg = BALENCED \<Longrightarrow> set (successors e') = loadSharing cfg e fd"
    "trafficMode cfg = MINIMUM \<Longrightarrow> ok \<Longrightarrow> \<exists>n\<in>loadSharing cfg e fd. successors e' = [n]"
    "set (feasibleSuccessors e') = {n. \<exists>r. reachable_via e n r \<and> reportedDistance r < fd}"
    "bestNeighbor e' = best" "bestFD e' = (if ok then fd else max64)"
    "te_state e' = (if ok then PASSIVE else te_state e)"
    using res eq ss fs emp hd by (auto simp: Let_def split: if_splits)
qed

lemma within_variance:
  assumes "unat fd * unat (variance cfg) < 2 ^ 64" "0 < variance cfg" "feasibleDistance r = fd" "reachable_via e n r"
  shows "n \<in> loadSharing cfg e fd"
proof -
  have u: "unat (ucast (variance cfg) :: u64) = unat (variance cfg)"
    using unsigned_less [where ?'a = nat, of "variance cfg"] by (simp add: unsigned_ucast_eq take_bit_nat_eq_self)
  have "1 \<le> unat (variance cfg)"
    using assms(2) by (simp add: word_less_nat_alt)
  then have "unat fd \<le> unat fd * unat (variance cfg)" by simp
  moreover have "unat (fd * ucast (variance cfg)) = unat fd * unat (variance cfg)"
    using assms(1) by (simp add: unat_word_ariths u)
  ultimately show ?thesis
    using assms(3,4) by (auto simp: loadSharing_def word_le_nat_alt intro!: exI [of _ r])
qed


text \<open>Two routes to the same prefix, at distances 10 and 15, and a variance of 2.\<close>

definition route_to :: "IPPrefix \<Rightarrow> u64 \<Rightarrow> u64 \<Rightarrow> ReceivedRoute" where
  "route_to p rd fd = \<lparr>rr_prefix = p, nextHop = \<lparr>raw = 0\<rparr>, originInterface = 0, reportedDistance = rd,
     feasibleDistance = fd, delay = (if fd = max64 then max64 else 1), bandwidth = 1, mtu = 1500,
     reliability = 255, load = 1, hopCount = 1, rr_tag = 0, adminDistance = 90,
     external = \<lparr>originRouter = 0, originAS = 0, externalMetric = 0, ext_type = 0, ext_flags = 0\<rparr>,
     wide = \<lparr>isWide = False, wide_topology = 0, wide_afi = 0, wide_rid = 0, wide_priority = 0, wide_data = []\<rparr>,
     flags = 0, routeType = INTERNAL\<rparr>"

definition cfg_ex :: "EigrpCfg" where
  "cfg_ex = \<lparr>trafficMode = BALENCED, variance = 2, maxHops = 100, delTimer = 120, siaTime = 90,
     stubEnabled = False, base_af = IPv4\<rparr>"

definition p_ex :: IPPrefix where "p_ex = \<lparr>pfx_addr = 10, pfx_len = 8\<rparr>"

definition entry_ex :: TopologyEntry where
  "entry_ex = (new_entry p_ex)\<lparr>routesBySource :=
     [(\<lparr>raw = 1\<rparr>, RouteInfo_of (route_to p_ex 12 15)), (\<lparr>raw = 2\<rparr>, RouteInfo_of (route_to p_ex 4 10))]\<rparr>"

lemmas ex_defs = route_to_def cfg_ex_def p_ex_def entry_ex_def new_entry_def RouteInfo_of_def


end
