(* ===== verification/EigrpDual.thy ===== *)
theory EigrpDual
  imports EigrpTopology
begin

text \<open>
  The DUAL engine of EIGRP: \<open>routing/eigrp/topology/DuelEngine.cpp\<close> and \<open>TimerManager.cpp\<close>, with the
  neighbor-loss path of \<open>interface/TopologyController.cpp\<close>.

  The state holds the topology table, the records of the active computations, the neighbors of the
  process, the clock, the pending SIA timers, and the calls made to the transport, the route manager
  and the summary aggregator, in order. A pointer or reference to a topology entry, to an active route
  or to a query is modelled by its key (the maps never move their nodes), and following one that is no
  longer there gives \<open>None\<close>. The aggregator's calls are recorded only: the theory describes a process
  without summary routes, for which \<open>addSummary\<close> and \<open>updateSummary\<close> change nothing.
\<close>

section \<open>State\<close>

record OutgoingQuery =
  siaSequence :: u32
  siaTimerId :: nat
  siaAttempts :: u32

record ActiveRoute =
  activePrefix :: IPPrefix
  pendingQueries :: "(IPAddress \<times> OutgoingQuery) list"
  possibleRoutes :: "(IPAddress \<times> ReceivedRoute) list"
  remoteSources :: "(IPAddress \<times> u32) list"
  originRoute :: "IPAddress option"
  originNeighbor :: IPAddress

record Neighbor =
  nb_isStub :: bool
  nb_unicast :: bool
  nb_iface :: u32

datatype DualCall =
    AddSummary IPPrefix
  | UpdateSummary IPPrefix
  | WithdrawRoute IPPrefix
  | SynchronizeRoutes "IPPrefix list"
  | SynchronizeRoute IPPrefix
  | SendUnicastQuery IPAddress IPPrefix
  | SendQuery u32 "IPPrefix list"
  | SendSIAQuery IPAddress IPPrefix
  | SendReply IPAddress "(IPPrefix \<times> IPAddress) list"
  | SendPoisenedUpdate u32 "(IPPrefix \<times> IPAddress) list"

text \<open>A scheduled SIA timer: the query it points to, by prefix and neighbor, and its expiry.\<close>

record SiaTimer =
  t_prefix :: IPPrefix
  t_neighbor :: IPAddress
  t_expiry :: nat

record dual =
  topology :: topology_table
  activeRoutes :: "(IPPrefix \<times> ActiveRoute) list"
  allNeighbors :: "(IPAddress \<times> Neighbor) list"
  clock :: nat
  timers :: "(nat \<times> SiaTimer) list"
  nextTimer :: nat
  calls :: "DualCall list"

definition call :: "DualCall \<Rightarrow> dual \<Rightarrow> dual" where
  "call c s = s\<lparr>calls := calls s @ [c]\<rparr>"

definition set_entry :: "IPPrefix \<Rightarrow> TopologyEntry \<Rightarrow> dual \<Rightarrow> dual" where
  "set_entry p e s = s\<lparr>topology := al_put p e (topology s)\<rparr>"

definition set_active :: "IPPrefix \<Rightarrow> ActiveRoute \<Rightarrow> dual \<Rightarrow> dual" where
  "set_active p ar s = s\<lparr>activeRoutes := al_put p ar (activeRoutes s)\<rparr>"

definition new_active :: ActiveRoute where
  "new_active = \<lparr>activePrefix = \<lparr>pfx_addr = 0, pfx_len = 0\<rparr>, pendingQueries = [], possibleRoutes = [],
     remoteSources = [], originRoute = None, originNeighbor = \<lparr>raw = 0\<rparr>\<rparr>"

definition new_query :: OutgoingQuery where
  "new_query = \<lparr>siaSequence = 0, siaTimerId = 0, siaAttempts = 0\<rparr>"

text \<open>\<open>map[key]\<close> of a standard map: the stored value, or a fresh one.\<close>

definition al_at :: "'v \<Rightarrow> ('k \<times> 'v) list \<Rightarrow> 'k \<Rightarrow> 'v" where
  "al_at d xs k = (case al_get xs k of None \<Rightarrow> d | Some v \<Rightarrow> v)"

section \<open>Timers\<close>

definition startSIATimer :: "EigrpCfg \<Rightarrow> IPPrefix \<Rightarrow> IPAddress \<Rightarrow> OutgoingQuery \<Rightarrow> dual \<Rightarrow> OutgoingQuery \<times> dual" where
  "startSIATimer cfg p ip q s =
     (q\<lparr>siaTimerId := nextTimer s\<rparr>,
      s\<lparr>timers := al_put (nextTimer s) \<lparr>t_prefix = p, t_neighbor = ip, t_expiry = clock s + siaTime cfg\<rparr> (timers s),
        nextTimer := Suc (nextTimer s)\<rparr>)"

definition cancelSIATimer :: "OutgoingQuery \<Rightarrow> dual \<Rightarrow> OutgoingQuery \<times> dual" where
  "cancelSIATimer q s = (if siaTimerId q \<noteq> 0
     then (q\<lparr>siaTimerId := 0\<rparr>, s\<lparr>timers := al_del (siaTimerId q) (timers s)\<rparr>) else (q, s))"

section \<open>Topology access\<close>

definition ensure :: "IPPrefix \<Rightarrow> dual \<Rightarrow> dual" where
  "ensure p s = (case al_get (topology s) p of
     Some _ \<Rightarrow> s
   | None \<Rightarrow> call (AddSummary p) (set_entry p (new_entry p) s))"

definition recalc_at :: "EigrpCfg \<Rightarrow> IPPrefix \<Rightarrow> dual \<Rightarrow> (bool \<times> dual) option" where
  "recalc_at cfg p s = map_option
     (\<lambda>e. let (ok, e') = recalculateSuccessors cfg e in (ok, set_entry p e' s)) (al_get (topology s) p)"

definition recalculateAllRoutes :: "EigrpCfg \<Rightarrow> dual \<Rightarrow> dual" where
  "recalculateAllRoutes cfg s = s\<lparr>topology := map (\<lambda>(p, e). (p, snd (recalculateSuccessors cfg e))) (topology s)\<rparr>"

section \<open>Active computations\<close>

definition apply_possible :: "(IPAddress \<times> ReceivedRoute) list \<Rightarrow> dual \<Rightarrow> TopologyEntry \<Rightarrow> TopologyEntry" where
  "apply_possible rs s e = fold (\<lambda>(n, r) e. if al_get (allNeighbors s) n = None then e
     else addRouteUpdate (clock s) r (Some n) e) rs e"

definition conclude_entry :: "EigrpCfg \<Rightarrow> ActiveRoute \<Rightarrow> dual \<Rightarrow> TopologyEntry \<Rightarrow> TopologyEntry" where
  "conclude_entry cfg ar s e =
     (let (ok, e) = recalculateSuccessors cfg (apply_possible (possibleRoutes ar) s e)
      in if ok then e\<lparr>te_state := PASSIVE\<rparr>
         else e\<lparr>te_state := POISENED, valid := Some (clock s + delTimer cfg)\<rparr>)"

definition send_replies :: "IPPrefix \<Rightarrow> ActiveRoute \<Rightarrow> TopologyEntry \<Rightarrow> dual \<Rightarrow> dual" where
  "send_replies p ar e s =
     (let replies = map (Pair p) (filter (\<lambda>n. al_get (routesBySource e) n \<noteq> None) (successors e))
      in fold (\<lambda>(ip, _) s. if al_get (allNeighbors s) ip = None then s else call (SendReply ip replies) s)
           (remoteSources ar) s)"

definition concludeActive :: "EigrpCfg \<Rightarrow> IPPrefix \<Rightarrow> dual \<Rightarrow> dual option" where
  "concludeActive cfg k s = (case al_get (activeRoutes s) k of
     None \<Rightarrow> None
   | Some ar \<Rightarrow> (let p = activePrefix ar in case al_get (topology s) p of
       None \<Rightarrow> Some s
     | Some e \<Rightarrow>
        (let e' = conclude_entry cfg ar s e;
             s1 = send_replies p ar e' (set_entry p e' s)
         in Some (call (SynchronizeRoute p) (s1\<lparr>activeRoutes := al_del p (activeRoutes s1)\<rparr>)))))"

text \<open>First loop of \<open>setActive\<close>: an entry without a route from its best neighbor, or already active,
  is skipped. The prefixes of the records created are collected.\<close>

definition activate_entry :: "TopologyEntry \<Rightarrow> TopologyEntry" where
  "activate_entry e = (let e = (markRouteUnreachable (bestNeighbor e) e)\<lparr>te_state := ACTIVE\<rparr>
     in e\<lparr>routesBySource := on_routes (\<lambda>ri. ri\<lparr>routeInfo := setFlag RF_ACTIVE (routeInfo ri)\<rparr>) (routesBySource e)\<rparr>)"

definition activate_record :: "u32 option \<Rightarrow> TopologyEntry \<Rightarrow> ActiveRoute \<Rightarrow> ActiveRoute" where
  "activate_record seq e ar = ar\<lparr>originNeighbor := bestNeighbor e, activePrefix := te_prefix e,
     originRoute := Some (bestNeighbor e),
     remoteSources := (case seq of None \<Rightarrow> remoteSources ar
       | Some q \<Rightarrow> List.insert (bestNeighbor e, q) (remoteSources ar))\<rparr>"

definition activate :: "u32 option \<Rightarrow> IPPrefix \<Rightarrow> dual \<Rightarrow> (IPPrefix list \<times> dual) option" where
  "activate seq k s = (case al_get (topology s) k of
     None \<Rightarrow> None
   | Some e \<Rightarrow> if al_get (routesBySource e) (bestNeighbor e) = None \<or> te_state e = ACTIVE then Some ([], s)
       else (let p = te_prefix e; s = call (WithdrawRoute p) s;
                 ar = activate_record seq e (al_at new_active (activeRoutes s) p)
             in Some ([p], set_active p ar (set_entry k (activate_entry e) s))))"

fun activate_all :: "u32 option \<Rightarrow> IPPrefix list \<Rightarrow> dual \<Rightarrow> (IPPrefix list \<times> dual) option" where
  "activate_all seq [] s = Some ([], s)"
| "activate_all seq (k # ks) s = (case activate seq k s of
     None \<Rightarrow> None
   | Some (ps, s) \<Rightarrow> (case activate_all seq ks s of None \<Rightarrow> None | Some (qs, s) \<Rightarrow> Some (ps @ qs, s)))"

text \<open>Second loop: one query per neighbor that is neither the origin nor a stub. Multicast queries are
  gathered by interface.\<close>

type_synonym buckets = "(u32 \<times> IPPrefix list) list"

definition query_neighbor :: "EigrpCfg \<Rightarrow> IPPrefix \<Rightarrow> IPAddress \<times> Neighbor \<Rightarrow> buckets \<times> dual \<Rightarrow> buckets \<times> dual" where
  "query_neighbor cfg p nb bs = (let (ip, n) = nb; (b, s) = bs in
     (case al_get (activeRoutes s) p of
       None \<Rightarrow> (b, s)
     | Some ar \<Rightarrow>
        if ip = originNeighbor ar \<or> nb_isStub n then (b, s)
        else (let (q, s) = startSIATimer cfg p ip (al_at new_query (pendingQueries ar) ip) s;
                  s = set_active p (ar\<lparr>pendingQueries := al_put ip q (pendingQueries ar)\<rparr>) s
              in if nb_unicast n then (b, call (SendUnicastQuery ip p) s)
                 else (al_put (nb_iface n) (al_at [] b (nb_iface n) @ [p]) b, s))))"

definition query_route :: "EigrpCfg \<Rightarrow> IPPrefix \<Rightarrow> buckets \<times> dual \<Rightarrow> buckets \<times> dual" where
  "query_route cfg p bs = fold (query_neighbor cfg p) (allNeighbors (snd bs)) bs"

definition send_buckets :: "buckets \<times> dual \<Rightarrow> dual" where
  "send_buckets bs = fold (\<lambda>(i, ps) s. call (SendQuery i ps) s) (fst bs) (snd bs)"

fun conclude_empty :: "EigrpCfg \<Rightarrow> IPPrefix list \<Rightarrow> dual \<Rightarrow> dual option" where
  "conclude_empty cfg [] s = Some s"
| "conclude_empty cfg (p # ps) s = (case al_get (activeRoutes s) p of
     None \<Rightarrow> None
   | Some ar \<Rightarrow> (case (if pendingQueries ar = [] then concludeActive cfg p s else Some s) of
       None \<Rightarrow> None | Some s \<Rightarrow> conclude_empty cfg ps s))"

definition setActive :: "EigrpCfg \<Rightarrow> IPPrefix list \<Rightarrow> u32 option \<Rightarrow> dual \<Rightarrow> dual option" where
  "setActive cfg ks seq s = (case activate_all seq ks s of
     None \<Rightarrow> None
   | Some (ps, s) \<Rightarrow> if ps = [] then Some s
       else conclude_empty cfg ps (send_buckets (fold (query_route cfg) ps ([], s))))"

section \<open>Reselection\<close>

fun recalc_all :: "EigrpCfg \<Rightarrow> IPPrefix list \<Rightarrow> dual \<Rightarrow> (IPPrefix list \<times> dual) option" where
  "recalc_all cfg [] s = Some ([], s)"
| "recalc_all cfg (p # ps) s = (case recalc_at cfg p s of
     None \<Rightarrow> None
   | Some (ok, s) \<Rightarrow> (case recalc_all cfg ps s of
       None \<Rightarrow> None | Some (fs, s) \<Rightarrow> Some (if ok then fs else p # fs, s)))"

definition updateSuccessors :: "EigrpCfg \<Rightarrow> IPPrefix list \<Rightarrow> dual \<Rightarrow> dual option" where
  "updateSuccessors cfg ps s = (case recalc_all cfg ps s of
     None \<Rightarrow> None
   | Some (fs, s) \<Rightarrow>
      (let s = call (SynchronizeRoutes ps) (fold (\<lambda>p. call (UpdateSummary p)) ps s)
       in if fs = [] then Some s else setActive cfg fs None s))"

section \<open>Received packets\<close>

definition add_update :: "ReceivedRoute \<Rightarrow> IPAddress \<Rightarrow> dual \<Rightarrow> dual" where
  "add_update r ip s = (let s = ensure (rr_prefix r) s in
     case al_get (topology s) (rr_prefix r) of
       None \<Rightarrow> s | Some e \<Rightarrow> set_entry (rr_prefix r) (addRouteUpdate (clock s) r (Some ip) e) s)"

definition processReceivedActiveRoute :: "EigrpCfg \<Rightarrow> IPAddress \<Rightarrow> ReceivedRoute \<Rightarrow> dual \<Rightarrow> dual option" where
  "processReceivedActiveRoute cfg ip r s = (let p = rr_prefix r in case al_get (activeRoutes s) p of
     None \<Rightarrow> Some s
   | Some ar \<Rightarrow>
      (let (ar, s) = (if ip = originNeighbor ar then (ar\<lparr>possibleRoutes := possibleRoutes ar @ [(ip, r)]\<rparr>, s)
             else (case al_get (pendingQueries ar) ip of
                None \<Rightarrow> (ar, s)
              | Some q \<Rightarrow> (ar\<lparr>possibleRoutes := possibleRoutes ar @ [(ip, r)],
                             pendingQueries := al_del ip (pendingQueries ar)\<rparr>, snd (cancelSIATimer q s))));
           s = set_active p ar s
       in if pendingQueries ar = [] then concludeActive cfg p s else Some s))"

fun processReceivedActiveRoutes :: "EigrpCfg \<Rightarrow> IPAddress \<Rightarrow> ReceivedRoute list \<Rightarrow> dual \<Rightarrow> dual option" where
  "processReceivedActiveRoutes cfg ip [] s = Some s"
| "processReceivedActiveRoutes cfg ip (r # rs) s = (case processReceivedActiveRoute cfg ip r s of
     None \<Rightarrow> None | Some s \<Rightarrow> processReceivedActiveRoutes cfg ip rs s)"

text \<open>The loop of \<open>processReceivedRoutes\<close>: the entries to update, the first routes of their entries, and
  the state.\<close>

definition received_one :: "EigrpCfg \<Rightarrow> IPAddress \<Rightarrow> ReceivedRoute \<Rightarrow> dual
    \<Rightarrow> (IPPrefix list \<times> (IPPrefix \<times> IPAddress) list \<times> dual) option" where
  "received_one cfg ip r s =
     (if maxHops cfg \<le> hopCount r \<or> feasibleDistance r < reportedDistance r then Some ([], [], s)
      else (let p = rr_prefix r;
                first = (case al_get (topology s) p of None \<Rightarrow> True | Some e \<Rightarrow> routesBySource e = []);
                s = add_update r ip s;
                rev = (if first then [(p, ip)] else [])
            in case al_get (topology s) p of
                 None \<Rightarrow> None
               | Some e \<Rightarrow> if te_state e = ACTIVE
                   then map_option (\<lambda>s. ([], rev, s)) (processReceivedActiveRoute cfg ip r s)
                   else Some ([p], rev, s)))"

fun received_all :: "EigrpCfg \<Rightarrow> IPAddress \<Rightarrow> ReceivedRoute list \<Rightarrow> dual
    \<Rightarrow> (IPPrefix list \<times> (IPPrefix \<times> IPAddress) list \<times> dual) option" where
  "received_all cfg ip [] s = Some ([], [], s)"
| "received_all cfg ip (r # rs) s = (case received_one cfg ip r s of
     None \<Rightarrow> None
   | Some (us, vs, s) \<Rightarrow> (case received_all cfg ip rs s of
       None \<Rightarrow> None | Some (us', vs', s) \<Rightarrow> Some (us @ us', vs @ vs', s)))"

definition processReceivedRoutes :: "EigrpCfg \<Rightarrow> IPAddress \<Rightarrow> u32 \<Rightarrow> ReceivedRoute list \<Rightarrow> dual \<Rightarrow> dual option" where
  "processReceivedRoutes cfg ip iface rs s = (case received_all cfg ip rs s of
     None \<Rightarrow> None
   | Some (us, vs, s) \<Rightarrow> updateSuccessors cfg us (if vs = [] then s else call (SendPoisenedUpdate iface vs) s))"

definition query_one :: "EigrpCfg \<Rightarrow> IPAddress \<Rightarrow> ReceivedRoute \<Rightarrow> dual
    \<Rightarrow> (IPPrefix list \<times> (IPPrefix \<times> IPAddress) list \<times> dual) option" where
  "query_one cfg ip r s = (let p = rr_prefix r in
     case recalc_at cfg p (add_update r ip s) of
       None \<Rightarrow> None
     | Some (ok, s) \<Rightarrow>
        (case (if ok then findBestRoute p (topology s) else None) of
           Some (n, _) \<Rightarrow> Some ([], [(p, n)], s)
         | None \<Rightarrow> if stubEnabled cfg then Some ([], [(p, ip)], s) else Some ([p], [], s)))"

fun query_all :: "EigrpCfg \<Rightarrow> IPAddress \<Rightarrow> ReceivedRoute list \<Rightarrow> dual
    \<Rightarrow> (IPPrefix list \<times> (IPPrefix \<times> IPAddress) list \<times> dual) option" where
  "query_all cfg ip [] s = Some ([], [], s)"
| "query_all cfg ip (r # rs) s = (case query_one cfg ip r s of
     None \<Rightarrow> None
   | Some (as, rep, s) \<Rightarrow> (case query_all cfg ip rs s of
       None \<Rightarrow> None | Some (as', rep', s) \<Rightarrow> Some (as @ as', rep @ rep', s)))"

definition processReceivedQueryRoutes :: "EigrpCfg \<Rightarrow> IPAddress \<Rightarrow> u32 \<Rightarrow> ReceivedRoute list \<Rightarrow> dual \<Rightarrow> dual option" where
  "processReceivedQueryRoutes cfg ip recvSeq rs s = (case query_all cfg ip rs s of
     None \<Rightarrow> None
   | Some (as, replies, s) \<Rightarrow>
      (let s = (if replies = [] then s else call (SendReply ip replies) s)
       in if as = [] then Some s else setActive cfg as (Some recvSeq) s))"

section \<open>Stuck in active, loss of a neighbor\<close>

definition sia_reply_one :: "EigrpCfg \<Rightarrow> IPAddress \<Rightarrow> u32 \<Rightarrow> IPPrefix \<Rightarrow> dual \<Rightarrow> dual" where
  "sia_reply_one cfg ip seq p s = (case al_get (activeRoutes s) p of
     None \<Rightarrow> s
   | Some ar \<Rightarrow> (case al_get (pendingQueries ar) ip of
       None \<Rightarrow> s
     | Some q \<Rightarrow> if siaSequence q \<noteq> seq then s
         else (let (q, s) = cancelSIATimer q s; (q, s) = startSIATimer cfg p ip q s
               in set_active p (ar\<lparr>pendingQueries := al_put ip q (pendingQueries ar)\<rparr>) s)))"

definition processSIAReply :: "EigrpCfg \<Rightarrow> IPAddress \<Rightarrow> u32 \<Rightarrow> dual \<Rightarrow> dual" where
  "processSIAReply cfg ip seq s = fold (sia_reply_one cfg ip seq) (map fst (activeRoutes s)) s"

definition remove_active_one :: "EigrpCfg \<Rightarrow> IPAddress \<Rightarrow> IPPrefix \<Rightarrow> dual \<Rightarrow> dual option" where
  "remove_active_one cfg ip p s = (case al_get (activeRoutes s) p of
     None \<Rightarrow> None
   | Some ar \<Rightarrow> (case al_get (pendingQueries ar) ip of
       None \<Rightarrow> Some s
     | Some _ \<Rightarrow> (let ar = ar\<lparr>pendingQueries := al_del ip (pendingQueries ar)\<rparr>; s = set_active p ar s
                 in if pendingQueries ar = [] then concludeActive cfg p s else Some s)))"

fun remove_active_all :: "EigrpCfg \<Rightarrow> IPAddress \<Rightarrow> IPPrefix list \<Rightarrow> dual \<Rightarrow> dual option" where
  "remove_active_all cfg ip [] s = Some s"
| "remove_active_all cfg ip (p # ps) s = (case remove_active_one cfg ip p s of
     None \<Rightarrow> None | Some s \<Rightarrow> remove_active_all cfg ip ps s)"

definition removeActiveNeighbor :: "EigrpCfg \<Rightarrow> IPAddress \<Rightarrow> dual \<Rightarrow> dual option" where
  "removeActiveNeighbor cfg ip s = remove_active_all cfg ip (map fst (activeRoutes s)) s"

definition affected :: "IPAddress \<Rightarrow> topology_table \<Rightarrow> IPPrefix list" where
  "affected ip t = map fst (filter (\<lambda>(p, e). al_get (routesBySource e) ip \<noteq> None) t)"

text \<open>\<open>TopologyController::onNeighborDown\<close>; the resets of the neighbor's own transport state are left out.\<close>

definition onNeighborDown :: "EigrpCfg \<Rightarrow> IPAddress \<Rightarrow> dual \<Rightarrow> dual option" where
  "onNeighborDown cfg ip s =
     (let ps = affected ip (topology s);
          s = s\<lparr>topology := map (\<lambda>(p, e). (p, markRouteUnreachable ip e)) (topology s)\<rparr>
      in case removeActiveNeighbor cfg ip s of
           None \<Rightarrow> None
         | Some s \<Rightarrow> updateSuccessors cfg ps (s\<lparr>topology := pruneNeighbor (clock s) ip (topology s)\<rparr>))"

text \<open>\<open>NeighborTable::onDown\<close>: the neighbor leaves the process, then its destructor reports the loss.\<close>

definition onDown :: "EigrpCfg \<Rightarrow> IPAddress \<Rightarrow> dual \<Rightarrow> dual option" where
  "onDown cfg ip s = onNeighborDown cfg ip (s\<lparr>allNeighbors := al_del ip (allNeighbors s)\<rparr>)"

text \<open>The timer of a query fires. The argument \<open>sent\<close> is the sequence number the transport gives the
  SIA query, \<open>None\<close> when the interface sends nothing.\<close>

definition handleSIATimeout :: "EigrpCfg \<Rightarrow> u32 option \<Rightarrow> IPPrefix \<Rightarrow> IPAddress \<Rightarrow> dual \<Rightarrow> dual option" where
  "handleSIATimeout cfg sent p ip s = (case al_get (activeRoutes s) p of
     None \<Rightarrow> None
   | Some ar \<Rightarrow> (case al_get (pendingQueries ar) ip of
       None \<Rightarrow> None
     | Some q \<Rightarrow>
        if siaAttempts q < 4
        then (let q = (case sent of None \<Rightarrow> q | Some n \<Rightarrow> q\<lparr>siaSequence := n\<rparr>);
                  (q, s) = startSIATimer cfg p ip (q\<lparr>siaAttempts := siaAttempts q + 1\<rparr>) (call (SendSIAQuery ip p) s)
              in Some (set_active p (ar\<lparr>pendingQueries := al_put ip q (pendingQueries ar)\<rparr>) s))
        else (let ar = ar\<lparr>pendingQueries := al_del ip (pendingQueries ar)\<rparr>
              in case onDown cfg ip (set_active p ar s) of
                   None \<Rightarrow> None
                 | Some s \<Rightarrow> if pendingQueries ar = [] then concludeActive cfg p s else Some s)))"

text \<open>A timer that has expired leaves the queue and runs its handler.\<close>

definition fire_timer :: "EigrpCfg \<Rightarrow> u32 option \<Rightarrow> nat \<Rightarrow> dual \<Rightarrow> dual option" where
  "fire_timer cfg sent i s = (case al_get (timers s) i of
     None \<Rightarrow> Some s
   | Some t \<Rightarrow> handleSIATimeout cfg sent (t_prefix t) (t_neighbor t) (s\<lparr>timers := al_del i (timers s)\<rparr>))"

definition pruneStaleRoutes :: "dual \<Rightarrow> dual" where
  "pruneStaleRoutes s = s\<lparr>topology := pruneExpired (clock s) (topology s)\<rparr>"


section \<open>Invariant\<close>

text \<open>
  Entries and active records are filed under their own prefix, an active record has its entry, an
  entry in the active state has its record, and every record outside \<open>P\<close> waits for at least one reply:
  an active computation that could end has ended.
\<close>

definition dual_inv_but :: "IPPrefix set \<Rightarrow> dual \<Rightarrow> bool" where
  "dual_inv_but P s \<longleftrightarrow> al_wf (topology s) \<and> al_wf (activeRoutes s)
     \<and> (\<forall>p e. al_get (topology s) p = Some e \<longrightarrow> te_prefix e = p)
     \<and> (\<forall>p ar. al_get (activeRoutes s) p = Some ar \<longrightarrow>
          activePrefix ar = p \<and> al_get (topology s) p \<noteq> None \<and> (p \<notin> P \<longrightarrow> pendingQueries ar \<noteq> []))
     \<and> (\<forall>p e. al_get (topology s) p = Some e \<longrightarrow> te_state e = ACTIVE \<longrightarrow> al_get (activeRoutes s) p \<noteq> None)"

abbreviation dual_inv :: "dual \<Rightarrow> bool" where
  "dual_inv \<equiv> dual_inv_but {}"

definition fresh :: "dual \<Rightarrow> bool" where
  "fresh s \<longleftrightarrow> (\<forall>p e. al_get (topology s) p = Some e \<longrightarrow> \<not> expired (clock s) e)"

definition has_entry :: "dual \<Rightarrow> IPPrefix \<Rightarrow> bool" where
  "has_entry s p \<longleftrightarrow> al_get (topology s) p \<noteq> None"

definition has_record :: "dual \<Rightarrow> IPPrefix \<Rightarrow> bool" where
  "has_record s p \<longleftrightarrow> al_get (activeRoutes s) p \<noteq> None"

definition is_active :: "dual \<Rightarrow> IPPrefix \<Rightarrow> bool" where
  "is_active s p \<longleftrightarrow> (\<exists>e. al_get (topology s) p = Some e \<and> te_state e = ACTIVE)"

lemma dual_inv_mono: "dual_inv_but P s \<Longrightarrow> P \<subseteq> Q \<Longrightarrow> dual_inv_but Q s"
  unfolding dual_inv_but_def by blast

lemma dual_invD:
  assumes "dual_inv_but P s"
  shows "al_get (topology s) p = Some e \<Longrightarrow> te_prefix e = p"
    and "al_get (activeRoutes s) p = Some ar \<Longrightarrow> activePrefix ar = p"
    and "has_record s p \<Longrightarrow> has_entry s p"
    and "is_active s p \<Longrightarrow> has_record s p"
    and "al_get (activeRoutes s) p = Some ar \<Longrightarrow> p \<notin> P \<Longrightarrow> pendingQueries ar \<noteq> []"
    and "al_wf (topology s)" and "al_wf (activeRoutes s)"
  using assms unfolding dual_inv_but_def has_entry_def has_record_def is_active_def by fast+

lemma dual_inv_set_entry:
  assumes "dual_inv_but P s" "te_prefix e = p" "te_state e = ACTIVE \<Longrightarrow> has_record s p"
  shows "dual_inv_but P (set_entry p e s)"
  using assms unfolding dual_inv_but_def set_entry_def has_record_def by auto

lemma dual_inv_set_active:
  assumes "dual_inv_but P s" "activePrefix ar = p" "has_entry s p" "pendingQueries ar = [] \<Longrightarrow> p \<in> P"
  shows "dual_inv_but P (set_active p ar s)"
  using assms unfolding dual_inv_but_def set_active_def has_entry_def by auto

lemma call_simps [simp]:
  "topology (call c s) = topology s" "activeRoutes (call c s) = activeRoutes s"
  "allNeighbors (call c s) = allNeighbors s" "clock (call c s) = clock s" "timers (call c s) = timers s"
  by (simp_all add: call_def)

lemma set_simps [simp]:
  "topology (set_entry p e s) = al_put p e (topology s)" "activeRoutes (set_entry p e s) = activeRoutes s"
  "allNeighbors (set_entry p e s) = allNeighbors s" "clock (set_entry p e s) = clock s"
  "topology (set_active p ar s) = topology s" "activeRoutes (set_active p ar s) = al_put p ar (activeRoutes s)"
  "allNeighbors (set_active p ar s) = allNeighbors s" "clock (set_active p ar s) = clock s"
  "calls (set_entry p e s) = calls s" "calls (set_active p ar s) = calls s"
  "timers (set_entry p e s) = timers s" "timers (set_active p ar s) = timers s"
  by (simp_all add: set_entry_def set_active_def)

text \<open>What the engine's state components have in common with a state that differs in its calls and
  timers only.\<close>

definition same_core :: "dual \<Rightarrow> dual \<Rightarrow> bool" where
  "same_core s s' \<longleftrightarrow> topology s' = topology s \<and> activeRoutes s' = activeRoutes s
     \<and> allNeighbors s' = allNeighbors s \<and> clock s' = clock s"

lemma same_core_refl [simp]: "same_core s s"
  by (simp add: same_core_def)

lemma same_core_call [simp]: "same_core s (call c s') = same_core s s'"
  by (simp add: same_core_def)

lemma same_core_fold: "(\<And>x s. same_core s (f x s)) \<Longrightarrow> same_core s (fold f xs s)"
  by (induction xs arbitrary: s) (auto simp: same_core_def)

lemma same_core_inv: "same_core s s' \<Longrightarrow> dual_inv_but P s' = dual_inv_but P s"
  by (simp add: same_core_def dual_inv_but_def)

lemma same_core_entry: "same_core s s' \<Longrightarrow> has_entry s' = has_entry s"
  by (simp add: same_core_def has_entry_def fun_eq_iff)

lemma dual_inv_call [simp]: "dual_inv_but P (call c s) = dual_inv_but P s"
  by (rule same_core_inv) simp

section \<open>Entries\<close>

lemma addRouteUpdate_fields [simp]:
  "te_prefix (addRouteUpdate now r n e) = te_prefix e" "te_state (addRouteUpdate now r n e) = te_state e"
  "valid (addRouteUpdate now r n e) = valid e" "bestNeighbor (addRouteUpdate now r n e) = bestNeighbor e"
  by (simp_all add: addRouteUpdate_def Let_def)

lemma apply_possible_fields [simp]:
  "te_prefix (apply_possible rs s e) = te_prefix e" "te_state (apply_possible rs s e) = te_state e"
  "valid (apply_possible rs s e) = valid e"
  unfolding apply_possible_def by (induction rs arbitrary: e) auto

lemma recalculate_keeps:
  assumes "recalculateSuccessors cfg e = (ok, e')"
  shows "te_prefix e' = te_prefix e" "valid e' = valid e"
    "te_state e' = (if ok then PASSIVE else te_state e)"
    "map fst (routesBySource e') = map fst (routesBySource e)"
  using assms by (auto simp: recalculateSuccessors_def Let_def split: if_splits prod.splits)

lemma mark_fields [simp]:
  "te_prefix (markRouteUnreachable ip e) = te_prefix e" "te_state (markRouteUnreachable ip e) = te_state e"
  "valid (markRouteUnreachable ip e) = valid e" "bestNeighbor (markRouteUnreachable ip e) = bestNeighbor e"
  by (simp_all add: markRouteUnreachable_def drop_source_def split: option.splits)

lemma activate_entry_fields [simp]:
  "te_prefix (activate_entry e) = te_prefix e" "te_state (activate_entry e) = ACTIVE"
  "valid (activate_entry e) = valid e"
  by (simp_all add: activate_entry_def Let_def)

lemma prune_source_fields [simp]:
  "te_prefix (prune_source ip e) = te_prefix e" "te_state (prune_source ip e) = te_state e"
  "valid (prune_source ip e) = valid e" "bestNeighbor (prune_source ip e) = bestNeighbor e"
  by (simp_all add: prune_source_def drop_source_def split: option.splits)

lemma conclude_entry_fields:
  "te_prefix (conclude_entry cfg ar s e) = te_prefix e" "te_state (conclude_entry cfg ar s e) \<noteq> ACTIVE"
  "\<not> expired (clock s) e \<Longrightarrow> \<not> expired (clock s) (conclude_entry cfg ar s e)"
proof -
  obtain ok e' where r: "recalculateSuccessors cfg (apply_possible (possibleRoutes ar) s e) = (ok, e')"
    by (cases "recalculateSuccessors cfg (apply_possible (possibleRoutes ar) s e)")
  note k = recalculate_keeps [OF r]
  show "te_prefix (conclude_entry cfg ar s e) = te_prefix e" "te_state (conclude_entry cfg ar s e) \<noteq> ACTIVE"
    "\<not> expired (clock s) e \<Longrightarrow> \<not> expired (clock s) (conclude_entry cfg ar s e)"
    using k by (simp_all add: conclude_entry_def r expired_def)
qed

text \<open>What every operation but the pruning of the table keeps: entries stay, none expires, and the
  neighbors and the clock are as before.\<close>

definition frame :: "dual \<Rightarrow> dual \<Rightarrow> bool" where
  "frame s s' \<longleftrightarrow> (\<forall>q. has_entry s q \<longrightarrow> has_entry s' q) \<and> (fresh s \<longrightarrow> fresh s')
     \<and> allNeighbors s' = allNeighbors s \<and> clock s' = clock s"

lemma frame_trans: "frame s s' \<Longrightarrow> frame s' s'' \<Longrightarrow> frame s s''"
  by (auto simp: frame_def)

lemma frame_refl [simp]: "frame s s"
  by (simp add: frame_def)

lemma frame_core: "same_core s s' \<Longrightarrow> frame s s'"
  by (auto simp: frame_def same_core_def has_entry_def fresh_def)

lemma frame_entry: "frame s s' \<Longrightarrow> has_entry s p \<Longrightarrow> has_entry s' p"
  by (simp add: frame_def)

lemma frame_call [simp]: "frame s (call c s') = frame s s'"
  by (simp add: frame_def has_entry_def fresh_def)

lemma frame_set_entry:
  "al_get (topology s) p = Some e \<Longrightarrow> valid e' = valid e \<Longrightarrow> frame s (set_entry p e' s)"
  by (auto simp: frame_def has_entry_def fresh_def expired_def split: if_splits option.splits)

lemma set_entry_call: "set_entry p e (call c s) = call c (set_entry p e s)"
  by (simp add: set_entry_def call_def)

lemma frame_set_active [simp]: "frame s (set_active p ar s') = frame s s'" "frame (set_active p ar s) s' = frame s s'"
  by (simp_all add: frame_def has_entry_def fresh_def)

section \<open>Conclusion of an active computation\<close>

lemma send_replies_core: "same_core s (send_replies p ar e s)"
  unfolding send_replies_def Let_def by (rule same_core_fold) (auto split: prod.splits)

lemma concludeActive_spec:
  assumes inv: "dual_inv_but P s" and ar: "al_get (activeRoutes s) p = Some ar"
  obtains e s' where "al_get (topology s) p = Some e" "concludeActive cfg p s = Some s'"
    "topology s' = al_put p (conclude_entry cfg ar s e) (topology s)"
    "activeRoutes s' = al_del p (activeRoutes s)" "allNeighbors s' = allNeighbors s" "clock s' = clock s"
proof -
  have p: "activePrefix ar = p" using dual_invD(2) [OF inv ar] .
  obtain e where e: "al_get (topology s) p = Some e"
    using inv ar unfolding dual_inv_but_def by blast
  define s0 where "s0 = set_entry p (conclude_entry cfg ar s e) s"
  define s1 where "s1 = send_replies p ar (conclude_entry cfg ar s e) s0"
  have "same_core s0 s1" unfolding s1_def by (rule send_replies_core)
  moreover have "concludeActive cfg p s
      = Some (call (SynchronizeRoute p) (s1\<lparr>activeRoutes := al_del p (activeRoutes s1)\<rparr>))"
    unfolding concludeActive_def by (simp add: ar p e Let_def s0_def s1_def)
  ultimately show thesis using e that by (simp add: same_core_def s0_def)
qed

lemma concludeActive_inv:
  assumes inv: "dual_inv_but P s" and rec: "has_record s p"
  shows "\<exists>s'. concludeActive cfg p s = Some s' \<and> dual_inv_but (P - {p}) s' \<and> \<not> has_record s' p \<and> \<not> is_active s' p
    \<and> (\<forall>q. q \<noteq> p \<longrightarrow> al_get (activeRoutes s') q = al_get (activeRoutes s) q
          \<and> al_get (topology s') q = al_get (topology s) q)
    \<and> frame s s'"
proof -
  obtain ar where ar: "al_get (activeRoutes s) p = Some ar" using rec by (auto simp: has_record_def)
  obtain e s' where s': "al_get (topology s) p = Some e" "concludeActive cfg p s = Some s'"
    "topology s' = al_put p (conclude_entry cfg ar s e) (topology s)"
    "activeRoutes s' = al_del p (activeRoutes s)" "allNeighbors s' = allNeighbors s" "clock s' = clock s"
    by (rule concludeActive_spec [OF inv ar])
  have pe: "te_prefix e = p" using dual_invD(1) [OF inv s'(1)] .
  have "dual_inv_but (P - {p}) s'"
    using inv unfolding dual_inv_but_def s'(3,4) by (auto simp: conclude_entry_fields pe)
  moreover have "fresh s \<Longrightarrow> fresh s'"
    using s'(1) unfolding fresh_def s'(3,6) by (auto simp: conclude_entry_fields)
  ultimately show ?thesis
    using s' by (auto simp: frame_def has_record_def is_active_def has_entry_def conclude_entry_fields)
qed

lemma conclude_empty_inv:
  "dual_inv_but P s \<Longrightarrow> distinct ps \<Longrightarrow> \<forall>p\<in>set ps. has_record s p \<Longrightarrow> P \<subseteq> set ps \<union> Q \<Longrightarrow>
     \<exists>s'. conclude_empty cfg ps s = Some s' \<and> dual_inv_but Q s' \<and> frame s s'
       \<and> (\<forall>q. q \<notin> set ps \<longrightarrow> al_get (activeRoutes s') q = al_get (activeRoutes s) q)"
proof (induction ps arbitrary: s P)
  case Nil
  then show ?case using dual_inv_mono by simp
next
  case (Cons p ps)
  obtain ar where ar: "al_get (activeRoutes s) p = Some ar" using Cons.prems(3) by (auto simp: has_record_def)
  have rec: "has_record s p" using Cons.prems by simp
  have sub: "P - {p} \<subseteq> set ps \<union> Q" "distinct ps" using Cons.prems(2,4) by auto
  have "\<exists>s1. (if pendingQueries ar = [] then concludeActive cfg p s else Some s) = Some s1
      \<and> dual_inv_but (P - {p}) s1 \<and> frame s s1
      \<and> (\<forall>q. q \<noteq> p \<longrightarrow> al_get (activeRoutes s1) q = al_get (activeRoutes s) q)"
  proof (cases "pendingQueries ar = []")
    case True
    then show ?thesis using concludeActive_inv [OF Cons.prems(1) rec, of cfg] by auto
  next
    case False
    then show ?thesis using Cons.prems(1) ar unfolding dual_inv_but_def by auto
  qed
  then obtain s1 where s1: "(if pendingQueries ar = [] then concludeActive cfg p s else Some s) = Some s1"
    "dual_inv_but (P - {p}) s1" "frame s s1"
    "\<forall>q. q \<noteq> p \<longrightarrow> al_get (activeRoutes s1) q = al_get (activeRoutes s) q" by blast
  have "\<forall>q\<in>set ps. has_record s1 q"
    using Cons.prems(2,3) s1(4) by (auto simp: has_record_def)
  from Cons.IH [OF s1(2) sub(2) this sub(1)] obtain s2 where
    "conclude_empty cfg ps s1 = Some s2" "dual_inv_but Q s2" "frame s1 s2"
    "\<forall>q. q \<notin> set ps \<longrightarrow> al_get (activeRoutes s2) q = al_get (activeRoutes s1) q" by blast
  with s1 ar show ?case by (auto intro: frame_trans)
qed

section \<open>Becoming active\<close>

lemma activate_inv:
  assumes inv: "dual_inv_but P s" and e: "has_entry s k"
  shows "\<exists>ps s'. activate seq k s = Some (ps, s') \<and> dual_inv_but (P \<union> set ps) s' \<and> frame s s'
    \<and> (\<forall>p\<in>set ps. \<not> is_active s p \<and> has_record s' p) \<and> distinct ps \<and> set ps \<subseteq> {k}
    \<and> (\<forall>p. is_active s p \<longrightarrow> is_active s' p) \<and> (\<forall>p\<in>set ps. is_active s' p)
    \<and> (\<forall>q. q \<notin> set ps \<longrightarrow> al_get (activeRoutes s') q = al_get (activeRoutes s) q)"
proof -
  obtain e where e: "al_get (topology s) k = Some e" using e by (auto simp: has_entry_def)
  have k: "te_prefix e = k" using dual_invD(1) [OF inv e] .
  show ?thesis
  proof (cases "al_get (routesBySource e) (bestNeighbor e) = None \<or> te_state e = ACTIVE")
    case True
    then have "activate seq k s = Some ([], s)" by (simp add: activate_def e)
    with inv show ?thesis by simp
  next
    case False
    define s1 where "s1 = call (WithdrawRoute k) s"
    define ar where "ar = activate_record seq e (al_at new_active (activeRoutes s1) k)"
    define s2 where "s2 = set_active k ar (set_entry k (activate_entry e) s1)"
    have act: "activate seq k s = Some ([k], s2)"
      using False by (simp add: activate_def e k Let_def s1_def ar_def s2_def)
    have "activePrefix ar = k" by (simp add: ar_def activate_record_def k)
    then have "dual_inv_but (P \<union> {k}) s2"
      using inv by (auto simp: dual_inv_but_def s1_def s2_def k)
    moreover have "frame s s2"
      using frame_set_entry [OF e, of "activate_entry e"] by (simp add: s2_def s1_def set_entry_call)
    ultimately show ?thesis
      using act e False by (auto simp: is_active_def has_record_def s2_def s1_def)
  qed
qed

lemma activate_all_inv:
  "dual_inv_but P s \<Longrightarrow> \<forall>k\<in>set ks. has_entry s k \<Longrightarrow>
     \<exists>ps s'. activate_all seq ks s = Some (ps, s') \<and> dual_inv_but (P \<union> set ps) s' \<and> frame s s'
       \<and> (\<forall>p\<in>set ps. \<not> is_active s p \<and> has_record s' p) \<and> distinct ps \<and> set ps \<subseteq> set ks
       \<and> (\<forall>p. is_active s p \<longrightarrow> is_active s' p) \<and> (\<forall>p\<in>set ps. is_active s' p)
       \<and> (\<forall>q. q \<notin> set ps \<longrightarrow> al_get (activeRoutes s') q = al_get (activeRoutes s) q)"
proof (induction ks arbitrary: s P)
  case (Cons k ks)
  obtain ps s1 where s1: "activate seq k s = Some (ps, s1)" "dual_inv_but (P \<union> set ps) s1" "frame s s1"
    "\<forall>p\<in>set ps. \<not> is_active s p \<and> has_record s1 p" "distinct ps"
    "\<forall>p. is_active s p \<longrightarrow> is_active s1 p" "\<forall>p\<in>set ps. is_active s1 p"
    "\<forall>q. q \<notin> set ps \<longrightarrow> al_get (activeRoutes s1) q = al_get (activeRoutes s) q" "set ps \<subseteq> {k}"
    using activate_inv [OF Cons.prems(1), of k seq] Cons.prems(2) by auto
  have "\<forall>k\<in>set ks. has_entry s1 k" using Cons.prems(2) frame_entry [OF s1(3)] by simp
  from Cons.IH [OF s1(2) this] obtain qs s2 where s2: "activate_all seq ks s1 = Some (qs, s2)"
    "dual_inv_but (P \<union> set ps \<union> set qs) s2" "frame s1 s2"
    "\<forall>p\<in>set qs. \<not> is_active s1 p \<and> has_record s2 p" "distinct qs"
    "\<forall>p. is_active s1 p \<longrightarrow> is_active s2 p" "\<forall>p\<in>set qs. is_active s2 p"
    "\<forall>q. q \<notin> set qs \<longrightarrow> al_get (activeRoutes s2) q = al_get (activeRoutes s1) q" "set qs \<subseteq> set ks" by blast
  have run: "activate_all seq (k # ks) s = Some (ps @ qs, s2)" by (simp add: s1(1) s2(1))
  have dis: "set ps \<inter> set qs = {}" using s1(7) s2(4) by blast
  have rec: "has_record s2 p" if "p \<in> set ps" for p
    using that dis s1(4) s2(8) by (auto simp: has_record_def)
  show ?case
    using s1(4-9) s2(2,4-9) dis rec frame_trans [OF s1(3) s2(3)]
    by (intro exI [of _ "ps @ qs"] exI [of _ s2] conjI run) (auto simp: Un_assoc)
qed simp

text \<open>The query loop only adds pending queries.\<close>

definition queried :: "dual \<Rightarrow> dual \<Rightarrow> bool" where
  "queried s s' \<longleftrightarrow> topology s' = topology s \<and> allNeighbors s' = allNeighbors s \<and> clock s' = clock s
     \<and> (\<forall>P. dual_inv_but P s \<longrightarrow> dual_inv_but P s') \<and> (\<forall>p. has_record s' p = has_record s p)"

lemma queried_refl [simp]: "queried s s"
  by (simp add: queried_def)

lemma queried_trans: "queried s s' \<Longrightarrow> queried s' s'' \<Longrightarrow> queried s s''"
  by (auto simp: queried_def)

lemma queried_core: "same_core s s' \<Longrightarrow> queried s s'"
  by (auto simp: queried_def same_core_inv) (auto simp: same_core_def has_record_def)

lemma startSIATimer_core: "same_core s (snd (startSIATimer cfg p ip q s))"
  by (simp add: startSIATimer_def same_core_def)

lemma cancelSIATimer_core: "same_core s (snd (cancelSIATimer q s))"
  by (simp add: cancelSIATimer_def same_core_def)

lemma queried_set_active:
  assumes ar: "al_get (activeRoutes s) p = Some ar"
    and ar': "activePrefix ar' = activePrefix ar" "pendingQueries ar' \<noteq> []"
  shows "queried s (set_active p ar' s)"
proof -
  have "dual_inv_but P (set_active p ar' s)" if "dual_inv_but P s" for P
    using dual_invD(2,3) [OF that] ar ar' that
    by (intro dual_inv_set_active) (auto simp: has_record_def)
  then show ?thesis using ar by (auto simp: queried_def has_record_def)
qed

lemma query_neighbor_queried: "queried s (snd (query_neighbor cfg p nb (b, s)))"
proof -
  obtain ip n where nb: "nb = (ip, n)" by (cases nb)
  show ?thesis
  proof (cases "al_get (activeRoutes s) p")
    case None
    then show ?thesis by (simp add: query_neighbor_def nb)
  next
    case (Some ar)
    define q0 where "q0 = al_at new_query (pendingQueries ar) ip"
    obtain q s1 where q: "startSIATimer cfg p ip q0 s = (q, s1)" by (cases "startSIATimer cfg p ip q0 s")
    have c: "same_core s s1" using startSIATimer_core [of s cfg p ip q0] q by simp
    then have "al_get (activeRoutes s1) p = Some ar" using Some by (simp add: same_core_def)
    then have "queried s (set_active p (ar\<lparr>pendingQueries := al_put ip q (pendingQueries ar)\<rparr>) s1)"
      using queried_core [OF c] by (auto intro!: queried_set_active intro: queried_trans)
    moreover have "queried s (call d s')" if "queried s s'" for d s'
      using that queried_core [of s' "call d s'"] by (auto intro: queried_trans)
    ultimately show ?thesis
      by (simp add: query_neighbor_def nb Some q q0_def [symmetric] Let_def)
  qed
qed

lemma query_route_queried: "queried s (snd (query_route cfg p (b, s)))"
proof -
  have "queried s (snd (fold (query_neighbor cfg p) nbs (b, s)))" for nbs
  proof (induction nbs arbitrary: b s)
    case (Cons nb nbs)
    obtain b1 s1 where s1: "query_neighbor cfg p nb (b, s) = (b1, s1)"
      by (cases "query_neighbor cfg p nb (b, s)")
    with query_neighbor_queried [of s cfg p nb b] Cons.IH [of s1 b1] show ?case
      by (auto intro: queried_trans)
  qed simp
  then show ?thesis by (simp add: query_route_def)
qed

lemma query_routes_queried: "queried s (snd (fold (query_route cfg) ps (b, s)))"
proof (induction ps arbitrary: b s)
  case (Cons p ps)
  obtain b1 s1 where s1: "query_route cfg p (b, s) = (b1, s1)" by (cases "query_route cfg p (b, s)")
  with query_route_queried [of s cfg p b] Cons.IH [of s1 b1] show ?case by (auto intro: queried_trans)
qed simp

lemma send_buckets_core: "same_core (snd bs) (send_buckets bs)"
  unfolding send_buckets_def by (rule same_core_fold) (auto split: prod.splits)

lemma queried_frame: "queried s s' \<Longrightarrow> frame s s'"
  by (auto simp: queried_def frame_def has_entry_def fresh_def)

lemma setActive_inv:
  assumes inv: "dual_inv_but P s" and ks: "\<forall>k\<in>set ks. has_entry s k"
  shows "\<exists>s'. setActive cfg ks seq s = Some s' \<and> dual_inv_but P s' \<and> frame s s'
    \<and> (\<forall>p. is_active s p \<or> p \<notin> set ks \<longrightarrow> has_record s p \<longrightarrow> has_record s' p)"
proof -
  obtain ps s1 where s1: "activate_all seq ks s = Some (ps, s1)" "dual_inv_but (P \<union> set ps) s1" "frame s s1"
    "\<forall>p\<in>set ps. \<not> is_active s p \<and> has_record s1 p" "distinct ps"
    "\<forall>q. q \<notin> set ps \<longrightarrow> al_get (activeRoutes s1) q = al_get (activeRoutes s) q" "set ps \<subseteq> set ks"
    using activate_all_inv [OF inv ks, of seq] by blast
  define s2 where "s2 = send_buckets (fold (query_route cfg) ps ([], s1))"
  have q: "queried s1 s2" unfolding s2_def
    using query_routes_queried [of s1 cfg ps "[]"] send_buckets_core by (blast intro: queried_trans queried_core)
  have inv2: "dual_inv_but (P \<union> set ps) s2" and rec: "\<And>p. has_record s2 p = has_record s1 p"
    using q s1(2) by (auto simp: queried_def)
  have "\<forall>p\<in>set ps. has_record s2 p" using s1(4) rec by simp
  from conclude_empty_inv [OF inv2 s1(5) this, of P] obtain s3 where s3:
    "conclude_empty cfg ps s2 = Some s3" "dual_inv_but P s3" "frame s2 s3"
    "\<forall>q. q \<notin> set ps \<longrightarrow> al_get (activeRoutes s3) q = al_get (activeRoutes s2) q" by (metis Un_commute order_refl)
  have fr: "frame s s3" using s1(3) queried_frame [OF q] s3(3) by (blast intro: frame_trans)
  have keep: "has_record s3 p" if "is_active s p \<or> p \<notin> set ks" "has_record s p" for p
  proof -
    have "p \<notin> set ps" using that s1(4,7) by blast
    then show ?thesis using that s3(4) rec s1(6) unfolding has_record_def by metis
  qed
  show ?thesis
  proof (cases "ps = []")
    case True
    with s1(1,2,3,6) show ?thesis by (auto simp: setActive_def has_record_def)
  next
    case False
    with s1(1) s3(1) have "setActive cfg ks seq s = Some s3" by (simp add: setActive_def s2_def)
    with s3(2) fr keep show ?thesis by blast
  qed
qed

section \<open>Reselection and received packets\<close>

lemma recalc_at_inv:
  assumes inv: "dual_inv_but P s" and e: "has_entry s p"
  shows "\<exists>ok s'. recalc_at cfg p s = Some (ok, s') \<and> dual_inv_but P s' \<and> frame s s'
    \<and> activeRoutes s' = activeRoutes s \<and> calls s' = calls s
    \<and> (\<forall>q. is_active s q \<longrightarrow> is_active s' q \<or> q = p \<and> ok)"
proof -
  obtain e where e: "al_get (topology s) p = Some e" using e by (auto simp: has_entry_def)
  obtain ok e' where r: "recalculateSuccessors cfg e = (ok, e')" by (cases "recalculateSuccessors cfg e")
  note k = recalculate_keeps [OF r]
  have "recalc_at cfg p s = Some (ok, set_entry p e' s)" by (simp add: recalc_at_def e r)
  moreover have "dual_inv_but P (set_entry p e' s)"
    using dual_invD(1) [OF inv e] dual_invD(4) [OF inv, of p] e k
    by (intro dual_inv_set_entry inv) (auto simp: is_active_def split: if_splits)
  moreover have "is_active (set_entry p e' s) q \<or> q = p \<and> ok" if "is_active s q" for q
    using that e k by (auto simp: is_active_def)
  ultimately show ?thesis using frame_set_entry [OF e k(2)] by auto
qed

lemma recalc_all_others:
  "recalc_all cfg ps s = Some (fs, s') \<Longrightarrow> q \<notin> set ps \<Longrightarrow> is_active s' q = is_active s q"
proof (induction ps arbitrary: s fs)
  case (Cons p ps)
  then obtain ok s1 fs' where s1: "recalc_at cfg p s = Some (ok, s1)" "recalc_all cfg ps s1 = Some (fs', s')"
    by (auto split: option.splits)
  then obtain e e' where "s1 = set_entry p e' s"
    by (auto simp: recalc_at_def case_prod_unfold Let_def)
  then have "is_active s1 q = is_active s q"
    using Cons.prems(2) by (simp add: is_active_def)
  with Cons.IH [OF s1(2)] Cons.prems(2) show ?case by simp
qed simp

lemma recalc_all_inv:
  "dual_inv_but P s \<Longrightarrow> \<forall>p\<in>set ps. has_entry s p \<Longrightarrow>
     \<exists>fs s'. recalc_all cfg ps s = Some (fs, s') \<and> dual_inv_but P s' \<and> frame s s' \<and> set fs \<subseteq> set ps
       \<and> activeRoutes s' = activeRoutes s \<and> calls s' = calls s
       \<and> (distinct ps \<longrightarrow> (\<forall>q. is_active s q \<longrightarrow> is_active s' q \<or> q \<notin> set fs))"
proof (induction ps arbitrary: s)
  case (Cons p ps)
  obtain ok s1 where s1: "recalc_at cfg p s = Some (ok, s1)" "dual_inv_but P s1" "frame s s1"
    "activeRoutes s1 = activeRoutes s" "calls s1 = calls s"
    "\<forall>q. is_active s q \<longrightarrow> is_active s1 q \<or> q = p \<and> ok"
    using recalc_at_inv [OF Cons.prems(1), of p cfg] Cons.prems(2) by auto
  have "\<forall>q\<in>set ps. has_entry s1 q" using Cons.prems(2) frame_entry [OF s1(3)] by simp
  from Cons.IH [OF s1(2) this] obtain fs s2 where s2: "recalc_all cfg ps s1 = Some (fs, s2)" "dual_inv_but P s2"
    "frame s1 s2" "set fs \<subseteq> set ps" "activeRoutes s2 = activeRoutes s1" "calls s2 = calls s1"
    "distinct ps \<longrightarrow> (\<forall>q. is_active s1 q \<longrightarrow> is_active s2 q \<or> q \<notin> set fs)" by blast
  have run: "recalc_all cfg (p # ps) s = Some (if ok then fs else p # fs, s2)" by (simp add: s1(1) s2(1))
  have act: "is_active s2 q \<or> q \<notin> set (if ok then fs else p # fs)" if "distinct (p # ps)" "is_active s q" for q
  proof -
    have p: "is_active s1 p \<Longrightarrow> \<not> is_active s2 p \<Longrightarrow> ok"
      using recalc_all_others [OF s2(1)] that(1) by simp
    show ?thesis using s1(6) s2(4,7) that p by auto
  qed
  show ?case
    using s1(4,5) s2(2,4,5,6) act frame_trans [OF s1(3) s2(3)]
    by (intro exI [of _ "if ok then fs else p # fs"] exI [of _ s2] conjI run) auto
qed simp

lemma updateSuccessors_inv:
  assumes inv: "dual_inv_but P s" and ps: "\<forall>p\<in>set ps. has_entry s p"
  shows "\<exists>s'. updateSuccessors cfg ps s = Some s' \<and> dual_inv_but P s' \<and> frame s s'
    \<and> (distinct ps \<longrightarrow> (\<forall>p. is_active s p \<longrightarrow> has_record s p \<longrightarrow> has_record s' p))"
proof -
  obtain fs s1 where s1: "recalc_all cfg ps s = Some (fs, s1)" "dual_inv_but P s1" "frame s s1" "set fs \<subseteq> set ps"
    "activeRoutes s1 = activeRoutes s" "distinct ps \<longrightarrow> (\<forall>q. is_active s q \<longrightarrow> is_active s1 q \<or> q \<notin> set fs)"
    using recalc_all_inv [OF inv ps, of cfg] by blast
  define s2 where "s2 = call (SynchronizeRoutes ps) (fold (\<lambda>p. call (UpdateSummary p)) ps s1)"
  have core: "same_core s1 s2" unfolding s2_def by (simp add: same_core_fold)
  have fr: "frame s s2" using s1(3) frame_core [OF core] by (rule frame_trans)
  have fs: "\<forall>k\<in>set fs. has_entry s2 k" using s1(4) ps frame_entry [OF fr] by blast
  have inv2: "dual_inv_but P s2" using same_core_inv [OF core] s1(2) by blast
  obtain s3 where s3: "setActive cfg fs None s2 = Some s3" "dual_inv_but P s3" "frame s2 s3"
    "\<forall>p. is_active s2 p \<or> p \<notin> set fs \<longrightarrow> has_record s2 p \<longrightarrow> has_record s3 p"
    using setActive_inv [OF inv2 fs, of cfg None] by blast
  have same: "is_active s2 = is_active s1" "has_record s2 = has_record s"
    using core s1(5) by (auto simp: same_core_def is_active_def has_record_def)
  show ?thesis
  proof (cases "fs = []")
    case True
    then have "updateSuccessors cfg ps s = Some s2"
      by (simp add: updateSuccessors_def s1(1) s2_def)
    with inv2 fr same show ?thesis by simp
  next
    case False
    then have "updateSuccessors cfg ps s = Some s3"
      using s3(1) by (simp add: updateSuccessors_def s1(1) s2_def)
    moreover have "distinct ps \<longrightarrow> (\<forall>p. is_active s p \<longrightarrow> has_record s p \<longrightarrow> has_record s3 p)"
      using s3(4) same s1(6) by metis
    ultimately show ?thesis using s3(2) frame_trans [OF fr s3(3)] by blast
  qed
qed

lemma ensure_inv:
  assumes "dual_inv_but P s"
  shows "dual_inv_but P (ensure p s)" "frame s (ensure p s)" "has_entry (ensure p s) p"
    "activeRoutes (ensure p s) = activeRoutes s"
    "al_get (topology (ensure p s)) p = Some (al_at (new_entry p) (topology s) p)"
proof -
  have new: "te_prefix (new_entry p) = p" "te_state (new_entry p) = PASSIVE" "valid (new_entry p) = None"
    by (simp_all add: new_entry_def)
  show "dual_inv_but P (ensure p s)"
    using assms dual_inv_set_entry [OF assms new(1)] new(2) by (simp add: ensure_def split: option.split)
  show "frame s (ensure p s)"
    using new(3) by (auto simp: ensure_def frame_def has_entry_def fresh_def expired_def split: option.split)
  show "has_entry (ensure p s) p" "activeRoutes (ensure p s) = activeRoutes s"
    "al_get (topology (ensure p s)) p = Some (al_at (new_entry p) (topology s) p)"
    by (auto simp: ensure_def has_entry_def al_at_def split: option.split)
qed

lemma add_update_inv:
  assumes inv: "dual_inv_but P s"
  shows "dual_inv_but P (add_update r ip s)" "frame s (add_update r ip s)" "has_entry (add_update r ip s) (rr_prefix r)"
    "activeRoutes (add_update r ip s) = activeRoutes s"
    "al_get (topology (add_update r ip s)) (rr_prefix r) =
       Some (addRouteUpdate (clock s) r (Some ip) (al_at (new_entry (rr_prefix r)) (topology s) (rr_prefix r)))"
proof -
  let ?p = "rr_prefix r" and ?s = "ensure (rr_prefix r) s"
  note en = ensure_inv [OF inv, of ?p]
  define e where "e = al_at (new_entry ?p) (topology s) ?p"
  have e: "al_get (topology ?s) ?p = Some e" using en(5) by (simp add: e_def)
  have cl: "clock ?s = clock s" using en(2) by (simp add: frame_def)
  have eq: "add_update r ip s = set_entry ?p (addRouteUpdate (clock s) r (Some ip) e) ?s"
    by (simp add: add_update_def e cl Let_def)
  show "dual_inv_but P (add_update r ip s)"
    unfolding eq using dual_invD(1) [OF en(1) e] dual_invD(4) [OF en(1), of ?p] e
    by (intro dual_inv_set_entry en(1)) (auto simp: is_active_def)
  show "frame s (add_update r ip s)"
    unfolding eq by (rule frame_trans [OF en(2) frame_set_entry [OF e]]) simp
  show "has_entry (add_update r ip s) ?p" "activeRoutes (add_update r ip s) = activeRoutes s"
    "al_get (topology (add_update r ip s)) ?p = Some (addRouteUpdate (clock s) r (Some ip) (al_at (new_entry ?p) (topology s) ?p))"
    using en(4) by (simp_all add: eq has_entry_def e_def)
qed

lemma processReceivedActiveRoute_inv:
  assumes inv: "dual_inv s"
  shows "\<exists>s'. processReceivedActiveRoute cfg ip r s = Some s' \<and> dual_inv s' \<and> frame s s'"
proof (cases "al_get (activeRoutes s) (rr_prefix r)")
  case None
  then show ?thesis using inv by (simp add: processReceivedActiveRoute_def)
next
  case (Some ar)
  let ?p = "rr_prefix r"
  define res where "res = (if ip = originNeighbor ar then (ar\<lparr>possibleRoutes := possibleRoutes ar @ [(ip, r)]\<rparr>, s)
      else (case al_get (pendingQueries ar) ip of
          None \<Rightarrow> (ar, s)
        | Some q \<Rightarrow> (ar\<lparr>possibleRoutes := possibleRoutes ar @ [(ip, r)],
                       pendingQueries := al_del ip (pendingQueries ar)\<rparr>, snd (cancelSIATimer q s))))"
  obtain ar' s1 where res': "res = (ar', s1)" by (cases res)
  have core: "same_core s s1" and ap: "activePrefix ar' = ?p"
    using res' cancelSIATimer_core dual_invD(2) [OF inv Some]
    by (auto simp: res_def split: if_splits option.splits)
  have inv1: "dual_inv s1" using same_core_inv [OF core] inv by blast
  have ent: "has_entry s1 ?p"
    using dual_invD(3) [OF inv1] Some core by (auto simp: has_record_def same_core_def)
  have inv2: "dual_inv_but {?p} (set_active ?p ar' s1)"
    using dual_inv_mono [OF inv1, of "{?p}"] ap ent by (intro dual_inv_set_active) auto
  have fr: "frame s (set_active ?p ar' s1)" using frame_core [OF core] by simp
  have eq: "processReceivedActiveRoute cfg ip r s = (if pendingQueries ar' = []
      then concludeActive cfg ?p (set_active ?p ar' s1) else Some (set_active ?p ar' s1))"
    using res' by (simp add: processReceivedActiveRoute_def Some res_def [symmetric] Let_def)
  show ?thesis
  proof (cases "pendingQueries ar' = []")
    case True
    have "has_record (set_active ?p ar' s1) ?p" by (simp add: has_record_def)
    from concludeActive_inv [OF inv2 this, of cfg] True eq fr show ?thesis by (auto intro: frame_trans)
  next
    case False
    have "dual_inv (set_active ?p ar' s1)" using inv1 ap ent False by (intro dual_inv_set_active) auto
    with False eq fr show ?thesis by simp
  qed
qed

lemma processReceivedActiveRoutes_inv:
  "dual_inv s \<Longrightarrow> \<exists>s'. processReceivedActiveRoutes cfg ip rs s = Some s' \<and> dual_inv s' \<and> frame s s'"
proof (induction rs arbitrary: s)
  case (Cons r rs)
  obtain s1 where "processReceivedActiveRoute cfg ip r s = Some s1" "dual_inv s1" "frame s s1"
    using processReceivedActiveRoute_inv [OF Cons.prems] by blast
  with Cons.IH [of s1] show ?case by (auto intro: frame_trans)
qed simp

lemma received_one_inv:
  assumes inv: "dual_inv s"
  shows "\<exists>us vs s'. received_one cfg ip r s = Some (us, vs, s') \<and> dual_inv s' \<and> frame s s' \<and> (\<forall>p\<in>set us. has_entry s' p)"
proof (cases "maxHops cfg \<le> hopCount r \<or> feasibleDistance r < reportedDistance r")
  case True
  then show ?thesis using inv by (simp add: received_one_def)
next
  case False
  note au = add_update_inv [OF inv, of r ip]
  obtain s1 where s1: "processReceivedActiveRoute cfg ip r (add_update r ip s) = Some s1" "dual_inv s1"
    "frame (add_update r ip s) s1"
    using processReceivedActiveRoute_inv [OF au(1)] by blast
  have "frame s s1" using au(2) s1(3) by (rule frame_trans)
  with False au s1 show ?thesis by (simp add: received_one_def Let_def)
qed

lemma received_all_inv:
  "dual_inv s \<Longrightarrow> \<exists>us vs s'. received_all cfg ip rs s = Some (us, vs, s') \<and> dual_inv s' \<and> frame s s'
     \<and> (\<forall>p\<in>set us. has_entry s' p)"
proof (induction rs arbitrary: s)
  case (Cons r rs)
  obtain us vs s1 where s1: "received_one cfg ip r s = Some (us, vs, s1)" "dual_inv s1" "frame s s1"
    "\<forall>p\<in>set us. has_entry s1 p"
    using received_one_inv [OF Cons.prems] by blast
  obtain us' vs' s2 where s2: "received_all cfg ip rs s1 = Some (us', vs', s2)" "dual_inv s2" "frame s1 s2"
    "\<forall>p\<in>set us'. has_entry s2 p"
    using Cons.IH [OF s1(2)] by blast
  have "\<forall>p\<in>set (us @ us'). has_entry s2 p" using s1(4) s2(4) frame_entry [OF s2(3)] by auto
  then show ?case using s1(1) s2(1,2) frame_trans [OF s1(3) s2(3)] by simp
qed simp

lemma processReceivedRoutes_inv:
  assumes "dual_inv s"
  shows "\<exists>s'. processReceivedRoutes cfg ip i rs s = Some s' \<and> dual_inv s'"
proof -
  obtain us vs s1 where s1: "received_all cfg ip rs s = Some (us, vs, s1)" "dual_inv s1" "\<forall>p\<in>set us. has_entry s1 p"
    using received_all_inv [OF assms] by blast
  define s2 where "s2 = (if vs = [] then s1 else call (SendPoisenedUpdate i vs) s1)"
  have "same_core s1 s2" by (simp add: s2_def)
  then have "dual_inv s2" "\<forall>p\<in>set us. has_entry s2 p"
    using s1(2,3) same_core_inv [of s1 s2 "{}"] same_core_entry [of s1 s2] by simp_all
  from updateSuccessors_inv [OF this, of cfg] s1(1) show ?thesis
    by (auto simp: processReceivedRoutes_def s2_def)
qed

lemma query_one_inv:
  assumes inv: "dual_inv s"
  shows "\<exists>as rep s'. query_one cfg ip r s = Some (as, rep, s') \<and> dual_inv s' \<and> frame s s' \<and> (\<forall>p\<in>set as. has_entry s' p)"
proof -
  note au = add_update_inv [OF inv, of r ip]
  obtain ok s1 where s1: "recalc_at cfg (rr_prefix r) (add_update r ip s) = Some (ok, s1)" "dual_inv s1"
    "frame (add_update r ip s) s1"
    using recalc_at_inv [OF au(1,3), of cfg] by blast
  have "frame s s1" "has_entry s1 (rr_prefix r)"
    using frame_trans [OF au(2) s1(3)] frame_entry [OF s1(3) au(3)] by auto
  with s1(1,2) show ?thesis by (auto simp: query_one_def Let_def split: option.split)
qed

lemma query_all_inv:
  "dual_inv s \<Longrightarrow> \<exists>as rep s'. query_all cfg ip rs s = Some (as, rep, s') \<and> dual_inv s' \<and> frame s s'
     \<and> (\<forall>p\<in>set as. has_entry s' p)"
proof (induction rs arbitrary: s)
  case (Cons r rs)
  obtain as rep s1 where s1: "query_one cfg ip r s = Some (as, rep, s1)" "dual_inv s1" "frame s s1"
    "\<forall>p\<in>set as. has_entry s1 p"
    using query_one_inv [OF Cons.prems] by blast
  obtain as' rep' s2 where s2: "query_all cfg ip rs s1 = Some (as', rep', s2)" "dual_inv s2" "frame s1 s2"
    "\<forall>p\<in>set as'. has_entry s2 p"
    using Cons.IH [OF s1(2)] by blast
  have "\<forall>p\<in>set (as @ as'). has_entry s2 p" using s1(4) s2(4) frame_entry [OF s2(3)] by auto
  then show ?case using s1(1) s2(1,2) frame_trans [OF s1(3) s2(3)] by simp
qed simp

lemma processReceivedQueryRoutes_inv:
  assumes "dual_inv s"
  shows "\<exists>s'. processReceivedQueryRoutes cfg ip seq rs s = Some s' \<and> dual_inv s'"
proof -
  obtain as rep s1 where s1: "query_all cfg ip rs s = Some (as, rep, s1)" "dual_inv s1" "\<forall>p\<in>set as. has_entry s1 p"
    using query_all_inv [OF assms] by blast
  define s2 where "s2 = (if rep = [] then s1 else call (SendReply ip rep) s1)"
  have "same_core s1 s2" by (simp add: s2_def)
  then have "dual_inv s2" "\<forall>p\<in>set as. has_entry s2 p"
    using s1(2,3) same_core_inv [of s1 s2 "{}"] same_core_entry [of s1 s2] by simp_all
  from setActive_inv [OF this, of cfg "Some seq"] this(1) s1(1) show ?thesis
    by (auto simp: processReceivedQueryRoutes_def Let_def s2_def [symmetric])
qed


section \<open>Stuck in active, loss of a neighbor\<close>

lemma sia_reply_hit_queried:
  assumes ar: "al_get (activeRoutes s) p = Some ar" "al_get (pendingQueries ar) ip = Some q" "siaSequence q = seq"
  shows "queried s (sia_reply_one cfg ip seq p s)"
proof -
  obtain q1 s1 where c: "cancelSIATimer q s = (q1, s1)" by (cases "cancelSIATimer q s")
  obtain q2 s2 where t: "startSIATimer cfg p ip q1 s1 = (q2, s2)" by (cases "startSIATimer cfg p ip q1 s1")
  have core: "same_core s s2"
    using cancelSIATimer_core [of s q] startSIATimer_core [of s1 cfg p ip q1] c t by (simp add: same_core_def)
  then have "al_get (activeRoutes s2) p = Some ar" using ar by (simp add: same_core_def)
  then have "queried s (set_active p (ar\<lparr>pendingQueries := al_put ip q2 (pendingQueries ar)\<rparr>) s2)"
    using queried_core [OF core] by (auto intro!: queried_set_active intro: queried_trans)
  with ar c t show ?thesis by (simp add: sia_reply_one_def)
qed

lemma sia_reply_one_queried: "queried s (sia_reply_one cfg ip seq p s)"
proof (cases "al_get (activeRoutes s) p")
  case (Some ar)
  then show ?thesis
    using sia_reply_hit_queried [OF Some, of ip _ seq cfg]
    by (cases "al_get (pendingQueries ar) ip") (auto simp: sia_reply_one_def)
qed (simp add: sia_reply_one_def)

lemma processSIAReply_queried: "queried s (processSIAReply cfg ip seq s)"
proof -
  have "queried s (fold (sia_reply_one cfg ip seq) ps s)" for ps
    by (induction ps arbitrary: s) (auto intro: queried_trans sia_reply_one_queried)
  then show ?thesis by (simp add: processSIAReply_def)
qed

text \<open>The records that do not wait for the neighbor.\<close>

definition not_waiting :: "IPAddress \<Rightarrow> dual \<Rightarrow> IPPrefix \<Rightarrow> bool" where
  "not_waiting ip s p \<longleftrightarrow> (\<exists>ar. al_get (activeRoutes s) p = Some ar \<and> al_get (pendingQueries ar) ip = None)"

lemma remove_active_one_inv:
  assumes inv: "dual_inv_but P s" and rec: "has_record s p"
  shows "\<exists>s'. remove_active_one cfg ip p s = Some s' \<and> dual_inv_but P s' \<and> frame s s'
    \<and> (\<forall>q. q \<noteq> p \<longrightarrow> al_get (activeRoutes s') q = al_get (activeRoutes s) q
          \<and> al_get (topology s') q = al_get (topology s) q)
    \<and> (not_waiting ip s p \<longrightarrow> s' = s)"
proof -
  obtain ar where ar: "al_get (activeRoutes s) p = Some ar" using rec by (auto simp: has_record_def)
  define ar' where "ar' = ar\<lparr>pendingQueries := al_del ip (pendingQueries ar)\<rparr>"
  have ap: "activePrefix ar' = p" "has_entry s p"
    using dual_invD(2,3) [OF inv] ar rec by (auto simp: ar'_def)
  have inv2: "dual_inv_but (insert p P) (set_active p ar' s)"
    using dual_inv_mono [OF inv, of "insert p P"] ap by (intro dual_inv_set_active) auto
  have "has_record (set_active p ar' s) p" by (simp add: has_record_def)
  from concludeActive_inv [OF inv2 this, of cfg] have c: "\<exists>s'. concludeActive cfg p (set_active p ar' s) = Some s'
      \<and> dual_inv_but P s' \<and> frame s s'
      \<and> (\<forall>q. q \<noteq> p \<longrightarrow> al_get (activeRoutes s') q = al_get (activeRoutes s) q
          \<and> al_get (topology s') q = al_get (topology s) q)"
    using dual_inv_mono [of "insert p P - {p}" _ P] by auto
  have d: "dual_inv_but P (set_active p ar' s)" if "pendingQueries ar' \<noteq> []"
    using inv ap that by (intro dual_inv_set_active) auto
  show ?thesis
  proof (cases "al_get (pendingQueries ar) ip")
    case None
    then show ?thesis using inv by (simp add: remove_active_one_def ar)
  next
    case (Some q)
    then have "\<not> not_waiting ip s p" by (simp add: not_waiting_def ar)
    with Some c d show ?thesis
      by (cases "pendingQueries ar' = []") (auto simp: remove_active_one_def ar ar'_def [symmetric] Let_def)
  qed
qed

lemma remove_active_all_inv:
  "dual_inv_but P s \<Longrightarrow> distinct ps \<Longrightarrow> \<forall>p\<in>set ps. has_record s p \<Longrightarrow>
     \<exists>s'. remove_active_all cfg ip ps s = Some s' \<and> dual_inv_but P s' \<and> frame s s'
       \<and> (\<forall>q. not_waiting ip s q \<longrightarrow> al_get (activeRoutes s') q = al_get (activeRoutes s) q
            \<and> al_get (topology s') q = al_get (topology s) q)"
proof (induction ps arbitrary: s)
  case (Cons p ps)
  have "has_record s p" using Cons.prems(3) by simp
  from remove_active_one_inv [OF Cons.prems(1) this, of cfg ip] obtain s1 where s1:
    "remove_active_one cfg ip p s = Some s1" "dual_inv_but P s1" "frame s s1"
    "\<forall>q. q \<noteq> p \<longrightarrow> al_get (activeRoutes s1) q = al_get (activeRoutes s) q
          \<and> al_get (topology s1) q = al_get (topology s) q"
    "not_waiting ip s p \<longrightarrow> s1 = s" by blast
  have "\<forall>q\<in>set ps. has_record s1 q" "distinct ps"
    using Cons.prems(2,3) s1(4) by (auto simp: has_record_def)
  from Cons.IH [OF s1(2) this(2,1)] obtain s2 where s2:
    "remove_active_all cfg ip ps s1 = Some s2" "dual_inv_but P s2" "frame s1 s2"
    "\<forall>q. not_waiting ip s1 q \<longrightarrow> al_get (activeRoutes s2) q = al_get (activeRoutes s1) q
       \<and> al_get (topology s2) q = al_get (topology s1) q" by blast
  have "al_get (activeRoutes s2) q = al_get (activeRoutes s) q \<and> al_get (topology s2) q = al_get (topology s) q"
    if "not_waiting ip s q" for q
  proof (cases "q = p")
    case True
    with that s1(5) s2(4) show ?thesis by blast
  next
    case False
    with that s1(4) have "not_waiting ip s1 q" by (simp add: not_waiting_def)
    with s2(4) s1(4) False show ?thesis by simp
  qed
  with s1(1) s2(1,2) frame_trans [OF s1(3) s2(3)] show ?case by simp
qed simp

lemma removeActiveNeighbor_inv:
  assumes "dual_inv_but P s"
  shows "\<exists>s'. removeActiveNeighbor cfg ip s = Some s' \<and> dual_inv_but P s' \<and> frame s s'
    \<and> (\<forall>q. not_waiting ip s q \<longrightarrow> al_get (activeRoutes s') q = al_get (activeRoutes s) q
          \<and> al_get (topology s') q = al_get (topology s) q)"
proof -
  have "\<forall>p\<in>set (map fst (activeRoutes s)). has_record s p"
    by (auto simp: has_record_def al_get_None_iff)
  with remove_active_all_inv [OF assms dual_invD(7) [OF assms] this] show ?thesis
    by (simp add: removeActiveNeighbor_def)
qed

lemma al_get_mapped: "al_get (map (\<lambda>(p, e). (p, f e)) t) q = map_option f (al_get t q)"
  by (induction t) auto

lemma al_wf_mapped: "map fst (map (\<lambda>(p, e). (p, f e)) t) = map fst t"
  by (induction t) auto

lemma dual_inv_map_entries:
  assumes "dual_inv_but P s" and f: "\<And>e. te_prefix (f e) = te_prefix e" "\<And>e. te_state (f e) = te_state e"
  shows "dual_inv_but P (s\<lparr>topology := map (\<lambda>(p, e). (p, f e)) (topology s)\<rparr>)"
  using assms(1) by (auto simp: dual_inv_but_def al_get_mapped al_wf_mapped f simp del: map_map)

lemma frame_map_entries:
  assumes "\<And>e. valid (f e) = valid e"
  shows "frame s (s\<lparr>topology := map (\<lambda>(p, e). (p, f e)) (topology s)\<rparr>)"
  by (auto simp: frame_def has_entry_def fresh_def al_get_mapped expired_def assms)

lemma pruneExpired_fresh:
  assumes "al_wf t" and "\<forall>p e. al_get t p = Some e \<longrightarrow> \<not> expired now e"
  shows "pruneExpired now t = t"
proof -
  have "\<not> expired now e" if "(p, e) \<in> set t" for p e
    using that assms al_get_Some_iff by metis
  then show ?thesis by (force simp: pruneExpired_def intro!: filter_True)
qed

lemma affected_entries: "p \<in> set (affected ip t) \<Longrightarrow> al_get t p \<noteq> None"
  unfolding affected_def al_get_None_iff by (metis (no_types, lifting) filter_is_subset image_mono list.set_map subsetD)

lemma affected_distinct: "al_wf t \<Longrightarrow> distinct (affected ip t)"
  by (simp add: affected_def distinct_map_filter)

lemma onNeighborDown_inv:
  assumes inv: "dual_inv_but P s" and fr: "fresh s"
  shows "\<exists>s'. onNeighborDown cfg ip s = Some s' \<and> dual_inv_but P s' \<and> fresh s'
    \<and> (\<forall>q. is_active s q \<longrightarrow> not_waiting ip s q \<longrightarrow> has_record s' q)"
proof -
  define s1 where "s1 = s\<lparr>topology := map (\<lambda>(p, e). (p, markRouteUnreachable ip e)) (topology s)\<rparr>"
  have inv1: "dual_inv_but P s1" and fr1: "frame s s1"
    unfolding s1_def by (auto intro!: dual_inv_map_entries frame_map_entries inv)
  obtain s2 where s2: "removeActiveNeighbor cfg ip s1 = Some s2" "dual_inv_but P s2" "frame s1 s2"
    "\<forall>q. not_waiting ip s1 q \<longrightarrow> al_get (activeRoutes s2) q = al_get (activeRoutes s1) q
          \<and> al_get (topology s2) q = al_get (topology s1) q"
    using removeActiveNeighbor_inv [OF inv1] by blast
  define s3 where "s3 = s2\<lparr>topology := map (\<lambda>(p, e). (p, prune_source ip e)) (topology s2)\<rparr>"
  have inv3: "dual_inv_but P s3" and fr3: "frame s2 s3"
    unfolding s3_def by (auto intro!: dual_inv_map_entries frame_map_entries s2(2))
  have fr': "frame s s3" using fr1 s2(3) fr3 by (blast intro: frame_trans)
  have "fresh s3" using fr fr' by (simp add: frame_def)
  then have "pruneExpired (clock s3) (topology s3) = topology s3"
    using dual_invD(6) [OF inv3] by (intro pruneExpired_fresh) (auto simp: fresh_def)
  then have prune: "s2\<lparr>topology := pruneNeighbor (clock s2) ip (topology s2)\<rparr> = s3"
    by (simp add: pruneNeighbor_def s3_def)
  have ent: "\<forall>p\<in>set (affected ip (topology s)). has_entry s3 p"
    using affected_entries frame_entry [OF fr'] by (auto simp: has_entry_def)
  have dis: "distinct (affected ip (topology s))" using affected_distinct dual_invD(6) [OF inv] by blast
  obtain s4 where s4: "updateSuccessors cfg (affected ip (topology s)) s3 = Some s4" "dual_inv_but P s4" "frame s3 s4"
    "\<forall>p. is_active s3 p \<longrightarrow> has_record s3 p \<longrightarrow> has_record s4 p"
    using updateSuccessors_inv [OF inv3 ent, of cfg] dis by blast
  have "has_record s4 q" if "is_active s q" "not_waiting ip s q" for q
  proof -
    have nw: "not_waiting ip s1 q" "is_active s1 q"
      using that by (auto simp: not_waiting_def is_active_def s1_def al_get_mapped)
    with s2(4) have "is_active s2 q" "has_record s2 q" by (auto simp: is_active_def has_record_def not_waiting_def)
    then have "is_active s3 q" "has_record s3 q"
      by (auto simp: is_active_def has_record_def s3_def al_get_mapped)
    with s4(4) show ?thesis by blast
  qed
  moreover have "onNeighborDown cfg ip s = Some s4"
    by (simp add: onNeighborDown_def Let_def s1_def [symmetric] s2(1) prune s4(1))
  ultimately show ?thesis using s4(2,3) \<open>fresh s3\<close> by (auto simp: frame_def)
qed

lemma onDown_inv:
  assumes "dual_inv_but P s" "fresh s"
  shows "\<exists>s'. onDown cfg ip s = Some s' \<and> dual_inv_but P s' \<and> fresh s'
    \<and> (\<forall>q. is_active s q \<longrightarrow> not_waiting ip s q \<longrightarrow> has_record s' q)"
proof -
  define s1 where "s1 = s\<lparr>allNeighbors := al_del ip (allNeighbors s)\<rparr>"
  have "dual_inv_but P s1" "fresh s1"
    using assms by (simp_all add: dual_inv_but_def fresh_def s1_def)
  moreover have "is_active s1 = is_active s" "not_waiting ip s1 = not_waiting ip s"
    by (auto simp: is_active_def not_waiting_def s1_def)
  ultimately show ?thesis
    using onNeighborDown_inv [of P s1 cfg ip] by (simp add: onDown_def s1_def)
qed

lemma handleSIATimeout_inv:
  assumes inv: "dual_inv s" and fr: "fresh s" and act: "is_active s p"
    and ar: "al_get (activeRoutes s) p = Some ar" and q: "al_get (pendingQueries ar) ip = Some q"
  shows "\<exists>s'. handleSIATimeout cfg sent p ip s = Some s' \<and> dual_inv s'"
proof -
  have ap: "activePrefix ar = p" "has_entry s p"
    using dual_invD(2,3) [OF inv] ar by (auto simp: has_record_def)
  show ?thesis
  proof (cases "siaAttempts q < 4")
    case True
    define q0 where "q0 = (case sent of None \<Rightarrow> q | Some n \<Rightarrow> q\<lparr>siaSequence := n\<rparr>)"
    define q1 where "q1 = q0\<lparr>siaAttempts := siaAttempts q0 + 1\<rparr>"
    obtain q2 s1 where t: "startSIATimer cfg p ip q1 (call (SendSIAQuery ip p) s) = (q2, s1)"
      by (cases "startSIATimer cfg p ip q1 (call (SendSIAQuery ip p) s)")
    have core: "same_core s s1"
      using startSIATimer_core [of "call (SendSIAQuery ip p) s" cfg p ip q1] t by (simp add: same_core_def)
    have "al_get (activeRoutes s1) p = Some ar" using core ar by (simp add: same_core_def)
    then have "queried s1 (set_active p (ar\<lparr>pendingQueries := al_put ip q2 (pendingQueries ar)\<rparr>) s1)"
      by (auto intro!: queried_set_active)
    moreover have "dual_inv s1" using same_core_inv [OF core] inv by blast
    ultimately have "dual_inv (set_active p (ar\<lparr>pendingQueries := al_put ip q2 (pendingQueries ar)\<rparr>) s1)"
      by (simp add: queried_def)
    then show ?thesis
      using True t by (simp add: handleSIATimeout_def ar q q0_def [symmetric] q1_def [symmetric] Let_def)
  next
    case False
    define ar' where "ar' = ar\<lparr>pendingQueries := al_del ip (pendingQueries ar)\<rparr>"
    define s1 where "s1 = set_active p ar' s"
    define P where "P = (if pendingQueries ar' = [] then {p} else {})"
    have inv1: "dual_inv_but P s1"
      unfolding s1_def using dual_inv_mono [OF inv, of P] ap
      by (intro dual_inv_set_active) (auto simp: ar'_def P_def)
    have "fresh s1" "is_active s1 p" "not_waiting ip s1 p"
      using fr act by (auto simp: fresh_def is_active_def not_waiting_def s1_def ar'_def)
    with onDown_inv [OF inv1, of cfg ip] obtain s2 where s2: "onDown cfg ip s1 = Some s2" "dual_inv_but P s2" "has_record s2 p"
      by blast
    have eq: "handleSIATimeout cfg sent p ip s = (if pendingQueries ar' = [] then concludeActive cfg p s2 else Some s2)"
      using False s2(1) by (simp add: handleSIATimeout_def ar q ar'_def [symmetric] s1_def [symmetric] Let_def)
    show ?thesis
      using eq s2(2) concludeActive_inv [OF s2(2,3), of cfg] by (auto simp: P_def)
  qed
qed


section \<open>Runs of the engine\<close>

text \<open>
  The events of the process as steps. The clock advances between events. Losing a neighbor and an SIA
  timeout are steps while no entry has outlived its deletion timer, the timeout while its prefix is
  active; pruning is one while no expired entry has an active record.
\<close>

inductive dual_step :: "EigrpCfg \<Rightarrow> dual \<Rightarrow> dual \<Rightarrow> bool" for cfg where
  neighbor_up: "dual_step cfg s (s\<lparr>allNeighbors := al_put ip n (allNeighbors s)\<rparr>)"
| tick: "dual_step cfg s (s\<lparr>clock := clock s + d\<rparr>)"
| update: "processReceivedRoutes cfg ip i rs s = Some s' \<Longrightarrow> dual_step cfg s s'"
| reply: "processReceivedActiveRoutes cfg ip rs s = Some s' \<Longrightarrow> dual_step cfg s s'"
| query: "processReceivedQueryRoutes cfg ip seq rs s = Some s' \<Longrightarrow> dual_step cfg s s'"
| sia_reply: "dual_step cfg s (processSIAReply cfg ip seq s)"
| sia_timeout: "fresh s \<Longrightarrow> is_active s p \<Longrightarrow> handleSIATimeout cfg sent p ip s = Some s' \<Longrightarrow> dual_step cfg s s'"
| neighbor_down: "fresh s \<Longrightarrow> onDown cfg ip s = Some s' \<Longrightarrow> dual_step cfg s s'"
| prune: "\<forall>p e. al_get (topology s) p = Some e \<longrightarrow> expired (clock s) e \<longrightarrow> \<not> has_record s p
    \<Longrightarrow> dual_step cfg s (pruneStaleRoutes s)"

definition dual_init :: dual where
  "dual_init = \<lparr>topology = [], activeRoutes = [], allNeighbors = [], clock = 0, timers = [], nextTimer = 1, calls = []\<rparr>"

lemma dual_inv_init: "dual_inv dual_init"
  by (simp add: dual_inv_but_def dual_init_def)

lemma al_wf_filter: "al_wf t \<Longrightarrow> al_wf (filter Q t)"
  by (simp add: distinct_map_filter)

lemma al_get_filter:
  "al_wf t \<Longrightarrow> al_get (filter (\<lambda>(p, e). Q e) t) p = (case al_get t p of None \<Rightarrow> None | Some e \<Rightarrow> if Q e then Some e else None)"
proof (induction t)
  case (Cons x t)
  obtain a b where x: "x = (a, b)" by (cases x)
  from Cons.prems x have "al_wf t" "al_get t a = None" by (simp_all add: al_get_None_iff)
  with Cons.IH x show ?case by (cases "a = p") simp_all
qed simp

lemma prune_inv:
  assumes inv: "dual_inv s"
    and act: "\<forall>p e. al_get (topology s) p = Some e \<longrightarrow> expired (clock s) e \<longrightarrow> \<not> has_record s p"
  shows "dual_inv (pruneStaleRoutes s)"
proof -
  have get: "al_get (pruneExpired (clock s) (topology s)) p =
      (case al_get (topology s) p of None \<Rightarrow> None | Some e \<Rightarrow> if \<not> expired (clock s) e then Some e else None)" for p
    unfolding pruneExpired_def by (rule al_get_filter [OF dual_invD(6) [OF inv]])
  have wf: "al_wf (pruneExpired (clock s) (topology s))"
    unfolding pruneExpired_def by (rule al_wf_filter [OF dual_invD(6) [OF inv]])
  have rec: "al_get (pruneExpired (clock s) (topology s)) p \<noteq> None" if "al_get (activeRoutes s) p = Some ar" for p ar
    using that act dual_invD(3) [OF inv, of p] by (auto simp: get has_record_def has_entry_def)
  show ?thesis
    using inv wf rec by (auto simp: dual_inv_but_def pruneStaleRoutes_def get split: option.splits if_splits)
qed

lemma dual_step_inv: "dual_step cfg s s' \<Longrightarrow> dual_inv s \<Longrightarrow> dual_inv s'"
proof (induction rule: dual_step.induct)
  case (update ip i rs s s')
  then show ?case using processReceivedRoutes_inv [of s cfg ip i rs] by auto
next
  case (reply ip rs s s')
  then show ?case using processReceivedActiveRoutes_inv [of s cfg ip rs] by auto
next
  case (query ip seq rs s s')
  then show ?case using processReceivedQueryRoutes_inv [of s cfg ip seq rs] by auto
next
  case (sia_reply s ip seq)
  then show ?case using processSIAReply_queried [of s cfg ip seq] by (simp add: queried_def)
next
  case (sia_timeout s p sent ip s')
  then obtain ar q where "al_get (activeRoutes s) p = Some ar" "al_get (pendingQueries ar) ip = Some q"
    by (auto simp: handleSIATimeout_def split: option.splits)
  with sia_timeout handleSIATimeout_inv [of s p ar ip q cfg sent] show ?case by auto
next
  case (neighbor_down s ip s')
  then show ?case using onDown_inv [of "{}" s cfg ip] by auto
next
  case (prune s)
  then show ?case by (auto intro: prune_inv)
qed (auto simp: dual_inv_but_def)

lemma dual_reachable_dual_inv: "(dual_step cfg)\<^sup>*\<^sup>* dual_init s \<Longrightarrow> dual_inv s"
  by (induction rule: rtranclp_induct) (auto intro: dual_step_inv dual_inv_init)


definition nbr_ex :: "IPAddress" where "nbr_ex = \<lparr>raw = 7\<rparr>"

definition run_ex :: "dual" where
  "run_ex = dual_init\<lparr>allNeighbors := [(nbr_ex, \<lparr>nb_isStub = False, nb_unicast = True, nb_iface = 1\<rparr>)]\<rparr>"

text \<open>A run with an active computation: two neighbors, a route from the first, then its withdrawal.\<close>

definition nbr2_ex :: "IPAddress" where "nbr2_ex = \<lparr>raw = 8\<rparr>"

definition two_ex :: dual where
  "two_ex = run_ex\<lparr>allNeighbors := al_put nbr2_ex \<lparr>nb_isStub = False, nb_unicast = True, nb_iface = 1\<rparr> (allNeighbors run_ex)\<rparr>"

definition learned_ex :: dual where
  "learned_ex = the (processReceivedRoutes cfg_ex nbr_ex 1 [route_to p_ex 4 10] two_ex)"

definition querying_ex :: dual where
  "querying_ex = the (processReceivedRoutes cfg_ex nbr_ex 1 [route_to p_ex (- 1) (- 1)] learned_ex)"

lemma querying_ex_active:
  "map_option te_state (al_get (topology querying_ex) p_ex) = Some ACTIVE"
  by code_simp

lemma querying_ex_reachable: "(dual_step cfg_ex)\<^sup>*\<^sup>* dual_init querying_ex"
proof -
  have 1: "dual_step cfg_ex dual_init run_ex"
    using neighbor_up [of cfg_ex dual_init nbr_ex "\<lparr>nb_isStub = False, nb_unicast = True, nb_iface = 1\<rparr>"]
    by (simp add: run_ex_def dual_init_def)
  have 2: "dual_step cfg_ex run_ex two_ex" unfolding two_ex_def by (rule neighbor_up)
  have i2: "dual_inv two_ex" using 1 2 dual_inv_init by (blast intro: dual_step_inv)
  have 3: "dual_step cfg_ex two_ex learned_ex"
    using processReceivedRoutes_inv [OF i2, of cfg_ex nbr_ex 1 "[route_to p_ex 4 10]"]
    by (auto simp: learned_ex_def intro: update)
  have i3: "dual_inv learned_ex" using 3 i2 by (rule dual_step_inv)
  have 4: "dual_step cfg_ex learned_ex querying_ex"
    using processReceivedRoutes_inv [OF i3, of cfg_ex nbr_ex 1 "[route_to p_ex (- 1) (- 1)]"]
    by (auto simp: querying_ex_def intro: update)
  from 1 2 3 4 show ?thesis by (meson converse_rtranclp_into_rtranclp rtranclp.rtrancl_refl)
qed





section \<open>Single events\<close>

text \<open>(C31) The reply of a neighbor the computation waits for is taken into account. If others are still
  awaited the record waits for them only and keeps the reply; the last reply ends the computation: the
  record is gone and the entry is passive with a successor, or poisoned until its deletion timer expires.\<close>

theorem reply_ends_computation:
  assumes inv: "dual_inv s" and ar: "al_get (activeRoutes s) (rr_prefix r) = Some ar"
    and q: "al_get (pendingQueries ar) ip = Some q" and org: "ip \<noteq> originNeighbor ar"
  shows "\<exists>s'. processReceivedActiveRoute cfg ip r s = Some s' \<and>
    (if al_del ip (pendingQueries ar) = []
     then al_get (activeRoutes s') (rr_prefix r) = None
       \<and> (\<exists>e. al_get (topology s') (rr_prefix r) = Some e
            \<and> (te_state e = PASSIVE \<and> successors e \<noteq> []
               \<or> te_state e = POISENED \<and> valid e = Some (clock s + delTimer cfg)))
     else al_get (activeRoutes s') (rr_prefix r) = Some (ar\<lparr>pendingQueries := al_del ip (pendingQueries ar),
            possibleRoutes := possibleRoutes ar @ [(ip, r)]\<rparr>) \<and> topology s' = topology s)"
proof -
  let ?p = "rr_prefix r"
  define ar' where "ar' = ar\<lparr>possibleRoutes := possibleRoutes ar @ [(ip, r)], pendingQueries := al_del ip (pendingQueries ar)\<rparr>"
  define s1 where "s1 = set_active ?p ar' (snd (cancelSIATimer q s))"
  have core: "same_core s (snd (cancelSIATimer q s))" by (rule cancelSIATimer_core)
  have eq: "processReceivedActiveRoute cfg ip r s = (if pendingQueries ar' = [] then concludeActive cfg ?p s1 else Some s1)"
    by (simp add: processReceivedActiveRoute_def ar q org ar'_def s1_def Let_def)
  show ?thesis
  proof (cases "pendingQueries ar' = []")
    case True
    have "has_entry (snd (cancelSIATimer q s)) ?p"
      using same_core_entry [OF core] dual_invD(3) [OF inv, of ?p] ar by (simp add: has_record_def)
    then have inv1: "dual_inv_but {?p} s1"
      unfolding s1_def using same_core_inv [OF core, of "{?p}"] dual_inv_mono [OF inv, of "{?p}"] dual_invD(2) [OF inv ar]
      by (intro dual_inv_set_active) (simp_all add: ar'_def)
    have g: "al_get (activeRoutes s1) ?p = Some ar'" by (simp add: s1_def)
    obtain e s2 where s2: "al_get (topology s1) ?p = Some e" "concludeActive cfg ?p s1 = Some s2"
      "topology s2 = al_put ?p (conclude_entry cfg ar' s1 e) (topology s1)"
      "activeRoutes s2 = al_del ?p (activeRoutes s1)"
      by (rule concludeActive_spec [OF inv1 g])
    have "clock s1 = clock s" using core by (simp add: s1_def same_core_def)
    moreover obtain ok e' where rc: "recalculateSuccessors cfg (apply_possible (possibleRoutes ar') s1 e) = (ok, e')"
      by (cases "recalculateSuccessors cfg (apply_possible (possibleRoutes ar') s1 e)")
    moreover have "ok \<Longrightarrow> successors e' \<noteq> []"
      using rc by (auto simp: recalculateSuccessors_def Let_def split: if_splits prod.splits)
    ultimately show ?thesis
      using True eq s2(2-4) by (auto simp: ar'_def conclude_entry_def)
  next
    case False
    with eq show ?thesis using core by (simp add: ar'_def s1_def same_core_def)
  qed
qed

text \<open>An active prefix that waits for one unicast neighbor.\<close>

definition active_ex :: dual where
  "active_ex = run_ex\<lparr>topology := [(p_ex, (new_entry p_ex)\<lparr>te_state := ACTIVE\<rparr>)],
     activeRoutes := [(p_ex, new_active\<lparr>activePrefix := p_ex, pendingQueries := [(nbr_ex, new_query\<lparr>siaTimerId := 1\<rparr>)]\<rparr>)],
     timers := [(1, \<lparr>t_prefix = p_ex, t_neighbor = nbr_ex, t_expiry = 90\<rparr>)], nextTimer := 2\<rparr>"

lemma active_ex_inv: "dual_inv active_ex"
  by (auto simp: dual_inv_but_def active_ex_def run_ex_def dual_init_def new_entry_def new_active_def split: if_splits)

theorem reply_ends_computation_witness:
  "\<exists>s'. processReceivedActiveRoute cfg_ex nbr_ex (route_to p_ex 4 10) active_ex = Some s'
     \<and> al_get (activeRoutes s') p_ex = None"
  using reply_ends_computation [OF active_ex_inv, of "route_to p_ex 4 10"
      "new_active\<lparr>activePrefix := p_ex, pendingQueries := [(nbr_ex, new_query\<lparr>siaTimerId := 1\<rparr>)]\<rparr>" nbr_ex
      "new_query\<lparr>siaTimerId := 1\<rparr>" cfg_ex]
  by (auto simp: active_ex_def run_ex_def dual_init_def new_active_def nbr_ex_def al_del_def route_to_def)

text \<open>A query for a prefix the router does not know is never answered: unless the router is a stub, a
  query with an unreachable metric creates an entry without a best neighbor, for which no computation is
  started and to which no reply is sent; the neighbor that asked stays active until its timers give up.\<close>

theorem unknown_query_unanswered:
  assumes new: "al_get (topology s) (rr_prefix r) = None" and unreach: "feasibleDistance r = max64"
    and stub: "\<not> stubEnabled cfg" and ip: "ip \<noteq> \<lparr>raw = 0\<rparr>"
  shows "\<exists>s'. processReceivedQueryRoutes cfg ip seq [r] s = Some s'
    \<and> calls s' = calls s @ [AddSummary (rr_prefix r)] \<and> activeRoutes s' = activeRoutes s
    \<and> (\<exists>e. al_get (topology s') (rr_prefix r) = Some e \<and> te_state e = PASSIVE \<and> successors e = [])"
proof -
  let ?p = "rr_prefix r"
  define e where "e = addRouteUpdate (clock s) r (Some ip) (new_entry ?p)"
  define s1 where "s1 = call (AddSummary ?p) (set_entry ?p (new_entry ?p) s)"
  have add: "add_update r ip s = set_entry ?p e s1"
    by (simp add: add_update_def ensure_def new e_def s1_def Let_def)
  obtain ri where rs: "routesBySource e = [(ip, ri)]" and fd: "feasibleDistance (routeInfo ri) = max64"
    using unreach by (auto simp: e_def addRouteUpdate_def new_entry_def stamp_update_def setFlag_def routeEntry_of_def Let_def)
  have best: "bestNeighbor e = \<lparr>raw = 0\<rparr>" "te_state e = PASSIVE" by (simp_all add: e_def new_entry_def)
  obtain e' where e': "recalculateSuccessors cfg e = (False, e')" "successors e' = []" "te_state e' = PASSIVE"
    "bestNeighbor e' = \<lparr>raw = 0\<rparr>" "map fst (routesBySource e') = [ip]"
    using rs fd best by (simp add: recalculateSuccessors_def classify_def flagged_def)
  have skip: "al_get (routesBySource e') (bestNeighbor e') = None"
    using e'(4,5) ip by (cases "routesBySource e'") (auto simp: al_get_None_iff)
  define s2 where "s2 = set_entry ?p e' (set_entry ?p e s1)"
  have q: "query_all cfg ip [r] s = Some ([?p], [], s2)"
    using stub by (simp add: query_one_def add recalc_at_def e'(1) s2_def Let_def)
  have "setActive cfg [?p] (Some seq) s2 = Some s2"
    using skip by (simp add: setActive_def activate_def s2_def)
  with q have "processReceivedQueryRoutes cfg ip seq [r] s = Some s2"
    by (simp add: processReceivedQueryRoutes_def)
  then show ?thesis using e' by (simp add: s2_def s1_def call_def)
qed

theorem unknown_query_unanswered_witness:
  "\<exists>s'. processReceivedQueryRoutes cfg_ex nbr_ex 5 [route_to p_ex (- 1) (- 1)] run_ex = Some s'
     \<and> calls s' = [AddSummary p_ex]"
  using unknown_query_unanswered [of run_ex "route_to p_ex (- 1) (- 1)" cfg_ex nbr_ex 5]
  by (auto simp: run_ex_def dual_init_def route_to_def cfg_ex_def nbr_ex_def)

text \<open>Selection among unreachable routes fails and moves nothing.\<close>

lemma recalculate_unreachable:
  assumes "\<forall>n r. \<not> reachable_via e n r" and "set (successors e) \<subseteq> fst ` set (routesBySource e)"
  obtains e' where "recalculateSuccessors cfg e = (False, e')" "bestNeighbor e' = bestNeighbor e"
    "te_state e' = te_state e" "valid e' = valid e" "successors e' = []"
    "map fst (routesBySource e') = map fst (routesBySource e)"
proof (cases "routesBySource e = []")
  case True
  then show thesis using assms(2) that by (simp add: recalculateSuccessors_def)
next
  case False
  obtain ok e' where r: "recalculateSuccessors cfg e = (ok, e')" by (cases "recalculateSuccessors cfg e")
  obtain fd ad best where ch: "chosen cfg e = (fd, ad, best)" by (cases "chosen cfg e")
  note fields = recalculate_fields [OF False ch r]
  have "\<not> ok" using fields(1) assms(1) by (simp add: loadSharing_def)
  moreover have "best = bestNeighbor e" using chosen_cases [OF ch] assms(1) by blast
  ultimately show thesis using r fields(2,6,8) recalculate_keeps [OF r] that by simp
qed

lemma al_del_put: "al_del k (al_put k v xs) = al_del k xs"
  by (induction xs) (auto simp: al_del_def)

lemma pruned_mark:
  "routesBySource (prune_source ip (markRouteUnreachable ip e)) = al_del ip (routesBySource e)"
  "al_get (routesBySource e) ip \<noteq> None \<Longrightarrow>
     successors (prune_source ip (markRouteUnreachable ip e)) = removeAll ip (successors e)"
proof -
  have del: "al_get (routesBySource e) ip = None \<Longrightarrow> al_del ip (routesBySource e) = routesBySource e"
    unfolding al_get_None_iff al_del_def by (rule filter_True) force
  show "routesBySource (prune_source ip (markRouteUnreachable ip e)) = al_del ip (routesBySource e)"
    using del by (auto simp: prune_source_def markRouteUnreachable_def drop_source_def al_del_put split: option.split)
  show "al_get (routesBySource e) ip \<noteq> None \<Longrightarrow>
     successors (prune_source ip (markRouteUnreachable ip e)) = removeAll ip (successors e)"
    by (auto simp: prune_source_def markRouteUnreachable_def drop_source_def)
qed

text \<open>Losing the best neighbor never starts a diffusing computation. When the neighbor of the only
  reachable route goes down, its route is pruned before the successors are reselected, so the test of
  \<open>setActive\<close> for a route from the best neighbor fails: the entry stays passive without a successor, no
  query is sent to the remaining neighbors and no deletion timer is started.\<close>

theorem neighbor_loss_sends_no_query:
  assumes top: "topology s = [(p, e)]" and act: "activeRoutes s = []" and st: "te_state e = PASSIVE"
    and val: "valid e = None" and best: "bestNeighbor e = ip"
    and route: "al_get (routesBySource e) ip \<noteq> None"
    and succ: "set (successors e) \<subseteq> fst ` set (routesBySource e)"
    and others: "\<forall>n ri. (n, ri) \<in> set (routesBySource e) \<longrightarrow> n \<noteq> ip \<longrightarrow> feasibleDistance (routeInfo ri) = max64"
  shows "\<exists>s'. onDown cfg ip s = Some s' \<and> calls s' = calls s @ [UpdateSummary p, SynchronizeRoutes [p]]
    \<and> activeRoutes s' = []
    \<and> (\<exists>e'. topology s' = [(p, e')] \<and> te_state e' = PASSIVE \<and> valid e' = None \<and> successors e' = [])"
proof -
  define e1 where "e1 = prune_source ip (markRouteUnreachable ip e)"
  have rs: "routesBySource e1 = al_del ip (routesBySource e)" "successors e1 = removeAll ip (successors e)"
    using pruned_mark(1) [of ip e] pruned_mark(2) [of e ip] route by (simp_all add: e1_def)
  have "\<forall>n r. \<not> reachable_via e1 n r" using others by (auto simp: reachable_via_def rs al_del_def)
  moreover have "set (successors e1) \<subseteq> fst ` set (routesBySource e1)"
    using succ al_keys_del [of ip "routesBySource e"] by (auto simp: rs)
  ultimately obtain e2 where e2: "recalculateSuccessors cfg e1 = (False, e2)" "bestNeighbor e2 = bestNeighbor e1"
    "te_state e2 = te_state e1" "valid e2 = valid e1" "successors e2 = []"
    "map fst (routesBySource e2) = map fst (routesBySource e1)"
    by (rule recalculate_unreachable)
  have "fst ` set (routesBySource e2) = fst ` set (routesBySource e1)" using e2(6) by (metis list.set_map)
  then have skip: "al_get (routesBySource e2) (bestNeighbor e2) = None"
    using al_keys_del [of ip "routesBySource e"] e2(2) best by (simp add: al_get_None_iff pruned_mark(1) e1_def)
  define s1 where "s1 = s\<lparr>allNeighbors := al_del ip (allNeighbors s), topology := [(p, e1)]\<rparr>"
  define s2 where "s2 = call (SynchronizeRoutes [p]) (call (UpdateSummary p) (set_entry p e2 s1))"
  have "setActive cfg [p] None s2 = Some s2"
    using skip by (simp add: setActive_def activate_def s2_def s1_def)
  then have "updateSuccessors cfg [p] s1 = Some s2"
    using e2(1) by (simp add: updateSuccessors_def recalc_at_def s1_def s2_def)
  moreover have "affected ip (topology s) = [p]" using route by (simp add: affected_def top)
  moreover have "pruneNeighbor (clock s) ip [(p, markRouteUnreachable ip e)] = [(p, e1)]"
    using val by (simp add: pruneNeighbor_def pruneExpired_def expired_def e1_def)
  ultimately have "onDown cfg ip s = Some s2"
    by (simp add: onDown_def onNeighborDown_def removeActiveNeighbor_def act top s1_def)
  then show ?thesis
    using e2 st val act by (auto simp: s2_def s1_def e1_def call_def)
qed

definition loss_ex :: dual where
  "loss_ex = run_ex\<lparr>topology := [(p_ex, (new_entry p_ex)\<lparr>routesBySource := [(nbr_ex, RouteInfo_of (route_to p_ex 4 10))],
     successors := [nbr_ex], bestNeighbor := nbr_ex, bestFD := 10\<rparr>)]\<rparr>"

theorem neighbor_loss_sends_no_query_witness:
  "\<exists>s'. onDown cfg_ex nbr_ex loss_ex = Some s' \<and> calls s' = [UpdateSummary p_ex, SynchronizeRoutes [p_ex]]"
  using neighbor_loss_sends_no_query [of loss_ex p_ex "(new_entry p_ex)\<lparr>routesBySource := [(nbr_ex, RouteInfo_of (route_to p_ex 4 10))],
     successors := [nbr_ex], bestNeighbor := nbr_ex, bestFD := 10\<rparr>" nbr_ex cfg_ex]
  by (auto simp: loss_ex_def run_ex_def dual_init_def new_entry_def)

section \<open>Dangling references\<close>

lemma recalc_all_missing:
  "p \<in> set ps \<Longrightarrow> \<not> has_entry s p \<Longrightarrow> recalc_all cfg ps s = None"
proof (induction ps arbitrary: s)
  case (Cons q ps)
  show ?case
  proof (cases "q = p")
    case True
    with Cons.prems show ?thesis by (simp add: recalc_at_def has_entry_def)
  next
    case False
    show ?thesis
    proof (cases "al_get (topology s) q")
      case None
      then show ?thesis by (simp add: recalc_at_def)
    next
      case (Some e)
      have "\<not> has_entry (set_entry q (snd (recalculateSuccessors cfg e)) s) p"
        using Cons.prems(2) False by (simp add: has_entry_def)
      from Cons.IH [OF _ this] Cons.prems(1) False Some show ?thesis
        by (simp add: recalc_at_def case_prod_unfold Let_def)
    qed
  qed
qed simp

text \<open>Losing a neighbor while an entry it contributes to has outlived its deletion timer follows a
  dangling pointer: \<open>onNeighborDown\<close> collects pointers to the entries, \<open>pruneNeighbor\<close> then erases the
  expired ones, and \<open>updateSuccessors\<close> is run on the collected pointers. The deletion time is not cleared
  when a poisoned prefix becomes reachable again, so this concerns live routes as well.\<close>

theorem neighbor_loss_dangles:
  assumes wf: "al_wf (topology s)" and act: "activeRoutes s = []" and e: "al_get (topology s) p = Some e"
    and exp: "expired (clock s) e" and route: "al_get (routesBySource e) ip \<noteq> None"
  shows "onDown cfg ip s = None"
proof -
  define t1 where "t1 = map (\<lambda>(p, e). (p, markRouteUnreachable ip e)) (topology s)"
  define t2 where "t2 = map (\<lambda>(p, e). (p, prune_source ip e)) t1"
  have wf2: "al_wf t2" using wf by (simp only: t2_def t1_def al_wf_mapped)
  have "al_get t2 p = Some (prune_source ip (markRouteUnreachable ip e))"
    by (simp only: t2_def t1_def al_get_mapped e option.map)
  then have gone: "al_get (pruneExpired (clock s) t2) p = None"
    unfolding pruneExpired_def using al_get_filter [OF wf2] exp by (simp add: expired_def)
  define s1 where "s1 = s\<lparr>allNeighbors := al_del ip (allNeighbors s), topology := pruneExpired (clock s) t2\<rparr>"
  have "p \<in> set (affected ip (topology s))"
    using al_get_SomeD [OF e] route by (force simp: affected_def)
  moreover have "\<not> has_entry s1 p" using gone by (simp add: has_entry_def s1_def)
  ultimately have "recalc_all cfg (affected ip (topology s)) s1 = None" by (rule recalc_all_missing)
  then have "updateSuccessors cfg (affected ip (topology s)) s1 = None" by (simp add: updateSuccessors_def)
  then show ?thesis
    by (simp add: onDown_def onNeighborDown_def removeActiveNeighbor_def act s1_def t2_def t1_def pruneNeighbor_def del: map_map)
qed

theorem neighbor_loss_dangles_witness:
  "onDown cfg_ex nbr_ex (loss_ex\<lparr>topology := map (\<lambda>(p, e). (p, e\<lparr>valid := Some 120\<rparr>)) (topology loss_ex), clock := 121\<rparr>) = None"
  by (rule neighbor_loss_dangles [where p = p_ex])
    (auto simp: loss_ex_def run_ex_def dual_init_def expired_def)

text \<open>A poisoned entry that is reachable again keeps its deletion time and is pruned with its successor.\<close>

lemma revived_entry_is_pruned:
  assumes "valid e = Some t" "recalculateSuccessors cfg (addRouteUpdate now r n e) = (True, e')" "t < later"
  shows "te_state e' = PASSIVE \<and> pruneExpired later [(p, e')] = []"
  using assms recalculate_keeps [OF assms(2)] by (simp add: pruneExpired_def expired_def)

lemma fold_keeps: "(\<And>x s. f (g x s) = f s) \<Longrightarrow> f (fold g xs s) = f s"
  by (induction xs arbitrary: s) auto

lemma concludeActive_timers: "concludeActive cfg p s = Some s' \<Longrightarrow> timers s' = timers s"
proof -
  have "timers (send_replies p ar e s) = timers s" for p ar e s
    unfolding send_replies_def Let_def by (rule fold_keeps) (auto split: prod.split)
  then show "concludeActive cfg p s = Some s' \<Longrightarrow> timers s' = timers s"
    by (auto simp: concludeActive_def Let_def split: option.splits)
qed

lemma remove_active_one_timers: "remove_active_one cfg ip p s = Some s' \<Longrightarrow> timers s' = timers s"
  by (auto simp: remove_active_one_def Let_def dest: concludeActive_timers split: option.splits if_splits)

lemma remove_active_all_timers: "remove_active_all cfg ip ps s = Some s' \<Longrightarrow> timers s' = timers s"
  by (induction ps arbitrary: s) (auto dest!: remove_active_one_timers split: option.splits)

text \<open>Once the neighbor's queries are erased, no record has one.\<close>

definition forgotten :: "IPAddress \<Rightarrow> dual \<Rightarrow> IPPrefix \<Rightarrow> bool" where
  "forgotten ip s p \<longleftrightarrow> (\<forall>ar. al_get (activeRoutes s) p = Some ar \<longrightarrow> al_get (pendingQueries ar) ip = None)"

lemma concludeActive_forgotten:
  assumes "dual_inv_but P s" "has_record s p" "concludeActive cfg p s = Some s'"
  shows "forgotten ip s' p"
  using concludeActive_inv [OF assms(1,2), of cfg] assms(3) by (auto simp: forgotten_def has_record_def)

lemma remove_active_one_forgotten:
  assumes inv: "dual_inv_but P s" and rec: "has_record s p" and run: "remove_active_one cfg ip p s = Some s'"
  shows "forgotten ip s' p"
proof -
  obtain ar where ar: "al_get (activeRoutes s) p = Some ar" using rec by (auto simp: has_record_def)
  define s1 where "s1 = set_active p (ar\<lparr>pendingQueries := al_del ip (pendingQueries ar)\<rparr>) s"
  have inv1: "dual_inv_but (insert p P) s1"
    unfolding s1_def using dual_inv_mono [OF inv, of "insert p P"] dual_invD(2,3) [OF inv] ar rec
    by (intro dual_inv_set_active) auto
  have "has_record s1 p" "forgotten ip s1 p" by (auto simp: s1_def has_record_def forgotten_def)
  with concludeActive_forgotten [OF inv1, of p cfg s' ip] run ar show ?thesis
    by (cases "al_get (pendingQueries ar) ip")
      (auto simp: remove_active_one_def s1_def forgotten_def Let_def split: if_splits)
qed

lemma remove_active_all_forgotten:
  "dual_inv_but P s \<Longrightarrow> distinct ps \<Longrightarrow> \<forall>p\<in>set ps. has_record s p \<Longrightarrow>
     remove_active_all cfg ip ps s = Some s' \<Longrightarrow> p \<in> set ps \<or> forgotten ip s p \<Longrightarrow> forgotten ip s' p"
proof (induction ps arbitrary: s)
  case (Cons q ps)
  have rec: "has_record s q" using Cons.prems(3) by simp
  obtain s1 where s1: "remove_active_one cfg ip q s = Some s1" "dual_inv_but P s1"
    "\<forall>r. r \<noteq> q \<longrightarrow> al_get (activeRoutes s1) r = al_get (activeRoutes s) r"
    using remove_active_one_inv [OF Cons.prems(1) rec, of cfg ip] by blast
  have "forgotten ip s1 q" by (rule remove_active_one_forgotten [OF Cons.prems(1) rec s1(1)])
  then have "p \<in> set ps \<or> forgotten ip s1 p"
    using Cons.prems(5) s1(3) by (cases "p = q") (auto simp: forgotten_def)
  moreover have "\<forall>r\<in>set ps. has_record s1 r" "distinct ps"
    using Cons.prems(2,3) s1(3) by (auto simp: has_record_def)
  moreover have "remove_active_all cfg ip ps s1 = Some s'" using Cons.prems(4) s1(1) by simp
  ultimately show ?case using Cons.IH s1(2) by blast
qed simp

text \<open>The loss of a neighbor erases the queries sent to it but leaves their SIA timers running: the
  timer of an erased query stays scheduled, and when it fires its handler follows the pointer to the
  query that is gone.\<close>

theorem sia_timer_outlives_query:
  assumes inv: "dual_inv s" and t: "al_get (timers s) i = Some t" and ip: "t_neighbor t = ip"
  shows "\<exists>s'. removeActiveNeighbor cfg ip s = Some s' \<and> al_get (timers s') i = Some t
    \<and> fire_timer cfg sent i s' = None"
proof -
  have rec: "\<forall>p\<in>set (map fst (activeRoutes s)). has_record s p"
    by (auto simp: has_record_def al_get_None_iff)
  obtain s' where s': "removeActiveNeighbor cfg ip s = Some s'"
    using removeActiveNeighbor_inv [OF inv, of cfg ip] by blast
  have "t_prefix t \<in> set (map fst (activeRoutes s)) \<or> forgotten ip s (t_prefix t)"
    by (auto simp: forgotten_def dest: al_get_SomeD intro: rev_image_eqI)
  then have f: "forgotten ip s' (t_prefix t)"
    using remove_active_all_forgotten [OF inv dual_invD(7) [OF inv] rec] s' by (simp add: removeActiveNeighbor_def)
  have "timers s' = timers s" using remove_active_all_timers s' by (auto simp: removeActiveNeighbor_def)
  with t f ip have "fire_timer cfg sent i s' = None"
    by (auto simp: fire_timer_def handleSIATimeout_def forgotten_def split: option.split)
  with s' t \<open>timers s' = timers s\<close> show ?thesis by auto
qed

theorem sia_timer_outlives_query_witness:
  "\<exists>s'. removeActiveNeighbor cfg_ex nbr_ex active_ex = Some s' \<and> fire_timer cfg_ex None 1 s' = None"
  using sia_timer_outlives_query [OF active_ex_inv, of 1 "\<lparr>t_prefix = p_ex, t_neighbor = nbr_ex, t_expiry = 90\<rparr>" nbr_ex cfg_ex None]
  by (auto simp: active_ex_def)

end
