(* ===== verification/OspfSpf.thy ===== *)
theory OspfSpf
  imports Prelude "HOL-Library.Product_Lexorder"
begin

text \<open>
  The shortest-path engine of OSPF: \<open>routing/ospf/spf/SpfTypes.hpp\<close> and \<open>SpfEngine.cpp\<close>, full
  computation. The engine is a template over the topology; here its two expansion functions are
  arguments that thread the topology's state, and the locale \<open>spf_graph\<close> states what the engine relies
  on: every expansion gives the outgoing edges of a fixed graph. \<open>OspfTopology\<close> provides both versions.

  The priority queue is the list of its items; \<open>pq_top\<close> is the least by distance, vertex type and
  identifier. The main loop is a total function: every turn either drops an item or confirms a vertex,
  and there are finitely many vertices.
\<close>

section \<open>Data\<close>

datatype VertexType = ROUTER | NETWORK

record Vertex =
  v_type :: VertexType
  v_id :: u64

record ParentRef =
  parent :: Vertex
  firstHopIfid :: u32
  lastHopIfid :: u32
  edgeCost :: u32

record SpfEdge =
  e_to :: Vertex
  e_cost :: u32
  e_ifid :: u32

record SptNode =
  dist :: u64
  confirmed :: bool
  parents :: "ParentRef list"

record SpfResult =
  spf_root :: Vertex
  spf_nodes :: "(Vertex \<times> SptNode) list"
  confirmedOrder :: "Vertex list"

record QItem =
  q_dist :: u64
  q_v :: Vertex

fun type_rank :: "VertexType \<Rightarrow> u8" where
  "type_rank ROUTER = 1"
| "type_rank NETWORK = 2"

abbreviation infinity :: u64 where "infinity \<equiv> - 1"

definition packNetwork :: "u32 \<Rightarrow> u32 \<Rightarrow> u64" where
  "packNetwork advRouter lsId = push_bit 32 (ucast advRouter) OR ucast lsId"

definition networkAdvRouter :: "u64 \<Rightarrow> u32" where
  "networkAdvRouter packed = ucast (drop_bit 32 packed)"

definition networkLsId :: "u64 \<Rightarrow> u32" where
  "networkLsId packed = ucast (packed AND 0xFFFFFFFF)"

definition vertexLess :: "Vertex \<Rightarrow> Vertex \<Rightarrow> bool" where
  "vertexLess a b = (if v_type a \<noteq> v_type b then type_rank (v_type a) < type_rank (v_type b) else v_id a < v_id b)"

definition router_vertex :: "u32 \<Rightarrow> Vertex" where
  "router_vertex rid = \<lparr>v_type = ROUTER, v_id = ucast rid\<rparr>"

definition network_vertex :: "u64 \<Rightarrow> Vertex" where
  "network_vertex nid = \<lparr>v_type = NETWORK, v_id = nid\<rparr>"

definition new_node :: SptNode where
  "new_node = \<lparr>dist = infinity, confirmed = False, parents = []\<rparr>"

section \<open>Priority queue\<close>

definition q_greater :: "QItem \<Rightarrow> QItem \<Rightarrow> bool" where
  "q_greater a b = (if q_dist a \<noteq> q_dist b then q_dist a > q_dist b
     else if v_type (q_v a) \<noteq> v_type (q_v b) then type_rank (v_type (q_v a)) > type_rank (v_type (q_v b))
     else v_id (q_v a) > v_id (q_v b))"

fun pq_least :: "QItem \<Rightarrow> QItem list \<Rightarrow> QItem" where
  "pq_least x [] = x"
| "pq_least x (y # ys) = pq_least (if q_greater x y then y else x) ys"

definition pq_top :: "QItem list \<Rightarrow> QItem" where
  "pq_top pq = (case pq of [] \<Rightarrow> \<lparr>q_dist = 0, q_v = router_vertex 0\<rparr> | x # xs \<Rightarrow> pq_least x xs)"

definition pq_pop :: "QItem list \<Rightarrow> QItem list" where
  "pq_pop pq = remove1 (pq_top pq) pq"

section \<open>Relaxation\<close>

definition addCost :: "u64 \<Rightarrow> u32 \<Rightarrow> u64" where
  "addCost b cost = (if b = infinity then b
     else if infinity - ucast cost < b then infinity else b + ucast cost)"

definition firstHops :: "SpfResult \<Rightarrow> Vertex \<Rightarrow> u32 \<Rightarrow> u32 list" where
  "firstHops res from lastHop = remdups_adj (sort
     (if from = spf_root res then [lastHop]
      else let hs = (case al_get (spf_nodes res) from of None \<Rightarrow> [] | Some n \<Rightarrow> map firstHopIfid (parents n))
           in if hs = [] then [lastHop] else hs))"

definition addParentIfMissing :: "Vertex \<Rightarrow> u32 \<Rightarrow> u32 \<Rightarrow> u32 \<Rightarrow> ParentRef list \<Rightarrow> ParentRef list" where
  "addParentIfMissing from lastHop cost fh ps =
     (let pr = \<lparr>parent = from, firstHopIfid = fh, lastHopIfid = lastHop, edgeCost = cost\<rparr>
      in if pr \<in> set ps then ps else ps @ [pr])"

definition relaxEdgeFull :: "Vertex \<Rightarrow> Vertex \<Rightarrow> u64 \<Rightarrow> u32 \<Rightarrow> u32 \<Rightarrow> SpfResult \<times> QItem list
    \<Rightarrow> SpfResult \<times> QItem list" where
  "relaxEdgeFull from to newDist lastHop cost s = (let (res, pq) = s;
     n = (case al_get (spf_nodes res) to of None \<Rightarrow> new_node | Some n \<Rightarrow> n);
     res = res\<lparr>spf_nodes := al_put to n (spf_nodes res)\<rparr>;
     fhs = firstHops res from lastHop
   in if newDist < dist n
      then if confirmed n then (res, pq)
        else (res\<lparr>spf_nodes := al_put to (n\<lparr>dist := newDist, parents := map (\<lambda>fh.
                 \<lparr>parent = from, firstHopIfid = fh, lastHopIfid = lastHop, edgeCost = cost\<rparr>) fhs\<rparr>) (spf_nodes res)\<rparr>,
              \<lparr>q_dist = newDist, q_v = to\<rparr> # pq)
      else if newDist = dist n
      then (res\<lparr>spf_nodes := al_put to (n\<lparr>parents := fold (addParentIfMissing from lastHop cost) fhs (parents n)\<rparr>)
              (spf_nodes res)\<rparr>, pq)
      else (res, pq))"

definition relax_out :: "Vertex \<Rightarrow> u64 \<Rightarrow> SpfEdge \<Rightarrow> SpfResult \<times> QItem list \<Rightarrow> SpfResult \<times> QItem list" where
  "relax_out v b e s = (let nd = addCost b (e_cost e)
     in if nd = infinity then s else relaxEdgeFull v (e_to e) nd (e_ifid e) (e_cost e) s)"

definition relax_attached :: "Vertex \<Rightarrow> u64 \<Rightarrow> u32 \<Rightarrow> SpfResult \<times> QItem list \<Rightarrow> SpfResult \<times> QItem list" where
  "relax_attached v b rid s = relaxEdgeFull v (router_vertex rid) b 0 0 s"

type_synonym 't router_expansion = "u32 \<Rightarrow> 't \<Rightarrow> SpfEdge list option \<times> 't"
type_synonym 't network_expansion = "u64 \<Rightarrow> 't \<Rightarrow> u32 list option \<times> 't"

definition expandAndRelax :: "'t router_expansion \<Rightarrow> 't network_expansion \<Rightarrow> Vertex
    \<Rightarrow> SpfResult \<times> QItem list \<Rightarrow> 't \<Rightarrow> (SpfResult \<times> QItem list) \<times> 't" where
  "expandAndRelax xr xn v s t = (case al_get (spf_nodes (fst s)) v of
     None \<Rightarrow> (s, t)
   | Some n \<Rightarrow> if dist n = infinity then (s, t)
       else if v_type v = ROUTER
       then (case xr (ucast (v_id v)) t of
               (None, t) \<Rightarrow> (s, t) | (Some es, t) \<Rightarrow> (fold (relax_out v (dist n)) es s, t))
       else (case xn (v_id v) t of
               (None, t) \<Rightarrow> (s, t) | (Some rids, t) \<Rightarrow> (fold (relax_attached v (dist n)) rids s, t)))"

section \<open>What an expansion keeps\<close>

definition is_confirmed :: "SpfResult \<Rightarrow> Vertex \<Rightarrow> bool" where
  "is_confirmed res v = (case al_get (spf_nodes res) v of None \<Rightarrow> False | Some n \<Rightarrow> confirmed n)"

definition dist_of :: "SpfResult \<Rightarrow> Vertex \<Rightarrow> u64" where
  "dist_of res v = (case al_get (spf_nodes res) v of None \<Rightarrow> infinity | Some n \<Rightarrow> dist n)"

definition parents_of :: "SpfResult \<Rightarrow> Vertex \<Rightarrow> ParentRef list" where
  "parents_of res v = (case al_get (spf_nodes res) v of None \<Rightarrow> [] | Some n \<Rightarrow> parents n)"

lemmas node_views = is_confirmed_def dist_of_def parents_of_def

lemma relaxEdgeFull_confirmed [simp]: "is_confirmed (fst (relaxEdgeFull from to nd lh c s)) = is_confirmed (fst s)"
  by (rule ext) (auto simp: relaxEdgeFull_def is_confirmed_def Let_def new_node_def split: prod.split option.split)

lemma fold_relax_confirmed:
  "is_confirmed (fst (fold (relax_out v b) es s)) = is_confirmed (fst s)"
  "is_confirmed (fst (fold (relax_attached v b) rids s)) = is_confirmed (fst s)"
proof -
  show "is_confirmed (fst (fold (relax_out v b) es s)) = is_confirmed (fst s)"
    by (induction es arbitrary: s) (simp_all add: relax_out_def Let_def)
  show "is_confirmed (fst (fold (relax_attached v b) rids s)) = is_confirmed (fst s)"
    by (induction rids arbitrary: s) (simp_all add: relax_attached_def)
qed

lemma expandAndRelax_confirmed: "is_confirmed (fst (fst (expandAndRelax xr xn v s t))) = is_confirmed (fst s)"
  by (auto simp: expandAndRelax_def fold_relax_confirmed split: option.split prod.split)

definition confirm :: "Vertex \<Rightarrow> SptNode \<Rightarrow> SpfResult \<Rightarrow> SpfResult" where
  "confirm v n res = res\<lparr>spf_nodes := al_put v (n\<lparr>confirmed := True\<rparr>) (spf_nodes res),
     confirmedOrder := confirmedOrder res @ [v]\<rparr>"

lemma confirm_confirmed [simp]: "is_confirmed (confirm v n res) = (is_confirmed res)(v := True)"
  by (rule ext) (simp add: confirm_def is_confirmed_def)

lemma finite_vertices: "finite (UNIV :: Vertex set)"
proof -
  have "(UNIV :: Vertex set) = range (\<lambda>(b, i). \<lparr>v_type = (if b then ROUTER else NETWORK), v_id = i\<rparr>)"
    by (auto simp: image_iff) (metis VertexType.exhaust old.unit.exhaust Vertex.cases)
  then show ?thesis by (metis finite finite_imageI)
qed

lemma pq_least_mem: "pq_least x xs \<in> set (x # xs)"
  by (induction xs arbitrary: x) auto

lemma pq_top_mem: "pq \<noteq> [] \<Longrightarrow> pq_top pq \<in> set pq"
  using pq_least_mem by (auto simp: pq_top_def split: list.split)

lemma pq_pop_length: "pq \<noteq> [] \<Longrightarrow> length (pq_pop pq) < length pq"
  using pq_top_mem by (auto simp: pq_pop_def length_remove1)

section \<open>The computation\<close>

function spf_loop :: "'t router_expansion \<Rightarrow> 't network_expansion \<Rightarrow> SpfResult \<Rightarrow> QItem list \<Rightarrow> 't
    \<Rightarrow> SpfResult \<times> 't" where
  "spf_loop xr xn res pq t =
     (if pq = [] then (res, t)
      else let cur = pq_top pq; pq = pq_pop pq in
        (case al_get (spf_nodes res) (q_v cur) of
           None \<Rightarrow> spf_loop xr xn res pq t
         | Some n \<Rightarrow> if q_dist cur \<noteq> dist n \<or> confirmed n then spf_loop xr xn res pq t
             else (case expandAndRelax xr xn (q_v cur) (confirm (q_v cur) n res, pq) t of
                     ((res, pq), t) \<Rightarrow> spf_loop xr xn res pq t)))"
  by pat_completeness auto

termination
proof (relation "measures [\<lambda>(xr, xn, res, pq, t). card {v. \<not> is_confirmed res v}, \<lambda>(xr, xn, res, pq, t). length pq]",
    goal_cases)
  case (4 xr xn res pq t cur pq1 n b t' res' pq')
  have "is_confirmed res' = is_confirmed (confirm (q_v cur) n res)"
    using 4(6,7) expandAndRelax_confirmed [of xr xn "q_v cur" "(confirm (q_v cur) n res, pq1)" t] by (metis fst_conv)
  then have "{v. \<not> is_confirmed res' v} = {v. \<not> is_confirmed res v} - {q_v cur}" by auto
  moreover have "\<not> is_confirmed res (q_v cur)" using 4(4,5) by (auto simp: is_confirmed_def)
  moreover have "finite {v. \<not> is_confirmed res v}" by (rule finite_subset [OF subset_UNIV finite_vertices])
  ultimately have "card {v. \<not> is_confirmed res' v} < card {v. \<not> is_confirmed res v}"
    using card_Diff1_less [of "{v. \<not> is_confirmed res v}" "q_v cur"] by simp
  then show ?case by simp
qed (auto simp: pq_pop_length)

declare spf_loop.simps [simp del]

definition parent_key :: "ParentRef \<Rightarrow> u8 \<times> u64 \<times> u32 \<times> u32 \<times> u32" where
  "parent_key p = (type_rank (v_type (parent p)), v_id (parent p), firstHopIfid p, lastHopIfid p, edgeCost p)"

definition final_parents :: "u8 \<Rightarrow> ParentRef list \<Rightarrow> ParentRef list" where
  "final_parents maxPaths ps = (let ps = remdups_adj (sort_key parent_key ps)
     in if 0 < maxPaths \<and> unat maxPaths < length ps then take (unat maxPaths) ps else ps)"

definition finalizeParents :: "u8 \<Rightarrow> SpfResult \<Rightarrow> SpfResult" where
  "finalizeParents maxPaths res = res\<lparr>spf_nodes := map (\<lambda>(v, n). (v, n\<lparr>parents := final_parents maxPaths (parents n)\<rparr>))
     (spf_nodes res)\<rparr>"

definition spf_start :: "u32 \<Rightarrow> SpfResult" where
  "spf_start rid = (let root = router_vertex rid in
     \<lparr>spf_root = root, spf_nodes = [(root, \<lparr>dist = 0, confirmed = True, parents = []\<rparr>)], confirmedOrder = [root]\<rparr>)"

definition runFull :: "'t router_expansion \<Rightarrow> 't network_expansion \<Rightarrow> u8 \<Rightarrow> u32 \<Rightarrow> 't \<Rightarrow> SpfResult \<times> 't" where
  "runFull xr xn maxPaths rid t =
     (case expandAndRelax xr xn (router_vertex rid) (spf_start rid, []) t of
        ((res, pq), t) \<Rightarrow> (case spf_loop xr xn res pq t of (res, t) \<Rightarrow> (finalizeParents maxPaths res, t)))"


section \<open>One relaxation\<close>

lemma unat_infinity: "unat infinity = 2 ^ 64 - 1"
  by (simp add: unsigned_minus_1_eq_mask mask_eq_exp_minus_1)

lemma finite_distance: "d \<noteq> infinity \<longleftrightarrow> unat d < 2 ^ 64 - 1"
proof -
  have "unat d < 2 ^ 64" using unsigned_less [where ?'a = nat, of d] by simp
  moreover have "d = infinity \<longleftrightarrow> unat d = 2 ^ 64 - 1"
    using unat_infinity by (metis unsigned_word_eqI)
  ultimately show ?thesis by linarith
qed

lemma addCost_cases:
  "addCost b c \<noteq> infinity \<Longrightarrow> unat (addCost b c) = unat b + unat c \<and> b \<noteq> infinity"
  "b \<noteq> infinity \<Longrightarrow> unat b + unat c < 2 ^ 64 - 1 \<Longrightarrow> unat (addCost b c) = unat b + unat c \<and> addCost b c \<noteq> infinity"
proof -
  have u: "unat (ucast c :: u64) = unat c"
    using unsigned_less [where ?'a = nat, of c] by (simp add: unsigned_ucast_eq take_bit_nat_eq_self)
  have cl: "unat c < 2 ^ 32" using unsigned_less [where ?'a = nat, of c] by simp
  note i = unat_infinity
  have le: "ucast c \<le> infinity" by simp
  have s: "unat (infinity - ucast c) = 2 ^ 64 - 1 - unat c"
    using unat_sub [OF le] u i by simp
  have add: "unat (b + ucast c) = unat b + unat c" if "unat b + unat c < 2 ^ 64"
    using that by (simp add: unat_word_ariths u)
  show "addCost b c \<noteq> infinity \<Longrightarrow> unat (addCost b c) = unat b + unat c \<and> b \<noteq> infinity"
    using add s cl by (auto simp: addCost_def word_less_nat_alt split: if_splits)
  show "b \<noteq> infinity \<Longrightarrow> unat b + unat c < 2 ^ 64 - 1 \<Longrightarrow> unat (addCost b c) = unat b + unat c \<and> addCost b c \<noteq> infinity"
    using add s i cl by (auto simp: addCost_def word_less_nat_alt split: if_splits)
qed

lemma addCost_ge: "b \<le> addCost b c"
proof (cases "addCost b c = infinity")
  case False
  then show ?thesis using addCost_cases(1) by (simp add: word_le_nat_alt)
qed simp

lemma addCost_mono:
  assumes "a \<le> b" shows "addCost a c \<le> addCost b c"
proof (cases "addCost b c = infinity")
  case False
  then have b: "unat (addCost b c) = unat b + unat c" using addCost_cases(1) by blast
  moreover have "unat (addCost b c) < 2 ^ 64 - 1" using False finite_distance by blast
  moreover have "unat a \<le> unat b" using assms by (simp add: word_le_nat_alt)
  ultimately have "unat a + unat c < 2 ^ 64 - 1" by linarith
  moreover have "a \<noteq> infinity" using assms addCost_cases(1) [OF False] by (metis antisym word_order.extremum)
  ultimately show ?thesis using addCost_cases(2) b assms by (simp add: word_le_nat_alt)
qed simp

lemma addCost_zero [simp]: "addCost b 0 = b"
  by (simp add: addCost_def)

lemma firstHops_nonempty: "firstHops res from lh \<noteq> []"
  by (simp add: firstHops_def Let_def) (metis length_0_conv length_sort)

lemma addParentIfMissing_set:
  "set (fold (addParentIfMissing from lh c) fhs ps) =
     set ps \<union> (\<lambda>fh. \<lparr>parent = from, firstHopIfid = fh, lastHopIfid = lh, edgeCost = c\<rparr>) ` set fhs"
  by (induction fhs arbitrary: ps) (auto simp: addParentIfMissing_def Let_def)

text \<open>An edge is taken when it improves a vertex not yet confirmed, and tight when it gives its distance.\<close>

definition improves :: "SpfResult \<Rightarrow> u64 \<Rightarrow> SpfEdge \<Rightarrow> bool" where
  "improves res b e \<longleftrightarrow> addCost b (e_cost e) < dist_of res (e_to e) \<and> \<not> is_confirmed res (e_to e)"

definition via :: "Vertex \<Rightarrow> SpfEdge \<Rightarrow> ParentRef \<Rightarrow> bool" where
  "via v e pr \<longleftrightarrow> parent pr = v \<and> lastHopIfid pr = e_ifid e \<and> edgeCost pr = e_cost e"

lemma relax_out_dist:
  "dist_of (fst (relax_out v b e (res, pq))) =
     (if improves res b e then (dist_of res)(e_to e := addCost b (e_cost e)) else dist_of res)"
  by (rule ext)
    (auto simp: relax_out_def relaxEdgeFull_def improves_def dist_of_def is_confirmed_def Let_def new_node_def
      split: option.split)

lemma relax_out_queue:
  "snd (relax_out v b e (res, pq)) =
     (if improves res b e then \<lparr>q_dist = addCost b (e_cost e), q_v = e_to e\<rparr> # pq else pq)"
  by (auto simp: relax_out_def relaxEdgeFull_def improves_def dist_of_def is_confirmed_def Let_def new_node_def
      split: option.split)

lemma relax_out_parents_other: "w \<noteq> e_to e \<Longrightarrow> parents_of (fst (relax_out v b e (res, pq))) w = parents_of res w"
  by (simp add: relax_out_def relaxEdgeFull_def parents_of_def Let_def)

lemma relax_out_parents_new:
  assumes "improves res b e"
  shows "parents_of (fst (relax_out v b e (res, pq))) (e_to e) \<noteq> []"
    and "\<forall>pr\<in>set (parents_of (fst (relax_out v b e (res, pq))) (e_to e)). via v e pr"
proof -
  have "addCost b (e_cost e) \<noteq> infinity" using assms by (auto simp: improves_def)
  then show "parents_of (fst (relax_out v b e (res, pq))) (e_to e) \<noteq> []"
    "\<forall>pr\<in>set (parents_of (fst (relax_out v b e (res, pq))) (e_to e)). via v e pr"
    using assms firstHops_nonempty
    by (auto simp: relax_out_def relaxEdgeFull_def improves_def dist_of_def is_confirmed_def parents_of_def
        Let_def new_node_def via_def split: option.splits)
qed

lemma relax_out_parents_tight:
  assumes "addCost b (e_cost e) \<noteq> infinity" "addCost b (e_cost e) = dist_of res (e_to e)"
  shows "\<exists>prs. prs \<noteq> {} \<and> (\<forall>pr\<in>prs. via v e pr)
    \<and> set (parents_of (fst (relax_out v b e (res, pq))) (e_to e)) = set (parents_of res (e_to e)) \<union> prs"
proof -
  define fhs where "fhs = firstHops (res\<lparr>spf_nodes := al_put (e_to e) (case al_get (spf_nodes res) (e_to e) of
      None \<Rightarrow> new_node | Some n \<Rightarrow> n) (spf_nodes res)\<rparr>) v (e_ifid e)"
  let ?prs = "(\<lambda>fh. \<lparr>parent = v, firstHopIfid = fh, lastHopIfid = e_ifid e, edgeCost = e_cost e\<rparr>) ` set fhs"
  have "set (parents_of (fst (relax_out v b e (res, pq))) (e_to e)) = set (parents_of res (e_to e)) \<union> ?prs"
    using assms by (auto simp: relax_out_def relaxEdgeFull_def dist_of_def parents_of_def Let_def fhs_def
        addParentIfMissing_set new_node_def split: option.splits)
  moreover have "?prs \<noteq> {}" using firstHops_nonempty by (simp add: fhs_def)
  ultimately show ?thesis by (intro exI [of _ ?prs]) (auto simp: via_def)
qed

lemma relax_out_parents_same:
  assumes "\<not> improves res b e" "addCost b (e_cost e) = infinity \<or> addCost b (e_cost e) \<noteq> dist_of res (e_to e)"
  shows "parents_of (fst (relax_out v b e (res, pq))) = parents_of res"
  using assms
  by (auto simp: fun_eq_iff relax_out_def relaxEdgeFull_def improves_def dist_of_def is_confirmed_def parents_of_def
      Let_def new_node_def split: option.splits)

lemma relax_out_root [simp]: "spf_root (fst (relax_out v b e s)) = spf_root (fst s)"
  by (cases s) (simp add: relax_out_def relaxEdgeFull_def Let_def)

lemma pq_least_le: "y \<in> set (x # xs) \<Longrightarrow> q_dist (pq_least x xs) \<le> q_dist y"
proof (induction xs arbitrary: x y)
  case (Cons z xs)
  let ?w = "if q_greater x z then z else x"
  have w: "q_dist ?w \<le> q_dist x" "q_dist ?w \<le> q_dist z" by (auto simp: q_greater_def not_less split: if_splits)
  from Cons.prems consider "y = x" | "y = z" | "y \<in> set xs" by auto
  then show ?case
  proof cases
    case 1
    then show ?thesis using Cons.IH [of ?w ?w] w by (auto intro: order.trans)
  next
    case 2
    then show ?thesis using Cons.IH [of ?w ?w] w by (auto intro: order.trans)
  next
    case 3
    then show ?thesis using Cons.IH [of y ?w] by simp
  qed
qed simp

lemma pq_top_le: "y \<in> set pq \<Longrightarrow> q_dist (pq_top pq) \<le> q_dist y"
  using pq_least_le by (auto simp: pq_top_def split: list.split)


section \<open>Shortest paths\<close>

text \<open>The cost of a path from the root along the edges of the graph.\<close>

inductive path_cost :: "(Vertex \<Rightarrow> SpfEdge list) \<Rightarrow> Vertex \<Rightarrow> Vertex \<Rightarrow> nat \<Rightarrow> bool" for out r where
  start: "path_cost out r r 0"
| hop: "path_cost out r u d \<Longrightarrow> e \<in> set (out u) \<Longrightarrow> path_cost out r (e_to e) (d + unat (e_cost e))"

text \<open>
  The state of the computation: \<open>m\<close> is the distance of the vertex confirmed last, \<open>done v\<close> the outgoing
  edges of \<open>v\<close> relaxed so far. Distances are costs of paths; confirmed vertices are no farther than \<open>m\<close>,
  other reached vertices no nearer and queued; relaxed edges cannot improve; and the parents of a vertex
  are the relaxed edges that give its distance.
\<close>

definition spf_inv :: "(Vertex \<Rightarrow> SpfEdge list) \<Rightarrow> Vertex \<Rightarrow> (Vertex \<Rightarrow> SpfEdge set) \<Rightarrow> u64 \<Rightarrow> SpfResult \<Rightarrow> QItem list \<Rightarrow> bool" where
  "spf_inv out r done m res pq \<longleftrightarrow>
     (\<forall>v. dist_of res v \<noteq> infinity \<longrightarrow> path_cost out r v (unat (dist_of res v)))
   \<and> (\<forall>v. is_confirmed res v \<longrightarrow> dist_of res v \<noteq> infinity \<and> dist_of res v \<le> m)
   \<and> (\<forall>v. \<not> is_confirmed res v \<longrightarrow> dist_of res v \<noteq> infinity \<longrightarrow> m \<le> dist_of res v
        \<and> \<lparr>q_dist = dist_of res v, q_v = v\<rparr> \<in> set pq)
   \<and> (\<forall>v. \<forall>e\<in>done v. e \<in> set (out v) \<and> is_confirmed res v
        \<and> dist_of res (e_to e) \<le> addCost (dist_of res v) (e_cost e))
   \<and> (\<forall>v. \<forall>pr\<in>set (parents_of res v). \<exists>e\<in>done (parent pr). e_to e = v \<and> via (parent pr) e pr
        \<and> addCost (dist_of res (parent pr)) (e_cost e) = dist_of res v \<and> dist_of res v \<noteq> infinity)
   \<and> (\<forall>v. \<forall>e\<in>done v. addCost (dist_of res v) (e_cost e) = dist_of res (e_to e) \<longrightarrow> dist_of res (e_to e) \<noteq> infinity
        \<longrightarrow> (\<exists>pr\<in>set (parents_of res (e_to e)). via v e pr))
   \<and> is_confirmed res r \<and> dist_of res r = 0 \<and> (\<forall>x\<in>set pq. q_dist x \<noteq> infinity)"

lemma spf_invD:
  assumes "spf_inv out r done m res pq"
  shows "dist_of res v \<noteq> infinity \<Longrightarrow> path_cost out r v (unat (dist_of res v))"
    and "is_confirmed res v \<Longrightarrow> dist_of res v \<noteq> infinity"
    and "is_confirmed res v \<Longrightarrow> dist_of res v \<le> m"
    and "\<not> is_confirmed res v \<Longrightarrow> dist_of res v \<noteq> infinity \<Longrightarrow> m \<le> dist_of res v"
    and "\<not> is_confirmed res v \<Longrightarrow> dist_of res v \<noteq> infinity \<Longrightarrow> \<lparr>q_dist = dist_of res v, q_v = v\<rparr> \<in> set pq"
    and "e \<in> done v \<Longrightarrow> is_confirmed res v"
    and "e \<in> done v \<Longrightarrow> e \<in> set (out v)"
    and "e \<in> done v \<Longrightarrow> dist_of res (e_to e) \<le> addCost (dist_of res v) (e_cost e)"
    and "pr \<in> set (parents_of res v) \<Longrightarrow> \<exists>e\<in>done (parent pr). e_to e = v \<and> via (parent pr) e pr
        \<and> addCost (dist_of res (parent pr)) (e_cost e) = dist_of res v \<and> dist_of res v \<noteq> infinity"
    and "e \<in> done v \<Longrightarrow> addCost (dist_of res v) (e_cost e) = dist_of res (e_to e) \<Longrightarrow> dist_of res (e_to e) \<noteq> infinity
        \<Longrightarrow> \<exists>pr\<in>set (parents_of res (e_to e)). via v e pr"
    and "is_confirmed res r" and "dist_of res r = 0"
    and "x \<in> set pq \<Longrightarrow> q_dist x \<noteq> infinity"
  using assms unfolding spf_inv_def by blast+

text \<open>Relaxing an edge of the vertex confirmed last: confirmed vertices keep their distance, others can
  only come nearer, and the edge cannot improve any more.\<close>

lemma relax_dist:
  assumes inv: "spf_inv out r done m res pq"
  shows "is_confirmed res v \<Longrightarrow> dist_of (fst (relax_out u m e (res, pq))) v = dist_of res v"
    and "dist_of (fst (relax_out u m e (res, pq))) v \<le> dist_of res v"
    and "dist_of (fst (relax_out u m e (res, pq))) (e_to e) \<le> addCost m (e_cost e)"
proof -
  show Dc: "is_confirmed res v \<Longrightarrow> dist_of (fst (relax_out u m e (res, pq))) v = dist_of res v" for v
    by (auto simp: relax_out_dist improves_def)
  show "dist_of (fst (relax_out u m e (res, pq))) v \<le> dist_of res v"
    by (auto simp: relax_out_dist improves_def)
  show "dist_of (fst (relax_out u m e (res, pq))) (e_to e) \<le> addCost m (e_cost e)"
  proof (cases "is_confirmed res (e_to e)")
    case True
    then show ?thesis using spf_invD(3) [OF inv True] addCost_ge Dc by (metis order.trans)
  qed (auto simp: relax_out_dist improves_def)
qed

lemma relax_path:
  assumes inv: "spf_inv out r done m res pq" and u: "is_confirmed res u" "dist_of res u = m" and e: "e \<in> set (out u)"
    and v: "dist_of (fst (relax_out u m e (res, pq))) v \<noteq> infinity"
  shows "path_cost out r v (unat (dist_of (fst (relax_out u m e (res, pq))) v))"
proof (cases "improves res m e \<and> v = e_to e")
  case True
  then have "addCost m (e_cost e) \<noteq> infinity" by (auto simp: improves_def)
  then have "unat (addCost m (e_cost e)) = unat m + unat (e_cost e)" using addCost_cases(1) by blast
  moreover have "path_cost out r u (unat m)" using spf_invD(1,2) [OF inv] u by metis
  ultimately show ?thesis using hop [of out r u "unat m" e] e True by (auto simp: relax_out_dist)
next
  case False
  then have "dist_of (fst (relax_out u m e (res, pq))) v = dist_of res v" by (auto simp: relax_out_dist)
  with spf_invD(1) [OF inv] v show ?thesis by simp
qed

text \<open>Where a parent recorded after the relaxation comes from: the edge itself, or before.\<close>

lemma relax_parents_cases:
  assumes "pr \<in> set (parents_of (fst (relax_out u m e (res, pq))) v)"
  obtains (edge) "via u e pr" "v = e_to e"
      "addCost m (e_cost e) = dist_of (fst (relax_out u m e (res, pq))) v" "addCost m (e_cost e) \<noteq> infinity"
    | (kept) "pr \<in> set (parents_of res v)" "dist_of (fst (relax_out u m e (res, pq))) v = dist_of res v"
proof -
  consider (imp) "improves res m e" "v = e_to e"
    | (tight) "\<not> improves res m e" "v = e_to e" "addCost m (e_cost e) \<noteq> infinity" "addCost m (e_cost e) = dist_of res (e_to e)"
    | (same) "\<not> (improves res m e \<and> v = e_to e)" "pr \<in> set (parents_of res v)"
    using assms relax_out_parents_same [of res m e u pq] relax_out_parents_other [of v e u m res pq] by metis
  then show thesis
  proof cases
    case imp
    then show thesis
      using assms relax_out_parents_new(2) [OF imp(1), of u pq] by (intro edge) (auto simp: relax_out_dist improves_def)
  next
    case tight
    obtain prs where "\<forall>pr\<in>prs. via u e pr"
      "set (parents_of (fst (relax_out u m e (res, pq))) (e_to e)) = set (parents_of res (e_to e)) \<union> prs"
      using relax_out_parents_tight [OF tight(3,4), of u pq] by blast
    then show thesis using assms tight edge kept by (auto simp: relax_out_dist)
  next
    case same
    then show thesis by (intro kept) (auto simp: relax_out_dist)
  qed
qed

text \<open>A parent survives the relaxation unless the vertex comes nearer.\<close>

lemma relax_parents_kept:
  assumes "pr \<in> set (parents_of res v)" "dist_of (fst (relax_out u m e (res, pq))) v = dist_of res v"
  shows "pr \<in> set (parents_of (fst (relax_out u m e (res, pq))) v)"
proof -
  have "\<not> (improves res m e \<and> v = e_to e)" using assms(2) by (auto simp: relax_out_dist improves_def split: if_splits)
  then show ?thesis
    using assms(1) relax_out_parents_same [of res m e u pq] relax_out_parents_other [of v e u m res pq]
      relax_out_parents_tight [of m e res u pq]
    by (cases "v = e_to e"; cases "addCost m (e_cost e) = infinity \<or> addCost m (e_cost e) \<noteq> dist_of res (e_to e)") auto
qed

lemma relax_parents_edge:
  assumes "addCost m (e_cost e) = dist_of (fst (relax_out u m e (res, pq))) (e_to e)" "addCost m (e_cost e) \<noteq> infinity"
  shows "\<exists>pr\<in>set (parents_of (fst (relax_out u m e (res, pq))) (e_to e)). via u e pr"
proof (cases "improves res m e")
  case True
  show ?thesis using relax_out_parents_new [OF True, of u pq] by (auto simp: neq_Nil_conv)
next
  case False
  then have "addCost m (e_cost e) = dist_of res (e_to e)" using assms(1) by (simp add: relax_out_dist)
  from relax_out_parents_tight [OF assms(2) this, of u pq] show ?thesis by auto
qed

lemma relax_inv:
  assumes inv: "spf_inv out r done m res pq" and u: "is_confirmed res u" "dist_of res u = m" and e: "e \<in> set (out u)"
  shows "spf_inv out r (done(u := insert e (done u))) m (fst (relax_out u m e (res, pq))) (snd (relax_out u m e (res, pq)))"
proof -
  note I = spf_invD [OF inv]
  define res' where "res' = fst (relax_out u m e (res, pq))"
  define pq' where "pq' = snd (relax_out u m e (res, pq))"
  define done' where "done' = done(u := insert e (done u))"
  note dist = relax_dist [OF inv, where u = u and e = e, folded res'_def]
  have C: "is_confirmed res' = is_confirmed res"
    by (simp add: res'_def relax_out_def Let_def)
  have done': "v = u \<and> f = e \<or> f \<in> done v" if "f \<in> done' v" for f v
    using that by (auto simp: done'_def split: if_splits)
  have Q: "m \<le> dist_of res' v \<and> \<lparr>q_dist = dist_of res' v, q_v = v\<rparr> \<in> set pq'"
    if "\<not> is_confirmed res v" "dist_of res' v \<noteq> infinity" for v
    using that I(4,5) [of v] addCost_ge [of m]
    by (auto simp: res'_def pq'_def relax_out_dist relax_out_queue split: if_splits)
  have R: "f \<in> set (out v) \<and> is_confirmed res v \<and> dist_of res' (e_to f) \<le> addCost (dist_of res' v) (e_cost f)"
    if "f \<in> done' v" for f v
    using done' [OF that]
  proof
    assume "v = u \<and> f = e"
    then show ?thesis using e u dist by simp
  next
    assume f: "f \<in> done v"
    show ?thesis using I(6-8) [OF f] dist(1) dist(2) [of "e_to f"] by (metis order.trans)
  qed
  have S: "\<exists>f\<in>done' (parent pr). e_to f = v \<and> via (parent pr) f pr
      \<and> addCost (dist_of res' (parent pr)) (e_cost f) = dist_of res' v \<and> dist_of res' v \<noteq> infinity"
    if pr: "pr \<in> set (parents_of res' v)" for v pr
  proof (rule relax_parents_cases [OF pr [unfolded res'_def]], fold res'_def)
    assume "via u e pr" "v = e_to e" "addCost m (e_cost e) = dist_of res' v" "addCost m (e_cost e) \<noteq> infinity"
    then show ?thesis using u dist(1) by (intro bexI [of _ e]) (auto simp: done'_def via_def)
  next
    assume k: "pr \<in> set (parents_of res v)" "dist_of res' v = dist_of res v"
    obtain f where f: "f \<in> done (parent pr)" "e_to f = v" "via (parent pr) f pr"
      "addCost (dist_of res (parent pr)) (e_cost f) = dist_of res v" "dist_of res v \<noteq> infinity"
      using I(9) [OF k(1)] by blast
    then show ?thesis using k(2) dist(1) [OF I(6) [OF f(1)]] by (intro bexI [of _ f]) (auto simp: done'_def)
  qed
  have T: "\<exists>pr\<in>set (parents_of res' (e_to f)). via v f pr"
    if f: "f \<in> done' v" "addCost (dist_of res' v) (e_cost f) = dist_of res' (e_to f)" "dist_of res' (e_to f) \<noteq> infinity" for f v
    using done' [OF f(1)]
  proof
    assume "v = u \<and> f = e"
    then show ?thesis using relax_parents_edge [of m e u res pq] f(2,3) u dist(1) by (auto simp: res'_def)
  next
    assume fd: "f \<in> done v"
    have v: "dist_of res' v = dist_of res v" using dist(1) I(6) [OF fd] by simp
    have "dist_of res (e_to f) \<le> dist_of res' (e_to f)" using I(8) [OF fd] f(2) v by simp
    then have same: "dist_of res' (e_to f) = dist_of res (e_to f)" using dist(2) [of "e_to f"] by simp
    then obtain pr where "pr \<in> set (parents_of res (e_to f))" "via v f pr"
      using I(10) [OF fd] f(2,3) v by auto
    then show ?thesis using relax_parents_kept same by (auto simp: res'_def)
  qed
  have K: "is_confirmed res v \<Longrightarrow> dist_of res' v \<noteq> infinity \<and> dist_of res' v \<le> m" for v
    using I(2,3) dist(1) by simp
  have "is_confirmed res r" "dist_of res' r = 0" using I(11,12) dist(1) by auto
  moreover have "\<forall>x\<in>set pq'. q_dist x \<noteq> infinity"
    using I(13) by (auto simp: pq'_def relax_out_queue improves_def)
  ultimately have "spf_inv out r done' m res' pq'"
    unfolding spf_inv_def C using K Q R S T relax_path [OF inv u e, folded res'_def] by blast
  then show ?thesis by (simp add: res'_def pq'_def done'_def)
qed


lemma relax_all_inv:
  "spf_inv out r rel m (fst s) (snd s) \<Longrightarrow> is_confirmed (fst s) u \<Longrightarrow> dist_of (fst s) u = m \<Longrightarrow> set es \<subseteq> set (out u) \<Longrightarrow>
     spf_inv out r (rel(u := rel u \<union> set es)) m (fst (fold (relax_out u m) es s)) (snd (fold (relax_out u m) es s))"
proof (induction es arbitrary: rel s)
  case (Cons e es)
  obtain res pq where s: "s = (res, pq)" by (cases s)
  let ?s = "relax_out u m e (res, pq)"
  have inv: "spf_inv out r rel m res pq" and u: "is_confirmed res u" "dist_of res u = m" and e: "e \<in> set (out u)"
    using Cons.prems by (simp_all add: s)
  have "is_confirmed (fst ?s) u" "dist_of (fst ?s) u = m"
    using u relax_dist(1) [OF inv u(1)] by (simp_all add: relax_out_def Let_def)
  from Cons.IH [OF relax_inv [OF inv u e] this] Cons.prems(4)
  have "spf_inv out r ((rel(u := insert e (rel u)))(u := insert e (rel u) \<union> set es)) m
      (fst (fold (relax_out u m) es ?s)) (snd (fold (relax_out u m) es ?s))" by (simp add: fun_upd_def)
  then show ?case unfolding fun_upd_upd s by (simp add: fun_upd_def)
qed simp

text \<open>Edges of a network vertex: to the attached routers, at no cost.\<close>

definition attached_edge :: "u32 \<Rightarrow> SpfEdge" where
  "attached_edge rid = \<lparr>e_to = router_vertex rid, e_cost = 0, e_ifid = 0\<rparr>"

lemma relax_attached_out: "b \<noteq> infinity \<Longrightarrow> relax_attached v b rid = relax_out v b (attached_edge rid)"
  by (rule ext) (simp add: relax_attached_def relax_out_def attached_edge_def)

text \<open>The rule of the main loop: what holds at the start and is kept by dropping a stale item and by
  confirming a vertex holds at the end, with an empty queue.\<close>

definition stale :: "SpfResult \<Rightarrow> QItem \<Rightarrow> bool" where
  "stale res x = (case al_get (spf_nodes res) (q_v x) of None \<Rightarrow> True | Some n \<Rightarrow> q_dist x \<noteq> dist n \<or> confirmed n)"

lemma spf_loop_rule:
  assumes "spf_loop xr xn res pq t = (res', t')" and "Inv res pq t"
    and "\<And>res pq t. Inv res pq t \<Longrightarrow> pq \<noteq> [] \<Longrightarrow> stale res (pq_top pq) \<Longrightarrow> Inv res (pq_pop pq) t"
    and "\<And>res pq t n res1 pq1 t1. Inv res pq t \<Longrightarrow> pq \<noteq> [] \<Longrightarrow> al_get (spf_nodes res) (q_v (pq_top pq)) = Some n
      \<Longrightarrow> q_dist (pq_top pq) = dist n \<Longrightarrow> \<not> confirmed n
      \<Longrightarrow> expandAndRelax xr xn (q_v (pq_top pq)) (confirm (q_v (pq_top pq)) n res, pq_pop pq) t = ((res1, pq1), t1)
      \<Longrightarrow> Inv res1 pq1 t1"
  shows "Inv res' [] t'"
  using assms
proof (induction xr xn res pq t rule: spf_loop.induct)
  case (1 xr xn res pq t)
  note drop = "1.prems"(3) and step = "1.prems"(4)
  show ?case
  proof (cases "pq = []")
    case True
    then show ?thesis using "1.prems"(1,2) by (simp add: spf_loop.simps)
  next
    case False
    show ?thesis
    proof (cases "al_get (spf_nodes res) (q_v (pq_top pq))")
      case None
      then have "spf_loop xr xn res (pq_pop pq) t = (res', t')"
        using "1.prems"(1) False by (subst (asm) spf_loop.simps) simp
      then show ?thesis
        using "1.IH"(1) [OF False refl refl None] drop [OF "1.prems"(2) False] drop step None
        by (simp add: stale_def)
    next
      case (Some n)
      show ?thesis
      proof (cases "q_dist (pq_top pq) \<noteq> dist n \<or> confirmed n")
        case True
        then have "spf_loop xr xn res (pq_pop pq) t = (res', t')"
          using "1.prems"(1) False Some by (subst (asm) spf_loop.simps) simp
        then show ?thesis
          using "1.IH"(2) [OF False refl refl Some True] drop [OF "1.prems"(2) False] drop step Some True
          by (simp add: stale_def)
      next
        case live: False
        obtain res1 pq1 t1 where ex: "expandAndRelax xr xn (q_v (pq_top pq)) (confirm (q_v (pq_top pq)) n res, pq_pop pq) t
            = ((res1, pq1), t1)"
          by (metis prod.collapse)
        then have "spf_loop xr xn res1 pq1 t1 = (res', t')"
          using "1.prems"(1) False Some live by (subst (asm) spf_loop.simps) simp
        then show ?thesis
          using "1.IH"(3) [OF False refl refl Some live ex [symmetric] refl] step [OF "1.prems"(2) False Some _ _ ex] live drop step
          by blast
      qed
    qed
  qed
qed

section \<open>The engine over a graph\<close>

text \<open>What the engine relies on: the expansions answer from a fixed graph \<open>out\<close>, whatever the state of
  the topology they are run in.\<close>

locale spf_graph =
  fixes xr :: "'t router_expansion" and xn :: "'t network_expansion"
    and tinv :: "'t \<Rightarrow> bool" and out :: "Vertex \<Rightarrow> SpfEdge list"
  assumes router_edges: "tinv t \<Longrightarrow> v_type v = ROUTER \<Longrightarrow>
      \<exists>t'. tinv t' \<and> (xr (ucast (v_id v)) t = (Some (out v), t') \<or> xr (ucast (v_id v)) t = (None, t') \<and> out v = [])"
    and network_edges: "tinv t \<Longrightarrow> v_type v = NETWORK \<Longrightarrow>
      \<exists>t' rids. tinv t' \<and> (xn (v_id v) t = (Some rids, t') \<or> xn (v_id v) t = (None, t') \<and> rids = [])
        \<and> out v = map attached_edge rids"
begin

lemma expand_spec:
  assumes t: "tinv t" and d: "dist_of (fst s) v \<noteq> infinity"
  shows "\<exists>t'. tinv t' \<and> expandAndRelax xr xn v s t = (fold (relax_out v (dist_of (fst s) v)) (out v) s, t')"
proof -
  obtain n where n: "al_get (spf_nodes (fst s)) v = Some n" and dn: "dist n \<noteq> infinity"
    using d by (auto simp: dist_of_def split: option.splits)
  show ?thesis
  proof (cases "v_type v")
    case ROUTER
    with router_edges [OF t ROUTER] n dn show ?thesis by (auto simp: expandAndRelax_def dist_of_def)
  next
    case NETWORK
    have att: "fold (relax_attached v (dist n)) rids s = fold (relax_out v (dist n)) (map attached_edge rids) s" for rids s
      by (induction rids arbitrary: s) (simp_all add: relax_attached_out [OF dn])
    from network_edges [OF t NETWORK] n dn NETWORK show ?thesis
      by (auto simp: expandAndRelax_def dist_of_def att)
  qed
qed

definition settled :: "SpfResult \<Rightarrow> Vertex \<Rightarrow> SpfEdge set" where
  "settled res v = (if is_confirmed res v then set (out v) else {})"

text \<open>Expanding the vertex just confirmed settles it.\<close>

lemma expand_inv:
  assumes inv: "spf_inv out r done m res pq" and u: "is_confirmed res u" "dist_of res u = m"
    and rel: "done = (settled res)(u := {})" and t: "tinv t"
  shows "\<exists>res' pq' t'. expandAndRelax xr xn u (res, pq) t = ((res', pq'), t') \<and> tinv t'
    \<and> spf_inv out r (settled res') m res' pq'"
proof -
  have d: "dist_of res u \<noteq> infinity" using spf_invD(2) [OF inv u(1)] .
  obtain t' where t': "tinv t'" "expandAndRelax xr xn u (res, pq) t = (fold (relax_out u m) (out u) (res, pq), t')"
    using expand_spec [OF t, of "(res, pq)" u] d u(2) by auto
  obtain res' pq' where s: "fold (relax_out u m) (out u) (res, pq) = (res', pq')"
    by (cases "fold (relax_out u m) (out u) (res, pq)")
  have "is_confirmed res' = is_confirmed res"
    using fold_relax_confirmed(1) [of u m "out u" "(res, pq)"] s by simp
  then have "settled res' = done(u := done u \<union> set (out u))"
    using u(1) by (auto simp: fun_eq_iff rel settled_def)
  moreover have "spf_inv out r (done(u := done u \<union> set (out u))) m res' pq'"
    using relax_all_inv [of out r "done" m "(res, pq)" u "out u"] inv u s by simp
  ultimately show ?thesis using t' s by auto
qed

text \<open>An item taken from the queue is stale, or names the nearest vertex not yet confirmed.\<close>

lemma drop_inv:
  assumes inv: "spf_inv out r done m res pq"
    and stale: "\<not> (\<not> is_confirmed res (q_v x) \<and> q_dist x = dist_of res (q_v x) \<and> dist_of res (q_v x) \<noteq> infinity)"
  shows "spf_inv out r done m res (remove1 x pq)"
proof -
  have "\<lparr>q_dist = dist_of res v, q_v = v\<rparr> \<in> set (remove1 x pq)"
    if "\<not> is_confirmed res v" "dist_of res v \<noteq> infinity" for v
    using spf_invD(5) [OF inv that] that stale by (metis QItem.select_convs(1,2) in_set_remove1)
  moreover have "\<forall>y\<in>set (remove1 x pq). q_dist y \<noteq> infinity"
    using spf_invD(13) [OF inv] by (meson notin_set_remove1)
  ultimately show ?thesis using inv unfolding spf_inv_def by blast
qed

lemma confirm_inv:
  assumes inv: "spf_inv out r (settled res) m res pq" and pq: "pq \<noteq> []"
    and n: "al_get (spf_nodes res) (q_v (pq_top pq)) = Some n"
    and cur: "q_dist (pq_top pq) = dist n" "\<not> confirmed n"
  shows "spf_inv out r ((settled (confirm (q_v (pq_top pq)) n res))(q_v (pq_top pq) := {})) (dist n)
    (confirm (q_v (pq_top pq)) n res) (pq_pop pq)"
proof -
  note I = spf_invD [OF inv]
  let ?v = "q_v (pq_top pq)" and ?res = "confirm (q_v (pq_top pq)) n res"
  have fin: "dist n \<noteq> infinity" using I(13) [OF pq_top_mem [OF pq]] cur(1) by simp
  have D: "dist_of ?res = dist_of res" and P: "parents_of ?res = parents_of res"
    using n by (auto simp: fun_eq_iff confirm_def node_views)
  have v: "\<not> is_confirmed res ?v" "dist_of res ?v = dist n" using n cur by (auto simp: node_views)
  have C: "is_confirmed ?res = (is_confirmed res)(?v := True)" by simp
  have st: "(settled ?res)(?v := {}) = settled res" using v(1) by (auto simp: settled_def fun_eq_iff)
  have pop: "\<forall>x\<in>set (pq_pop pq). q_dist x \<noteq> infinity" using I(13) by (auto simp: pq_pop_def dest: notin_set_remove1)
  have "m \<le> dist n" using I(4) [of ?v] v fin by simp
  moreover have "dist n \<le> dist_of res w \<and> \<lparr>q_dist = dist_of res w, q_v = w\<rparr> \<in> set (pq_pop pq)"
    if w: "w \<noteq> ?v" "\<not> is_confirmed res w" "dist_of res w \<noteq> infinity" for w
    using pq_top_le [OF I(5) [OF w(2,3)]] I(5) [OF w(2,3)] w(1) cur(1)
    by (auto simp: pq_pop_def) (metis QItem.select_convs(2) in_set_remove1)
  moreover have "\<forall>w. is_confirmed res w \<longrightarrow> dist_of res w \<le> m" using I(3) by blast
  ultimately have "spf_inv out r (settled res) (dist n) ?res (pq_pop pq)"
    using inv v fin pop unfolding spf_inv_def C D P by (auto intro: order.trans)
  then show ?thesis by (simp add: st)
qed

lemma loop_inv:
  assumes "spf_inv out r (settled res) m res pq" and "tinv t" and "spf_loop xr xn res pq t = (res', t')"
  shows "\<exists>m'. spf_inv out r (settled res') m' res' []"
proof -
  define Inv where "Inv = (\<lambda>res pq t. (\<exists>m. spf_inv out r (settled res) m res pq) \<and> tinv t)"
  have "Inv res' [] t'"
  proof (rule spf_loop_rule [OF assms(3)])
    show "Inv res pq t" using assms by (auto simp: Inv_def)
    show "Inv res (pq_pop pq) t" if i: "Inv res pq t" and "pq \<noteq> []" and s: "stale res (pq_top pq)" for res pq t
    proof -
      from i obtain m where m: "spf_inv out r (settled res) m res pq" and t: "tinv t" by (auto simp: Inv_def)
      have "spf_inv out r (settled res) m res (pq_pop pq)"
        unfolding pq_pop_def using s by (intro drop_inv [OF m]) (auto simp: stale_def node_views split: option.splits)
      with t show ?thesis by (auto simp: Inv_def)
    qed
    show "Inv res1 pq1 t1" if i: "Inv res pq t" and pq: "pq \<noteq> []" and n: "al_get (spf_nodes res) (q_v (pq_top pq)) = Some n"
      and cur: "q_dist (pq_top pq) = dist n" "\<not> confirmed n"
      and ex: "expandAndRelax xr xn (q_v (pq_top pq)) (confirm (q_v (pq_top pq)) n res, pq_pop pq) t = ((res1, pq1), t1)"
      for res pq t n res1 pq1 t1
    proof -
      from i obtain m where m: "spf_inv out r (settled res) m res pq" and t: "tinv t" by (auto simp: Inv_def)
      let ?v = "q_v (pq_top pq)"
      have d: "is_confirmed (confirm ?v n res) ?v" "dist_of (confirm ?v n res) ?v = dist n"
        by (simp_all add: confirm_def node_views)
      from expand_inv [OF confirm_inv [OF m pq n cur] d refl t] ex show ?thesis by (auto simp: Inv_def)
    qed
  qed
  then show ?thesis by (auto simp: Inv_def)
qed

text \<open>The state after the whole loop, before the parents are put in order.\<close>

lemma run_inv:
  assumes t: "tinv t" and run: "runFull xr xn maxPaths rid t = (res, t')"
  obtains res1 m where "res = finalizeParents maxPaths res1" "spf_inv out (router_vertex rid) (settled res1) m res1 []"
proof -
  let ?r = "router_vertex rid" and ?s = "spf_start rid"
  have views: "dist_of ?s v = (if v = ?r then 0 else infinity)" "is_confirmed ?s v \<longleftrightarrow> v = ?r" "parents_of ?s v = []" for v
    by (simp_all add: spf_start_def node_views Let_def)
  have "spf_inv out ?r ((settled ?s)(?r := {})) 0 ?s []"
    unfolding spf_inv_def views settled_def by (auto intro: path_cost.start)
  from expand_inv [OF this _ _ refl t] views obtain res0 pq0 t0 where x:
    "expandAndRelax xr xn ?r (?s, []) t = ((res0, pq0), t0)" "tinv t0" "spf_inv out ?r (settled res0) 0 res0 pq0"
    by auto
  obtain res1 t1 where l: "spf_loop xr xn res0 pq0 t0 = (res1, t1)" by (cases "spf_loop xr xn res0 pq0 t0")
  from loop_inv [OF x(3,2) l] obtain m where "spf_inv out ?r (settled res1) m res1 []" by blast
  moreover have "res = finalizeParents maxPaths res1" using run x(1) l by (simp add: runFull_def)
  ultimately show thesis by (rule that [rotated])
qed

lemma all_confirmed:
  assumes "spf_inv out r (settled res) m res []" "dist_of res v \<noteq> infinity"
  shows "is_confirmed res v"
  using spf_invD(5) [OF assms(1)] assms(2) by auto

lemma no_shorter_path:
  assumes inv: "spf_inv out r (settled res) m res []" and "path_cost out r v d" and "d < 2 ^ 64 - 1"
  shows "unat (dist_of res v) \<le> d"
  using assms(2,3)
proof (induction rule: path_cost.induct)
  case start
  then show ?case using spf_invD(12) [OF inv] by simp
next
  case (hop u d e)
  then have u: "unat (dist_of res u) \<le> d" by simp
  then have fin: "dist_of res u \<noteq> infinity" using hop.prems finite_distance by simp
  have "e \<in> settled res u" using all_confirmed [OF inv fin] hop.hyps by (simp add: settled_def)
  then have "dist_of res (e_to e) \<le> addCost (dist_of res u) (e_cost e)" using spf_invD(8) [OF inv] by blast
  moreover have "unat (addCost (dist_of res u) (e_cost e)) = unat (dist_of res u) + unat (e_cost e)"
    using addCost_cases(2) [OF fin] u hop.prems by simp
  ultimately show ?case using u by (simp add: word_le_nat_alt)
qed

lemma shortest:
  assumes inv: "spf_inv out r (settled res) m res []"
  shows "dist_of res v \<noteq> infinity \<and> unat (dist_of res v) = d \<longleftrightarrow>
    d < 2 ^ 64 - 1 \<and> path_cost out r v d \<and> (\<forall>d'. path_cost out r v d' \<longrightarrow> d \<le> d')"
proof
  assume d: "dist_of res v \<noteq> infinity \<and> unat (dist_of res v) = d"
  then have "d < 2 ^ 64 - 1" using finite_distance by blast
  moreover have "path_cost out r v d" using spf_invD(1) [OF inv] d by blast
  moreover have "d \<le> d'" if "path_cost out r v d'" for d'
    using no_shorter_path [OF inv that] d \<open>d < 2 ^ 64 - 1\<close> by (cases "d' < 2 ^ 64 - 1") auto
  ultimately show "d < 2 ^ 64 - 1 \<and> path_cost out r v d \<and> (\<forall>d'. path_cost out r v d' \<longrightarrow> d \<le> d')" by blast
next
  assume d: "d < 2 ^ 64 - 1 \<and> path_cost out r v d \<and> (\<forall>d'. path_cost out r v d' \<longrightarrow> d \<le> d')"
  then have le: "unat (dist_of res v) \<le> d" using no_shorter_path [OF inv] by blast
  then have fin: "dist_of res v \<noteq> infinity" using d finite_distance by simp
  then have "d \<le> unat (dist_of res v)" using spf_invD(1) [OF inv fin] d by blast
  with le fin show "dist_of res v \<noteq> infinity \<and> unat (dist_of res v) = d" by simp
qed

lemma parents_exact:
  assumes inv: "spf_inv out r (settled res) m res []"
  shows "(\<exists>fh. \<lparr>parent = u, firstHopIfid = fh, lastHopIfid = i, edgeCost = c\<rparr> \<in> set (parents_of res v)) \<longleftrightarrow>
    dist_of res v \<noteq> infinity \<and> addCost (dist_of res u) c = dist_of res v \<and> \<lparr>e_to = v, e_cost = c, e_ifid = i\<rparr> \<in> set (out u)"
proof -
  let ?e = "\<lparr>e_to = v, e_cost = c, e_ifid = i\<rparr>"
  have edge: "e = ?e" if "e_to e = v" "e_cost e = c" "e_ifid e = i" for e :: SpfEdge using that by simp
  have mk: "pr = \<lparr>parent = u, firstHopIfid = firstHopIfid pr, lastHopIfid = i, edgeCost = c\<rparr>" if "via u ?e pr" for pr
    using that by (simp add: via_def)
  show ?thesis
  proof
    assume "\<exists>fh. \<lparr>parent = u, firstHopIfid = fh, lastHopIfid = i, edgeCost = c\<rparr> \<in> set (parents_of res v)"
    then obtain fh where "\<lparr>parent = u, firstHopIfid = fh, lastHopIfid = i, edgeCost = c\<rparr> \<in> set (parents_of res v)" by blast
    from spf_invD(9) [OF inv this] obtain e where e: "e \<in> settled res u" "e_to e = v" "e_cost e = c" "e_ifid e = i"
      "addCost (dist_of res u) (e_cost e) = dist_of res v" "dist_of res v \<noteq> infinity"
      by (auto simp: via_def)
    have "e \<in> set (out u)" using e(1) by (simp add: settled_def split: if_splits)
    then have "?e \<in> set (out u)" using edge [OF e(2-4)] by metis
    with e show "dist_of res v \<noteq> infinity \<and> addCost (dist_of res u) c = dist_of res v \<and> ?e \<in> set (out u)" by simp
  next
    assume a: "dist_of res v \<noteq> infinity \<and> addCost (dist_of res u) c = dist_of res v \<and> ?e \<in> set (out u)"
    then have "dist_of res u \<noteq> infinity" using addCost_cases(1) by metis
    then have "?e \<in> settled res u" using all_confirmed [OF inv] a by (simp add: settled_def)
    from spf_invD(10) [OF inv this] a obtain pr where "pr \<in> set (parents_of res v)" "via u ?e pr" by auto
    then show "\<exists>fh. \<lparr>parent = u, firstHopIfid = fh, lastHopIfid = i, edgeCost = c\<rparr> \<in> set (parents_of res v)"
      using mk by metis
  qed
qed

lemma finalize_views:
  "dist_of (finalizeParents k res) = dist_of res"
  "parents_of (finalizeParents k res) v = final_parents k (parents_of res v)"
proof -
  have "al_get (spf_nodes (finalizeParents k res)) v = map_option (\<lambda>n. n\<lparr>parents := final_parents k (parents n)\<rparr>) (al_get (spf_nodes res) v)" for v
  proof -
    have "al_get (map (\<lambda>(v, n). (v, n\<lparr>parents := final_parents k (parents n)\<rparr>)) xs) v
        = map_option (\<lambda>n. n\<lparr>parents := final_parents k (parents n)\<rparr>) (al_get xs v)" for xs
      by (induction xs) auto
    then show ?thesis by (simp add: finalizeParents_def)
  qed
  then show "dist_of (finalizeParents k res) = dist_of res"
    "parents_of (finalizeParents k res) v = final_parents k (parents_of res v)"
    by (auto simp: fun_eq_iff node_views final_parents_def Let_def split: option.split)
qed

theorem run_shortest:
  assumes "tinv t" and "runFull xr xn maxPaths rid t = (res, t')"
  shows "dist_of res v \<noteq> infinity \<and> unat (dist_of res v) = d \<longleftrightarrow>
    d < 2 ^ 64 - 1 \<and> path_cost out (router_vertex rid) v d
      \<and> (\<forall>d'. path_cost out (router_vertex rid) v d' \<longrightarrow> d \<le> d')"
proof -
  obtain res1 m where "res = finalizeParents maxPaths res1" "spf_inv out (router_vertex rid) (settled res1) m res1 []"
    by (rule run_inv [OF assms])
  with shortest show ?thesis by (simp add: finalize_views)
qed

theorem run_parents:
  assumes "tinv t" and "runFull xr xn 0 rid t = (res, t')"
  shows "(\<exists>fh. \<lparr>parent = u, firstHopIfid = fh, lastHopIfid = i, edgeCost = c\<rparr> \<in> set (parents_of res v)) \<longleftrightarrow>
    dist_of res v \<noteq> infinity \<and> addCost (dist_of res u) c = dist_of res v \<and> \<lparr>e_to = v, e_cost = c, e_ifid = i\<rparr> \<in> set (out u)"
proof -
  obtain res1 m where "res = finalizeParents 0 res1" "spf_inv out (router_vertex rid) (settled res1) m res1 []"
    by (rule run_inv [OF assms])
  with parents_exact show ?thesis by (simp add: finalize_views final_parents_def)
qed

end

end
