(* ===== verification/OspfLsa.thy ===== *)
theory OspfLsa
  imports IpAddress "HOL-Library.Multiset" "HOL-Library.Product_Lexorder"
begin

text \<open>
  The bodies of the link-state advertisements, \<open>routing/ospf/ospfv2/database\<close> and
  \<open>routing/ospf/ospfv3/database\<close>, with their codecs, and the Fletcher checksum they feed,
  \<open>routing/ospf/transmission/OspfFletcher.hpp\<close>.

  A parser takes the bytes from its pointer to the end of the buffer and the length argument. Its
  outer option is undefined behaviour (\<open>None\<close>), its inner one the \<open>std::optional\<close> of the source. A
  serialiser returns its boolean and the buffer. The locale \<open>lsa_codec\<close> is the contract flooding relies
  on: parsing is defined on every buffer and inverts serialisation.
\<close>

section \<open>Buffers\<close>

definition setByte :: "nat \<Rightarrow> u8 \<Rightarrow> u8 list \<Rightarrow> u8 list option" where
  "setByte i v buf = (if i < length buf then Some (buf[i := v]) else None)"

definition writeAt :: "(u8 list \<Rightarrow> 'a \<Rightarrow> u8 list option) \<Rightarrow> nat \<Rightarrow> 'a \<Rightarrow> u8 list \<Rightarrow> u8 list option" where
  "writeAt w off v buf = (if length buf < off then None
     else map_option (\<lambda>t. take off buf @ t) (w (drop off buf) v))"

text \<open>The loop over fixed-width entries: \<open>while (off + w <= len)\<close>.\<close>

function readItems :: "nat \<Rightarrow> (u8 list \<Rightarrow> 'a option) \<Rightarrow> nat \<Rightarrow> nat \<Rightarrow> u8 list \<Rightarrow> 'a list option" where
  "readItems w rd off len buf = (if 0 < w \<and> off + w \<le> len
     then do { x \<leftarrow> rd (drop off buf); xs \<leftarrow> readItems w rd (off + w) len buf; Some (x # xs) }
     else Some [])"
  by pat_completeness auto

termination by (relation "measure (\<lambda>(w, rd, off, len, buf). len - off)") auto

declare readItems.simps [simp del]

fun writeItems :: "nat \<Rightarrow> (u8 list \<Rightarrow> 'a \<Rightarrow> u8 list option) \<Rightarrow> 'a list \<Rightarrow> nat \<Rightarrow> u8 list \<Rightarrow> u8 list option" where
  "writeItems w wr [] off buf = Some buf"
| "writeItems w wr (x # xs) off buf = do { buf \<leftarrow> writeAt wr off x buf; writeItems w wr xs (off + w) buf }"

section \<open>Fletcher checksum\<close>

record ChecksumFletcher =
  c0 :: u16
  c1 :: u16

definition Fletcher_new :: ChecksumFletcher where
  "Fletcher_new = \<lparr>c0 = 0, c1 = 0\<rparr>"

definition add :: "u8 \<Rightarrow> ChecksumFletcher \<Rightarrow> ChecksumFletcher" where
  "add b c = (let a = c0 c + ucast b; a = (if 255 \<le> a then a - 255 else a);
     d = c1 c + a; d = (if 255 \<le> d then d - 255 else d) in \<lparr>c0 = a, c1 = d\<rparr>)"

definition addU32 :: "u32 \<Rightarrow> ChecksumFletcher \<Rightarrow> ChecksumFletcher" where
  "addU32 b c = add (ucast (b AND 0xFF)) (add (ucast (drop_bit 8 b AND 0xFF))
     (add (ucast (drop_bit 16 b AND 0xFF)) (add (ucast (drop_bit 24 b)) c)))"

definition addU24 :: "u32 \<Rightarrow> ChecksumFletcher \<Rightarrow> ChecksumFletcher" where
  "addU24 b c = add (ucast (b AND 0xFF)) (add (ucast (drop_bit 8 b AND 0xFF)) (add (ucast (drop_bit 16 b AND 0xFF)) c))"

definition addU16 :: "u16 \<Rightarrow> ChecksumFletcher \<Rightarrow> ChecksumFletcher" where
  "addU16 b c = add (ucast (b AND 0xFF)) (add (ucast (drop_bit 8 b AND 0xFF)) c)"

definition addBytes :: "u8 list \<Rightarrow> ChecksumFletcher \<Rightarrow> ChecksumFletcher" where
  "addBytes bs c = fold add bs c"

definition finalize :: "ChecksumFletcher \<Rightarrow> u16" where
  "finalize c = (push_bit 8 (c1 c) OR c0 c)"

section \<open>OSPFv2 bodies\<close>

record RouterLinkV2 =
  linkId :: u32
  linkData :: u32
  link_type :: u8
  link_metric :: u16

record RouterLsaV2 =
  router_flags :: u8
  links2 :: "RouterLinkV2 list"

fun readLinksV2 :: "nat \<Rightarrow> nat \<Rightarrow> nat \<Rightarrow> u8 list \<Rightarrow> RouterLinkV2 list option option" where
  "readLinksV2 0 off len buf = Some (Some [])"
| "readLinksV2 (Suc n) off len buf = (if len < off + 12 then Some None else do {
     i \<leftarrow> readU32 (drop off buf);
     d \<leftarrow> readU16 (drop (off + 4) buf);
     t \<leftarrow> byteAt (off + 8) buf;
     tosCount \<leftarrow> byteAt (off + 9) buf;
     mt \<leftarrow> readU16 (drop (off + 10) buf);
     if len < off + 12 + unat tosCount * 4 then Some None else do {
       rest \<leftarrow> readLinksV2 n (off + 12 + unat tosCount * 4) len buf;
       Some (map_option (Cons \<lparr>linkId = i, linkData = ucast d, link_type = t, link_metric = mt\<rparr>) rest) } })"

definition RouterLsaV2_build :: "u8 list \<Rightarrow> u16 \<Rightarrow> RouterLsaV2 option option" where
  "RouterLsaV2_build buf len = (if unat len < 4 then Some None else do {
     f \<leftarrow> byteAt 0 buf;
     linkNum \<leftarrow> readU16 (drop 2 buf);
     ls \<leftarrow> readLinksV2 (unat linkNum) 4 (unat len) buf;
     Some (map_option (\<lambda>ls. \<lparr>router_flags = f, links2 = ls\<rparr>) ls) })"

fun writeLinksV2 :: "RouterLinkV2 list \<Rightarrow> nat \<Rightarrow> u8 list \<Rightarrow> u8 list option" where
  "writeLinksV2 [] off buf = Some buf"
| "writeLinksV2 (l # ls) off buf = do {
     buf \<leftarrow> writeAt writeU32 off (linkId l) buf;
     buf \<leftarrow> writeAt writeU32 (off + 4) (linkData l) buf;
     buf \<leftarrow> setByte off (link_type l) buf;
     buf \<leftarrow> setByte (off + 1) 0 buf;
     buf \<leftarrow> writeAt writeU16 (off + 2) (link_metric l) buf;
     writeLinksV2 ls (off + 14) buf }"

definition RouterLsaV2_buildBody :: "RouterLsaV2 \<Rightarrow> u8 list \<Rightarrow> u16 \<Rightarrow> (bool \<times> u8 list) option" where
  "RouterLsaV2_buildBody lsa buf len = (if length (links2 lsa) * 12 + 4 \<noteq> unat len then Some (False, buf) else do {
     buf \<leftarrow> setByte 0 (router_flags lsa) buf;
     buf \<leftarrow> setByte 1 0 buf;
     buf \<leftarrow> writeAt writeU16 2 (of_nat (length (links2 lsa))) buf;
     buf \<leftarrow> writeLinksV2 (links2 lsa) 4 buf;
     Some (True, buf) })"

definition RouterLsaV2_size :: "RouterLsaV2 \<Rightarrow> u16" where
  "RouterLsaV2_size lsa = 4 + of_nat (4 * length (links2 lsa))"

definition RouterLsaV2_appendChecksum :: "RouterLsaV2 \<Rightarrow> ChecksumFletcher \<Rightarrow> ChecksumFletcher" where
  "RouterLsaV2_appendChecksum lsa c = fold (\<lambda>l c. addU16 (link_metric l) (add (link_type l)
       (addU32 (linkData l) (addU32 (linkId l) c)))) (links2 lsa)
     (addU16 (of_nat (length (links2 lsa))) (add (router_flags lsa) c))"

definition linkV2_key :: "RouterLinkV2 \<Rightarrow> u8 \<times> u32 \<times> u32 \<times> u16" where
  "linkV2_key l = (link_type l, linkId l, linkData l, link_metric l)"

text \<open>\<open>operator==\<close> sorts both link lists and then, at each position, gives up when the two links do
  not differ.\<close>

definition RouterLsaV2_eq :: "RouterLsaV2 \<Rightarrow> RouterLsaV2 \<Rightarrow> bool" where
  "RouterLsaV2_eq a b = (router_flags a = router_flags b \<and> length (links2 a) = length (links2 b)
     \<and> list_all2 (\<lambda>x y. \<not> \<not> x \<noteq> y) (sort_key linkV2_key (links2 a)) (sort_key linkV2_key (links2 b)))"

record NetworkLsaV2 =
  networkMask :: u32
  attachedRouters2 :: "u32 list"

definition NetworkLsaV2_build :: "u8 list \<Rightarrow> u16 \<Rightarrow> NetworkLsaV2 option option" where
  "NetworkLsaV2_build buf len = (if unat len < 4 then Some None else do {
     m \<leftarrow> readU32 buf;
     if (unat len - 4) mod 4 \<noteq> 0 then Some None else do {
       rs \<leftarrow> readItems 4 readU32 4 (unat len) buf;
       Some (Some \<lparr>networkMask = m, attachedRouters2 = rs\<rparr>) } })"

definition NetworkLsaV2_buildBody :: "NetworkLsaV2 \<Rightarrow> u8 list \<Rightarrow> u16 \<Rightarrow> (bool \<times> u8 list) option" where
  "NetworkLsaV2_buildBody lsa buf len = (if length (attachedRouters2 lsa) * 4 + 4 \<noteq> unat len then Some (False, buf) else do {
     buf \<leftarrow> writeU32 buf (networkMask lsa);
     buf \<leftarrow> writeItems 4 writeU32 (attachedRouters2 lsa) 4 buf;
     Some (True, buf) })"

definition NetworkLsaV2_size :: "NetworkLsaV2 \<Rightarrow> u16" where
  "NetworkLsaV2_size lsa = of_nat (4 + 4 * length (attachedRouters2 lsa))"

definition NetworkLsaV2_appendChecksum :: "NetworkLsaV2 \<Rightarrow> ChecksumFletcher \<Rightarrow> ChecksumFletcher" where
  "NetworkLsaV2_appendChecksum lsa c = fold addU32 (attachedRouters2 lsa) (addU32 (networkMask lsa) c)"

definition NetworkLsaV2_eq :: "NetworkLsaV2 \<Rightarrow> NetworkLsaV2 \<Rightarrow> bool" where
  "NetworkLsaV2_eq a b = (length (attachedRouters2 a) = length (attachedRouters2 b) \<and> networkMask a = networkMask b
     \<and> sort (attachedRouters2 a) = sort (attachedRouters2 b))"

record SummaryNetworkLsa =
  sum_networkMask :: u32
  sum_metric :: u32

definition SummaryNetworkLsa_build :: "u8 list \<Rightarrow> u16 \<Rightarrow> SummaryNetworkLsa option option" where
  "SummaryNetworkLsa_build buf len = (if len \<noteq> 8 then Some None else do {
     m \<leftarrow> readU32 buf;
     metricWord \<leftarrow> readU32 (drop 4 buf);
     Some (Some \<lparr>sum_networkMask = m, sum_metric = metricWord AND 0x00FFFFFF\<rparr>) })"

definition SummaryNetworkLsa_buildBody :: "SummaryNetworkLsa \<Rightarrow> u8 list \<Rightarrow> u16 \<Rightarrow> (bool \<times> u8 list) option" where
  "SummaryNetworkLsa_buildBody lsa buf len = (if len \<noteq> 8 then Some (False, buf) else do {
     buf \<leftarrow> writeU32 buf (sum_networkMask lsa);
     buf \<leftarrow> writeAt writeU32 4 (sum_metric lsa) buf;
     Some (True, buf) })"

definition SummaryNetworkLsa_appendChecksum :: "SummaryNetworkLsa \<Rightarrow> ChecksumFletcher \<Rightarrow> ChecksumFletcher" where
  "SummaryNetworkLsa_appendChecksum lsa c = addU32 (sum_metric lsa) (addU32 (sum_networkMask lsa) c)"

record SummaryRouterLsa =
  asbr_metric :: u32

definition SummaryRouterLsa_build :: "u8 list \<Rightarrow> u16 \<Rightarrow> SummaryRouterLsa option option" where
  "SummaryRouterLsa_build buf len = (if len \<noteq> 8 then Some None else do {
     z \<leftarrow> readU32 buf;
     if z \<noteq> 0 then Some None else do {
       metricWord \<leftarrow> readU32 (drop 4 buf);
       Some (Some \<lparr>asbr_metric = metricWord AND 0x00FFFFFF\<rparr>) } })"

definition SummaryRouterLsa_buildBody :: "SummaryRouterLsa \<Rightarrow> u8 list \<Rightarrow> u16 \<Rightarrow> (bool \<times> u8 list) option" where
  "SummaryRouterLsa_buildBody lsa buf len = (if len \<noteq> 8 then Some (False, buf) else do {
     buf \<leftarrow> writeU32 buf 0;
     buf \<leftarrow> writeAt writeU32 4 (asbr_metric lsa) buf;
     Some (True, buf) })"

definition SummaryRouterLsa_appendChecksum :: "SummaryRouterLsa \<Rightarrow> ChecksumFletcher \<Rightarrow> ChecksumFletcher" where
  "SummaryRouterLsa_appendChecksum lsa c = addU32 (asbr_metric lsa OR 0x00FFFFFF) c"

record ExternalLsaV2 =
  ext_networkMask :: u32
  ext_metric :: u32
  ext_isType2 :: bool
  ext_forwardingAddress :: u32
  ext_routeTag :: u32

definition metricWordV2 :: "ExternalLsaV2 \<Rightarrow> u32" where
  "metricWordV2 lsa = (let w = ext_metric lsa AND 0x7FFFFFFF in if ext_isType2 lsa then w OR 0x80000000 else w)"

definition ExternalLsaV2_build :: "u8 list \<Rightarrow> u16 \<Rightarrow> ExternalLsaV2 option option" where
  "ExternalLsaV2_build buf len = (if len \<noteq> 16 then Some None else do {
     m \<leftarrow> readU32 buf;
     metricWord \<leftarrow> readU32 (drop 4 buf);
     fwd \<leftarrow> readU32 (drop 8 buf);
     tag \<leftarrow> readU32 (drop 12 buf);
     Some (Some \<lparr>ext_networkMask = m, ext_metric = metricWord AND 0x7FFFFFFF,
       ext_isType2 = (metricWord AND 0x80000000 \<noteq> 0), ext_forwardingAddress = fwd, ext_routeTag = tag\<rparr>) })"

definition ExternalLsaV2_buildBody :: "ExternalLsaV2 \<Rightarrow> u8 list \<Rightarrow> u16 \<Rightarrow> (bool \<times> u8 list) option" where
  "ExternalLsaV2_buildBody lsa buf len = (if len \<noteq> 16 then Some (False, buf) else do {
     buf \<leftarrow> writeU32 buf (ext_networkMask lsa);
     buf \<leftarrow> writeAt writeU32 4 (metricWordV2 lsa) buf;
     buf \<leftarrow> (if ext_isType2 lsa then setByte 4 0x80 buf else Some buf);
     buf \<leftarrow> writeAt writeU32 8 (ext_forwardingAddress lsa) buf;
     buf \<leftarrow> writeAt writeU32 12 (ext_routeTag lsa) buf;
     Some (True, buf) })"

definition ExternalLsaV2_appendChecksum :: "ExternalLsaV2 \<Rightarrow> ChecksumFletcher \<Rightarrow> ChecksumFletcher" where
  "ExternalLsaV2_appendChecksum lsa c = addU32 (ext_routeTag lsa) (addU32 (ext_forwardingAddress lsa)
     (addU32 (metricWordV2 lsa) (addU32 (ext_networkMask lsa) c)))"

record OpaqueLsaV2 =
  opaqueType :: u8
  opaqueId :: u32
  payload :: "u8 list"

definition OpaqueLsaV2_build :: "u32 \<Rightarrow> u8 list \<Rightarrow> u16 \<Rightarrow> OpaqueLsaV2 option" where
  "OpaqueLsaV2_build linkStateId buf len = (if length buf < unat len then None
     else Some \<lparr>opaqueType = ucast (drop_bit 24 linkStateId), opaqueId = linkStateId AND 0x00FFFFFF,
       payload = take (unat len) buf\<rparr>)"

definition OpaqueLsaV2_size :: "OpaqueLsaV2 \<Rightarrow> u16" where
  "OpaqueLsaV2_size lsa = of_nat (length (payload lsa))"

definition OpaqueLsaV2_buildBody :: "OpaqueLsaV2 \<Rightarrow> u8 list \<Rightarrow> u16 \<Rightarrow> (bool \<times> u8 list) option" where
  "OpaqueLsaV2_buildBody lsa buf len = (if unat len < length (payload lsa) then Some (False, buf)
     else if length buf < length (payload lsa) then None
     else Some (True, payload lsa @ drop (length (payload lsa)) buf))"

definition OpaqueLsaV2_appendChecksum :: "OpaqueLsaV2 \<Rightarrow> ChecksumFletcher \<Rightarrow> ChecksumFletcher" where
  "OpaqueLsaV2_appendChecksum lsa c = addBytes (payload lsa) c"

section \<open>OSPFv3 bodies\<close>

record RouterLinkV3 =
  rl3_type :: u8
  rl3_metric :: u16
  interfaceId :: u32
  neighborInterfaceId :: u32
  neighborRouterId :: u32

record RouterLsaV3 =
  router_options :: u32
  links3 :: "RouterLinkV3 list"

definition readLinkV3 :: "u8 list \<Rightarrow> RouterLinkV3 option" where
  "readLinkV3 p = do {
     t \<leftarrow> byteAt 0 p;
     mt \<leftarrow> readU16 (drop 2 p);
     i \<leftarrow> readU32 (drop 4 p);
     ni \<leftarrow> readU32 (drop 8 p);
     nr \<leftarrow> readU32 (drop 12 p);
     Some \<lparr>rl3_type = t, rl3_metric = mt, interfaceId = i, neighborInterfaceId = ni, neighborRouterId = nr\<rparr> }"

text \<open>The loop leaves \<open>off\<close> at the end of the last whole entry.\<close>

definition RouterLsaV3_build :: "u8 list \<Rightarrow> u16 \<Rightarrow> RouterLsaV3 option option" where
  "RouterLsaV3_build buf len = (if unat len < 4 then Some None else do {
     opts \<leftarrow> readU32 buf;
     ls \<leftarrow> readItems 16 readLinkV3 4 (unat len) buf;
     if 4 + 16 * length ls \<noteq> unat len then Some None
     else Some (Some \<lparr>router_options = opts, links3 = ls\<rparr>) })"

definition writeLinkV3 :: "u8 list \<Rightarrow> RouterLinkV3 \<Rightarrow> u8 list option" where
  "writeLinkV3 buf l = do {
     buf \<leftarrow> setByte 0 (rl3_type l) buf;
     buf \<leftarrow> setByte 1 0 buf;
     buf \<leftarrow> writeAt writeU16 2 (rl3_metric l) buf;
     buf \<leftarrow> writeAt writeU32 4 (interfaceId l) buf;
     buf \<leftarrow> writeAt writeU32 8 (neighborInterfaceId l) buf;
     writeAt writeU32 12 (neighborRouterId l) buf }"

definition RouterLsaV3_buildBody :: "RouterLsaV3 \<Rightarrow> u8 list \<Rightarrow> u16 \<Rightarrow> (bool \<times> u8 list) option" where
  "RouterLsaV3_buildBody lsa buf len = (if unat len \<noteq> 4 + 16 * length (links3 lsa) then Some (False, buf) else do {
     buf \<leftarrow> writeU32 buf (router_options lsa);
     buf \<leftarrow> writeItems 16 writeLinkV3 (links3 lsa) 4 buf;
     Some (True, buf) })"

definition RouterLsaV3_size :: "RouterLsaV3 \<Rightarrow> u16" where
  "RouterLsaV3_size lsa = 4 + of_nat (16 * length (links3 lsa))"

definition RouterLsaV3_appendChecksum :: "RouterLsaV3 \<Rightarrow> ChecksumFletcher \<Rightarrow> ChecksumFletcher" where
  "RouterLsaV3_appendChecksum lsa c = fold (\<lambda>l c. addU32 (neighborRouterId l) (addU32 (neighborInterfaceId l)
       (addU32 (interfaceId l) (addU16 (rl3_metric l) (add (rl3_type l) c))))) (links3 lsa) (addU32 (router_options lsa) c)"

definition linkV3_key :: "RouterLinkV3 \<Rightarrow> u8 \<times> u32 \<times> u32 \<times> u32" where
  "linkV3_key l = (rl3_type l, interfaceId l, neighborInterfaceId l, neighborRouterId l)"

definition RouterLsaV3_eq :: "RouterLsaV3 \<Rightarrow> RouterLsaV3 \<Rightarrow> bool" where
  "RouterLsaV3_eq a b = (router_options a = router_options b \<and> length (links3 a) = length (links3 b)
     \<and> list_all2 (\<lambda>x y. x = y) (sort_key linkV3_key (links3 a)) (sort_key linkV3_key (links3 b)))"

record NetworkLsaV3 =
  net_options :: u32
  attachedRouters3 :: "u32 list"

text \<open>The loop runs while \<open>off < len\<close>; the length is a multiple of four there.\<close>

definition NetworkLsaV3_build :: "u8 list \<Rightarrow> u16 \<Rightarrow> NetworkLsaV3 option option" where
  "NetworkLsaV3_build buf len = (if unat len < 4 then Some None else do {
     opts \<leftarrow> readU24 (drop 1 buf);
     if (unat len - 4) mod 4 \<noteq> 0 then Some None else do {
       rs \<leftarrow> readItems 4 readU32 4 (unat len) buf;
       Some (Some \<lparr>net_options = opts, attachedRouters3 = rs\<rparr>) } })"

definition NetworkLsaV3_buildBody :: "NetworkLsaV3 \<Rightarrow> u8 list \<Rightarrow> u16 \<Rightarrow> (bool \<times> u8 list) option" where
  "NetworkLsaV3_buildBody lsa buf len = (if unat len < 4 then Some (False, buf) else do {
     buf \<leftarrow> writeAt writeU24 1 (net_options lsa) buf;
     if 4 + 4 * length (attachedRouters3 lsa) \<noteq> unat len then Some (False, buf) else do {
       buf \<leftarrow> writeItems 4 writeU32 (attachedRouters3 lsa) 4 buf;
       Some (True, buf) } })"

definition NetworkLsaV3_size :: "NetworkLsaV3 \<Rightarrow> u16" where
  "NetworkLsaV3_size lsa = 4 + of_nat (4 * length (attachedRouters3 lsa))"

definition NetworkLsaV3_appendChecksum :: "NetworkLsaV3 \<Rightarrow> ChecksumFletcher \<Rightarrow> ChecksumFletcher" where
  "NetworkLsaV3_appendChecksum lsa c = fold addU32 (attachedRouters3 lsa) (addU24 (net_options lsa) c)"

definition NetworkLsaV3_eq :: "NetworkLsaV3 \<Rightarrow> NetworkLsaV3 \<Rightarrow> bool" where
  "NetworkLsaV3_eq a b = (length (attachedRouters3 a) = length (attachedRouters3 b) \<and> net_options a = net_options b
     \<and> sort (attachedRouters3 a) = sort (attachedRouters3 b))"

record InterAreaRouterLsa =
  iar_options :: u32
  iar_metric :: u32
  destinationRouterId :: u32

definition InterAreaRouterLsa_build :: "u8 list \<Rightarrow> u16 \<Rightarrow> InterAreaRouterLsa option option" where
  "InterAreaRouterLsa_build buf len = (if len \<noteq> 12 then Some None else do {
     b0 \<leftarrow> byteAt 0 buf;
     if b0 \<noteq> 0 then Some None else do {
       opts \<leftarrow> readU24 (drop 1 buf);
       b4 \<leftarrow> byteAt 4 buf;
       if b4 \<noteq> 0 then Some None else do {
         mt \<leftarrow> readU24 (drop 5 buf);
         rid \<leftarrow> readU32 (drop 8 buf);
         Some (Some \<lparr>iar_options = opts, iar_metric = mt, destinationRouterId = rid\<rparr>) } } })"

definition InterAreaRouterLsa_buildBody :: "InterAreaRouterLsa \<Rightarrow> u8 list \<Rightarrow> u16 \<Rightarrow> (bool \<times> u8 list) option" where
  "InterAreaRouterLsa_buildBody lsa buf len = (if len \<noteq> 12 then Some (False, buf) else do {
     buf \<leftarrow> setByte 0 0 buf;
     buf \<leftarrow> writeAt writeU24 1 (iar_options lsa) buf;
     buf \<leftarrow> setByte 4 0 buf;
     buf \<leftarrow> writeAt writeU24 5 (iar_metric lsa) buf;
     buf \<leftarrow> writeAt writeU32 8 (destinationRouterId lsa) buf;
     Some (True, buf) })"

definition InterAreaRouterLsa_appendChecksum :: "InterAreaRouterLsa \<Rightarrow> ChecksumFletcher \<Rightarrow> ChecksumFletcher" where
  "InterAreaRouterLsa_appendChecksum lsa c = addU32 (destinationRouterId lsa) (addU24 (iar_metric lsa) (addU24 (iar_options lsa) c))"

definition InterAreaRouterLsa_eq :: "InterAreaRouterLsa \<Rightarrow> InterAreaRouterLsa \<Rightarrow> bool" where
  "InterAreaRouterLsa_eq a b = (iar_metric a = iar_metric b \<and> destinationRouterId a = destinationRouterId b)"

section \<open>OSPFv3 bodies with prefixes\<close>

abbreviation prefixBytes :: "u8 \<Rightarrow> nat" where
  "prefixBytes l \<equiv> (unat l + 7) div 8"

text \<open>\<open>uint8_t prefixBytes = ((prefixLen + 31) / 32) * 4\<close>\<close>

definition wordBytes :: "u8 \<Rightarrow> nat" where
  "wordBytes l = ((unat l + 31) div 32) * 4"

record InterAreaPrefixLsa =
  iap_metric :: u32
  iap_options :: u8
  iap_prefix :: IPv6Prefix

definition InterAreaPrefixLsa_build :: "u8 list \<Rightarrow> u16 \<Rightarrow> InterAreaPrefixLsa option option" where
  "InterAreaPrefixLsa_build buf len = (if unat len < 8 then Some None else do {
     b0 \<leftarrow> byteAt 0 buf;
     if b0 \<noteq> 0 then Some None else do {
       mt \<leftarrow> readU24 (drop 1 buf);
       prefixLen \<leftarrow> byteAt 4 buf;
       opts \<leftarrow> byteAt 5 buf;
       z \<leftarrow> readU16 (drop 6 buf);
       if z \<noteq> 0 then Some None
       else if 16 < wordBytes prefixLen then Some None
       else if unat len < 8 + wordBytes prefixLen then Some None
       else do {
         p \<leftarrow> IPv6Prefix_bytes (drop 8 buf) prefixLen False;
         if list_ex (\<lambda>b. b \<noteq> 0) (drop (8 + wordBytes prefixLen) (take (unat len) buf)) then Some None
         else if length buf < unat len then None
         else Some (Some \<lparr>iap_metric = mt, iap_options = opts, iap_prefix = p\<rparr>) } } })"

definition InterAreaPrefixLsa_buildBody :: "InterAreaPrefixLsa \<Rightarrow> u8 list \<Rightarrow> u16 \<Rightarrow> (bool \<times> u8 list) option" where
  "InterAreaPrefixLsa_buildBody lsa buf len = (if unat len < 8 then Some (False, buf) else do {
     buf \<leftarrow> setByte 0 0 buf;
     buf \<leftarrow> writeAt writeU24 1 (iap_metric lsa) buf;
     buf \<leftarrow> setByte 4 (pfx6_len (iap_prefix lsa)) buf;
     buf \<leftarrow> setByte 5 (iap_options lsa) buf;
     buf \<leftarrow> setByte 6 0 buf;
     buf \<leftarrow> setByte 7 0 buf;
     if unat len < 8 + wordBytes (pfx6_len (iap_prefix lsa)) then Some (False, buf) else do {
       buf \<leftarrow> writeAt (\<lambda>d v. writeBytes d v (wordBytes (pfx6_len (iap_prefix lsa)))) 8 (pfx6_addr (iap_prefix lsa)) buf;
       Some (True, buf) } })"

definition InterAreaPrefixLsa_size :: "InterAreaPrefixLsa \<Rightarrow> u16" where
  "InterAreaPrefixLsa_size lsa = of_nat (8 + wordBytes (pfx6_len (iap_prefix lsa)))"

record ExternalLsaV3 =
  ext3_metric :: u32
  ext3_options :: u8
  referencedLsType :: u16
  ext3_prefix :: IPv6Prefix
  ext3_isType2 :: bool
  ext3_forwardingAddress :: "IPv6Address option"
  ext3_routeTag :: "u32 option"
  referencedLsId :: "u32 option"

text \<open>The optional fields that follow the prefix: present, too short (inner \<open>None\<close>) or absent.\<close>

definition optField :: "bool \<Rightarrow> nat \<Rightarrow> (u8 list \<Rightarrow> 'a option) \<Rightarrow> nat \<Rightarrow> nat \<Rightarrow> u8 list
    \<Rightarrow> ('a option \<times> nat) option option" where
  "optField present w rd off len buf = (if \<not> present then Some (Some (None, off))
     else if len < off + w then Some None
     else do { x \<leftarrow> rd (drop off buf); Some (Some (Some x, off + w)) })"

definition ExternalLsaV3_build :: "u8 list \<Rightarrow> u16 \<Rightarrow> ExternalLsaV3 option option" where
  "ExternalLsaV3_build buf len = (if unat len < 8 then Some None else do {
     exOpts \<leftarrow> byteAt 0 buf;
     mt \<leftarrow> readU24 (drop 1 buf);
     prefixLen \<leftarrow> byteAt 4 buf;
     opts \<leftarrow> byteAt 5 buf;
     rt \<leftarrow> readU16 (drop 6 buf);
     if 128 < prefixLen then Some None
     else if unat len < 8 + prefixBytes prefixLen then Some None
     else do {
       p \<leftarrow> IPv6Prefix_bytes (drop 8 buf) prefixLen False;
       f1 \<leftarrow> optField (exOpts AND 2 \<noteq> 0) 16 IPv6Address_bytes (8 + prefixBytes prefixLen) (unat len) buf;
       case f1 of None \<Rightarrow> Some None | Some (fwd, off) \<Rightarrow> do {
         f2 \<leftarrow> optField (exOpts AND 1 \<noteq> 0) 4 readU32 off (unat len) buf;
         case f2 of None \<Rightarrow> Some None | Some (tag, off) \<Rightarrow> do {
           f3 \<leftarrow> optField (rt \<noteq> 0) 4 readU32 off (unat len) buf;
           case f3 of None \<Rightarrow> Some None | Some (rid, off) \<Rightarrow>
             if off \<noteq> unat len then Some None
             else Some (Some \<lparr>ext3_metric = mt, ext3_options = opts, referencedLsType = rt,
               ext3_prefix = p\<lparr>pfx6_len := prefixLen\<rparr>, ext3_isType2 = (exOpts AND 4 \<noteq> 0),
               ext3_forwardingAddress = fwd, ext3_routeTag = tag, referencedLsId = rid\<rparr>) } } } })"

definition orByte0 :: "u8 \<Rightarrow> u8 list \<Rightarrow> u8 list option" where
  "orByte0 v buf = do { b \<leftarrow> byteAt 0 buf; setByte 0 (b OR v) buf }"

text \<open>The flags are or-ed into the first byte of the buffer as it stands.\<close>

definition ExternalLsaV3_buildBody :: "ExternalLsaV3 \<Rightarrow> u8 list \<Rightarrow> u16 \<Rightarrow> (bool \<times> u8 list) option" where
  "ExternalLsaV3_buildBody lsa buf len = (if unat len < 8 then Some (False, buf) else do {
     buf \<leftarrow> (if ext3_isType2 lsa then orByte0 4 buf else Some buf);
     buf \<leftarrow> writeAt writeU24 1 (ext3_metric lsa) buf;
     buf \<leftarrow> setByte 4 (pfx6_len (ext3_prefix lsa)) buf;
     buf \<leftarrow> setByte 5 (ext3_options lsa) buf;
     buf \<leftarrow> writeAt writeU16 6 (referencedLsType lsa) buf;
     let n = prefixBytes (pfx6_len (ext3_prefix lsa)) in
     if unat len < 8 + n then Some (False, buf) else do {
       buf \<leftarrow> writeAt (\<lambda>d v. writeBytes d v n) 8 (pfx6_addr (ext3_prefix lsa)) buf;
       buf \<leftarrow> (if ext3_forwardingAddress lsa \<noteq> None then orByte0 2 buf else Some buf);
       let off = 8 + n; off1 = (if ext3_forwardingAddress lsa \<noteq> None then off + 16 else off) in
       if ext3_forwardingAddress lsa \<noteq> None \<and> unat len < off + 16 then Some (False, buf) else do {
         buf \<leftarrow> (case ext3_forwardingAddress lsa of None \<Rightarrow> Some buf | Some a \<Rightarrow> writeAt writeU128 off (addr6 a) buf);
         buf \<leftarrow> (if ext3_routeTag lsa \<noteq> None then orByte0 1 buf else Some buf);
         if ext3_routeTag lsa \<noteq> None \<and> unat len < off1 + 4 then Some (False, buf) else do {
           buf \<leftarrow> (case ext3_routeTag lsa of None \<Rightarrow> Some buf | Some t \<Rightarrow> writeAt writeU32 off1 t buf);
           let off2 = (if ext3_routeTag lsa \<noteq> None then off1 + 4 else off1) in
           if referencedLsType lsa = 0 then Some (True, buf)
           else if unat len < off2 + 4 then Some (False, buf)
           else (case referencedLsId lsa of None \<Rightarrow> Some (False, buf)
             | Some i \<Rightarrow> do { buf \<leftarrow> writeAt writeU32 off2 i buf; Some (True, buf) }) } } } })"

definition ExternalLsaV3_size :: "ExternalLsaV3 \<Rightarrow> u16" where
  "ExternalLsaV3_size lsa = of_nat (8 + prefixBytes (pfx6_len (ext3_prefix lsa))
     + (if ext3_forwardingAddress lsa \<noteq> None then 16 else 0) + (if ext3_routeTag lsa \<noteq> None then 4 else 0)
     + (if referencedLsId lsa \<noteq> None then 4 else 0))"

record LinkLsaPrefix =
  llp_options :: u8
  llp_prefix :: IPv6Prefix

record LinkLsa =
  link_priority :: u8
  link_options :: u32
  localLink :: IPv6Address
  link_prefixes :: "LinkLsaPrefix list"

text \<open>The offset is not moved past the address bytes of an entry.\<close>

fun readLinkPrefixes :: "nat \<Rightarrow> nat \<Rightarrow> nat \<Rightarrow> u8 list \<Rightarrow> LinkLsaPrefix list option option" where
  "readLinkPrefixes 0 off len buf = Some (Some [])"
| "readLinkPrefixes (Suc n) off len buf = (if len < off + 2 then Some None else do {
     prefixLen \<leftarrow> byteAt off buf;
     opts \<leftarrow> byteAt (off + 1) buf;
     if len < off + 2 + prefixBytes prefixLen then Some None else do {
       p \<leftarrow> IPv6Prefix_bytes (drop (off + 2) buf) prefixLen False;
       rest \<leftarrow> readLinkPrefixes n (off + 2) len buf;
       Some (map_option (Cons \<lparr>llp_options = opts, llp_prefix = p\<rparr>) rest) } })"

definition LinkLsa_build :: "u8 list \<Rightarrow> u16 \<Rightarrow> LinkLsa option option" where
  "LinkLsa_build buf len = (if unat len < 21 then Some None else do {
     pr \<leftarrow> byteAt 0 buf;
     opts \<leftarrow> readU24 (drop 1 buf);
     ll \<leftarrow> IPv6Address_bytes (drop 4 buf);
     n \<leftarrow> byteAt 20 buf;
     ps \<leftarrow> readLinkPrefixes (unat n) 21 (unat len) buf;
     Some (map_option (\<lambda>ps. \<lparr>link_priority = pr, link_options = opts, localLink = ll, link_prefixes = ps\<rparr>) ps) })"

fun writeLinkPrefixes :: "LinkLsaPrefix list \<Rightarrow> nat \<Rightarrow> nat \<Rightarrow> u8 list \<Rightarrow> (bool \<times> u8 list) option" where
  "writeLinkPrefixes [] off len buf = Some (True, buf)"
| "writeLinkPrefixes (l # ls) off len buf = (if len < off + 2 then Some (False, buf) else do {
     buf \<leftarrow> setByte off (pfx6_len (llp_prefix l)) buf;
     buf \<leftarrow> setByte (off + 1) (llp_options l) buf;
     let n = prefixBytes (pfx6_len (llp_prefix l)) in
     if len < off + 2 + n then Some (False, buf) else do {
       buf \<leftarrow> writeAt (\<lambda>d v. writeBytes d v n) (off + 2) (pfx6_addr (llp_prefix l)) buf;
       writeLinkPrefixes ls (off + 2) len buf } })"

definition LinkLsa_buildBody :: "LinkLsa \<Rightarrow> u8 list \<Rightarrow> u16 \<Rightarrow> (bool \<times> u8 list) option" where
  "LinkLsa_buildBody lsa buf len = (if unat len < 20 then Some (False, buf) else do {
     buf \<leftarrow> setByte 0 (link_priority lsa) buf;
     buf \<leftarrow> writeAt writeU24 1 (link_options lsa) buf;
     buf \<leftarrow> writeAt writeU128 4 (addr6 (localLink lsa)) buf;
     buf \<leftarrow> setByte 20 (of_nat (length (link_prefixes lsa))) buf;
     writeLinkPrefixes (link_prefixes lsa) 21 (unat len) buf })"

definition LinkLsa_size :: "LinkLsa \<Rightarrow> u16" where
  "LinkLsa_size lsa = fold (\<lambda>l n. n + of_nat (2 + prefixBytes (pfx6_len (llp_prefix l)))) (link_prefixes lsa) 20"

record IntraAreaPrefix =
  pref_options :: u8
  pref_metric :: u16
  pref_prefix :: IPv6Prefix

record IntraAreaPrefixLsa =
  referencedLsaType :: u16
  referencedLinkStateId :: u32
  referencedAdvRouter :: u32
  intra_prefixes :: "IntraAreaPrefix list"

fun readIntraPrefixes :: "nat \<Rightarrow> nat \<Rightarrow> nat \<Rightarrow> u8 list \<Rightarrow> IntraAreaPrefix list option option" where
  "readIntraPrefixes 0 off len buf = Some (Some [])"
| "readIntraPrefixes (Suc n) off len buf = (if len < off + 4 then Some None else do {
     plen \<leftarrow> byteAt off buf;
     opts \<leftarrow> byteAt (off + 1) buf;
     mt \<leftarrow> readU16 (drop (off + 2) buf);
     if len < off + 4 + prefixBytes plen then Some None else do {
       p \<leftarrow> IPv6Prefix_bytes (drop (off + 4) buf) plen False;
       rest \<leftarrow> readIntraPrefixes n (off + 4 + prefixBytes plen) len buf;
       Some (map_option (Cons \<lparr>pref_options = opts, pref_metric = mt, pref_prefix = p\<rparr>) rest) } })"

definition IntraAreaPrefixLsa_build :: "u8 list \<Rightarrow> u16 \<Rightarrow> IntraAreaPrefixLsa option option" where
  "IntraAreaPrefixLsa_build buf len = (if unat len < 12 then Some None else do {
     prefixCount \<leftarrow> readU16 buf;
     ty \<leftarrow> readU16 (drop 2 buf);
     i \<leftarrow> readU32 (drop 4 buf);
     adv \<leftarrow> readU32 (drop 8 buf);
     ps \<leftarrow> readIntraPrefixes (unat prefixCount) 12 (unat len) buf;
     Some (map_option (\<lambda>ps. \<lparr>referencedLsaType = ty, referencedLinkStateId = i, referencedAdvRouter = adv,
       intra_prefixes = ps\<rparr>) ps) })"

fun writeIntraPrefixes :: "IntraAreaPrefix list \<Rightarrow> nat \<Rightarrow> nat \<Rightarrow> u8 list \<Rightarrow> (bool \<times> u8 list) option" where
  "writeIntraPrefixes [] off len buf = Some (True, buf)"
| "writeIntraPrefixes (p # ps) off len buf = (if len < off + 4 then Some (False, buf) else do {
     buf \<leftarrow> setByte off (pfx6_len (pref_prefix p)) buf;
     buf \<leftarrow> setByte (off + 1) (pref_options p) buf;
     buf \<leftarrow> writeAt writeU16 (off + 2) (pref_metric p) buf;
     let n = prefixBytes (pfx6_len (pref_prefix p)) in
     if len < off + 4 + n then Some (False, buf) else do {
       buf \<leftarrow> writeAt (\<lambda>d v. writeBytes d v n) (off + 4) (pfx6_addr (pref_prefix p)) buf;
       writeIntraPrefixes ps (off + 4 + n) len buf } })"

definition IntraAreaPrefixLsa_buildBody :: "IntraAreaPrefixLsa \<Rightarrow> u8 list \<Rightarrow> u16 \<Rightarrow> (bool \<times> u8 list) option" where
  "IntraAreaPrefixLsa_buildBody lsa buf len = (if unat len < 12 then Some (False, buf) else do {
     buf \<leftarrow> writeU16 buf (of_nat (length (intra_prefixes lsa)));
     buf \<leftarrow> writeAt writeU16 2 (referencedLsaType lsa) buf;
     buf \<leftarrow> writeAt writeU32 4 (referencedLinkStateId lsa) buf;
     buf \<leftarrow> writeAt writeU32 8 (referencedAdvRouter lsa) buf;
     writeIntraPrefixes (intra_prefixes lsa) 12 (unat len) buf })"

definition IntraAreaPrefixLsa_size :: "IntraAreaPrefixLsa \<Rightarrow> u16" where
  "IntraAreaPrefixLsa_size lsa = fold (\<lambda>p n. n + of_nat (4 + prefixBytes (pfx6_len (pref_prefix p)))) (intra_prefixes lsa) 12"

section \<open>Any body\<close>

datatype LsaBody =
    Monostate
  | Body_RouterLsaV2 RouterLsaV2
  | Body_NetworkLsaV2 NetworkLsaV2
  | Body_SummaryNetworkLsa SummaryNetworkLsa
  | Body_SummaryRouterLsa SummaryRouterLsa
  | Body_ExternalLsaV2 ExternalLsaV2
  | Body_OpaqueLsaV2 OpaqueLsaV2
  | Body_RouterLsaV3 RouterLsaV3
  | Body_NetworkLsaV3 NetworkLsaV3
  | Body_InterAreaPrefixLsa InterAreaPrefixLsa
  | Body_InterAreaRouterLsa InterAreaRouterLsa
  | Body_ExternalLsaV3 ExternalLsaV3
  | Body_LinkLsa LinkLsa
  | Body_IntraAreaPrefixLsa IntraAreaPrefixLsa

section \<open>Reads and writes at an offset\<close>

lemma setByte_spec: "Suc i \<le> length buf \<Longrightarrow> setByte i v buf = Some (take i buf @ v # drop (Suc i) buf)"
  by (simp add: setByte_def upd_conv_take_nth_drop)

lemma byteAt_spec: "Suc i \<le> length buf \<Longrightarrow> byteAt i buf = Some (buf ! i)"
  by (simp add: byteAt_def)

lemma writeAt_spec: "off \<le> length buf \<Longrightarrow> writeAt w off v buf = map_option (\<lambda>t. take off buf @ t) (w (drop off buf) v)"
  by (simp add: writeAt_def)

lemmas buffer_ops = setByte_spec byteAt_spec writeAt_spec readU16_spec readU24_spec readU32_spec
  writeU16_spec writeU24_spec writeU32_spec nth_append be_word_be_bytes and_mask_width

lemma readItems_write:
  assumes rd: "\<And>x d. x \<in> set xs \<Longrightarrow> rd (enc x @ d) = Some x" and len: "\<And>x. length (enc x) = w" and w: "0 < w"
    and off: "length pre = off"
  shows "readItems w rd off (off + w * length xs) (pre @ concat (map enc xs) @ post) = Some xs"
  using rd off
proof (induction xs arbitrary: off pre)
  case Nil
  then show ?case using w by (simp add: readItems.simps)
next
  case (Cons x xs)
  have "readItems w rd (off + w) (off + w + w * length xs) ((pre @ enc x) @ concat (map enc xs) @ post) = Some xs"
    using Cons.prems len by (intro Cons.IH) auto
  moreover have "rd (drop off (pre @ concat (map enc (x # xs)) @ post)) = Some x"
    using Cons.prems by simp
  ultimately show ?case using w by (subst readItems.simps) (simp add: add.assoc)
qed

lemma writeItems_spec:
  assumes wr: "\<And>x d. w \<le> length d \<Longrightarrow> wr d x = Some (enc x @ drop w d)" and len: "\<And>x. length (enc x) = w"
    and "off + w * length xs \<le> length buf"
  shows "writeItems w wr xs off buf = Some (take off buf @ concat (map enc xs) @ drop (off + w * length xs) buf)"
  using assms(3)
proof (induction xs arbitrary: off buf)
  case (Cons x xs)
  let ?b = "take off buf @ enc x @ drop (off + w) buf"
  have "writeAt wr off x buf = Some ?b"
    using Cons.prems wr by (simp add: writeAt_spec add.commute)
  moreover have "writeItems w wr xs (off + w) ?b
      = Some (take (off + w) ?b @ concat (map enc xs) @ drop (off + w + w * length xs) ?b)"
    using Cons.prems len by (intro Cons.IH) auto
  ultimately show ?case using Cons.prems len by (simp add: algebra_simps)
qed simp

lemma readItems_total:
  assumes rd: "\<And>d. w \<le> length d \<Longrightarrow> rd d \<noteq> None" and len: "len \<le> length buf"
  shows "\<exists>xs. readItems w rd off len buf = Some xs"
proof (induction "len - off" arbitrary: off rule: less_induct)
  case less
  show ?case
  proof (cases "0 < w \<and> off + w \<le> len")
    case True
    then obtain x where "rd (drop off buf) = Some x" using rd [of "drop off buf"] len by fastforce
    moreover have "len - (off + w) < len - off" using True by linarith
    then obtain xs where "readItems w rd (off + w) len buf = Some xs" using less [of "off + w"] by blast
    ultimately show ?thesis using True by (subst readItems.simps) simp
  next
    case False
    then show ?thesis by (subst readItems.simps) (simp only: if_False option.simps simp_thms ex_simps)
  qed
qed

section \<open>The contract of a codec\<close>

text \<open>What the flooding code relies on. \<open>pre x buf\<close> restricts the values the wire format can carry and
  the buffers the serialiser is given.\<close>

locale lsa_codec =
  fixes bld :: "u8 list \<Rightarrow> u16 \<Rightarrow> 'a option option"
    and enc :: "'a \<Rightarrow> u8 list \<Rightarrow> u16 \<Rightarrow> (bool \<times> u8 list) option"
    and sz :: "'a \<Rightarrow> u16"
    and pre :: "'a \<Rightarrow> u8 list \<Rightarrow> bool"
  assumes parse_total: "unat len \<le> length buf \<Longrightarrow> bld buf len \<noteq> None"
    and decodes: "pre x buf \<Longrightarrow> unat (sz x) \<le> length buf \<Longrightarrow>
      \<exists>buf'. enc x buf (sz x) = Some (True, buf') \<and> length buf' = length buf \<and> bld buf' (sz x) = Some (Some x)"
begin

text \<open>A body read back from the wire and sent on is the same body, and no two bodies look the same on
  the wire.\<close>

lemma encode_injective:
  assumes "pre x buf" "pre y buf" "sz x = sz y" "unat (sz x) \<le> length buf" "enc x buf (sz x) = enc y buf (sz y)"
  shows "x = y"
  using decodes [OF assms(1,4)] decodes [of y buf] assms(2-5) by auto

lemma reencode:
  assumes "pre x buf" "unat (sz x) \<le> length buf" "enc x buf (sz x) = Some (True, buf')" "bld buf' (sz x) = Some (Some y)"
  shows "y = x"
  using decodes [OF assms(1,2)] assms(3,4) by auto

end

lemma low_bits:
  "(0x00FFFFFF :: u32) = mask 24" "(0x7FFFFFFF :: u32) = mask 31"
  by (simp_all add: mask_eq_exp_minus_1)

lemma high_bit:
  "bit (0x80000000 :: u32) i \<longleftrightarrow> i = 31" "(w :: u32) AND 0x80000000 = 0 \<longleftrightarrow> \<not> bit w 31"
  "bit (0x80 :: u8) i \<longleftrightarrow> i = 7"
  using bit_exp_iff [where 'a = u32, of 31 i] bit_exp_iff [where 'a = u8, of 7 i] and_exp_eq_0_iff_not_bit [of w 31] by auto

lemma unat_of_nat16: "n < 2 ^ 16 \<Longrightarrow> unat (of_nat n :: u16) = n"
  by (simp add: unsigned_of_nat take_bit_nat_eq_self)

text \<open>Every codec that keeps its contract, with the values its format carries.\<close>

definition small :: "nat \<Rightarrow> nat \<Rightarrow> 'a list \<Rightarrow> bool" where
  "small h w xs = (h + w * length xs < 2 ^ 16)"

interpretation sumnet: lsa_codec SummaryNetworkLsa_build SummaryNetworkLsa_buildBody "\<lambda>_. 8" "\<lambda>x _. sum_metric x AND mask 24 = sum_metric x"
  by unfold_locales (auto simp: SummaryNetworkLsa_build_def SummaryNetworkLsa_buildBody_def buffer_ops low_bits)

interpretation sumrtr: lsa_codec SummaryRouterLsa_build SummaryRouterLsa_buildBody "\<lambda>_. 8" "\<lambda>x _. asbr_metric x AND mask 24 = asbr_metric x"
  by unfold_locales (auto simp: SummaryRouterLsa_build_def SummaryRouterLsa_buildBody_def buffer_ops low_bits)

interpretation iarea: lsa_codec InterAreaRouterLsa_build InterAreaRouterLsa_buildBody "\<lambda>_. 12"
    "\<lambda>x _. iar_options x AND mask 24 = iar_options x \<and> iar_metric x AND mask 24 = iar_metric x"
  by unfold_locales (auto simp: InterAreaRouterLsa_build_def InterAreaRouterLsa_buildBody_def buffer_ops low_bits)


lemma metric_word:
  assumes m: "ext_metric x AND mask (if ext_isType2 x then 24 else 31) = ext_metric x"
  shows "metricWordV2 x AND mask 31 = ext_metric x" and "bit (metricWordV2 x) 31 \<longleftrightarrow> ext_isType2 x"
    and "ext_isType2 x \<Longrightarrow> be_bytes 4 (metricWordV2 x) = 0x80 # be_bytes 3 (metricWordV2 x)"
proof -
  have low: "bit (ext_metric x) i \<Longrightarrow> i < (if ext_isType2 x then 24 else 31)" for i
    using m by (metis bit_and_iff bit_mask_iff)
  have mw: "bit (metricWordV2 x) i \<longleftrightarrow> bit (ext_metric x) i \<and> i < 31 \<or> ext_isType2 x \<and> i = 31" for i
    unfolding metricWordV2_def low_bits Let_def by (auto simp: bit_or_iff bit_and_iff bit_mask_iff high_bit simp del: bit_numeral_word_iff)
  show "metricWordV2 x AND mask 31 = ext_metric x"
    using low by (intro bit_word_eqI) (force simp: bit_and_iff bit_mask_iff mw split: if_splits)
  show "bit (metricWordV2 x) 31 \<longleftrightarrow> ext_isType2 x" by (simp add: mw)
  assume t: "ext_isType2 x"
  have "(ucast (drop_bit 24 (metricWordV2 x)) :: u8) = 0x80"
  proof (rule bit_word_eqI)
    fix n assume "n < LENGTH(8)"
    then show "bit (ucast (drop_bit 24 (metricWordV2 x)) :: u8) n = bit (0x80 :: u8) n"
      using low [of "24 + n"] t by (simp only: bit_ucast_iff bit_drop_bit_eq mw high_bit comp_def if_True) auto
  qed
  then show "be_bytes 4 (metricWordV2 x) = 0x80 # be_bytes 3 (metricWordV2 x)"
    by (simp add: eval_nat_numeral)
qed

interpretation ext2: lsa_codec ExternalLsaV2_build ExternalLsaV2_buildBody "\<lambda>_. 16"
    "\<lambda>x _. ext_metric x AND mask (if ext_isType2 x then 24 else 31) = ext_metric x"
proof (unfold_locales, goal_cases)
  case (1 len buf)
  then show ?case by (auto simp: ExternalLsaV2_build_def buffer_ops)
next
  case (2 x buf)
  note w = metric_word [OF 2(1)]
  have "be_word (0x80 # be_bytes 3 (metricWordV2 x)) = metricWordV2 x" if "ext_isType2 x"
    using be_roundtrip [of 4 "metricWordV2 x"] w(3) [OF that] by simp
  moreover have "16 \<le> length buf" "Suc (length buf - Suc 0) = length buf" using 2 by simp_all
  ultimately show ?case using w
    by (cases "ext_isType2 x") (simp_all add: ExternalLsaV2_build_def ExternalLsaV2_buildBody_def buffer_ops low_bits high_bit)
qed

lemma net2_size: "small 4 4 (attachedRouters2 x) \<Longrightarrow> unat (NetworkLsaV2_size x) = 4 + 4 * length (attachedRouters2 x)"
  using unat_of_nat16 [of "4 + 4 * length (attachedRouters2 x)"] by (simp add: NetworkLsaV2_size_def small_def)

lemma net2_wire:
  assumes "small 4 4 (attachedRouters2 x)" "unat (NetworkLsaV2_size x) \<le> length buf"
  shows "NetworkLsaV2_buildBody x buf (NetworkLsaV2_size x) = Some (True, be_bytes 4 (networkMask x)
    @ concat (map (be_bytes 4) (attachedRouters2 x)) @ drop (4 + 4 * length (attachedRouters2 x)) buf)"
  using assms net2_size [OF assms(1)]
    writeItems_spec [of 4 writeU32 "be_bytes 4" 4 "attachedRouters2 x" "be_bytes 4 (networkMask x) @ drop 4 buf"]
  by (simp add: NetworkLsaV2_buildBody_def writeU32_spec algebra_simps)

interpretation net2: lsa_codec NetworkLsaV2_build NetworkLsaV2_buildBody NetworkLsaV2_size "\<lambda>x _. small 4 4 (attachedRouters2 x)"
proof (unfold_locales, goal_cases)
  case (1 len buf)
  then obtain rs where "readItems 4 readU32 4 (unat len) buf = Some rs"
    using readItems_total [of 4 readU32 "unat len" buf 4] by (auto simp: readU32_spec)
  with 1 show ?case by (simp add: NetworkLsaV2_build_def buffer_ops)
next
  case (2 x buf)
  let ?rs = "attachedRouters2 x"
  let ?b = "be_bytes 4 (networkMask x) @ concat (map (be_bytes 4) ?rs) @ drop (4 + 4 * length ?rs) buf"
  have "readItems 4 readU32 4 (4 + 4 * length ?rs) ?b = Some ?rs"
    by (rule readItems_write) (simp_all add: buffer_ops)
  then show ?case using 2 net2_size [OF 2(1)] net2_wire [OF 2]
    by (auto simp: NetworkLsaV2_build_def buffer_ops length_concat comp_def sum_list_triv)
qed

interpretation net3: lsa_codec NetworkLsaV3_build NetworkLsaV3_buildBody NetworkLsaV3_size
    "\<lambda>x _. small 4 4 (attachedRouters3 x) \<and> net_options x AND mask 24 = net_options x"
proof (unfold_locales, goal_cases)
  case (1 len buf)
  then obtain rs where "readItems 4 readU32 4 (unat len) buf = Some rs"
    using readItems_total [of 4 readU32 "unat len" buf 4] by (auto simp: readU32_spec)
  with 1 show ?case by (simp add: NetworkLsaV3_build_def buffer_ops)
next
  case (2 x buf)
  let ?rs = "attachedRouters3 x"
  have sz: "unat (NetworkLsaV3_size x) = 4 + 4 * length ?rs"
    using 2(1) unat_of_nat16 [of "4 + 4 * length ?rs"] by (simp add: NetworkLsaV3_size_def small_def)
  let ?h = "take 1 buf @ be_bytes 3 (net_options x)"
  let ?b = "?h @ concat (map (be_bytes 4) ?rs) @ drop (4 + 4 * length ?rs) buf"
  have h: "length ?h = 4" using 2 sz by simp
  have "NetworkLsaV3_buildBody x buf (NetworkLsaV3_size x) = Some (True, ?b)"
    using 2 sz h writeItems_spec [of 4 writeU32 "be_bytes 4" 4 ?rs "?h @ drop 4 buf"]
    by (simp add: NetworkLsaV3_buildBody_def writeU32_spec writeAt_spec writeU24_spec algebra_simps)
  moreover have "readItems 4 readU32 4 (4 + 4 * length ?rs) ?b = Some ?rs"
    by (rule readItems_write [OF _ _ _ h]) (simp_all add: buffer_ops)
  ultimately show ?case using 2 sz h
    by (auto simp: NetworkLsaV3_build_def buffer_ops length_concat comp_def sum_list_triv)
qed

definition linkV3_bytes :: "RouterLinkV3 \<Rightarrow> u8 list" where
  "linkV3_bytes l = rl3_type l # 0 # be_bytes 2 (rl3_metric l) @ be_bytes 4 (interfaceId l)
     @ be_bytes 4 (neighborInterfaceId l) @ be_bytes 4 (neighborRouterId l)"

lemma linkV3_codec:
  "16 \<le> length d \<Longrightarrow> writeLinkV3 d l = Some (linkV3_bytes l @ drop 16 d)"
  "readLinkV3 (linkV3_bytes l @ d) = Some l" "length (linkV3_bytes l) = 16"
  "16 \<le> length d \<Longrightarrow> readLinkV3 d \<noteq> None"
  by (auto simp: writeLinkV3_def readLinkV3_def linkV3_bytes_def buffer_ops)

interpretation rtr3: lsa_codec RouterLsaV3_build RouterLsaV3_buildBody RouterLsaV3_size "\<lambda>x _. small 4 16 (links3 x)"
proof (unfold_locales, goal_cases)
  case (1 len buf)
  then obtain ls where "readItems 16 readLinkV3 4 (unat len) buf = Some ls"
    using readItems_total [of 16 readLinkV3 "unat len" buf 4] linkV3_codec(4) by blast
  with 1 show ?case by (simp add: RouterLsaV3_build_def buffer_ops)
next
  case (2 x buf)
  let ?ls = "links3 x"
  have sz: "unat (RouterLsaV3_size x) = 4 + 16 * length ?ls"
    using 2(1) unat_of_nat16 [of "4 + 16 * length ?ls"] by (simp add: RouterLsaV3_size_def small_def)
  let ?b = "be_bytes 4 (router_options x) @ concat (map linkV3_bytes ?ls) @ drop (4 + 16 * length ?ls) buf"
  have "RouterLsaV3_buildBody x buf (RouterLsaV3_size x) = Some (True, ?b)"
    using 2 sz writeItems_spec [of 16 writeLinkV3 linkV3_bytes 4 ?ls "be_bytes 4 (router_options x) @ drop 4 buf"]
    by (simp add: RouterLsaV3_buildBody_def writeU32_spec linkV3_codec algebra_simps)
  moreover have "readItems 16 readLinkV3 4 (4 + 16 * length ?ls) ?b = Some ?ls"
    by (rule readItems_write) (simp_all add: linkV3_codec)
  ultimately show ?case using 2 sz
    by (auto simp: RouterLsaV3_build_def buffer_ops length_concat comp_def sum_list_triv linkV3_codec)
qed

section \<open>Memory safety of the parsers\<close>

lemma readLinksV2_total: "len \<le> length buf \<Longrightarrow> \<exists>ls. readLinksV2 n off len buf = Some ls"
proof (induction n arbitrary: off)
  case (Suc n)
  show ?case
  proof (cases "len < off + 12")
    case False
    then have "off + 12 \<le> length buf" using Suc.prems by simp
    moreover obtain ls where "readLinksV2 n (off + 12 + unat (buf ! (off + 9)) * 4) len buf = Some ls"
      using Suc by blast
    ultimately show ?thesis using False by (simp add: buffer_ops)
  qed simp
qed simp

lemma RouterLsaV2_build_total: "unat len \<le> length buf \<Longrightarrow> RouterLsaV2_build buf len \<noteq> None"
  using readLinksV2_total [of "unat len" buf "unat (be_word (take 2 (drop 2 buf)) :: u16)" 4]
  by (auto simp: RouterLsaV2_build_def buffer_ops)

section \<open>Facts on the checksum\<close>

definition fletcher_ok :: "nat \<Rightarrow> nat \<Rightarrow> ChecksumFletcher \<Rightarrow> bool" where
  "fletcher_ok s t c = (unat (c0 c) = s mod 255 \<and> unat (c1 c) = t mod 255)"

lemma mod_sub: "(a::nat) < 2 * n \<Longrightarrow> (if n \<le> a then a - n else a) = a mod n"
  by (auto simp: mod_if)

lemma add_fletcher:
  assumes "fletcher_ok s t c"
  shows "fletcher_ok (s + unat b) (t + (s + unat b)) (add b c)"
proof -
  let ?a = "c0 c + ucast b" and ?x = "(s + unat b) mod 255"
  have b: "unat b < 256" using unsigned_less [where ?'a = nat, of b] by simp
  have ub: "unat (ucast b :: u16) = unat b"
    using b by (simp add: unsigned_ucast_eq take_bit_nat_eq_self)
  have c: "unat (c0 c) = s mod 255" "unat (c1 c) = t mod 255" using assms by (auto simp: fletcher_ok_def)
  have sub: "unat (if 255 \<le> w then w - 255 else w) = unat w mod 255" if "unat w < 510" for w :: u16
    using that mod_sub [of "unat w" 255] by (auto simp: word_le_nat_alt unat_sub)
  have a: "unat ?a = s mod 255 + unat b"
    using b c ub by (simp add: unat_word_ariths)
  have s1: "unat (if 255 \<le> ?a then ?a - 255 else ?a) = ?x"
    using sub [of ?a] a b by (simp add: mod_simps)
  have d: "unat (c1 c + (if 255 \<le> ?a then ?a - 255 else ?a)) = t mod 255 + ?x"
    using c s1 by (simp add: unat_word_ariths)
  have "unat (c1 (add b c)) = (t + (s + unat b)) mod 255"
    using sub [OF _] d by (simp add: add_def Let_def mod_simps)
  moreover have "unat (c0 (add b c)) = ?x" using s1 by (simp add: add_def Let_def)
  ultimately show ?thesis by (simp add: fletcher_ok_def)
qed

lemma fold_add_fletcher:
  "fletcher_ok s t c \<Longrightarrow> fletcher_ok (s + (\<Sum>b\<leftarrow>bs. unat b))
     (t + length bs * s + (\<Sum>i<length bs. (length bs - i) * unat (bs ! i))) (fold add bs c)"
proof (induction bs arbitrary: s t c)
  case (Cons b bs)
  have "(\<Sum>i<length (b # bs). (length (b # bs) - i) * unat ((b # bs) ! i))
      = Suc (length bs) * unat b + (\<Sum>i<length bs. (length bs - i) * unat (bs ! i))"
    by (simp add: sum.lessThan_Suc_shift del: sum.lessThan_Suc)
  with Cons.IH [OF add_fletcher [OF Cons.prems, of b]] show ?case by (simp add: algebra_simps)
qed simp

lemma add_words:
  "addU32 v c = fold add (be_bytes 4 v) c" "addU24 v c = fold add (be_bytes 3 v) c" "addU16 w c = fold add (be_bytes 2 w) c"
  by (simp_all add: addU32_def addU24_def addU16_def eval_nat_numeral low8_eq)

lemma fold_concat: "fold f (concat (map g xs)) c = fold (\<lambda>x. fold f (g x)) xs c"
  by (induction xs arbitrary: c) auto

section \<open>Prefixes from the wire\<close>

lemma IPv6Prefix_bytes_undefined: "16 < unat l \<Longrightarrow> IPv6Prefix_bytes bs l False = None"
  using readBytes_overrun [where 'a = 128, of "byteCount l" bs] by (simp add: IPv6Prefix_bytes_def byteCount_def)

lemma IPv6Prefix_bytes_length: "IPv6Prefix_bytes bs l False = Some p \<Longrightarrow> pfx6_len p = 0"
  by (auto simp: IPv6Prefix_bytes_def pfx6_addPrefixLen_def bind_eq_Some_conv)

lemma wordBytes_bounds: "prefixBytes l \<le> wordBytes l" "unat l \<le> 128 \<Longrightarrow> wordBytes l \<le> 16"
  by (auto simp: wordBytes_def)

lemma write_bounds:
  "writeAt writeU32 off v buf = Some b \<Longrightarrow> length b = length buf \<and> off + 4 \<le> length buf"
  "writeAt writeU16 off w buf = Some b \<Longrightarrow> length b = length buf \<and> off + 2 \<le> length buf"
  "setByte i x buf = Some b \<Longrightarrow> length b = length buf"
  by (auto simp: writeAt_def writeU32_def writeU16_def setByte_def split: if_splits)

lemma writeLinksV2_bounds:
  "writeLinksV2 ls off buf = Some b \<Longrightarrow> ls \<noteq> [] \<Longrightarrow> off + 14 * (length ls - 1) + 8 \<le> length buf"
proof (induction ls arbitrary: off buf)
  case (Cons l ls)
  then obtain b' where b': "writeLinksV2 ls (off + 14) b' = Some b" "length b' = length buf" "off + 8 \<le> length buf"
    by (auto simp: bind_eq_Some_conv dest!: write_bounds)
  with Cons.IH [of "off + 14" b'] show ?case by (cases ls) auto
qed simp

lemma RouterLsaV2_size_le: "unat (RouterLsaV2_size x) \<le> 4 + 4 * length (links2 x)"
proof -
  have "RouterLsaV2_size x = of_nat (4 + 4 * length (links2 x))" by (simp add: RouterLsaV2_size_def)
  then show ?thesis by (simp only: unsigned_of_nat take_bit_nat_less_eq_self of_nat_id)
qed

lemma readLinksV2_linkData:
  "readLinksV2 n off len buf = Some (Some ls) \<Longrightarrow> l \<in> set ls \<Longrightarrow> linkData l < 2 ^ 16"
proof (induction n arbitrary: off ls)
  case (Suc n)
  have u: "(ucast (d :: u16) :: u32) < 2 ^ 16" for d
    using unsigned_less [where ?'a = nat, of d] by (simp add: word_less_nat_alt unsigned_ucast_eq take_bit_nat_eq_self)
  from Suc.prems Suc.IH u show ?case by (fastforce simp: bind_eq_Some_conv split: if_splits)
qed simp

definition comes_back :: "(u8 list \<Rightarrow> u16 \<Rightarrow> 'a option option) \<Rightarrow> ('a \<Rightarrow> u8 list \<Rightarrow> u16 \<Rightarrow> (bool \<times> u8 list) option)
    \<Rightarrow> 'a \<Rightarrow> u16 \<Rightarrow> u8 list \<Rightarrow> bool" where
  "comes_back bld enc x len buf = (case enc x buf len of
     Some (True, b) \<Rightarrow> bld b len = Some (Some x) \<and> length b = length buf | _ \<Rightarrow> False)"

lemma comes_backI: "\<exists>b. enc x buf len = Some (True, b) \<and> length b = length buf \<and> bld b len = Some (Some x) \<Longrightarrow> comes_back bld enc x len buf"
  by (auto simp: comes_back_def)

section \<open>Properties\<close>



text \<open>(C14) Parsing a received advertisement never reads outside the buffer: with a length that does not
  exceed the buffer, the parsers of the bodies without IPv6 prefixes end with a body or a refusal,
  whatever the bytes are (link counts, TOS counts and lengths included).\<close>

theorem lsa_parsers_stay_in_bounds:
  assumes "unat len \<le> length buf"
  shows "RouterLsaV2_build buf len \<noteq> None \<and> NetworkLsaV2_build buf len \<noteq> None \<and> SummaryNetworkLsa_build buf len \<noteq> None
    \<and> SummaryRouterLsa_build buf len \<noteq> None \<and> ExternalLsaV2_build buf len \<noteq> None \<and> OpaqueLsaV2_build lsid buf len \<noteq> None
    \<and> RouterLsaV3_build buf len \<noteq> None \<and> NetworkLsaV3_build buf len \<noteq> None \<and> InterAreaRouterLsa_build buf len \<noteq> None"
  using assms RouterLsaV2_build_total net2.parse_total sumnet.parse_total sumrtr.parse_total ext2.parse_total
    rtr3.parse_total net3.parse_total iarea.parse_total
  by (auto simp: OpaqueLsaV2_build_def)

theorem lsa_parsers_stay_in_bounds_witness:
  "RouterLsaV2_build [0, 0, 0, 1, 10, 0, 0, 1, 0, 0, 0, 0, 1, 255, 0, 10] 16 \<noteq> None"
  using lsa_parsers_stay_in_bounds [of 16 "[0, 0, 0, 1, 10, 0, 0, 1, 0, 0, 0, 0, 1, 255, 0, 10]"] by simp

text \<open>The running checksum is the Fletcher checksum: after any sequence of bytes the two
  accumulators, kept in 16 bits with one conditional subtraction each, are the sum and the weighted sum
  of the bytes modulo 255.\<close>

theorem fletcher_sums:
  "unat (c0 (addBytes bs Fletcher_new)) = (\<Sum>b\<leftarrow>bs. unat b) mod 255
   \<and> unat (c1 (addBytes bs Fletcher_new)) = (\<Sum>i<length bs. (length bs - i) * unat (bs ! i)) mod 255"
  using fold_add_fletcher [of 0 0 Fletcher_new bs] by (simp add: fletcher_ok_def Fletcher_new_def addBytes_def)

text \<open>A version 2 router body cannot be serialised: \<open>buildBody\<close> refuses the length \<open>size()\<close> reports
  for every body with a link, and with the length it asks for it writes past the end of the buffer as
  soon as there are four links. A parsed link keeps the upper half of its link data only.\<close>

theorem router_lsa_v2_serialisation:
  assumes "links2 x \<noteq> []"
  shows "RouterLsaV2_buildBody x buf (RouterLsaV2_size x) = Some (False, buf)
    \<and> (4 \<le> length (links2 x) \<and> length buf = 4 + 12 * length (links2 x) \<and> unat len = length buf \<longrightarrow>
         RouterLsaV2_buildBody x buf len = None)
    \<and> (RouterLsaV2_build buf len = Some (Some y) \<longrightarrow> list_all (\<lambda>l. linkData l < 2 ^ 16) (links2 y))"
proof (intro conjI impI)
  have "length (links2 x) * 12 + 4 \<noteq> unat (RouterLsaV2_size x)" using RouterLsaV2_size_le [of x] assms by (cases "links2 x") auto
  then show "RouterLsaV2_buildBody x buf (RouterLsaV2_size x) = Some (False, buf)" by (simp add: RouterLsaV2_buildBody_def)
next
  assume a: "4 \<le> length (links2 x) \<and> length buf = 4 + 12 * length (links2 x) \<and> unat len = length buf"
  have "writeLinksV2 (links2 x) 4 b = None" if "length b = length buf" for b
    using writeLinksV2_bounds [of "links2 x" 4 b] assms that a by (cases "writeLinksV2 (links2 x) 4 b") auto
  then have "RouterLsaV2_buildBody x buf len \<noteq> Some r" for r
    using a by (auto simp: RouterLsaV2_buildBody_def bind_eq_Some_conv dest!: write_bounds)
  then show "RouterLsaV2_buildBody x buf len = None" by (cases "RouterLsaV2_buildBody x buf len") auto
next
  assume "RouterLsaV2_build buf len = Some (Some y)"
  then show "list_all (\<lambda>l. linkData l < 2 ^ 16) (links2 y)"
    by (auto simp: RouterLsaV2_build_def bind_eq_Some_conv list_all_iff dest: readLinksV2_linkData split: if_splits)
qed

definition ex_link2 :: RouterLinkV2 where
  "ex_link2 = \<lparr>linkId = 0x0A000001, linkData = 0xC0A80101, link_type = 1, link_metric = 10\<rparr>"

theorem router_lsa_v2_serialisation_witness:
  "RouterLsaV2_buildBody \<lparr>router_flags = 0, links2 = [ex_link2]\<rparr> (replicate 8 0) 8 = Some (False, replicate 8 0)
   \<and> RouterLsaV2_buildBody \<lparr>router_flags = 0, links2 = replicate 4 ex_link2\<rparr> (replicate 52 0) 52 = None"
  using router_lsa_v2_serialisation [of "\<lparr>router_flags = 0, links2 = [ex_link2]\<rparr>" "replicate 8 0"]
    router_lsa_v2_serialisation [of "\<lparr>router_flags = 0, links2 = replicate 4 ex_link2\<rparr>" "replicate 52 0" 52]
  by (simp add: RouterLsaV2_size_def)

text \<open>Equality of advertisements. Two network bodies compare equal exactly when they have the same
  mask or options and the same routers in any order; version 3 router bodies with pairwise different
  link identities compare equal exactly when they have the same links in any order. The version 2
  router comparison is inverted: no body with a link equals itself.\<close>

theorem lsa_equality:
  shows "(NetworkLsaV2_eq n n' \<longleftrightarrow> networkMask n = networkMask n' \<and> mset (attachedRouters2 n) = mset (attachedRouters2 n'))
    \<and> (NetworkLsaV3_eq k k' \<longleftrightarrow> net_options k = net_options k' \<and> mset (attachedRouters3 k) = mset (attachedRouters3 k'))
    \<and> (distinct (map linkV3_key (links3 r)) \<longrightarrow>
         (RouterLsaV3_eq r r' \<longleftrightarrow> router_options r = router_options r' \<and> mset (links3 r) = mset (links3 r')))
    \<and> (links2 q \<noteq> [] \<longrightarrow> \<not> RouterLsaV2_eq q q)"
proof (intro conjI impI)
  have srt: "length xs = length ys \<and> sort xs = sort ys \<longleftrightarrow> mset xs = mset ys" for xs ys :: "u32 list"
  proof
    assume "length xs = length ys \<and> sort xs = sort ys"
    then have "mset (sort xs) = mset (sort ys)" by simp
    then show "mset xs = mset ys" by simp
  next
    assume m: "mset xs = mset ys"
    have "sort xs = sort ys" by (rule properties_for_sort) (simp_all add: m)
    with m show "length xs = length ys \<and> sort xs = sort ys" by (auto dest: mset_eq_length)
  qed
  show "NetworkLsaV2_eq n n' \<longleftrightarrow> networkMask n = networkMask n' \<and> mset (attachedRouters2 n) = mset (attachedRouters2 n')"
    using srt [of "attachedRouters2 n" "attachedRouters2 n'"] by (auto simp: NetworkLsaV2_eq_def)
  show "NetworkLsaV3_eq k k' \<longleftrightarrow> net_options k = net_options k' \<and> mset (attachedRouters3 k) = mset (attachedRouters3 k')"
    using srt [of "attachedRouters3 k" "attachedRouters3 k'"] by (auto simp: NetworkLsaV3_eq_def)
next
  assume d: "distinct (map linkV3_key (links3 r))"
  have "sort_key linkV3_key (links3 r) = sort_key linkV3_key (links3 r')" if "mset (links3 r) = mset (links3 r')"
    using d that by (intro sort_key_inj_key_eq) (simp_all add: distinct_map)
  then show "RouterLsaV3_eq r r' \<longleftrightarrow> router_options r = router_options r' \<and> mset (links3 r) = mset (links3 r')"
    by (auto simp: RouterLsaV3_eq_def list.rel_eq) (metis mset_sort, metis size_mset)
next
  assume "links2 q \<noteq> []"
  then obtain l ls where "sort_key linkV2_key (links2 q) = l # ls"
    by (cases "sort_key linkV2_key (links2 q)") (auto dest: arg_cong [where f = length])
  then show "\<not> RouterLsaV2_eq q q" by (simp add: RouterLsaV2_eq_def)
qed

theorem lsa_equality_witness:
  "NetworkLsaV2_eq \<lparr>networkMask = 0, attachedRouters2 = [1, 2]\<rparr> \<lparr>networkMask = 0, attachedRouters2 = [2, 1]\<rparr>
   \<and> \<not> RouterLsaV2_eq \<lparr>router_flags = 0, links2 = [ex_link2]\<rparr> \<lparr>router_flags = 0, links2 = [ex_link2]\<rparr>"
  using lsa_equality [of "\<lparr>networkMask = 0, attachedRouters2 = [1, 2]\<rparr>" "\<lparr>networkMask = 0, attachedRouters2 = [2, 1]\<rparr>"
      undefined undefined undefined undefined "\<lparr>router_flags = 0, links2 = [ex_link2]\<rparr>"] by simp

text \<open>No usable IPv6 prefix can be received: for every prefix longer than 16 bits the parsers of the
  inter-area-prefix, external, link and intra-area-prefix bodies run into undefined behaviour (a shift
  by more than the width of the address), and the prefixes the first one does return have length 0.\<close>

theorem v3_prefix_parsing:
  assumes "16 < unat plen" and "unat plen \<le> 128" and "40 \<le> unat len"
  shows "InterAreaPrefixLsa_build ([0, m0, m1, m2, plen, opts, 0, 0] @ rest) len = None
    \<and> ExternalLsaV3_build ([fl, m0, m1, m2, plen, opts, t0, t1] @ rest) len = None
    \<and> IntraAreaPrefixLsa_build ([0, 1, t0, t1, i0, i1, i2, i3, a0, a1, a2, a3, plen, opts, m0, m1] @ rest) len = None
    \<and> LinkLsa_build ([pr, m0, m1, m2, l0, l1, l2, l3, l4, l5, l6, l7, l8, l9, la, lb, lc, ld, le, lf, 1, plen, opts] @ rest) len = None
    \<and> (InterAreaPrefixLsa_build buf len = Some (Some lsa) \<longrightarrow> pfx6_len (iap_prefix lsa) = 0)"
proof (intro conjI)
  have w: "wordBytes plen \<le> 16" "prefixBytes plen \<le> 16" using assms(2) wordBytes_bounds [of plen] by auto
  have u: "IPv6Prefix_bytes bs plen False = None" for bs using IPv6Prefix_bytes_undefined assms(1) by blast
  show "InterAreaPrefixLsa_build ([0, m0, m1, m2, plen, opts, 0, 0] @ rest) len = None"
    using assms w u by (simp add: InterAreaPrefixLsa_build_def buffer_ops be_word_def)
  show "ExternalLsaV3_build ([fl, m0, m1, m2, plen, opts, t0, t1] @ rest) len = None"
    using assms w u by (simp add: ExternalLsaV3_build_def buffer_ops word_less_nat_alt)
  have one: "unat (be_word [0, 1] :: u16) = Suc 0" by (simp add: be_word_def)
  show "IntraAreaPrefixLsa_build ([0, 1, t0, t1, i0, i1, i2, i3, a0, a1, a2, a3, plen, opts, m0, m1] @ rest) len = None"
    using assms w u one by (simp add: IntraAreaPrefixLsa_build_def buffer_ops)
  show "LinkLsa_build ([pr, m0, m1, m2, l0, l1, l2, l3, l4, l5, l6, l7, l8, l9, la, lb, lc, ld, le, lf, 1, plen, opts] @ rest) len = None"
    using assms w u by (simp add: LinkLsa_build_def buffer_ops IPv6Address_bytes_def readU128_spec)
  show "InterAreaPrefixLsa_build buf len = Some (Some lsa) \<longrightarrow> pfx6_len (iap_prefix lsa) = 0"
    by (auto simp: InterAreaPrefixLsa_build_def bind_eq_Some_conv dest: IPv6Prefix_bytes_length split: if_splits)
qed

theorem v3_prefix_parsing_witness:
  "InterAreaPrefixLsa_build ([0, 0, 0, 10, 64, 0, 0, 0] @ replicate 32 0) 40 = None"
  using v3_prefix_parsing [of 64 40 0 0 10 0 "replicate 32 0"] by simp

definition ex_router3 :: RouterLsaV3 where
  "ex_router3 = \<lparr>router_options = 0, links3 = [\<lparr>rl3_type = 1, rl3_metric = 10, interfaceId = 4,
     neighborInterfaceId = 5, neighborRouterId = 2\<rparr>]\<rparr>"

lemma fletcher_fold:
  "fletcher_ok s t c \<Longrightarrow> fold (\<lambda>b (s, t). (s + unat b, t + (s + unat b))) bs (s, t) = (s', t') \<Longrightarrow> fletcher_ok s' t' (fold add bs c)"
proof (induction bs arbitrary: s t c)
  case (Cons b bs)
  from Cons.IH [OF add_fletcher [OF Cons.prems(1)]] Cons.prems(2) show ?case by simp
qed simp

lemma ex_router3_wire:
  "RouterLsaV3_buildBody ex_router3 (replicate 20 0) 20 = Some (True, [0,0,0,0,1,0,0,10,0,0,0,4,0,0,0,5,0,0,0,2])"
  "RouterLsaV3_appendChecksum ex_router3 c = addBytes [0,0,0,0,1,0,10,0,0,0,4,0,0,0,5,0,0,0,2] c"
proof -
  have bb: "be_bytes 4 (0 :: u32) = [0,0,0,0]" "be_bytes 4 (4 :: u32) = [0,0,0,4]" "be_bytes 4 (5 :: u32) = [0,0,0,5]"
    "be_bytes 4 (2 :: u32) = [0,0,0,2]" "be_bytes 2 (10 :: u16) = [0,10]" by code_simp+
  show "RouterLsaV3_buildBody ex_router3 (replicate 20 0) 20 = Some (True, [0,0,0,0,1,0,0,10,0,0,0,4,0,0,0,5,0,0,0,2])"
    by (simp add: RouterLsaV3_buildBody_def ex_router3_def buffer_ops linkV3_codec linkV3_bytes_def bb)
  show "RouterLsaV3_appendChecksum ex_router3 c = addBytes [0,0,0,0,1,0,10,0,0,0,4,0,0,0,5,0,0,0,2] c"
    by (simp add: RouterLsaV3_appendChecksum_def ex_router3_def addBytes_def add_words bb)
qed

lemma ex_router3_checksum:
  "c1 (addBytes [0,0,0,0,1,0,10,0,0,0,4,0,0,0,5,0,0,0,2] Fletcher_new)
   \<noteq> c1 (addBytes [0,0,0,0,1,0,0,10,0,0,0,4,0,0,0,5,0,0,0,2] Fletcher_new)"
proof -
  have z: "fletcher_ok 0 0 Fletcher_new" by (simp add: fletcher_ok_def Fletcher_new_def)
  have "fletcher_ok 22 208 (addBytes [0,0,0,0,1,0,10,0,0,0,4,0,0,0,5,0,0,0,2] Fletcher_new)"
    unfolding addBytes_def by (rule fletcher_fold [OF z]) simp
  moreover have "fletcher_ok 22 209 (addBytes [0,0,0,0,1,0,0,10,0,0,0,4,0,0,0,5,0,0,0,2] Fletcher_new)"
    unfolding addBytes_def by (rule fletcher_fold [OF z]) simp
  ultimately show ?thesis by (auto simp: fletcher_ok_def)
qed

text \<open>The checksum covers the wire: what the version 2 network, summary-network and external bodies feed into the
  checksum is the bytes they serialise to. The version 3 router body leaves the reserved byte of every
  link out, so that its checksum is not the checksum of what is sent.\<close>

theorem checksum_covers_wire:
  shows "(small 4 4 (attachedRouters2 n) \<and> NetworkLsaV2_buildBody n buf (NetworkLsaV2_size n) = Some (True, b) \<and> unat (NetworkLsaV2_size n) \<le> length buf \<longrightarrow>
        NetworkLsaV2_appendChecksum n c = addBytes (take (unat (NetworkLsaV2_size n)) b) c)
    \<and> (SummaryNetworkLsa_buildBody s buf 8 = Some (True, b) \<and> 8 \<le> length buf \<longrightarrow>
        SummaryNetworkLsa_appendChecksum s c = addBytes (take 8 b) c)
    \<and> (ext_metric e AND mask (if ext_isType2 e then 24 else 31) = ext_metric e \<and> ExternalLsaV2_buildBody e buf 16 = Some (True, b) \<and> 16 \<le> length buf \<longrightarrow>
        ExternalLsaV2_appendChecksum e c = addBytes (take 16 b) c)
    \<and> (case RouterLsaV3_buildBody ex_router3 (replicate 20 0) 20 of None \<Rightarrow> False
       | Some (ok, w) \<Rightarrow> ok \<and> c1 (RouterLsaV3_appendChecksum ex_router3 Fletcher_new) \<noteq> c1 (addBytes w Fletcher_new))"
proof (intro conjI impI)
  assume a: "small 4 4 (attachedRouters2 n) \<and> NetworkLsaV2_buildBody n buf (NetworkLsaV2_size n) = Some (True, b) \<and> unat (NetworkLsaV2_size n) \<le> length buf"
  then have "take (unat (NetworkLsaV2_size n)) b = be_bytes 4 (networkMask n) @ concat (map (be_bytes 4) (attachedRouters2 n))"
    using net2_wire [of n buf] net2_size [of n] by (auto simp: length_concat comp_def sum_list_triv)
  moreover have "addU32 = (\<lambda>v. fold add (be_bytes 4 v))" by (intro ext) (simp add: add_words)
  ultimately show "NetworkLsaV2_appendChecksum n c = addBytes (take (unat (NetworkLsaV2_size n)) b) c"
    by (simp add: NetworkLsaV2_appendChecksum_def addBytes_def fold_concat add_words)
next
  assume "SummaryNetworkLsa_buildBody s buf 8 = Some (True, b) \<and> 8 \<le> length buf"
  then show "SummaryNetworkLsa_appendChecksum s c = addBytes (take 8 b) c"
    by (auto simp: SummaryNetworkLsa_buildBody_def buffer_ops SummaryNetworkLsa_appendChecksum_def addBytes_def add_words)
next
  assume a: "ext_metric e AND mask (if ext_isType2 e then 24 else 31) = ext_metric e \<and> ExternalLsaV2_buildBody e buf 16 = Some (True, b) \<and> 16 \<le> length buf"
  then have m: "ext_metric e AND mask (if ext_isType2 e then 24 else 31) = ext_metric e" by blast
  have "take 16 b = be_bytes 4 (ext_networkMask e) @ be_bytes 4 (metricWordV2 e) @ be_bytes 4 (ext_forwardingAddress e) @ be_bytes 4 (ext_routeTag e)"
    using a metric_word(3) [OF m] by (cases "ext_isType2 e") (auto simp: ExternalLsaV2_buildBody_def buffer_ops)
  then show "ExternalLsaV2_appendChecksum e c = addBytes (take 16 b) c"
    by (simp add: ExternalLsaV2_appendChecksum_def addBytes_def add_words)
next
  show "case RouterLsaV3_buildBody ex_router3 (replicate 20 0) 20 of None \<Rightarrow> False
       | Some (ok, w) \<Rightarrow> ok \<and> c1 (RouterLsaV3_appendChecksum ex_router3 Fletcher_new) \<noteq> c1 (addBytes w Fletcher_new)"
    using ex_router3_checksum by (simp add: ex_router3_wire)
qed

theorem checksum_covers_wire_witness:
  "SummaryNetworkLsa_appendChecksum \<lparr>sum_networkMask = 0xFFFFFF00, sum_metric = 20\<rparr> Fletcher_new
   = addBytes [0xFF, 0xFF, 0xFF, 0, 0, 0, 0, 20] Fletcher_new"
proof -
  have "SummaryNetworkLsa_buildBody \<lparr>sum_networkMask = 0xFFFFFF00, sum_metric = 20\<rparr> (replicate 8 0) 8
    = Some (True, [0xFF, 0xFF, 0xFF, 0, 0, 0, 0, 20])" by code_simp
  then show ?thesis
    using checksum_covers_wire [of undefined "replicate 8 0" "[0xFF, 0xFF, 0xFF, 0, 0, 0, 0, 20]" Fletcher_new
        "\<lparr>sum_networkMask = 0xFFFFFF00, sum_metric = 20\<rparr>"] by simp
qed

end
