(* ===== verification/OspfLsdb.thy ===== *)
theory OspfLsdb
  imports OspfLsa
begin

text \<open>
  The link-state database, \<open>routing/ospf/database\<close>: keys, records and \<open>LsdbTable\<close>.

  \<open>dbStorage\<close>, a \<open>std::map\<close>, owns the records; its nodes do not move, so the pointers the three
  indexes hold are modelled by the key of the node they point to, and following a pointer is a look-up
  in \<open>dbStorage\<close> (\<open>None\<close> would be a dangling pointer). The clock is an argument of the operations
  that read it. \<open>lsdb_abs\<close> is the abstract database, a map from keys to records.
\<close>

section \<open>Keys and records\<close>

record LsaAdvKey =
  lsaType :: u16
  advertisingRouter :: u32

record LsaKey =
  key_adv :: LsaAdvKey
  linkStateId :: u32

abbreviation key_type :: "LsaKey \<Rightarrow> u16" where
  "key_type k \<equiv> lsaType (key_adv k)"

record LsaHeader =
  sequence :: u32
  checksum :: u16
  lsa_length :: u16
  age :: u16
  hdr_options :: u8

record LsaRecord =
  installTime :: nat
  lastRefreshTime :: nat
  refCnt :: u32
  header :: LsaHeader
  body :: LsaBody
  rec_incomingInterface :: u32
  rec_incomingNeighbor :: u32
  rec_flags :: u8

record IncomingLsaContext =
  ctx_key :: LsaKey
  ctx_header :: LsaHeader
  incomingInterface :: u32
  incomingNeighbor :: u32

record LsdbTable =
  db :: "(LsaKey \<times> LsaKey) list"
  typeDb :: "(u32 \<times> (LsaKey \<times> LsaKey) list) list"
  advDb :: "(LsaAdvKey \<times> (u32 \<times> LsaKey) list) list"
  dbStorage :: "(LsaKey \<times> LsaRecord) list"

definition LsdbTable_new :: LsdbTable where
  "LsdbTable_new = \<lparr>db = [], typeDb = [], advDb = [], dbStorage = []\<rparr>"

text \<open>\<open>m[k]\<close> of an unordered map: the entry is created when it is missing.\<close>

definition sub :: "'k \<Rightarrow> ('k \<times> 'v list) list \<Rightarrow> 'v list" where
  "sub k m = (case al_get m k of None \<Rightarrow> [] | Some v \<Rightarrow> v)"

section \<open>Operations\<close>

definition lsdb_size :: "LsdbTable \<Rightarrow> nat" where
  "lsdb_size t = length (db t)"

definition lsdb_empty :: "LsdbTable \<Rightarrow> bool" where
  "lsdb_empty t = (db t = [])"

definition lsdb_contains :: "LsaKey \<Rightarrow> LsdbTable \<Rightarrow> bool" where
  "lsdb_contains k t = (al_get (db t) k \<noteq> None)"

definition lsdb_find :: "LsaKey \<Rightarrow> LsdbTable \<Rightarrow> LsaRecord option" where
  "lsdb_find k t = (case al_get (db t) k of None \<Rightarrow> None | Some p \<Rightarrow> al_get (dbStorage t) p)"

definition type_index :: "LsaKey \<Rightarrow> u32" where
  "type_index k = ucast (key_type k)"

definition dropIndexes :: "LsaKey \<Rightarrow> LsdbTable \<Rightarrow> LsdbTable" where
  "dropIndexes k t = (let
     adv = al_del (linkStateId k) (sub (key_adv k) (advDb t));
     type = al_del k (sub (type_index k) (typeDb t))
   in t\<lparr>db := al_del k (db t),
        advDb := (if adv = [] then al_del (key_adv k) (advDb t) else al_put (key_adv k) adv (advDb t)),
        typeDb := (if type = [] then al_del (type_index k) (typeDb t) else al_put (type_index k) type (typeDb t))\<rparr>)"

definition lsdb_erase :: "LsaKey \<Rightarrow> LsdbTable \<Rightarrow> bool \<times> LsdbTable" where
  "lsdb_erase k t = (al_get (dbStorage t) k \<noteq> None,
     (dropIndexes k t)\<lparr>dbStorage := al_del k (dbStorage t)\<rparr>)"

definition lsdb_clear :: "LsdbTable \<Rightarrow> LsdbTable" where
  "lsdb_clear t = t\<lparr>db := [], advDb := [], typeDb := [], dbStorage := []\<rparr>"

definition emptyRecord :: LsaRecord where
  "emptyRecord = \<lparr>installTime = 0, lastRefreshTime = 0, refCnt = 0,
     header = \<lparr>sequence = 0, checksum = 0, lsa_length = 0, age = 0, hdr_options = 0\<rparr>, body = Monostate,
     rec_incomingInterface = 0, rec_incomingNeighbor = 0, rec_flags = 0\<rparr>"

definition addIndexes :: "LsaKey \<Rightarrow> LsdbTable \<Rightarrow> LsdbTable" where
  "addIndexes k t = t\<lparr>db := al_put k k (db t),
     advDb := al_put (key_adv k) (al_put (linkStateId k) k (sub (key_adv k) (advDb t))) (advDb t),
     typeDb := al_put (type_index k) (al_put k k (sub (type_index k) (typeDb t))) (typeDb t)\<rparr>"

definition upsertMeta :: "nat \<Rightarrow> IncomingLsaContext \<Rightarrow> u8 \<Rightarrow> LsdbTable \<Rightarrow> LsdbTable" where
  "upsertMeta now lsa flags t = (let
     k = ctx_key lsa;
     found = al_get (dbStorage t) k;
     rec = (case found of None \<Rightarrow> emptyRecord\<lparr>installTime := now\<rparr> | Some r \<Rightarrow> r);
     t = (if found = None then addIndexes k t else t)
   in t\<lparr>dbStorage := al_put k (rec\<lparr>header := ctx_header lsa, rec_flags := flags,
       rec_incomingInterface := incomingInterface lsa, rec_incomingNeighbor := incomingNeighbor lsa,
       lastRefreshTime := now\<rparr>) (dbStorage t)\<rparr>)"

text \<open>\<open>b\<close> is the body \<open>emplaceBody\<close> constructs in the record and the caller fills.\<close>

definition upsertBody :: "nat \<Rightarrow> IncomingLsaContext \<Rightarrow> u8 \<Rightarrow> LsaBody \<Rightarrow> LsdbTable \<Rightarrow> LsdbTable" where
  "upsertBody now lsa flags b t = (let t = upsertMeta now lsa flags t in
     (case al_get (dbStorage t) (ctx_key lsa) of None \<Rightarrow> t
      | Some r \<Rightarrow> t\<lparr>dbStorage := al_put (ctx_key lsa) (r\<lparr>body := b\<rparr>) (dbStorage t)\<rparr>))"

definition modifyAt :: "LsaKey \<Rightarrow> (LsaRecord \<Rightarrow> LsaRecord) \<Rightarrow> LsdbTable \<Rightarrow> bool \<times> LsdbTable" where
  "modifyAt k f t = (case al_get (db t) k of None \<Rightarrow> (False, t)
     | Some p \<Rightarrow> (case al_get (dbStorage t) p of None \<Rightarrow> (False, t)
         | Some r \<Rightarrow> (True, t\<lparr>dbStorage := al_put p (f r) (dbStorage t)\<rparr>)))"

definition touchRefresh :: "nat \<Rightarrow> LsaKey \<Rightarrow> LsdbTable \<Rightarrow> bool \<times> LsdbTable" where
  "touchRefresh now k t = modifyAt k (lastRefreshTime_update (\<lambda>_. now)) t"

definition setFlags :: "LsaKey \<Rightarrow> u8 \<Rightarrow> LsdbTable \<Rightarrow> bool \<times> LsdbTable" where
  "setFlags k flags t = modifyAt k (rec_flags_update (\<lambda>_. flags)) t"

definition deref :: "LsdbTable \<Rightarrow> ('k \<times> LsaKey) list \<Rightarrow> ('k \<times> LsaRecord) list" where
  "deref t xs = List.map_filter (\<lambda>(k, p). map_option (Pair k) (al_get (dbStorage t) p)) xs"

definition forEach :: "LsdbTable \<Rightarrow> (LsaKey \<times> LsaRecord) list" where
  "forEach t = deref t (db t)"

definition forEachInAdv :: "LsaAdvKey \<Rightarrow> LsdbTable \<Rightarrow> (u32 \<times> LsaRecord) list" where
  "forEachInAdv a t = (case al_get (advDb t) a of None \<Rightarrow> [] | Some m \<Rightarrow> deref t m)"

text \<open>The iterator is not compared with \<open>end()\<close> before it is used.\<close>

definition forEachInType :: "u32 \<Rightarrow> LsdbTable \<Rightarrow> (LsaKey \<times> LsaRecord) list option" where
  "forEachInType type t = map_option (deref t) (al_get (typeDb t) type)"

definition getTypeSize :: "u32 \<Rightarrow> LsdbTable \<Rightarrow> nat" where
  "getTypeSize type t = (case al_get (typeDb t) type of None \<Rightarrow> 0 | Some m \<Rightarrow> length m)"

section \<open>Aging\<close>

definition saturatingAddAge :: "u16 \<Rightarrow> u16 \<Rightarrow> u16 \<Rightarrow> u16" where
  "saturatingAddAge a b maxAge = (let sum = (ucast a :: u32) + ucast b in
     if ucast maxAge \<le> sum then maxAge else ucast sum)"

definition aged :: "u16 \<Rightarrow> u16 \<Rightarrow> LsaRecord \<Rightarrow> LsaRecord" where
  "aged delta maxAge r = r\<lparr>header := (header r)\<lparr>age := saturatingAddAge (age (header r)) delta maxAge\<rparr>\<rparr>"

definition ageKeep :: "u16 \<Rightarrow> u16 \<Rightarrow> LsdbTable \<Rightarrow> nat \<times> LsdbTable" where
  "ageKeep delta maxAge t = (let st = map (\<lambda>(k, r). (k, aged delta maxAge r)) (dbStorage t)
     in (length (filter (\<lambda>(k, r). maxAge \<le> age (header r)) st), t\<lparr>dbStorage := st\<rparr>))"

text \<open>One turn of the loop that erases: the record under the iterator is aged, and dropped from all four
  containers when it has expired.\<close>

definition ageStep :: "u16 \<Rightarrow> u16 \<Rightarrow> LsaKey \<Rightarrow> nat \<times> LsdbTable \<Rightarrow> nat \<times> LsdbTable" where
  "ageStep delta maxAge k s = (case al_get (dbStorage (snd s)) k of None \<Rightarrow> s
     | Some r \<Rightarrow> let r = aged delta maxAge r in
         if maxAge \<le> age (header r)
         then (Suc (fst s), (dropIndexes k (snd s))\<lparr>dbStorage := al_del k (dbStorage (snd s))\<rparr>)
         else (fst s, (snd s)\<lparr>dbStorage := al_put k r (dbStorage (snd s))\<rparr>))"

definition ageAll :: "u16 \<Rightarrow> u16 \<Rightarrow> bool \<Rightarrow> LsdbTable \<Rightarrow> nat \<times> LsdbTable" where
  "ageAll delta maxAge eraseExpired t = (if \<not> eraseExpired then ageKeep delta maxAge t
     else fold (ageStep delta maxAge) (map fst (dbStorage t)) (0, t))"

definition purgeIf :: "(LsaKey \<Rightarrow> LsaRecord \<Rightarrow> bool) \<Rightarrow> LsdbTable \<Rightarrow> nat \<times> LsdbTable" where
  "purgeIf pred t = (let hit = (\<lambda>(k, p). case al_get (dbStorage t) p of None \<Rightarrow> False | Some r \<Rightarrow> pred k r)
     in (length (filter hit (db t)), t\<lparr>db := filter (\<lambda>e. \<not> hit e) (db t)\<rparr>))"

definition purgeExpired :: "u16 \<Rightarrow> LsdbTable \<Rightarrow> nat \<times> LsdbTable" where
  "purgeExpired maxAge t = purgeIf (\<lambda>_ r. maxAge \<le> age (header r)) t"

definition OSPF_MAX_AGE :: u16 where
  "OSPF_MAX_AGE = 3600"

text \<open>\<open>Area::onAgingTick\<close>: the keys handed to the flooding queue, whether a computation of the shortest
  paths is requested, and the table.\<close>

definition onAgingTick :: "LsdbTable \<Rightarrow> LsaKey list \<times> bool \<times> LsdbTable" where
  "onAgingTick t = (let (expired, t) = ageAll 1 OSPF_MAX_AGE False t in
     if 0 < expired
     then (map fst (filter (\<lambda>(k, r). OSPF_MAX_AGE \<le> age (header r)) (dbStorage t)), True, snd (purgeExpired OSPF_MAX_AGE t))
     else ([], False, t))"

lemma al_get_empty [simp]: "al_get [] = Map.empty"
  by (rule ext) simp

section \<open>Two-level indexes\<close>

definition nested :: "('a \<times> ('k \<times> 'v) list) list \<Rightarrow> ('a \<Rightarrow> 'k \<Rightarrow> 'v option) \<Rightarrow> bool" where
  "nested m f = (al_wf m \<and> (\<forall>a x. al_get m a = Some x \<longrightarrow> x \<noteq> [] \<and> al_wf x) \<and> (\<forall>a. al_get (sub a m) = f a))"

lemma nested_Nil [simp]: "nested [] (\<lambda>a k. None)"
  by (auto simp: nested_def sub_def)

lemma al_get_Nil_iff: "al_get xs = (\<lambda>k. None) \<longleftrightarrow> xs = []"
proof
  assume a: "al_get xs = (\<lambda>k. None)"
  show "xs = []"
  proof (cases xs)
    case (Cons x ys)
    obtain k v where "x = (k, v)" by (cases x)
    with Cons have "al_get xs k = Some v" by simp
    with a show ?thesis by simp
  qed
qed auto

lemma nested_put:
  assumes "nested m f"
  shows "nested (al_put a (al_put k v (sub a m)) m) (f(a := (f a)(k \<mapsto> v)))"
proof -
  have wf: "al_wf (al_put k v (sub a m))" using assms by (auto simp: nested_def sub_def split: option.split)
  have g: "al_get (al_put k v (sub a m)) = (f a)(k \<mapsto> v)" using assms by (auto simp: nested_def fun_eq_iff)
  have s: "sub b (al_put a x m) = (if b = a then x else sub b m)" for b x by (simp add: sub_def)
  show ?thesis using assms wf by (auto simp: nested_def s g)
qed

lemma nested_del:
  assumes "nested m f"
  shows "nested (if al_del k (sub a m) = [] then al_del a m else al_put a (al_del k (sub a m)) m) (f(a := (f a)(k := None)))"
proof -
  let ?x = "al_del k (sub a m)"
  have wf: "al_wf ?x" using assms by (auto simp: nested_def sub_def split: option.split)
  have g: "al_get ?x = (f a)(k := None)" using assms by (auto simp: nested_def fun_eq_iff)
  show ?thesis
  proof (cases "?x = []")
    case True
    then have "(f a)(k := None) = (\<lambda>k. None)" using g by (auto simp: fun_eq_iff)
    moreover have "al_get (sub b (al_del a m)) = (if b = a then (\<lambda>k. None) else al_get (sub b m))" for b
      by (auto simp: sub_def)
    ultimately show ?thesis using assms True by (auto simp: nested_def)
  next
    case False
    moreover have "sub b (al_put a ?x m) = (if b = a then ?x else sub b m)" for b by (simp add: sub_def)
    ultimately show ?thesis using assms wf g by (auto simp: nested_def)
  qed
qed

section \<open>Agreement of the indexes\<close>

definition dir_index :: "LsaKey set \<Rightarrow> LsaKey \<Rightarrow> LsaKey option" where
  "dir_index K k = (if k \<in> K then Some k else None)"

definition adv_index :: "LsaKey set \<Rightarrow> LsaAdvKey \<Rightarrow> u32 \<Rightarrow> LsaKey option" where
  "adv_index K a i = dir_index K \<lparr>key_adv = a, linkStateId = i\<rparr>"

definition typ_index :: "LsaKey set \<Rightarrow> u32 \<Rightarrow> LsaKey \<Rightarrow> LsaKey option" where
  "typ_index K ty k = (if type_index k = ty then dir_index K k else None)"

definition indexes_ok :: "LsaKey set \<Rightarrow> LsdbTable \<Rightarrow> bool" where
  "indexes_ok K t = (al_wf (db t) \<and> al_get (db t) = dir_index K \<and> nested (advDb t) (adv_index K) \<and> nested (typeDb t) (typ_index K))"

definition lsdb_abs :: "LsdbTable \<Rightarrow> LsaKey \<rightharpoonup> LsaRecord" where
  "lsdb_abs t = al_get (dbStorage t)"

definition lsdb_ok :: "LsdbTable \<Rightarrow> bool" where
  "lsdb_ok t = (al_wf (dbStorage t) \<and> indexes_ok (dom (lsdb_abs t)) t)"

lemma indexes_new: "indexes_ok {} t" if "db t = []" "advDb t = []" "typeDb t = []" for t
proof -
  have "adv_index {} = (\<lambda>a i. None)" "typ_index {} = (\<lambda>a i. None)" "dir_index {} = (\<lambda>i. None)"
    by (auto simp: adv_index_def typ_index_def dir_index_def fun_eq_iff)
  then show ?thesis using that by (auto simp: indexes_ok_def)
qed

lemma key_eq: "\<lparr>key_adv = a, linkStateId = i\<rparr> = k \<longleftrightarrow> a = key_adv k \<and> i = linkStateId k"
  by (cases k) auto

lemma index_insert:
  "dir_index (insert k K) = (dir_index K)(k \<mapsto> k)"
  "adv_index (insert k K) = (adv_index K)(key_adv k := (adv_index K (key_adv k))(linkStateId k \<mapsto> k))"
  "typ_index (insert k K) = (typ_index K)(type_index k := (typ_index K (type_index k))(k \<mapsto> k))"
  by (auto simp: dir_index_def adv_index_def typ_index_def fun_eq_iff key_eq)

lemma index_delete:
  "dir_index (K - {k}) = (dir_index K)(k := None)"
  "adv_index (K - {k}) = (adv_index K)(key_adv k := (adv_index K (key_adv k))(linkStateId k := None))"
  "typ_index (K - {k}) = (typ_index K)(type_index k := (typ_index K (type_index k))(k := None))"
  by (auto simp: dir_index_def adv_index_def typ_index_def fun_eq_iff key_eq)

lemma addIndexes_ok: "indexes_ok K t \<Longrightarrow> indexes_ok (insert k K) (addIndexes k t)"
  using nested_put [of "advDb t" "adv_index K" "key_adv k" "linkStateId k" k]
    nested_put [of "typeDb t" "typ_index K" "type_index k" k k]
  by (auto simp: indexes_ok_def addIndexes_def index_insert fun_eq_iff)

lemma dropIndexes_ok: "indexes_ok K t \<Longrightarrow> indexes_ok (K - {k}) (dropIndexes k t)"
  using nested_del [of "advDb t" "adv_index K" "linkStateId k" "key_adv k"]
    nested_del [of "typeDb t" "typ_index K" k "type_index k"]
  by (auto simp: indexes_ok_def dropIndexes_def index_delete fun_eq_iff Let_def)

lemma storage_irrelevant: "indexes_ok K (t\<lparr>dbStorage := s\<rparr>) \<longleftrightarrow> indexes_ok K t"
  by (simp add: indexes_ok_def)

lemma index_storage [simp]: "dbStorage (addIndexes k t) = dbStorage t" "dbStorage (dropIndexes k t) = dbStorage t"
  by (simp_all add: addIndexes_def dropIndexes_def Let_def)

lemma lsdb_okD:
  assumes "lsdb_ok t"
  shows "al_wf (dbStorage t)" and "al_get (db t) = dir_index (dom (lsdb_abs t))"
    and "indexes_ok (dom (lsdb_abs t)) t"
  using assms by (auto simp: lsdb_ok_def indexes_ok_def)

text \<open>The three ways the store changes: an entry is written, a known entry is rewritten, an entry goes.\<close>

lemma lsdb_write:
  assumes "lsdb_ok t" and "t1 = (if lsdb_abs t k = None then addIndexes k t else t)"
  shows "lsdb_ok (t1\<lparr>dbStorage := al_put k r (dbStorage t1)\<rparr>)"
    and "lsdb_abs (t1\<lparr>dbStorage := al_put k r (dbStorage t1)\<rparr>) = (lsdb_abs t)(k \<mapsto> r)"
proof -
  have s: "dbStorage t1 = dbStorage t" using assms(2) by simp
  show a: "lsdb_abs (t1\<lparr>dbStorage := al_put k r (dbStorage t1)\<rparr>) = (lsdb_abs t)(k \<mapsto> r)"
    by (auto simp: lsdb_abs_def s fun_eq_iff)
  have "indexes_ok (insert k (dom (lsdb_abs t))) t1"
    using assms addIndexes_ok [OF lsdb_okD(3) [OF assms(1)], of k] lsdb_okD(3) [OF assms(1)]
    by (auto simp: insert_absorb domIff split: if_splits)
  then show "lsdb_ok (t1\<lparr>dbStorage := al_put k r (dbStorage t1)\<rparr>)"
    using lsdb_okD(1) [OF assms(1)] a by (simp add: lsdb_ok_def storage_irrelevant s)
qed

lemma lsdb_remove:
  assumes "lsdb_ok t"
  shows "lsdb_ok ((dropIndexes k t)\<lparr>dbStorage := al_del k (dbStorage t)\<rparr>)"
    and "lsdb_abs ((dropIndexes k t)\<lparr>dbStorage := al_del k (dbStorage t)\<rparr>) = (lsdb_abs t)(k := None)"
proof -
  show a: "lsdb_abs ((dropIndexes k t)\<lparr>dbStorage := al_del k (dbStorage t)\<rparr>) = (lsdb_abs t)(k := None)"
    by (auto simp: lsdb_abs_def fun_eq_iff)
  show "lsdb_ok ((dropIndexes k t)\<lparr>dbStorage := al_del k (dbStorage t)\<rparr>)"
    using lsdb_okD(1) [OF assms] dropIndexes_ok [OF lsdb_okD(3) [OF assms], of k] a
    by (simp add: lsdb_ok_def storage_irrelevant)
qed

section \<open>The abstract database\<close>

datatype lsdbOp =
    UpsertMeta nat IncomingLsaContext u8
  | UpsertBody nat IncomingLsaContext u8 LsaBody
  | Erase LsaKey
  | Clear
  | TouchRefresh nat LsaKey
  | SetFlags LsaKey u8
  | AgeAll u16 u16 bool

fun lsdb_op :: "lsdbOp \<Rightarrow> LsdbTable \<Rightarrow> LsdbTable" where
  "lsdb_op (UpsertMeta now lsa fl) t = upsertMeta now lsa fl t"
| "lsdb_op (UpsertBody now lsa fl b) t = upsertBody now lsa fl b t"
| "lsdb_op (Erase k) t = snd (lsdb_erase k t)"
| "lsdb_op Clear t = lsdb_clear t"
| "lsdb_op (TouchRefresh now k) t = snd (touchRefresh now k t)"
| "lsdb_op (SetFlags k fl) t = snd (setFlags k fl t)"
| "lsdb_op (AgeAll d mx er) t = snd (ageAll d mx er t)"

definition lsdb_run :: "lsdbOp list \<Rightarrow> LsdbTable" where
  "lsdb_run ops = fold lsdb_op ops LsdbTable_new"

definition met :: "nat \<Rightarrow> IncomingLsaContext \<Rightarrow> u8 \<Rightarrow> LsaRecord option \<Rightarrow> LsaRecord" where
  "met now lsa fl found = (case found of None \<Rightarrow> emptyRecord\<lparr>installTime := now\<rparr> | Some r \<Rightarrow> r)
     \<lparr>header := ctx_header lsa, rec_flags := fl, rec_incomingInterface := incomingInterface lsa,
      rec_incomingNeighbor := incomingNeighbor lsa, lastRefreshTime := now\<rparr>"

definition survive :: "u16 \<Rightarrow> u16 \<Rightarrow> LsaRecord \<Rightarrow> LsaRecord option" where
  "survive d mx r = (if mx \<le> age (header (aged d mx r)) then None else Some (aged d mx r))"

fun lsdb_spec :: "lsdbOp \<Rightarrow> (LsaKey \<rightharpoonup> LsaRecord) \<Rightarrow> (LsaKey \<rightharpoonup> LsaRecord)" where
  "lsdb_spec (UpsertMeta now lsa fl) m = m(ctx_key lsa \<mapsto> met now lsa fl (m (ctx_key lsa)))"
| "lsdb_spec (UpsertBody now lsa fl b) m = m(ctx_key lsa \<mapsto> (met now lsa fl (m (ctx_key lsa)))\<lparr>body := b\<rparr>)"
| "lsdb_spec (Erase k) m = m(k := None)"
| "lsdb_spec Clear m = Map.empty"
| "lsdb_spec (TouchRefresh now k) m = m(k := map_option (lastRefreshTime_update (\<lambda>_. now)) (m k))"
| "lsdb_spec (SetFlags k fl) m = m(k := map_option (rec_flags_update (\<lambda>_. fl)) (m k))"
| "lsdb_spec (AgeAll d mx er) m = (\<lambda>k. Option.bind (m k) (if er then survive d mx else Some \<circ> aged d mx))"

lemma upsertMeta_eq: "upsertMeta now lsa fl t = (let t1 = (if lsdb_abs t (ctx_key lsa) = None then addIndexes (ctx_key lsa) t else t)
   in t1\<lparr>dbStorage := al_put (ctx_key lsa) (met now lsa fl (lsdb_abs t (ctx_key lsa))) (dbStorage t1)\<rparr>)"
  by (simp add: upsertMeta_def lsdb_abs_def met_def Let_def)

lemma upsertMeta_ok:
  assumes "lsdb_ok t"
  shows "lsdb_ok (upsertMeta now lsa fl t)" and "lsdb_abs (upsertMeta now lsa fl t) = lsdb_spec (UpsertMeta now lsa fl) (lsdb_abs t)"
  using lsdb_write [OF assms refl, of "ctx_key lsa" "met now lsa fl (lsdb_abs t (ctx_key lsa))"]
  unfolding upsertMeta_eq Let_def lsdb_spec.simps by blast+

lemma lsdb_rewrite:
  assumes "lsdb_ok t" and "lsdb_abs t k = Some r0"
  shows "lsdb_ok (t\<lparr>dbStorage := al_put k r (dbStorage t)\<rparr>)"
    and "lsdb_abs (t\<lparr>dbStorage := al_put k r (dbStorage t)\<rparr>) = (lsdb_abs t)(k \<mapsto> r)"
  using lsdb_write [OF assms(1), of t k r] assms(2) by simp_all

lemma upsertBody_ok:
  assumes "lsdb_ok t"
  shows "lsdb_ok (upsertBody now lsa fl b t) \<and> lsdb_abs (upsertBody now lsa fl b t) = lsdb_spec (UpsertBody now lsa fl b) (lsdb_abs t)"
proof -
  let ?t = "upsertMeta now lsa fl t" and ?r = "met now lsa fl (lsdb_abs t (ctx_key lsa))"
  have r: "lsdb_abs ?t (ctx_key lsa) = Some ?r" using upsertMeta_ok(2) [OF assms] by simp
  then have "upsertBody now lsa fl b t = ?t\<lparr>dbStorage := al_put (ctx_key lsa) (?r\<lparr>body := b\<rparr>) (dbStorage ?t)\<rparr>"
    by (simp add: upsertBody_def Let_def lsdb_abs_def)
  with lsdb_rewrite [OF upsertMeta_ok(1) [OF assms] r, of "?r\<lparr>body := b\<rparr>"] upsertMeta_ok(2) [OF assms]
  show ?thesis by simp
qed

lemma modifyAt_ok:
  assumes "lsdb_ok t"
  shows "lsdb_ok (snd (modifyAt k f t)) \<and> lsdb_abs (snd (modifyAt k f t)) = (lsdb_abs t)(k := map_option f (lsdb_abs t k))
    \<and> (fst (modifyAt k f t) \<longleftrightarrow> lsdb_abs t k \<noteq> None)"
proof (cases "lsdb_abs t k")
  case None
  then have "al_get (db t) k = None" using lsdb_okD(2) [OF assms] by (auto simp: dir_index_def)
  with None assms show ?thesis by (auto simp: modifyAt_def fun_eq_iff)
next
  case (Some r)
  then have "al_get (db t) k = Some k" using lsdb_okD(2) [OF assms] by (auto simp: dir_index_def)
  with Some lsdb_rewrite [OF assms Some, of "f r"] show ?thesis by (simp add: modifyAt_def lsdb_abs_def)
qed

lemma ageStep_ok:
  assumes "lsdb_ok (snd s)"
  shows "lsdb_ok (snd (ageStep d mx k s))"
    and "lsdb_abs (snd (ageStep d mx k s)) = (lsdb_abs (snd s))(k := Option.bind (lsdb_abs (snd s) k) (survive d mx))"
proof -
  have "lsdb_ok (snd (ageStep d mx k s))
    \<and> lsdb_abs (snd (ageStep d mx k s)) = (lsdb_abs (snd s))(k := Option.bind (lsdb_abs (snd s) k) (survive d mx))"
  proof (cases "lsdb_abs (snd s) k")
    case None
    with assms show ?thesis by (auto simp: ageStep_def lsdb_abs_def fun_eq_iff)
  next
    case (Some r)
    with lsdb_rewrite [OF assms Some, of "aged d mx r"] lsdb_remove [OF assms, of k] show ?thesis
      by (auto simp: ageStep_def lsdb_abs_def Let_def survive_def)
  qed
  then show "lsdb_ok (snd (ageStep d mx k s))"
    and "lsdb_abs (snd (ageStep d mx k s)) = (lsdb_abs (snd s))(k := Option.bind (lsdb_abs (snd s) k) (survive d mx))" by blast+
qed

lemma ageSteps_ok:
  "distinct ks \<Longrightarrow> lsdb_ok (snd s) \<Longrightarrow> lsdb_ok (snd (fold (ageStep d mx) ks s))
   \<and> lsdb_abs (snd (fold (ageStep d mx) ks s)) = (\<lambda>k. if k \<in> set ks then Option.bind (lsdb_abs (snd s) k) (survive d mx) else lsdb_abs (snd s) k)"
proof (induction ks arbitrary: s)
  case (Cons k ks)
  from Cons.IH [OF _ ageStep_ok(1) [OF Cons.prems(2)]] Cons.prems(1) show ?case
    by (auto simp: ageStep_ok(2) [OF Cons.prems(2)])
qed auto

lemma al_get_map: "al_get (map (\<lambda>(k, r). (k, f r)) xs) k = map_option f (al_get xs k)"
  by (induction xs) auto

lemma ageAll_ok:
  assumes "lsdb_ok t"
  shows "lsdb_ok (snd (ageAll d mx er t)) \<and> lsdb_abs (snd (ageAll d mx er t)) = lsdb_spec (AgeAll d mx er) (lsdb_abs t)"
proof (cases er)
  case True
  have "lsdb_abs t k = None" if "k \<notin> fst ` set (dbStorage t)" for k using that by (simp add: lsdb_abs_def al_get_None_iff)
  with True ageSteps_ok [OF lsdb_okD(1) [OF assms], of "(0, t)" d mx] assms show ?thesis
    by (auto simp: ageAll_def fun_eq_iff)
next
  case False
  let ?t = "snd (ageAll d mx er t)"
  have a: "lsdb_abs ?t = lsdb_spec (AgeAll d mx er) (lsdb_abs t)"
    using False by (auto simp: ageAll_def ageKeep_def Let_def lsdb_abs_def fun_eq_iff al_get_map) (metis map_conv_bind_option comp_apply)
  have "dom (lsdb_abs ?t) = dom (lsdb_abs t)"
    unfolding a using False by (auto simp: dom_def split: Option.bind_splits)
  moreover have "al_wf (dbStorage ?t)" using lsdb_okD(1) [OF assms] False by (simp add: ageAll_def ageKeep_def Let_def comp_def case_prod_unfold)
  moreover have "indexes_ok K ?t = indexes_ok K t" for K using False by (simp add: ageAll_def ageKeep_def Let_def storage_irrelevant)
  ultimately show ?thesis using a lsdb_okD(3) [OF assms] by (simp add: lsdb_ok_def)
qed

lemma lsdb_op_ok: "lsdb_ok t \<Longrightarrow> lsdb_ok (lsdb_op op t) \<and> lsdb_abs (lsdb_op op t) = lsdb_spec op (lsdb_abs t)"
proof (cases op)
  case Clear
  then show ?thesis using indexes_new [of "lsdb_clear t"] by (auto simp: lsdb_clear_def lsdb_ok_def lsdb_abs_def)
qed (simp_all add: upsertMeta_ok upsertBody_ok modifyAt_ok touchRefresh_def setFlags_def ageAll_ok lsdb_erase_def lsdb_remove
      del: lsdb_spec.simps(1,2,7))

lemma lsdb_run_ok: "lsdb_ok (lsdb_run ops) \<and> lsdb_abs (lsdb_run ops) = fold lsdb_spec ops Map.empty"
proof -
  have "lsdb_ok t \<Longrightarrow> lsdb_ok (fold lsdb_op ops t) \<and> lsdb_abs (fold lsdb_op ops t) = fold lsdb_spec ops (lsdb_abs t)" for t
    by (induction ops arbitrary: t) (auto simp: lsdb_op_ok)
  moreover have "lsdb_ok LsdbTable_new" "lsdb_abs LsdbTable_new = Map.empty"
    using indexes_new [of LsdbTable_new] by (auto simp: lsdb_ok_def LsdbTable_new_def lsdb_abs_def)
  ultimately show ?thesis by (metis lsdb_run_def)
qed

section \<open>Enumerations\<close>

lemma deref_set: "set (deref t xs) = {(k, r). \<exists>p. (k, p) \<in> set xs \<and> lsdb_abs t p = Some r}"
  by (force simp: deref_def lsdb_abs_def List.map_filter_def split: option.splits)

lemma al_set: "al_wf xs \<Longrightarrow> set xs = {(k, v). al_get xs k = Some v}"
  by (auto simp: al_get_Some_iff)

lemma sub_wf: "nested m f \<Longrightarrow> al_wf (sub a m)"
  by (auto simp: nested_def sub_def split: option.split)

lemma nested_set: "nested m f \<Longrightarrow> set (sub a m) = {(k, v). f a k = Some v}"
  using al_set [OF sub_wf [of m f a]] by (simp add: nested_def)

lemma forEach_set:
  assumes "lsdb_ok t"
  shows "set (forEach t) = {(k, r). lsdb_abs t k = Some r}"
proof -
  have "set (db t) = {(k, p). dir_index (dom (lsdb_abs t)) k = Some p}"
    using assms al_set [of "db t"] by (auto simp: lsdb_ok_def indexes_ok_def)
  then show ?thesis by (auto simp: forEach_def deref_set dir_index_def split: if_splits)
qed

lemma forEachInAdv_set:
  assumes "lsdb_ok t"
  shows "set (forEachInAdv a t) = {(i, r). lsdb_abs t \<lparr>key_adv = a, linkStateId = i\<rparr> = Some r}"
proof -
  have n: "nested (advDb t) (adv_index (dom (lsdb_abs t)))" using assms by (simp add: lsdb_ok_def indexes_ok_def)
  have "forEachInAdv a t = deref t (sub a (advDb t))"
    by (auto simp: forEachInAdv_def sub_def deref_def List.map_filter_def split: option.split)
  then show ?thesis using nested_set [OF n, of a] by (auto simp: deref_set adv_index_def dir_index_def split: if_splits)
qed

lemma forEachInType_set:
  assumes "lsdb_ok t"
  shows "(case forEachInType ty t of None \<Rightarrow> {} | Some xs \<Rightarrow> set xs) = {(k, r). type_index k = ty \<and> lsdb_abs t k = Some r}"
    and "forEachInType ty t = None \<longleftrightarrow> {k. type_index k = ty \<and> lsdb_abs t k \<noteq> None} = {}"
proof -
  have n: "nested (typeDb t) (typ_index (dom (lsdb_abs t)))" using assms by (simp add: lsdb_ok_def indexes_ok_def)
  note ns = nested_set [OF n, of ty]
  have "(case forEachInType ty t of None \<Rightarrow> {} | Some xs \<Rightarrow> set xs) = set (deref t (sub ty (typeDb t)))"
    by (auto simp: forEachInType_def sub_def deref_def List.map_filter_def split: option.split)
  then show "(case forEachInType ty t of None \<Rightarrow> {} | Some xs \<Rightarrow> set xs) = {(k, r). type_index k = ty \<and> lsdb_abs t k = Some r}"
    using ns by (auto simp: deref_set typ_index_def dir_index_def split: if_splits)
  have "forEachInType ty t = None \<longleftrightarrow> sub ty (typeDb t) = []"
    using n by (auto simp: forEachInType_def sub_def nested_def split: option.split)
  also have "\<dots> \<longleftrightarrow> {k. type_index k = ty \<and> lsdb_abs t k \<noteq> None} = {}"
    unfolding set_empty [symmetric] ns by (auto simp: typ_index_def dir_index_def split: if_splits)
  finally show "forEachInType ty t = None \<longleftrightarrow> {k. type_index k = ty \<and> lsdb_abs t k \<noteq> None} = {}" .
qed

lemma lsdb_find_abs: "lsdb_ok t \<Longrightarrow> lsdb_find k t = lsdb_abs t k"
  using lsdb_okD(2) [of t] by (cases "lsdb_abs t k") (auto simp: lsdb_find_def dir_index_def lsdb_abs_def)

lemma lsdb_size_card: "lsdb_ok t \<Longrightarrow> lsdb_size t = card (dom (lsdb_abs t))"
proof -
  assume ok: "lsdb_ok t"
  then have wf: "al_wf (db t)" by (simp add: lsdb_ok_def indexes_ok_def)
  have "fst ` set (db t) = dom (lsdb_abs t)"
    using al_set [OF wf] lsdb_okD(2) [OF ok] by (force simp: dir_index_def split: if_splits)
  then show ?thesis using wf by (simp add: lsdb_size_def) (metis distinct_card length_map set_map)
qed

section \<open>Facts on aging\<close>

lemma saturating: "unat (saturatingAddAge a b mx) = min (unat a + unat b) (unat mx)"
proof -
  have l: "unat a < 2 ^ 16" "unat b < 2 ^ 16" "unat mx < 2 ^ 16"
    using unsigned_less [where ?'a = nat, of a] unsigned_less [where ?'a = nat, of b] unsigned_less [where ?'a = nat, of mx] by auto
  have u: "unat (ucast x :: u32) = unat x" for x :: u16
    using unsigned_less [where ?'a = nat, of x] by (simp add: unsigned_ucast_eq take_bit_nat_eq_self)
  have s: "unat ((ucast a :: u32) + ucast b) = unat a + unat b" using l by (simp add: unat_word_ariths u)
  show ?thesis
  proof (cases "unat mx \<le> unat a + unat b")
    case True
    then show ?thesis by (simp add: saturatingAddAge_def Let_def word_le_nat_alt s u)
  next
    case False
    then have "unat a + unat b < 2 ^ 16" using l(3) by linarith
    then have "unat (ucast ((ucast a :: u32) + ucast b) :: u16) = unat a + unat b"
      by (simp add: unsigned_ucast_eq s take_bit_nat_eq_self)
    with False show ?thesis by (simp add: saturatingAddAge_def Let_def word_le_nat_alt s u)
  qed
qed

definition tick :: "LsdbTable \<Rightarrow> LsdbTable" where
  "tick t = snd (snd (onAgingTick t))"

lemma tick_storage: "dbStorage (tick t) = map (\<lambda>(k, r). (k, aged 1 OSPF_MAX_AGE r)) (dbStorage t)"
  by (simp add: tick_def onAgingTick_def ageAll_def ageKeep_def Let_def purgeExpired_def purgeIf_def)

lemma tick_flooded: "set (fst (onAgingTick t)) = {k. \<exists>r. (k, r) \<in> set (dbStorage (tick t)) \<and> OSPF_MAX_AGE \<le> age (header r)}"
proof -
  let ?st = "map (\<lambda>(k, r). (k, aged 1 OSPF_MAX_AGE r)) (dbStorage t)" and ?P = "\<lambda>(k :: LsaKey, r). OSPF_MAX_AGE \<le> age (header r)"
  have "set (fst (onAgingTick t)) = fst ` set (filter ?P ?st)"
    unfolding onAgingTick_def ageAll_def ageKeep_def Let_def by (cases "filter ?P ?st") simp_all
  then show ?thesis by (force simp: tick_storage)
qed


lemma tick_abs: "lsdb_abs (tick t) k = map_option (aged 1 OSPF_MAX_AGE) (lsdb_abs t k)"
  by (simp add: lsdb_abs_def tick_storage al_get_map)

lemma aged_age: "unat (age (header (aged 1 OSPF_MAX_AGE r))) = min (Suc (unat (age (header r)))) 3600"
  by (simp add: aged_def saturating OSPF_MAX_AGE_def)

lemma ticks_storage: "dbStorage ((tick ^^ n) t) = map (\<lambda>(k, r). (k, ((aged 1 OSPF_MAX_AGE) ^^ n) r)) (dbStorage t)"
  by (induction n) (auto simp: tick_storage)

lemma ticks_age: "0 < n \<or> unat (age (header r)) \<le> 3600 \<Longrightarrow>
  unat (age (header (((aged 1 OSPF_MAX_AGE) ^^ n) r))) = min (unat (age (header r)) + n) 3600"
proof (induction n)
  case (Suc n)
  then show ?case by (cases "n = 0") (auto simp: aged_age)
qed simp

lemma tick_db:
  assumes "lsdb_ok t" and "al_get (dbStorage (tick t)) k = Some r" and "OSPF_MAX_AGE \<le> age (header r)"
  shows "al_get (db (tick t)) k = None"
proof -
  have r: "al_get (map (\<lambda>(k, r). (k, aged 1 OSPF_MAX_AGE r)) (dbStorage t)) k = Some r" using assms(2) by (simp add: tick_storage)
  then have mem: "(k, r) \<in> set (map (\<lambda>(k, r). (k, aged 1 OSPF_MAX_AGE r)) (dbStorage t))" by (rule al_get_SomeD)
  have own: "p = k" if "(k, p) \<in> set (db t)" for p
    using that assms(1) al_set [of "db t"] by (auto simp: lsdb_ok_def indexes_ok_def dir_index_def split: if_splits)
  from mem assms(3) have "filter (\<lambda>(k, r). OSPF_MAX_AGE \<le> age (header r)) (map (\<lambda>(k, r). (k, aged 1 OSPF_MAX_AGE r)) (dbStorage t)) \<noteq> []"
    by (metis (mono_tags, lifting) case_prod_conv filter_empty_conv)
  then have "tick t = snd (purgeExpired OSPF_MAX_AGE (t\<lparr>dbStorage := map (\<lambda>(k, r). (k, aged 1 OSPF_MAX_AGE r)) (dbStorage t)\<rparr>))"
    by (simp add: tick_def onAgingTick_def ageAll_def ageKeep_def Let_def filter_map)
  then show ?thesis using own r assms(3) by (force simp: al_get_None_iff purgeExpired_def purgeIf_def Let_def)
qed

section \<open>Properties\<close>


text \<open>Enumerating the advertisements of a type that has none is undefined behaviour: the look-up in the
  type index is dereferenced without a test, and the indexes hold no entry for such a type.\<close>

theorem enumerating_absent_type:
  "forEachInType ty (lsdb_run ops) = None
   \<longleftrightarrow> {k. type_index k = ty \<and> fold lsdb_spec ops Map.empty k \<noteq> None} = {}"
  using lsdb_run_ok [of ops] forEachInType_set(2) [of "lsdb_run ops" ty] by simp

text \<open>(C32) Ages count seconds and stop at MaxAge: after \<open>n\<close> ticks of the aging timer a record whose age was
  at most MaxAge has the age \<open>min (age + n) 3600\<close>, without wrap-around, and nothing else of it has
  changed.\<close>

theorem aging_saturates:
  assumes "lsdb_abs t k = Some r" and "unat (age (header r)) \<le> 3600"
  shows "\<exists>a. lsdb_abs ((tick ^^ n) t) k = Some (r\<lparr>header := (header r)\<lparr>age := a\<rparr>\<rparr>)
    \<and> unat a = min (unat (age (header r)) + n) 3600"
proof -
  have "\<exists>a. ((aged 1 OSPF_MAX_AGE) ^^ n) r = r\<lparr>header := (header r)\<lparr>age := a\<rparr>\<rparr>"
  proof (induction n)
    case 0
    show ?case by (rule exI [of _ "age (header r)"]) simp
  next
    case (Suc n)
    then show ?case by (auto simp: aged_def)
  qed
  then obtain a where a: "((aged 1 OSPF_MAX_AGE) ^^ n) r = r\<lparr>header := (header r)\<lparr>age := a\<rparr>\<rparr>" ..
  moreover have "lsdb_abs ((tick ^^ n) t) k = Some (((aged 1 OSPF_MAX_AGE) ^^ n) r)"
    using assms(1) by (simp add: lsdb_abs_def ticks_storage al_get_map)
  ultimately show ?thesis using ticks_age [of n r] assms(2) by auto
qed

text \<open>An expired advertisement never leaves: the purge removes it from the look-up index only. From
  the tick at which it is flooded as expired on, every further tick floods it again and requests a new
  shortest-path computation, and a fresh instance installed under its key cannot be found.\<close>

theorem expired_lsa_lingers:
  fixes ops
  defines "t \<equiv> lsdb_run ops"
  assumes "k \<in> set (fst (onAgingTick t))" and "ctx_key lsa = k"
  shows "k \<in> set (fst (onAgingTick ((tick ^^ n) t))) \<and> fst (snd (onAgingTick ((tick ^^ n) t)))
    \<and> lsdb_find k (tick t) = None \<and> lsdb_find k (upsertMeta now lsa fl (tick t)) = None"
proof -
  have ok: "lsdb_ok t" using lsdb_run_ok [of ops] by (simp add: t_def)
  from assms(2) obtain r where r: "(k, r) \<in> set (dbStorage t)" "OSPF_MAX_AGE \<le> age (header (aged 1 OSPF_MAX_AGE r))"
    by (auto simp: tick_flooded tick_storage)
  have "3600 \<le> Suc (unat (age (header r)))" using r(2) aged_age [of r] by (simp add: OSPF_MAX_AGE_def word_le_nat_alt)
  then have "3600 \<le> unat (age (header (((aged 1 OSPF_MAX_AGE) ^^ Suc n) r)))" using ticks_age [of "Suc n" r] by simp
  then have old: "OSPF_MAX_AGE \<le> age (header (((aged 1 OSPF_MAX_AGE) ^^ Suc n) r))" by (simp add: OSPF_MAX_AGE_def word_le_nat_alt)
  have "(k, ((aged 1 OSPF_MAX_AGE) ^^ Suc n) r) \<in> set (dbStorage ((tick ^^ Suc n) t))"
    using r(1) by (force simp: ticks_storage simp del: funpow.simps)
  with old have fl: "k \<in> set (fst (onAgingTick ((tick ^^ n) t)))" by (auto simp: tick_flooded)
  then have req: "fst (snd (onAgingTick ((tick ^^ n) t)))"
    by (auto simp: onAgingTick_def Let_def split: prod.splits if_splits)
  have st: "al_get (dbStorage (tick t)) k = Some (aged 1 OSPF_MAX_AGE r)"
    using al_get_Some_iff [OF lsdb_okD(1) [OF ok], of k r] r(1) by (simp add: tick_storage al_get_map)
  have "al_get (db (tick t)) k = None" using tick_db [OF ok] st r(2) by auto
  with st show ?thesis using fl req assms(3)
    by (simp add: lsdb_find_def upsertMeta_def Let_def)
qed


text \<open>A database with one router advertisement one second before MaxAge.\<close>

definition ex_key :: LsaKey where
  "ex_key = \<lparr>key_adv = \<lparr>lsaType = 1, advertisingRouter = 0x0A000001\<rparr>, linkStateId = 0x0A000001\<rparr>"

definition ex_ctx :: "u16 \<Rightarrow> IncomingLsaContext" where
  "ex_ctx a = \<lparr>ctx_key = ex_key, ctx_header = \<lparr>sequence = 1, checksum = 0, lsa_length = 24, age = a, hdr_options = 0\<rparr>,
     incomingInterface = 1, incomingNeighbor = 2\<rparr>"

definition ex_db :: LsdbTable where
  "ex_db = lsdb_run [UpsertMeta 0 (ex_ctx 3599) 0]"

lemma ex_db_simps:
  "dbStorage ex_db = [(ex_key, met 0 (ex_ctx 3599) 0 None)]" "age (header (met 0 (ex_ctx a) 0 None)) = a"
  by (simp_all add: ex_db_def lsdb_run_def upsertMeta_eq LsdbTable_new_def lsdb_abs_def ex_ctx_def met_def)

theorem aging_saturates_witness:
  "\<exists>a. lsdb_abs ((tick ^^ 5) ex_db) ex_key = Some ((met 0 (ex_ctx 3599) 0 None)\<lparr>header := (header (met 0 (ex_ctx 3599) 0 None))\<lparr>age := a\<rparr>\<rparr>)
    \<and> unat a = 3600"
  using aging_saturates [of ex_db ex_key "met 0 (ex_ctx 3599) 0 None" 5] by (simp add: lsdb_abs_def ex_db_simps)

theorem expired_lsa_lingers_witness:
  "ex_key \<in> set (fst (onAgingTick ((tick ^^ 100) ex_db))) \<and> lsdb_find ex_key (upsertMeta 7 (ex_ctx 0) 0 (tick ex_db)) = None"
proof -
  have "OSPF_MAX_AGE \<le> age (header (aged 1 OSPF_MAX_AGE (met 0 (ex_ctx 3599) 0 None)))"
    using aged_age [of "met 0 (ex_ctx 3599) 0 None"] by (simp add: ex_db_simps word_le_nat_alt) (simp add: OSPF_MAX_AGE_def)
  then have "ex_key \<in> set (fst (onAgingTick (lsdb_run [UpsertMeta 0 (ex_ctx 3599) 0])))"
    unfolding tick_flooded by (simp add: tick_storage ex_db_simps flip: ex_db_def)
  from expired_lsa_lingers [OF this, of "ex_ctx 0"] show ?thesis by (simp add: ex_ctx_def ex_db_def)
qed

end
