(* ===== verification/OspfTopology.thy ===== *)
theory OspfTopology
  imports OspfSpf OspfLsdb
begin

text \<open>
  The graph the shortest-path engine works on, \<open>routing/ospf/spf/SpfTopology.cpp\<close>: the indexes built from
  the link-state database and the expansion of router and network vertices, for both versions of the
  protocol, with the cache of confirmed back links threaded through the expansions.

  The two versions provide the interface \<open>spf_graph\<close> of the engine, so that the shortest-path theorem
  holds of the graph of bidirectional links of the database. What has to be shown for it is that the
  cache never changes the answer of an expansion.
\<close>

section \<open>Back links\<close>

record BacklinkKey =
  t1 :: VertexType
  id1 :: u64
  t2 :: VertexType
  id2 :: u64

definition mk_backlink :: "VertexType \<Rightarrow> u64 \<Rightarrow> VertexType \<Rightarrow> u64 \<Rightarrow> BacklinkKey" where
  "mk_backlink aType aId bType bId =
     (if type_rank aType < type_rank bType \<or> aType = bType \<and> aId \<le> bId
      then \<lparr>t1 = aType, id1 = aId, t2 = bType, id2 = bId\<rparr>
      else \<lparr>t1 = bType, id1 = bId, t2 = aType, id2 = aId\<rparr>)"

record NetV2ByLsId =
  nv_advRouter :: u32
  nv_rec :: LsaRecord
  nv_lsa :: NetworkLsaV2

record ('r, 'n) SpfTopology =
  backlinkCache :: "BacklinkKey list"
  rtr :: "(u64 \<times> 'r list) list"
  net :: "(u64 \<times> 'n) list"
  netV2ByLsId :: "(u32 \<times> NetV2ByLsId) list"

type_synonym topologyV2 = "(RouterLsaV2, NetworkLsaV2) SpfTopology"
type_synonym topologyV3 = "(RouterLsaV3, NetworkLsaV3) SpfTopology"

definition emptyTopology :: "('r, 'n) SpfTopology" where
  "emptyTopology = \<lparr>backlinkCache = [], rtr = [], net = [], netV2ByLsId = []\<rparr>"

section \<open>Building the indexes\<close>

definition pushRouter :: "u32 \<Rightarrow> 'r \<Rightarrow> ('r, 'n) SpfTopology \<Rightarrow> ('r, 'n) SpfTopology" where
  "pushRouter adv lsa t = t\<lparr>rtr := al_put (ucast adv) (sub (ucast adv) (rtr t) @ [lsa]) (rtr t)\<rparr>"

definition betterRecord :: "LsaRecord \<Rightarrow> LsaRecord \<Rightarrow> bool" where
  "betterRecord a b = (if sequence (header a) \<noteq> sequence (header b) then sequence (header b) < sequence (header a)
     else if checksum (header a) \<noteq> checksum (header b) then checksum (header b) < checksum (header a)
     else age (header a) < age (header b))"

definition indexV2 :: "LsaKey \<times> LsaRecord \<Rightarrow> topologyV2 \<Rightarrow> topologyV2" where
  "indexV2 kr t = (let k = fst kr; r = snd kr; adv = advertisingRouter (key_adv k); lsid = linkStateId k in
     case body r of
       Body_RouterLsaV2 lsa \<Rightarrow> if OSPF_MAX_AGE \<le> age (header r) then t
         else if adv \<noteq> lsid then t else pushRouter adv lsa t
     | Body_NetworkLsaV2 p \<Rightarrow> if OSPF_MAX_AGE \<le> age (header r) then t
         else if (case al_get (netV2ByLsId t) lsid of None \<Rightarrow> True | Some e \<Rightarrow> betterRecord r (nv_rec e))
         then t\<lparr>netV2ByLsId := al_put lsid \<lparr>nv_advRouter = adv, nv_rec = r, nv_lsa = p\<rparr> (netV2ByLsId t),
                net := al_put (packNetwork adv lsid) p (net t)\<rparr>
         else t
     | _ \<Rightarrow> t)"

definition indexV3 :: "LsaKey \<times> LsaRecord \<Rightarrow> topologyV3 \<Rightarrow> topologyV3" where
  "indexV3 kr t = (let k = fst kr; r = snd kr; adv = advertisingRouter (key_adv k); lsid = linkStateId k in
     case body r of
       Body_RouterLsaV3 lsa \<Rightarrow> if OSPF_MAX_AGE \<le> age (header r) then t else pushRouter adv lsa t
     | Body_NetworkLsaV3 p \<Rightarrow> if OSPF_MAX_AGE \<le> age (header r) then t
         else t\<lparr>net := al_put (packNetwork adv lsid) p (net t)\<rparr>
     | _ \<Rightarrow> t)"

definition SpfTopologyV2 :: "LsdbTable \<Rightarrow> topologyV2" where
  "SpfTopologyV2 lsdb = fold indexV2 (forEach lsdb) emptyTopology"

definition SpfTopologyV3 :: "LsdbTable \<Rightarrow> topologyV3" where
  "SpfTopologyV3 lsdb = fold indexV3 (forEach lsdb) emptyTopology"

section \<open>Expansion\<close>

text \<open>The test every expansion makes: the cache first, then the other end's advertisement; a confirmed
  pair is remembered.\<close>

definition backlinked :: "BacklinkKey \<Rightarrow> bool \<Rightarrow> ('r, 'n) SpfTopology \<Rightarrow> bool \<times> ('r, 'n) SpfTopology" where
  "backlinked bk found t = (if bk \<in> set (backlinkCache t) then (True, t)
     else if found then (True, t\<lparr>backlinkCache := bk # backlinkCache t\<rparr>) else (False, t))"

fun collect :: "('l \<Rightarrow> 't \<Rightarrow> 'e option \<times> 't) \<Rightarrow> 'l list \<Rightarrow> 't \<Rightarrow> 'e list \<times> 't" where
  "collect f [] t = ([], t)"
| "collect f (l # ls) t = (case f l t of (e, t) \<Rightarrow> case collect f ls t of (es, t) \<Rightarrow>
     (case e of None \<Rightarrow> es | Some e \<Rightarrow> e # es, t))"

abbreviation LINK_P2P :: u8 where "LINK_P2P \<equiv> 1"
abbreviation LINK_TRANSIT :: u8 where "LINK_TRANSIT \<equiv> 2"

text \<open>\<open>front()\<close> of the advertisements of a router; the vectors in the index are never empty.\<close>

definition frontLinks :: "RouterLsaV2 list \<Rightarrow> RouterLinkV2 list" where
  "frontLinks ls = (case ls of [] \<Rightarrow> [] | l # _ \<Rightarrow> links2 l)"

definition linkV2 :: "u32 \<Rightarrow> RouterLinkV2 \<Rightarrow> topologyV2 \<Rightarrow> SpfEdge option \<times> topologyV2" where
  "linkV2 rid l t = (if link_type l = LINK_P2P then
       (case al_get (rtr t) (ucast (linkId l)) of None \<Rightarrow> (None, t)
        | Some nls \<Rightarrow> (case backlinked (mk_backlink ROUTER (ucast rid) ROUTER (ucast (linkId l)))
              (list_ex (\<lambda>bl. link_type bl = LINK_P2P \<and> linkId bl = rid) (frontLinks nls)) t of
            (ok, t) \<Rightarrow> (if ok then Some \<lparr>e_to = router_vertex (linkId l), e_cost = ucast (link_metric l), e_ifid = linkData l\<rparr>
                        else None, t)))
     else if link_type l = LINK_TRANSIT then
       (case al_get (netV2ByLsId t) (linkId l) of None \<Rightarrow> (None, t)
        | Some e \<Rightarrow> let nid = packNetwork (nv_advRouter e) (linkId l) in
           (case backlinked (mk_backlink ROUTER (ucast rid) NETWORK nid) (rid \<in> set (attachedRouters2 (nv_lsa e))) t of
            (ok, t) \<Rightarrow> (if ok then Some \<lparr>e_to = network_vertex nid, e_cost = ucast (link_metric l), e_ifid = linkData l\<rparr>
                        else None, t)))
     else (None, t))"

definition expandRouterV2 :: "u32 \<Rightarrow> topologyV2 \<Rightarrow> SpfEdge list option \<times> topologyV2" where
  "expandRouterV2 rid t = (case al_get (rtr t) (ucast rid) of None \<Rightarrow> (None, t)
     | Some [] \<Rightarrow> (None, t)
     | Some rlsas \<Rightarrow> (case collect (linkV2 rid) (concat (map links2 rlsas)) t of (es, t) \<Rightarrow> (Some es, t)))"

definition attachedV2 :: "u64 \<Rightarrow> u32 \<Rightarrow> topologyV2 \<Rightarrow> u32 option \<times> topologyV2" where
  "attachedV2 nid rid t = (case al_get (rtr t) (ucast rid) of None \<Rightarrow> (None, t)
     | Some ls \<Rightarrow> (case backlinked (mk_backlink ROUTER (ucast rid) NETWORK nid)
           (list_ex (\<lambda>l. link_type l = LINK_TRANSIT \<and> linkId l = networkLsId nid) (frontLinks ls)) t of
         (ok, t) \<Rightarrow> (if ok then Some rid else None, t)))"

definition expandNetworkV2 :: "u64 \<Rightarrow> topologyV2 \<Rightarrow> u32 list option \<times> topologyV2" where
  "expandNetworkV2 nid t = (case al_get (net t) nid of None \<Rightarrow> (None, t)
     | Some lsa \<Rightarrow> (case collect (attachedV2 nid) (attachedRouters2 lsa) t of (rids, t) \<Rightarrow> (Some rids, t)))"

abbreviation all_links3 :: "RouterLsaV3 list \<Rightarrow> RouterLinkV3 list" where
  "all_links3 ls \<equiv> concat (map links3 ls)"

definition transitTo :: "u64 \<Rightarrow> RouterLinkV3 \<Rightarrow> bool" where
  "transitTo nid l = (rl3_type l = LINK_TRANSIT \<and> packNetwork (neighborRouterId l) (neighborInterfaceId l) = nid)"

definition linkV3 :: "u32 \<Rightarrow> RouterLinkV3 \<Rightarrow> topologyV3 \<Rightarrow> SpfEdge option \<times> topologyV3" where
  "linkV3 rid l t = (if rl3_type l = LINK_P2P then
       (case al_get (rtr t) (ucast (neighborRouterId l)) of None \<Rightarrow> (None, t)
        | Some nls \<Rightarrow> (case backlinked (mk_backlink ROUTER (ucast rid) ROUTER (ucast (neighborRouterId l)))
              (list_ex (\<lambda>bl. rl3_type bl = LINK_P2P \<and> neighborRouterId bl = rid) (all_links3 nls)) t of
            (ok, t) \<Rightarrow> (if ok then Some \<lparr>e_to = router_vertex (neighborRouterId l), e_cost = ucast (rl3_metric l), e_ifid = interfaceId l\<rparr>
                        else None, t)))
     else if rl3_type l = LINK_TRANSIT then
       (let nid = packNetwork (neighborRouterId l) (neighborInterfaceId l) in
        case al_get (net t) nid of None \<Rightarrow> (None, t)
        | Some lsa \<Rightarrow> (case backlinked (mk_backlink ROUTER (ucast rid) NETWORK nid) (rid \<in> set (attachedRouters3 lsa)) t of
            (ok, t) \<Rightarrow> (if ok then Some \<lparr>e_to = network_vertex nid, e_cost = ucast (rl3_metric l), e_ifid = interfaceId l\<rparr>
                        else None, t)))
     else (None, t))"

definition expandRouterV3 :: "u32 \<Rightarrow> topologyV3 \<Rightarrow> SpfEdge list option \<times> topologyV3" where
  "expandRouterV3 rid t = (case al_get (rtr t) (ucast rid) of None \<Rightarrow> (None, t)
     | Some [] \<Rightarrow> (None, t)
     | Some rlsas \<Rightarrow> (case collect (linkV3 rid) (all_links3 rlsas) t of (es, t) \<Rightarrow> (Some es, t)))"

definition attachedV3 :: "u64 \<Rightarrow> u32 \<Rightarrow> topologyV3 \<Rightarrow> u32 option \<times> topologyV3" where
  "attachedV3 nid rid t = (case al_get (rtr t) (ucast rid) of None \<Rightarrow> (None, t)
     | Some ls \<Rightarrow> (case backlinked (mk_backlink ROUTER (ucast rid) NETWORK nid) (list_ex (transitTo nid) (all_links3 ls)) t of
         (ok, t) \<Rightarrow> (if ok then Some rid else None, t)))"

definition expandNetworkV3 :: "u64 \<Rightarrow> topologyV3 \<Rightarrow> u32 list option \<times> topologyV3" where
  "expandNetworkV3 nid t = (case al_get (net t) nid of None \<Rightarrow> (None, t)
     | Some lsa \<Rightarrow> (case collect (attachedV3 nid) (attachedRouters3 lsa) t of (rids, t) \<Rightarrow> (Some rids, t)))"

definition runV2 :: "u8 \<Rightarrow> u32 \<Rightarrow> LsdbTable \<Rightarrow> SpfResult" where
  "runV2 maxPaths rid lsdb = fst (runFull expandRouterV2 expandNetworkV2 maxPaths rid (SpfTopologyV2 lsdb))"

definition runV3 :: "u8 \<Rightarrow> u32 \<Rightarrow> LsdbTable \<Rightarrow> SpfResult" where
  "runV3 maxPaths rid lsdb = fst (runFull expandRouterV3 expandNetworkV3 maxPaths rid (SpfTopologyV3 lsdb))"

section \<open>The graph without the cache\<close>

definition edgeV2 :: "topologyV2 \<Rightarrow> u32 \<Rightarrow> RouterLinkV2 \<Rightarrow> SpfEdge option" where
  "edgeV2 T rid l = (if link_type l = LINK_P2P then
       (case al_get (rtr T) (ucast (linkId l)) of None \<Rightarrow> None
        | Some nls \<Rightarrow> if \<exists>bl\<in>set (frontLinks nls). link_type bl = LINK_P2P \<and> linkId bl = rid
            then Some \<lparr>e_to = router_vertex (linkId l), e_cost = ucast (link_metric l), e_ifid = linkData l\<rparr> else None)
     else if link_type l = LINK_TRANSIT then
       (case al_get (netV2ByLsId T) (linkId l) of None \<Rightarrow> None
        | Some e \<Rightarrow> if rid \<in> set (attachedRouters2 (nv_lsa e))
            then Some \<lparr>e_to = network_vertex (packNetwork (nv_advRouter e) (linkId l)), e_cost = ucast (link_metric l), e_ifid = linkData l\<rparr>
            else None)
     else None)"

definition memberV2 :: "topologyV2 \<Rightarrow> u64 \<Rightarrow> u32 \<Rightarrow> bool" where
  "memberV2 T nid rid = (case al_get (rtr T) (ucast rid) of None \<Rightarrow> False
     | Some ls \<Rightarrow> \<exists>l\<in>set (frontLinks ls). link_type l = LINK_TRANSIT \<and> linkId l = networkLsId nid)"

definition outV2 :: "topologyV2 \<Rightarrow> Vertex \<Rightarrow> SpfEdge list" where
  "outV2 T v = (case v_type v of
     ROUTER \<Rightarrow> (case al_get (rtr T) (ucast (ucast (v_id v) :: u32)) of None \<Rightarrow> []
       | Some rlsas \<Rightarrow> List.map_filter (edgeV2 T (ucast (v_id v))) (concat (map links2 rlsas)))
   | NETWORK \<Rightarrow> (case al_get (net T) (v_id v) of None \<Rightarrow> []
       | Some lsa \<Rightarrow> map attached_edge (filter (memberV2 T (v_id v)) (attachedRouters2 lsa))))"

definition edgeV3 :: "topologyV3 \<Rightarrow> u32 \<Rightarrow> RouterLinkV3 \<Rightarrow> SpfEdge option" where
  "edgeV3 T rid l = (if rl3_type l = LINK_P2P then
       (case al_get (rtr T) (ucast (neighborRouterId l)) of None \<Rightarrow> None
        | Some nls \<Rightarrow> if \<exists>bl\<in>set (all_links3 nls). rl3_type bl = LINK_P2P \<and> neighborRouterId bl = rid
            then Some \<lparr>e_to = router_vertex (neighborRouterId l), e_cost = ucast (rl3_metric l), e_ifid = interfaceId l\<rparr> else None)
     else if rl3_type l = LINK_TRANSIT then
       (let nid = packNetwork (neighborRouterId l) (neighborInterfaceId l) in
        case al_get (net T) nid of None \<Rightarrow> None
        | Some lsa \<Rightarrow> if rid \<in> set (attachedRouters3 lsa)
            then Some \<lparr>e_to = network_vertex nid, e_cost = ucast (rl3_metric l), e_ifid = interfaceId l\<rparr> else None)
     else None)"

definition memberV3 :: "topologyV3 \<Rightarrow> u64 \<Rightarrow> u32 \<Rightarrow> bool" where
  "memberV3 T nid rid = (case al_get (rtr T) (ucast rid) of None \<Rightarrow> False
     | Some ls \<Rightarrow> \<exists>l\<in>set (all_links3 ls). transitTo nid l)"

definition outV3 :: "topologyV3 \<Rightarrow> Vertex \<Rightarrow> SpfEdge list" where
  "outV3 T v = (case v_type v of
     ROUTER \<Rightarrow> (case al_get (rtr T) (ucast (ucast (v_id v) :: u32)) of None \<Rightarrow> []
       | Some rlsas \<Rightarrow> List.map_filter (edgeV3 T (ucast (v_id v))) (all_links3 rlsas))
   | NETWORK \<Rightarrow> (case al_get (net T) (v_id v) of None \<Rightarrow> []
       | Some lsa \<Rightarrow> map attached_edge (filter (memberV3 T (v_id v)) (attachedRouters3 lsa))))"

section \<open>The cache is transparent\<close>

text \<open>A key in the cache is a pair of routers that list each other, or a router and a network that do.\<close>

definition pair_ok :: "(u32 \<Rightarrow> u32 \<Rightarrow> bool) \<Rightarrow> (u64 \<Rightarrow> u32 \<Rightarrow> bool) \<Rightarrow> BacklinkKey \<Rightarrow> bool" where
  "pair_ok P Q bk = ((\<exists>a b. bk = mk_backlink ROUTER (ucast a) ROUTER (ucast b) \<and> P a b \<and> P b a)
     \<or> (\<exists>a n. bk = mk_backlink ROUTER (ucast a) NETWORK n \<and> Q n a))"

definition topo_inv :: "(u32 \<Rightarrow> u32 \<Rightarrow> bool) \<Rightarrow> (u64 \<Rightarrow> u32 \<Rightarrow> bool) \<Rightarrow> ('r, 'n) SpfTopology \<Rightarrow> ('r, 'n) SpfTopology \<Rightarrow> bool" where
  "topo_inv P Q T t = (rtr t = rtr T \<and> net t = net T \<and> netV2ByLsId t = netV2ByLsId T \<and> (\<forall>bk\<in>set (backlinkCache t). pair_ok P Q bk))"

lemma ucast64_inj: "(ucast (a :: u32) :: u64) = ucast b \<longleftrightarrow> a = b"
proof
  assume eq: "(ucast a :: u64) = ucast b"
  show "a = b"
  proof (rule bit_word_eqI)
    fix n assume "n < LENGTH(32)"
    then show "bit a n = bit b n" using arg_cong [OF eq, of "\<lambda>w. bit w n"] by (simp add: bit_ucast_iff)
  qed
qed simp

lemma backlink_rr: "pair_ok P Q (mk_backlink ROUTER (ucast a) ROUTER (ucast b)) \<longleftrightarrow> P a b \<and> P b a"
  by (auto simp: pair_ok_def mk_backlink_def ucast64_inj split: if_splits)

lemma backlink_rn: "pair_ok P Q (mk_backlink ROUTER (ucast a) NETWORK n) \<longleftrightarrow> Q n a"
  by (auto simp: pair_ok_def mk_backlink_def ucast64_inj split: if_splits)

lemma backlinked_spec:
  assumes "topo_inv P Q T t" and "pair_ok P Q bk \<longleftrightarrow> found"
  shows "\<exists>t'. backlinked bk found t = (found, t') \<and> topo_inv P Q T t'"
  using assms by (auto simp: backlinked_def topo_inv_def)

lemma collect_spec:
  assumes "\<And>l t. l \<in> set ls \<Longrightarrow> I t \<Longrightarrow> \<exists>t'. f l t = (g l, t') \<and> I t'" and "I t"
  shows "\<exists>t'. collect f ls t = (List.map_filter g ls, t') \<and> I t'"
  using assms
proof (induction ls arbitrary: t)
  case Nil
  then show ?case by (simp add: map_filter_simps)
next
  case (Cons l ls)
  obtain t1 where t1: "f l t = (g l, t1)" "I t1" using Cons.prems by fastforce
  obtain t2 where "collect f ls t1 = (List.map_filter g ls, t2)" "I t2" using Cons.IH [of t1] Cons.prems t1 by auto
  with t1 show ?case by (auto simp: map_filter_simps split: option.split)
qed

lemma map_filter_if: "List.map_filter (\<lambda>x. if P x then Some x else None) xs = filter P xs"
  by (induction xs) (auto simp: map_filter_simps)

subsection \<open>Version 2\<close>

definition p2pV2 :: "topologyV2 \<Rightarrow> u32 \<Rightarrow> u32 \<Rightarrow> bool" where
  "p2pV2 T a b = (\<exists>ls l. al_get (rtr T) (ucast a) = Some ls \<and> l \<in> set (frontLinks ls) \<and> link_type l = LINK_P2P \<and> linkId l = b)"

definition transitV2 :: "topologyV2 \<Rightarrow> u64 \<Rightarrow> u32 \<Rightarrow> bool" where
  "transitV2 T nid rid = ((\<exists>lsa. al_get (net T) nid = Some lsa \<and> rid \<in> set (attachedRouters2 lsa)) \<and> memberV2 T nid rid)"

definition wfV2 :: "topologyV2 \<Rightarrow> bool" where
  "wfV2 T = ((\<forall>a ls. al_get (rtr T) a = Some ls \<longrightarrow> length ls = 1)
     \<and> (\<forall>i e. al_get (netV2ByLsId T) i = Some e \<longrightarrow> al_get (net T) (packNetwork (nv_advRouter e) i) = Some (nv_lsa e)))"

definition invV2 :: "topologyV2 \<Rightarrow> topologyV2 \<Rightarrow> bool" where
  "invV2 T t = (wfV2 T \<and> topo_inv (p2pV2 T) (transitV2 T) T t)"

lemma network_unpack: "networkLsId (packNetwork adv lsid) = lsid" "networkAdvRouter (packNetwork adv lsid) = adv"
proof -
  have m: "(0xFFFFFFFF :: u64) = mask 32" by (simp add: mask_eq_exp_minus_1)
  show "networkLsId (packNetwork adv lsid) = lsid"
    unfolding networkLsId_def packNetwork_def m by (rule bit_word_eqI) (auto simp: bit_simps)
  show "networkAdvRouter (packNetwork adv lsid) = adv"
    unfolding networkAdvRouter_def packNetwork_def
    by (rule bit_word_eqI) (auto simp: bit_simps dest: bit_imp_le_length)
qed

lemma linkV2_spec:
  assumes inv: "invV2 T t" and l: "al_get (rtr T) (ucast rid) = Some ls" "l \<in> set (frontLinks ls)"
  shows "\<exists>t'. linkV2 rid l t = (edgeV2 T rid l, t') \<and> invV2 T t'"
proof -
  have wf: "wfV2 T" and i: "topo_inv (p2pV2 T) (transitV2 T) T t" using inv by (auto simp: invV2_def)
  have tab: "rtr t = rtr T" "netV2ByLsId t = netV2ByLsId T" using i by (auto simp: topo_inv_def)
  show ?thesis
  proof (cases "link_type l = LINK_P2P")
    case True
    show ?thesis
    proof (cases "al_get (rtr T) (ucast (linkId l))")
      case None
      with True inv tab show ?thesis by (auto simp: linkV2_def edgeV2_def)
    next
      case (Some nls)
      let ?found = "\<exists>bl\<in>set (frontLinks nls). link_type bl = LINK_P2P \<and> linkId bl = rid"
      have "p2pV2 T rid (linkId l)" using l True by (auto simp: p2pV2_def)
      then have "pair_ok (p2pV2 T) (transitV2 T) (mk_backlink ROUTER (ucast rid) ROUTER (ucast (linkId l))) \<longleftrightarrow> ?found"
        using Some by (auto simp: backlink_rr p2pV2_def)
      from backlinked_spec [OF i this] obtain t' where
        "backlinked (mk_backlink ROUTER (ucast rid) ROUTER (ucast (linkId l))) ?found t = (?found, t')" "topo_inv (p2pV2 T) (transitV2 T) T t'" by blast
      with True Some wf show ?thesis by (simp add: linkV2_def edgeV2_def tab list_ex_iff invV2_def)
    qed
  next
    case np: False
    show ?thesis
    proof (cases "link_type l = LINK_TRANSIT \<and> al_get (netV2ByLsId T) (linkId l) \<noteq> None")
      case False
      with np inv tab show ?thesis by (auto simp: linkV2_def edgeV2_def)
    next
      case True
      then obtain e where e: "al_get (netV2ByLsId T) (linkId l) = Some e" by auto
      let ?nid = "packNetwork (nv_advRouter e) (linkId l)"
      have "al_get (net T) ?nid = Some (nv_lsa e)" using wf e by (auto simp: wfV2_def)
      moreover have "memberV2 T ?nid rid" using l True by (auto simp: memberV2_def network_unpack)
      ultimately have "pair_ok (p2pV2 T) (transitV2 T) (mk_backlink ROUTER (ucast rid) NETWORK ?nid) \<longleftrightarrow> rid \<in> set (attachedRouters2 (nv_lsa e))"
        by (auto simp: backlink_rn transitV2_def)
      from backlinked_spec [OF i this] obtain t' where
        "backlinked (mk_backlink ROUTER (ucast rid) NETWORK ?nid) (rid \<in> set (attachedRouters2 (nv_lsa e))) t = (rid \<in> set (attachedRouters2 (nv_lsa e)), t')"
        "topo_inv (p2pV2 T) (transitV2 T) T t'" by blast
      with True np e wf show ?thesis by (simp add: linkV2_def edgeV2_def tab Let_def invV2_def)
    qed
  qed
qed

lemma attachedV2_spec:
  assumes inv: "invV2 T t" and n: "al_get (net T) nid = Some lsa" "rid \<in> set (attachedRouters2 lsa)"
  shows "\<exists>t'. attachedV2 nid rid t = (if memberV2 T nid rid then Some rid else None, t') \<and> invV2 T t'"
proof -
  have wf: "wfV2 T" and i: "topo_inv (p2pV2 T) (transitV2 T) T t" using inv by (auto simp: invV2_def)
  have tab: "rtr t = rtr T" using i by (auto simp: topo_inv_def)
  have "pair_ok (p2pV2 T) (transitV2 T) (mk_backlink ROUTER (ucast rid) NETWORK nid) \<longleftrightarrow> memberV2 T nid rid"
    using n by (auto simp: backlink_rn transitV2_def)
  from backlinked_spec [OF i this] obtain t' where b:
    "backlinked (mk_backlink ROUTER (ucast rid) NETWORK nid) (memberV2 T nid rid) t = (memberV2 T nid rid, t')"
    "topo_inv (p2pV2 T) (transitV2 T) T t'" by blast
  show ?thesis
  proof (cases "al_get (rtr T) (ucast rid)")
    case None
    with inv show ?thesis by (simp add: attachedV2_def memberV2_def tab)
  next
    case (Some ls)
    with b wf show ?thesis by (simp add: attachedV2_def memberV2_def tab list_ex_iff invV2_def)
  qed
qed

lemma single: "length ls = 1 \<Longrightarrow> concat (map links2 ls) = frontLinks ls"
  by (cases ls) (auto simp: frontLinks_def)

interpretation v2: spf_graph expandRouterV2 expandNetworkV2 "invV2 T" "outV2 T" for T
proof (unfold_locales, goal_cases)
  case (1 t v)
  let ?rid = "ucast (v_id v) :: u32"
  have tab: "rtr t = rtr T" using 1(1) by (simp add: invV2_def topo_inv_def)
  show ?case
  proof (cases "al_get (rtr T) (ucast ?rid)")
    case None
    with 1 show ?thesis by (auto simp: expandRouterV2_def outV2_def tab)
  next
    case (Some ls)
    have len: "length ls = 1" using 1(1) Some by (auto simp: invV2_def wfV2_def)
    then obtain l0 where ls: "ls = [l0]" by (cases ls) auto
    have "\<exists>t'. collect (linkV2 ?rid) (concat (map links2 ls)) t = (List.map_filter (edgeV2 T ?rid) (concat (map links2 ls)), t') \<and> invV2 T t'"
      using linkV2_spec [OF _ Some] single [OF len] 1(1) by (intro collect_spec) auto
    with Some 1(2) ls show ?thesis by (auto simp: expandRouterV2_def outV2_def tab)
  qed
next
  case (2 t v)
  have tab: "net t = net T" using 2(1) by (simp add: invV2_def topo_inv_def)
  show ?case
  proof (cases "al_get (net T) (v_id v)")
    case None
    with 2 show ?thesis by (auto simp: expandNetworkV2_def outV2_def tab)
  next
    case (Some lsa)
    have "\<exists>t'. collect (attachedV2 (v_id v)) (attachedRouters2 lsa) t
      = (List.map_filter (\<lambda>r. if memberV2 T (v_id v) r then Some r else None) (attachedRouters2 lsa), t') \<and> invV2 T t'"
      using attachedV2_spec [OF _ Some] 2(1) by (intro collect_spec) auto
    with Some 2(2) show ?thesis by (auto simp: expandNetworkV2_def outV2_def tab map_filter_if)
  qed
qed

subsection \<open>Version 3\<close>

definition p2pV3 :: "topologyV3 \<Rightarrow> u32 \<Rightarrow> u32 \<Rightarrow> bool" where
  "p2pV3 T a b = (\<exists>ls l. al_get (rtr T) (ucast a) = Some ls \<and> l \<in> set (all_links3 ls) \<and> rl3_type l = LINK_P2P \<and> neighborRouterId l = b)"

definition transitV3 :: "topologyV3 \<Rightarrow> u64 \<Rightarrow> u32 \<Rightarrow> bool" where
  "transitV3 T nid rid = ((\<exists>lsa. al_get (net T) nid = Some lsa \<and> rid \<in> set (attachedRouters3 lsa)) \<and> memberV3 T nid rid)"

definition invV3 :: "topologyV3 \<Rightarrow> topologyV3 \<Rightarrow> bool" where
  "invV3 T t = topo_inv (p2pV3 T) (transitV3 T) T t"

lemma linkV3_spec:
  assumes inv: "invV3 T t" and l: "al_get (rtr T) (ucast rid) = Some ls" "l \<in> set (all_links3 ls)"
  shows "\<exists>t'. linkV3 rid l t = (edgeV3 T rid l, t') \<and> invV3 T t'"
proof -
  have i: "topo_inv (p2pV3 T) (transitV3 T) T t" using inv by (simp add: invV3_def)
  have tab: "rtr t = rtr T" "net t = net T" using i by (auto simp: topo_inv_def)
  show ?thesis
  proof (cases "rl3_type l = LINK_P2P")
    case True
    show ?thesis
    proof (cases "al_get (rtr T) (ucast (neighborRouterId l))")
      case None
      with True inv tab show ?thesis by (auto simp: linkV3_def edgeV3_def)
    next
      case (Some nls)
      let ?found = "\<exists>bl\<in>set (all_links3 nls). rl3_type bl = LINK_P2P \<and> neighborRouterId bl = rid"
      have "p2pV3 T rid (neighborRouterId l)" unfolding p2pV3_def using l True by blast
      moreover have "p2pV3 T (neighborRouterId l) rid \<longleftrightarrow> ?found" unfolding p2pV3_def using Some by auto
      ultimately have "pair_ok (p2pV3 T) (transitV3 T) (mk_backlink ROUTER (ucast rid) ROUTER (ucast (neighborRouterId l))) \<longleftrightarrow> ?found"
        by (simp add: backlink_rr)
      from backlinked_spec [OF i this] obtain t' where
        "backlinked (mk_backlink ROUTER (ucast rid) ROUTER (ucast (neighborRouterId l))) ?found t = (?found, t')" "topo_inv (p2pV3 T) (transitV3 T) T t'" by blast
      with True Some show ?thesis by (simp add: linkV3_def edgeV3_def tab list_ex_iff invV3_def)
    qed
  next
    case np: False
    let ?nid = "packNetwork (neighborRouterId l) (neighborInterfaceId l)"
    show ?thesis
    proof (cases "rl3_type l = LINK_TRANSIT \<and> al_get (net T) ?nid \<noteq> None")
      case False
      with np inv tab show ?thesis by (auto simp: linkV3_def edgeV3_def Let_def)
    next
      case True
      then obtain lsa where lsa: "al_get (net T) ?nid = Some lsa" by auto
      have "memberV3 T ?nid rid" unfolding memberV3_def transitTo_def using l True by auto
      then have "pair_ok (p2pV3 T) (transitV3 T) (mk_backlink ROUTER (ucast rid) NETWORK ?nid) \<longleftrightarrow> rid \<in> set (attachedRouters3 lsa)"
        using lsa by (auto simp: backlink_rn transitV3_def)
      from backlinked_spec [OF i this] obtain t' where
        "backlinked (mk_backlink ROUTER (ucast rid) NETWORK ?nid) (rid \<in> set (attachedRouters3 lsa)) t = (rid \<in> set (attachedRouters3 lsa), t')"
        "topo_inv (p2pV3 T) (transitV3 T) T t'" by blast
      with True np lsa show ?thesis by (simp add: linkV3_def edgeV3_def tab Let_def invV3_def)
    qed
  qed
qed

lemma attachedV3_spec:
  assumes inv: "invV3 T t" and n: "al_get (net T) nid = Some lsa" "rid \<in> set (attachedRouters3 lsa)"
  shows "\<exists>t'. attachedV3 nid rid t = (if memberV3 T nid rid then Some rid else None, t') \<and> invV3 T t'"
proof -
  have i: "topo_inv (p2pV3 T) (transitV3 T) T t" using inv by (simp add: invV3_def)
  have tab: "rtr t = rtr T" using i by (auto simp: topo_inv_def)
  have "pair_ok (p2pV3 T) (transitV3 T) (mk_backlink ROUTER (ucast rid) NETWORK nid) \<longleftrightarrow> memberV3 T nid rid"
    using n by (auto simp: backlink_rn transitV3_def)
  from backlinked_spec [OF i this] obtain t' where b:
    "backlinked (mk_backlink ROUTER (ucast rid) NETWORK nid) (memberV3 T nid rid) t = (memberV3 T nid rid, t')"
    "topo_inv (p2pV3 T) (transitV3 T) T t'" by blast
  show ?thesis
  proof (cases "al_get (rtr T) (ucast rid)")
    case None
    with inv show ?thesis by (simp add: attachedV3_def memberV3_def tab)
  next
    case (Some ls)
    with b show ?thesis by (simp add: attachedV3_def memberV3_def tab list_ex_iff invV3_def)
  qed
qed

interpretation v3: spf_graph expandRouterV3 expandNetworkV3 "invV3 T" "outV3 T" for T
proof (unfold_locales, goal_cases)
  case (1 t v)
  let ?rid = "ucast (v_id v) :: u32"
  have tab: "rtr t = rtr T" using 1(1) by (simp add: invV3_def topo_inv_def)
  show ?case
  proof (cases "al_get (rtr T) (ucast ?rid)")
    case None
    with 1 show ?thesis by (auto simp: expandRouterV3_def outV3_def tab)
  next
    case (Some ls)
    have "\<exists>t'. collect (linkV3 ?rid) (all_links3 ls) t = (List.map_filter (edgeV3 T ?rid) (all_links3 ls), t') \<and> invV3 T t'"
      using linkV3_spec [OF _ Some] 1(1) by (intro collect_spec) auto
    with Some 1 show ?thesis by (cases ls) (auto simp: expandRouterV3_def outV3_def tab map_filter_simps)
  qed
next
  case (2 t v)
  have tab: "net t = net T" using 2(1) by (simp add: invV3_def topo_inv_def)
  show ?case
  proof (cases "al_get (net T) (v_id v)")
    case None
    with 2 show ?thesis by (auto simp: expandNetworkV3_def outV3_def tab)
  next
    case (Some lsa)
    have "\<exists>t'. collect (attachedV3 (v_id v)) (attachedRouters3 lsa) t
      = (List.map_filter (\<lambda>r. if memberV3 T (v_id v) r then Some r else None) (attachedRouters3 lsa), t') \<and> invV3 T t'"
      using attachedV3_spec [OF _ Some] 2(1) by (intro collect_spec) auto
    with Some 2(2) show ?thesis by (auto simp: expandNetworkV3_def outV3_def tab map_filter_if)
  qed
qed

section \<open>The indexes of a database\<close>

text \<open>The router advertisements of version 2 the index keeps: those of a router about itself.\<close>

definition own_router :: "LsaKey \<times> LsaRecord \<Rightarrow> (u32 \<times> RouterLsaV2) option" where
  "own_router kr = (case body (snd kr) of
     Body_RouterLsaV2 lsa \<Rightarrow> if age (header (snd kr)) < OSPF_MAX_AGE \<and> advertisingRouter (key_adv (fst kr)) = linkStateId (fst kr)
       then Some (linkStateId (fst kr), lsa) else None
   | _ \<Rightarrow> None)"

definition lsas_of :: "u32 \<Rightarrow> (LsaKey \<times> LsaRecord) list \<Rightarrow> RouterLsaV2 list" where
  "lsas_of a recs = map snd (filter (\<lambda>p. fst p = a) (List.map_filter own_router recs))"

lemma indexV2_rtr:
  "rtr (indexV2 kr t) = (case own_router kr of None \<Rightarrow> rtr t | Some (a, lsa) \<Rightarrow> al_put (ucast a) (sub (ucast a) (rtr t) @ [lsa]) (rtr t))"
  by (auto simp: indexV2_def own_router_def pushRouter_def Let_def not_le split: LsaBody.splits)

lemma rtr_index:
  "al_get (rtr (fold indexV2 recs t)) (ucast a) = (let ls = sub (ucast a) (rtr t) @ lsas_of a recs
     in if lsas_of a recs = [] then al_get (rtr t) (ucast a) else Some ls)"
proof (induction recs arbitrary: t)
  case (Cons kr recs)
  show ?case
  proof (cases "own_router kr")
    case None
    then show ?thesis by (simp add: Cons.IH indexV2_rtr lsas_of_def map_filter_simps sub_def)
  next
    case (Some p)
    obtain b lsa where "p = (b, lsa)" by (cases p)
    with Some show ?thesis by (auto simp: Cons.IH indexV2_rtr lsas_of_def map_filter_simps sub_def ucast64_inj Let_def)
  qed
qed (simp add: lsas_of_def map_filter_simps Let_def)

lemma rtr_keys: "fst ` set (rtr (fold indexV2 recs t)) \<subseteq> fst ` set (rtr t) \<union> range (ucast :: u32 \<Rightarrow> u64)"
proof (induction recs arbitrary: t)
  case (Cons kr recs)
  have "fst ` set (rtr (indexV2 kr t)) \<subseteq> fst ` set (rtr t) \<union> range (ucast :: u32 \<Rightarrow> u64)"
    by (auto simp: indexV2_rtr al_keys_put split: option.splits)
  with Cons.IH [of "indexV2 kr t"]
  have "fst ` set (rtr (fold indexV2 recs (indexV2 kr t))) \<subseteq> (fst ` set (rtr t) \<union> range (ucast :: u32 \<Rightarrow> u64)) \<union> range (ucast :: u32 \<Rightarrow> u64)"
    by (rule subset_trans [OF _ Un_mono [OF _ subset_refl]])
  then show ?case by (simp add: Un_assoc)
qed simp

definition net_agree :: "topologyV2 \<Rightarrow> bool" where
  "net_agree T = (\<forall>i e. al_get (netV2ByLsId T) i = Some e \<longrightarrow> al_get (net T) (packNetwork (nv_advRouter e) i) = Some (nv_lsa e))"

lemma packNetwork_inj: "packNetwork a i = packNetwork b j \<longleftrightarrow> a = b \<and> i = j"
  by (metis network_unpack)

lemma indexV2_net: "net_agree t \<Longrightarrow> net_agree (indexV2 kr t)"
  by (auto simp: net_agree_def indexV2_def pushRouter_def Let_def packNetwork_inj split: LsaBody.splits option.splits if_splits)

lemma fold_net: "net_agree t \<Longrightarrow> net_agree (fold indexV2 recs t)"
  by (induction recs arbitrary: t) (auto simp: indexV2_net)

text \<open>Router bodies are stored under the type of router advertisements.\<close>

definition router_typed :: "(LsaKey \<rightharpoonup> LsaRecord) \<Rightarrow> bool" where
  "router_typed m = (\<forall>k r lsa. m k = Some r \<longrightarrow> body r = Body_RouterLsaV2 lsa \<longrightarrow> key_type k = 1)"

definition self_key :: "u32 \<Rightarrow> LsaKey" where
  "self_key a = \<lparr>key_adv = \<lparr>lsaType = 1, advertisingRouter = a\<rparr>, linkStateId = a\<rparr>"

definition router_lsa :: "(LsaKey \<rightharpoonup> LsaRecord) \<Rightarrow> u32 \<Rightarrow> RouterLsaV2 option" where
  "router_lsa m a = (case m (self_key a) of None \<Rightarrow> None | Some r \<Rightarrow> map_option snd (own_router (self_key a, r)))"

lemma forEach_distinct: "lsdb_ok t \<Longrightarrow> distinct (map fst (forEach t))"
proof -
  assume "lsdb_ok t"
  then have "al_wf (db t)" by (simp add: lsdb_ok_def indexes_ok_def)
  moreover have "map fst (deref t xs) = map fst (filter (\<lambda>(k, p). al_get (dbStorage t) p \<noteq> None) xs)" for xs :: "(LsaKey \<times> LsaKey) list"
    by (induction xs) (auto simp: deref_def map_filter_simps)
  ultimately show ?thesis by (simp add: forEach_def distinct_map_filter)
qed

lemma own_router_key:
  assumes "own_router (k, r) = Some (a, lsa)" and "body r = Body_RouterLsaV2 lsa \<Longrightarrow> key_type k = 1"
  shows "k = self_key a"
  using assms by (cases k; cases "key_adv k") (auto simp: own_router_def self_key_def split: LsaBody.splits if_splits)

lemma lsas_of_single:
  assumes "distinct (map fst recs)" and "\<And>k r. (k, r) \<in> set recs \<Longrightarrow> m k = Some r" and t: "router_typed m"
    and "\<And>k r. m k = Some r \<Longrightarrow> (k, r) \<in> set recs"
  shows "lsas_of a recs = (case router_lsa m a of None \<Rightarrow> [] | Some lsa \<Rightarrow> [lsa])"
proof -
  have key: "k = self_key b" if "(k, r) \<in> set recs" "own_router (k, r) = Some (b, lsa)" for k r b lsa
  proof (rule own_router_key [OF that(2)])
    show "body r = Body_RouterLsaV2 lsa \<Longrightarrow> key_type k = 1" using t assms(2) that(1) by (auto simp: router_typed_def)
  qed
  have gen: "lsas_of a rs = (case al_get rs (self_key a) of None \<Rightarrow> [] | Some r \<Rightarrow> (case own_router (self_key a, r) of None \<Rightarrow> [] | Some p \<Rightarrow> [snd p]))"
    if "distinct (map fst rs)" "set rs \<subseteq> set recs" for rs
    using that
  proof (induction rs)
    case (Cons kr rs)
    obtain k r where kr: "kr = (k, r)" by (cases kr)
    note IH = Cons.IH
    have out: "al_get rs k = None" using Cons.prems kr by (auto simp: al_get_None_iff)
    show ?case
    proof (cases "k = self_key a")
      case True
      then have "lsas_of a rs = []" using IH Cons.prems out by simp
      moreover have "fst p = a" if "own_router (self_key a, r) = Some p" for p
        using that by (auto simp: own_router_def self_key_def split: LsaBody.splits if_splits)
      ultimately show ?thesis using True kr by (auto simp: lsas_of_def map_filter_simps split: option.splits)
    next
      case False
      have "fst p \<noteq> a" if "own_router (k, r) = Some p" for p
        using key [of k r "fst p" "snd p"] that Cons.prems kr False by auto
      then have "lsas_of a (kr # rs) = lsas_of a rs" using kr by (auto simp: lsas_of_def map_filter_simps split: option.split)
      with False IH Cons.prems kr show ?thesis by simp
    qed
  qed (simp add: lsas_of_def map_filter_simps)
  have "al_get recs (self_key a) = m (self_key a)"
  proof (cases "m (self_key a)")
    case None
    then have "self_key a \<notin> fst ` set recs" using assms(2) by force
    with None show ?thesis by (simp add: al_get_None_iff)
  next
    case (Some r)
    then show ?thesis using al_get_Some_iff [OF assms(1)] assms(4) by simp
  qed
  then show ?thesis using gen [OF assms(1)] by (auto simp: router_lsa_def split: option.splits)
qed

lemma topologyV2_rtr:
  assumes "lsdb_ok t" and "router_typed (lsdb_abs t)"
  shows "al_get (rtr (SpfTopologyV2 t)) (ucast a) = map_option (\<lambda>lsa. [lsa]) (router_lsa (lsdb_abs t) a)"
proof -
  have "lsas_of a (forEach t) = (case router_lsa (lsdb_abs t) a of None \<Rightarrow> [] | Some lsa \<Rightarrow> [lsa])"
    using forEach_set [OF assms(1)] by (intro lsas_of_single [OF forEach_distinct [OF assms(1)] _ assms(2)]) auto
  then show ?thesis by (auto simp: SpfTopologyV2_def rtr_index emptyTopology_def sub_def Let_def split: option.splits)
qed

lemma topologyV2_wf:
  assumes "lsdb_ok t" and "router_typed (lsdb_abs t)"
  shows "invV2 (SpfTopologyV2 t) (SpfTopologyV2 t)"
proof -
  let ?T = "SpfTopologyV2 t"
  have "length ls = 1" if "al_get (rtr ?T) a = Some ls" for a ls
  proof -
    have "a \<in> fst ` set (rtr ?T)" using al_get_SomeD [OF that] by force
    then obtain b where "a = ucast (b :: u32)" using rtr_keys [of "forEach t" emptyTopology] by (auto simp: SpfTopologyV2_def emptyTopology_def)
    with that show ?thesis using topologyV2_rtr [OF assms, of b] by auto
  qed
  moreover have "net_agree ?T" unfolding SpfTopologyV2_def by (rule fold_net) (simp add: net_agree_def emptyTopology_def)
  moreover have "backlinkCache (fold indexV2 recs u) = backlinkCache u" for recs u
    by (induction recs arbitrary: u) (auto simp: indexV2_def pushRouter_def Let_def split: LsaBody.splits)
  then have "backlinkCache ?T = []" by (simp add: SpfTopologyV2_def emptyTopology_def)
  ultimately show ?thesis by (auto simp: invV2_def wfV2_def net_agree_def topo_inv_def)
qed

lemma topologyV3_wf: "invV3 (SpfTopologyV3 t) (SpfTopologyV3 t)"
proof -
  have "backlinkCache (fold indexV3 recs u) = backlinkCache u" for recs u
    by (induction recs arbitrary: u) (auto simp: indexV3_def pushRouter_def Let_def split: LsaBody.splits)
  then have "backlinkCache (SpfTopologyV3 t) = []" by (simp add: SpfTopologyV3_def emptyTopology_def)
  then show ?thesis by (simp add: invV3_def topo_inv_def)
qed

section \<open>Properties\<close>

lemma runV2_run:
  assumes "lsdb_ok t" "router_typed (lsdb_abs t)"
  shows "\<exists>t'. invV2 (SpfTopologyV2 t) (SpfTopologyV2 t)
    \<and> runFull expandRouterV2 expandNetworkV2 mp rid (SpfTopologyV2 t) = (runV2 mp rid t, t')"
  using topologyV2_wf [OF assms] by (auto simp: runV2_def prod_eq_iff)

lemma runV3_run: "\<exists>t'. runFull expandRouterV3 expandNetworkV3 mp rid (SpfTopologyV3 t) = (runV3 mp rid t, t')"
  by (auto simp: runV3_def prod_eq_iff)

text \<open>(C1) Shortest paths: on the database any sequence of operations leads to, the computation gives every
  vertex the least cost of a path from the root in the graph of bidirectional links, and reports no
  distance exactly when there is no path of a cost below the 64-bit infinity; for both versions of
  the protocol, with the back-link cache and the 64-bit saturating sums of the code.\<close>

theorem spf_shortest_paths:
  fixes ops
  defines "t \<equiv> lsdb_run ops"
  assumes "router_typed (lsdb_abs t)"
  shows "(dist_of (runV2 mp rid t) v \<noteq> infinity \<and> unat (dist_of (runV2 mp rid t) v) = d \<longleftrightarrow>
      d < 2 ^ 64 - 1 \<and> path_cost (outV2 (SpfTopologyV2 t)) (router_vertex rid) v d
      \<and> (\<forall>d'. path_cost (outV2 (SpfTopologyV2 t)) (router_vertex rid) v d' \<longrightarrow> d \<le> d'))
    \<and> (dist_of (runV3 mp rid t) v \<noteq> infinity \<and> unat (dist_of (runV3 mp rid t) v) = d \<longleftrightarrow>
      d < 2 ^ 64 - 1 \<and> path_cost (outV3 (SpfTopologyV3 t)) (router_vertex rid) v d
      \<and> (\<forall>d'. path_cost (outV3 (SpfTopologyV3 t)) (router_vertex rid) v d' \<longrightarrow> d \<le> d'))"
proof -
  have ok: "lsdb_ok t" using lsdb_run_ok [of ops] by (simp add: t_def)
  obtain u where u: "invV2 (SpfTopologyV2 t) (SpfTopologyV2 t)"
    "runFull expandRouterV2 expandNetworkV2 mp rid (SpfTopologyV2 t) = (runV2 mp rid t, u)"
    using runV2_run [OF ok assms(2)] by blast
  obtain w where w: "runFull expandRouterV3 expandNetworkV3 mp rid (SpfTopologyV3 t) = (runV3 mp rid t, w)"
    using runV3_run by blast
  show ?thesis using v2.run_shortest [OF u] v3.run_shortest [OF topologyV3_wf w] by blast
qed

text \<open>Parents: with no limit on the number of paths, the recorded parents of a reached vertex are exactly the
  edges of the graph on which its distance is attained.\<close>

theorem spf_parents_are_tight_edges:
  fixes ops rid
  defines "t \<equiv> lsdb_run ops"
  assumes "router_typed (lsdb_abs t)"
  defines "res \<equiv> runV2 0 rid t"
  shows "(\<exists>fh. \<lparr>parent = u, firstHopIfid = fh, lastHopIfid = i, edgeCost = c\<rparr> \<in> set (parents_of res v)) \<longleftrightarrow>
    dist_of res v \<noteq> infinity \<and> addCost (dist_of res u) c = dist_of res v
    \<and> \<lparr>e_to = v, e_cost = c, e_ifid = i\<rparr> \<in> set (outV2 (SpfTopologyV2 t) u)"
proof -
  have ok: "lsdb_ok t" using lsdb_run_ok [of ops] by (simp add: t_def)
  obtain w where "invV2 (SpfTopologyV2 t) (SpfTopologyV2 t)"
    "runFull expandRouterV2 expandNetworkV2 0 rid (SpfTopologyV2 t) = (res, w)"
    using runV2_run [OF ok assms(2)] unfolding res_def by blast
  then show ?thesis by (rule v2.run_parents)
qed


section \<open>An area\<close>

text \<open>Router 1 reaches router 2 at cost 10 over a point-to-point link (interface 101) and over the network 9
  (interface 102); router 3 is behind router 2 at cost 5.\<close>

definition ex_area_link :: "u32 \<Rightarrow> u32 \<Rightarrow> u8 \<Rightarrow> u16 \<Rightarrow> RouterLinkV2" where
  "ex_area_link i d ty mt = \<lparr>linkId = i, linkData = d, link_type = ty, link_metric = mt\<rparr>"

definition ex_install :: "LsaKey \<Rightarrow> LsaBody \<Rightarrow> lsdbOp" where
  "ex_install k b = UpsertBody 0 \<lparr>ctx_key = k, ctx_header = \<lparr>sequence = 1, checksum = 0, lsa_length = 0, age = 1, hdr_options = 0\<rparr>,
     incomingInterface = 0, incomingNeighbor = 0\<rparr> 0 b"

definition ex_area_ops :: "lsdbOp list" where
  "ex_area_ops =
    [ex_install (self_key 1) (Body_RouterLsaV2 \<lparr>router_flags = 0, links2 = [ex_area_link 2 101 1 10, ex_area_link 9 102 2 10]\<rparr>),
     ex_install (self_key 2) (Body_RouterLsaV2 \<lparr>router_flags = 0, links2 = [ex_area_link 1 201 1 10, ex_area_link 9 202 2 1, ex_area_link 3 203 1 5]\<rparr>),
     ex_install (self_key 3) (Body_RouterLsaV2 \<lparr>router_flags = 0, links2 = [ex_area_link 2 301 1 5]\<rparr>),
     ex_install \<lparr>key_adv = \<lparr>lsaType = 2, advertisingRouter = 1\<rparr>, linkStateId = 9\<rparr> (Body_NetworkLsaV2 \<lparr>networkMask = 0, attachedRouters2 = [1, 2]\<rparr>)]"

lemma ex_area_run:
  "map (\<lambda>(v, n). (v_type v, v_id v, dist n, map (\<lambda>p. (v_id (parent p), firstHopIfid p)) (parents n))) (spf_nodes (runV2 0 1 (lsdb_run ex_area_ops)))
   = [(ROUTER, 1, 0, []), (ROUTER, 2, 10, [(1, 101), (4294967305, 102)]), (NETWORK, 4294967305, 10, [(1, 102)]), (ROUTER, 3, 15, [(2, 101)])]"
  by code_simp

lemma ex_area_storage:
  "map (\<lambda>(k, r). (key_type k, case body r of Body_RouterLsaV2 _ \<Rightarrow> True | _ \<Rightarrow> False)) (dbStorage (lsdb_run ex_area_ops))
   = [(1, True), (1, True), (1, True), (2, False)]"
  by code_simp

lemma ex_area_typed: "router_typed (lsdb_abs (lsdb_run ex_area_ops))"
proof -
  have "key_type k = 1" if "(k, r) \<in> set (dbStorage (lsdb_run ex_area_ops))" "body r = Body_RouterLsaV2 lsa" for k r lsa
  proof -
    have "(key_type k, case body r of Body_RouterLsaV2 _ \<Rightarrow> True | _ \<Rightarrow> False)
      \<in> set (map (\<lambda>(k, r). (key_type k, case body r of Body_RouterLsaV2 _ \<Rightarrow> True | _ \<Rightarrow> False)) (dbStorage (lsdb_run ex_area_ops)))"
      using that(1) by force
    then show ?thesis unfolding ex_area_storage using that(2) by simp
  qed
  then show ?thesis by (auto simp: router_typed_def lsdb_abs_def dest: al_get_SomeD)
qed

lemma ex_area_dist: "dist_of (runV2 0 1 (lsdb_run ex_area_ops)) (router_vertex 3) = 15"
  by code_simp

theorem spf_shortest_paths_witness:
  "path_cost (outV2 (SpfTopologyV2 (lsdb_run ex_area_ops))) (router_vertex 1) (router_vertex 3) 15"
  using spf_shortest_paths [OF ex_area_typed, of 0 1 "router_vertex 3" 15] ex_area_dist by simp

theorem spf_parents_are_tight_edges_witness:
  "\<exists>fh. \<lparr>parent = router_vertex 2, firstHopIfid = fh, lastHopIfid = 203, edgeCost = 5\<rparr>
     \<in> set (parents_of (runV2 0 1 (lsdb_run ex_area_ops)) (router_vertex 3))"
proof -
  have "addCost (dist_of (runV2 0 1 (lsdb_run ex_area_ops)) (router_vertex 2)) 5 = 15"
    "\<lparr>e_to = router_vertex 3, e_cost = 5, e_ifid = 203\<rparr> \<in> set (outV2 (SpfTopologyV2 (lsdb_run ex_area_ops)) (router_vertex 2))"
    by code_simp+
  then show ?thesis
    using spf_parents_are_tight_edges [OF ex_area_typed, of "router_vertex 2" 203 5 1 "router_vertex 3"] ex_area_dist by simp
qed


text \<open>Equal-cost next hops are lost behind a router on a network: the queue prefers a router to a network
  at the same distance, so router 2 is expanded before the network of the same distance gives it its
  second next hop, and router 3 inherits only one of the two next hops router 2 ends with, although
  router 2 is its only parent.\<close>

theorem spf_loses_equal_cost_next_hop:
  "map firstHopIfid (parents_of (runV2 0 1 (lsdb_run ex_area_ops)) (router_vertex 2)) = [101, 102]
   \<and> map (\<lambda>p. (parent p, firstHopIfid p)) (parents_of (runV2 0 1 (lsdb_run ex_area_ops)) (router_vertex 3)) = [(router_vertex 2, 101)]"
  by code_simp

end
