(* ===== verification/OspfSpfManager.thy ===== *)
theory OspfSpfManager
  imports OspfTopology
begin

text \<open>
  Scheduling of the shortest-path computation, \<open>routing/ospf/spf/SpfManager.cpp\<close>, and the choice between
  the full and the incremental computation, \<open>SpfEngine::run\<close>.

  The area's scheduler runs one task at a time. Its pending \<open>onSpfTimer\<close> tasks are the list \<open>timers\<close>
  of their deadlines in milliseconds; \<open>runs\<close> counts the computations. The number of calls of
  \<open>requestSpf\<close> made while a computation runs, and the clock, are inputs of a step.
\<close>

section \<open>Throttling\<close>

record SpfThrottle =
  initDelayMs :: u32
  holdTimeMs :: u32
  maxHoldTimeMs :: u32

record SpfManager =
  requested :: bool
  spfRunning :: bool
  spfScheduled :: bool
  reschedule :: bool
  currentDelayMs :: u32
  lastSpfTime :: "nat option"
  timers :: "nat list"
  runs :: nat

definition SpfManager_new :: SpfManager where
  "SpfManager_new = \<lparr>requested = False, spfRunning = False, spfScheduled = False, reschedule = False,
     currentDelayMs = 0, lastSpfTime = None, timers = [], runs = 0\<rparr>"

definition computeNextDelay :: "SpfThrottle \<Rightarrow> nat \<Rightarrow> SpfManager \<Rightarrow> u32 \<times> SpfManager" where
  "computeNextDelay cfg now s = (let
     prev = currentDelayMs s;
     backoff = (if prev = 0 then initDelayMs cfg else min (prev * 2) (maxHoldTimeMs cfg));
     holdRemaining = (case lastSpfTime s of None \<Rightarrow> 0
       | Some l \<Rightarrow> if now - l < unat (holdTimeMs cfg) then of_nat (unat (holdTimeMs cfg) - (now - l)) else 0)
   in (max backoff holdRemaining, s\<lparr>currentDelayMs := backoff\<rparr>))"

definition scheduleSpf :: "nat \<Rightarrow> u32 \<Rightarrow> SpfManager \<Rightarrow> SpfManager" where
  "scheduleSpf now delayMs s = (if spfScheduled s then s
     else s\<lparr>spfScheduled := True, timers := timers s @ [now + unat delayMs]\<rparr>)"

definition requestSpf :: "SpfThrottle \<Rightarrow> nat \<Rightarrow> SpfManager \<Rightarrow> SpfManager" where
  "requestSpf cfg now s = (let s = s\<lparr>requested := True\<rparr> in
     if spfRunning s then s\<lparr>reschedule := True\<rparr>
     else if spfScheduled s then s
     else (case computeNextDelay cfg now s of (delay, s) \<Rightarrow> scheduleSpf now delay s))"

text \<open>\<open>n\<close> requests arrive while the computation runs, which ends at \<open>now\<close>.\<close>

definition onSpfTimer :: "SpfThrottle \<Rightarrow> nat \<Rightarrow> nat \<Rightarrow> SpfManager \<Rightarrow> SpfManager" where
  "onSpfTimer cfg n now s = (let s = s\<lparr>spfScheduled := False\<rparr> in
     if spfRunning s then s
     else let
       s = s\<lparr>spfRunning := True, requested := False, runs := Suc (runs s)\<rparr>;
       s = (requestSpf cfg now ^^ n) s;
       s = s\<lparr>lastSpfTime := Some now, spfRunning := False\<rparr>
     in if reschedule s
        then (case computeNextDelay cfg now (s\<lparr>reschedule := False\<rparr>) of (delay, s) \<Rightarrow> scheduleSpf now delay s)
        else s\<lparr>currentDelayMs := 0\<rparr>)"

section \<open>The engine\<close>

record SpfEngine =
  last_result :: "SpfResult option"
  lastEdges :: "(Vertex \<times> Vertex \<times> u32) list"

definition SpfEngine_new :: SpfEngine where
  "SpfEngine_new = \<lparr>last_result = None, lastEdges = []\<rparr>"

text \<open>The branch that repairs the last result is the argument \<open>repair\<close>: whatever it computes, it may
  use and replace the state of the engine.\<close>

definition run :: "bool \<Rightarrow> ('t \<Rightarrow> SpfResult) \<Rightarrow> ('t \<Rightarrow> SpfEngine \<Rightarrow> SpfResult \<times> SpfEngine) \<Rightarrow> 't \<Rightarrow> SpfEngine \<Rightarrow> SpfResult \<times> SpfEngine" where
  "run ispf full repair t e = (if \<not> ispf \<or> last_result e = None \<or> lastEdges e = []
     then let res = full t in (res, e\<lparr>last_result := Some res\<rparr>)
     else repair t e)"

fun run_all :: "('t \<Rightarrow> SpfEngine \<Rightarrow> SpfResult \<times> SpfEngine) \<Rightarrow> ('t \<Rightarrow> SpfResult) \<Rightarrow> (bool \<times> 't) list \<Rightarrow> SpfEngine \<Rightarrow> SpfResult list" where
  "run_all repair full [] e = []"
| "run_all repair full ((ispf, t) # ts) e = (case run ispf full repair t e of (res, e) \<Rightarrow> res # run_all repair full ts e)"

section \<open>Steps\<close>

inductive spf_step :: "SpfThrottle \<Rightarrow> SpfManager \<Rightarrow> SpfManager \<Rightarrow> bool" for cfg where
  request: "spf_step cfg s (requestSpf cfg now s)"
| fire: "timers s = d # ds \<Longrightarrow> spf_step cfg s (onSpfTimer cfg n now (s\<lparr>timers := ds\<rparr>))"

inductive_cases spf_stepE: "spf_step cfg s s'"

definition spf_sched_ok :: "SpfThrottle \<Rightarrow> SpfManager \<Rightarrow> bool" where
  "spf_sched_ok cfg s = (\<not> spfRunning s \<and> \<not> reschedule s \<and> length (timers s) = (if spfScheduled s then 1 else 0)
     \<and> (requested s \<longrightarrow> spfScheduled s) \<and> currentDelayMs s \<le> max (initDelayMs cfg) (maxHoldTimeMs cfg))"

lemma computeNextDelay_fields:
  assumes "computeNextDelay cfg now s = (d, s')"
  shows "s' = s\<lparr>currentDelayMs := currentDelayMs s'\<rparr>" and "currentDelayMs s' \<le> max (initDelayMs cfg) (maxHoldTimeMs cfg)"
    and "d \<le> max (max (initDelayMs cfg) (maxHoldTimeMs cfg)) (holdTimeMs cfg)"
proof -
  show "s' = s\<lparr>currentDelayMs := currentDelayMs s'\<rparr>" using assms by (auto simp: computeNextDelay_def Let_def)
  show b: "currentDelayMs s' \<le> max (initDelayMs cfg) (maxHoldTimeMs cfg)"
    using assms by (auto simp: computeNextDelay_def Let_def le_max_iff_disj)
  define h :: u32 where "h = (case lastSpfTime s of None \<Rightarrow> 0
    | Some l \<Rightarrow> if now - l < unat (holdTimeMs cfg) then of_nat (unat (holdTimeMs cfg) - (now - l)) else 0)"
  have "h \<le> holdTimeMs cfg"
  proof -
    have "(of_nat (unat (holdTimeMs cfg) - k) :: u32) \<le> holdTimeMs cfg" for k
      using unsigned_less [where ?'a = nat, of "holdTimeMs cfg"]
      by (simp add: word_le_nat_alt unsigned_of_nat take_bit_nat_eq_self less_imp_diff_less)
    then show ?thesis unfolding h_def by (auto simp del: of_nat_diff split: option.split)
  qed
  moreover have "d = max (currentDelayMs s') h" using assms by (auto simp: computeNextDelay_def Let_def h_def)
  ultimately show "d \<le> max (max (initDelayMs cfg) (maxHoldTimeMs cfg)) (holdTimeMs cfg)" using b by (auto simp: le_max_iff_disj)
qed


lemma requestSpf_ok:
  assumes "spf_sched_ok cfg s"
  shows "spf_sched_ok cfg (requestSpf cfg now s)"
    and "\<exists>d. timers (requestSpf cfg now s) = [d] \<and> requested (requestSpf cfg now s)
      \<and> (spfScheduled s \<or> now \<le> d \<and> d \<le> now + unat (max (max (initDelayMs cfg) (maxHoldTimeMs cfg)) (holdTimeMs cfg)))"
proof -
  obtain d s' where c: "computeNextDelay cfg now (s\<lparr>requested := True\<rparr>) = (d, s')" by (cases "computeNextDelay cfg now (s\<lparr>requested := True\<rparr>)")
  note f = computeNextDelay_fields [OF c]
  have one: "spfScheduled s \<Longrightarrow> \<exists>d. timers s = [d]" using assms by (cases "timers s") (auto simp: spf_sched_ok_def)
  have req: "requestSpf cfg now s = (if spfScheduled s then s\<lparr>requested := True\<rparr> else scheduleSpf now d s')"
    using assms by (auto simp: requestSpf_def spf_sched_ok_def c)
  have sch: "scheduleSpf now d s' = s\<lparr>requested := True, spfScheduled := True, currentDelayMs := currentDelayMs s', timers := timers s @ [now + unat d]\<rparr>"
    if "\<not> spfScheduled s" using that by (subst f(1), subst (2) f(1)) (simp add: scheduleSpf_def)
  show "spf_sched_ok cfg (requestSpf cfg now s)"
    using assms f(2) by (auto simp: req sch spf_sched_ok_def)
  have "unat d \<le> unat (max (max (initDelayMs cfg) (maxHoldTimeMs cfg)) (holdTimeMs cfg))" using f(3) by (simp only: word_le_nat_alt)
  then show "\<exists>d. timers (requestSpf cfg now s) = [d] \<and> requested (requestSpf cfg now s)
      \<and> (spfScheduled s \<or> now \<le> d \<and> d \<le> now + unat (max (max (initDelayMs cfg) (maxHoldTimeMs cfg)) (holdTimeMs cfg)))"
    using assms one by (auto simp: req sch spf_sched_ok_def)
qed

lemma requests_while_running:
  "spfRunning s \<Longrightarrow> (requestSpf cfg now ^^ n) s = (if n = 0 then s else s\<lparr>requested := True, reschedule := True\<rparr>)"
  by (induction n) (auto simp: requestSpf_def)

lemma onSpfTimer_eq:
  assumes "\<not> spfRunning s" and "\<not> reschedule s"
  shows "onSpfTimer cfg n now s = (let s1 = s\<lparr>spfScheduled := False, requested := 0 < n, runs := Suc (runs s), lastSpfTime := Some now\<rparr>
    in if n = 0 then s1\<lparr>currentDelayMs := 0\<rparr>
       else (case computeNextDelay cfg now s1 of (delay, s2) \<Rightarrow> s2\<lparr>spfScheduled := True, timers := timers s2 @ [now + unat delay]\<rparr>))"
proof -
  have c: "computeNextDelay cfg now s1 = (d, s2) \<Longrightarrow> spfScheduled s2 = spfScheduled s1" for s1 d s2
    by (auto simp: computeNextDelay_def Let_def)
  show ?thesis
    using assms by (cases s) (auto simp: onSpfTimer_def requests_while_running Let_def scheduleSpf_def dest!: c split: prod.split)
qed

lemma onSpfTimer_ok:
  assumes "spf_sched_ok cfg s" and "timers s = d # ds"
  shows "spf_sched_ok cfg (onSpfTimer cfg n now (s\<lparr>timers := ds\<rparr>))"
    and "runs (onSpfTimer cfg n now (s\<lparr>timers := ds\<rparr>)) = Suc (runs s)"
proof -
  let ?s = "s\<lparr>timers := ds\<rparr>"
  have s: "\<not> spfRunning ?s" "\<not> reschedule ?s" "ds = []" using assms by (auto simp: spf_sched_ok_def split: if_splits)
  let ?s1 = "?s\<lparr>spfScheduled := False, requested := 0 < n, runs := Suc (runs ?s), lastSpfTime := Some now\<rparr>"
  obtain dl s2 where c: "computeNextDelay cfg now ?s1 = (dl, s2)" by (cases "computeNextDelay cfg now ?s1")
  note f = computeNextDelay_fields [OF c]
  have s2: "timers s2 = []" "\<not> spfRunning s2" "\<not> reschedule s2" "runs s2 = Suc (runs s)"
    using s by (subst f(1), simp)+
  have e: "onSpfTimer cfg n now ?s = (if n = 0 then ?s1\<lparr>currentDelayMs := 0\<rparr> else s2\<lparr>spfScheduled := True, timers := [now + unat dl]\<rparr>)"
    unfolding onSpfTimer_eq [OF s(1,2)] Let_def c by (simp add: s2)
  show "spf_sched_ok cfg (onSpfTimer cfg n now ?s)" unfolding e using s s2 f(2) assms(1) by (auto simp: spf_sched_ok_def)
  show "runs (onSpfTimer cfg n now ?s) = Suc (runs s)" unfolding e using s2 by simp
qed

lemma spf_reachable_ok: "(spf_step cfg)\<^sup>*\<^sup>* SpfManager_new s \<Longrightarrow> spf_sched_ok cfg s"
proof (induction rule: rtranclp_induct)
  case base
  show ?case by (simp add: spf_sched_ok_def SpfManager_new_def)
next
  case (step s s')
  from step.hyps(2) show ?case
    by (rule spf_stepE) (use step.IH in \<open>auto intro: requestSpf_ok onSpfTimer_ok\<close>)
qed

text \<open>The timer fires while requests keep arriving.\<close>

definition busy :: "SpfThrottle \<Rightarrow> nat \<Rightarrow> SpfManager \<Rightarrow> SpfManager" where
  "busy cfg now s = onSpfTimer cfg 1 now (s\<lparr>timers := []\<rparr>)"

lemma busy_delay:
  assumes "\<not> spfRunning s" "\<not> reschedule s"
  shows "currentDelayMs (busy cfg now s) = (if currentDelayMs s = 0 then initDelayMs cfg else min (currentDelayMs s * 2) (maxHoldTimeMs cfg))"
    and "\<not> spfRunning (busy cfg now s)" and "\<not> reschedule (busy cfg now s)"
  using assms by (simp_all add: busy_def onSpfTimer_eq computeNextDelay_def Let_def)

lemma double_min:
  assumes "c \<le> (m :: u32)" "unat m < 2 ^ 31"
  shows "unat (min (c * 2) m) = min (2 * unat c) (unat m)"
proof -
  have "unat c \<le> unat m" using assms(1) by (simp only: word_le_nat_alt)
  then have "2 * unat c < 2 ^ 32" using assms(2) by simp
  then have "unat (c * 2) = 2 * unat c" by (simp add: unat_word_ariths)
  then show ?thesis by (auto simp: min_def word_le_nat_alt)
qed

lemma busy_backoff:
  assumes "unat (maxHoldTimeMs cfg) < 2 ^ 31"
  shows "\<not> spfRunning s \<Longrightarrow> \<not> reschedule s \<Longrightarrow> 0 < currentDelayMs s \<Longrightarrow> currentDelayMs s \<le> maxHoldTimeMs cfg \<Longrightarrow>
    unat (currentDelayMs (fold (busy cfg) ends s)) = min (unat (currentDelayMs s) * 2 ^ length ends) (unat (maxHoldTimeMs cfg))"
proof (induction ends arbitrary: s)
  case Nil
  then show ?case by (simp add: word_le_nat_alt)
next
  case (Cons now ends)
  let ?b = "busy cfg now s"
  have c: "currentDelayMs ?b = min (currentDelayMs s * 2) (maxHoldTimeMs cfg)" using busy_delay(1) [OF Cons.prems(1,2), of cfg now] Cons.prems(3) by auto
  have u: "unat (currentDelayMs ?b) = min (2 * unat (currentDelayMs s)) (unat (maxHoldTimeMs cfg))"
    unfolding c by (rule double_min [OF Cons.prems(4) assms])
  have p: "0 < unat (currentDelayMs s)" using Cons.prems(3) by (simp add: word_less_nat_alt)
  have le: "unat (currentDelayMs s) \<le> unat (maxHoldTimeMs cfg)" using Cons.prems(4) by (simp only: word_le_nat_alt)
  have "0 < currentDelayMs ?b" unfolding word_less_nat_alt u using p le by simp
  moreover have "currentDelayMs ?b \<le> maxHoldTimeMs cfg" using c by simp
  ultimately have "unat (currentDelayMs (fold (busy cfg) ends ?b)) = min (unat (currentDelayMs ?b) * 2 ^ length ends) (unat (maxHoldTimeMs cfg))"
    by (intro Cons.IH busy_delay(2,3) [OF Cons.prems(1,2)])
  also have "\<dots> = min (unat (currentDelayMs s) * 2 ^ length (now # ends)) (unat (maxHoldTimeMs cfg))"
  proof -
    have "min (min a b * k) b = min (a * k) b" if "0 < k" for a b k :: nat
    proof (cases "a \<le> b")
      case False
      then have "b \<le> b * k" "b \<le> a * k" using that by (auto intro: le_trans [of b "b * k"])
      moreover have "min a b = b" using False by simp
      ultimately show ?thesis by (simp only: min_absorb2)
    qed (simp add: min_def)
    from this [of "2 ^ length ends" "2 * unat (currentDelayMs s)" "unat (maxHoldTimeMs cfg)"] show ?thesis
      by (simp add: u algebra_simps)
  qed
  finally show ?case by simp
qed

section \<open>Properties\<close>

text \<open>(C12) No request for a computation is lost: whatever happened before, a request leaves exactly one timer
  pending, due within the largest configured delay when none was pending yet, and when it fires a
  computation runs; requests that arrive while a computation runs leave a timer pending for the next.\<close>

theorem spf_requests_are_served:
  assumes "(spf_step cfg)\<^sup>*\<^sup>* SpfManager_new s"
  shows "(\<exists>d. timers (requestSpf cfg now s) = [d]
      \<and> (spfScheduled s \<or> now \<le> d \<and> d \<le> now + unat (max (max (initDelayMs cfg) (maxHoldTimeMs cfg)) (holdTimeMs cfg))))
    \<and> runs (onSpfTimer cfg n now' ((requestSpf cfg now s)\<lparr>timers := []\<rparr>)) = Suc (runs s)
    \<and> (requested s \<longrightarrow> length (timers s) = 1)"
proof -
  note ok = spf_reachable_ok [OF assms]
  obtain d where d: "timers (requestSpf cfg now s) = [d]"
    "spfScheduled s \<or> now \<le> d \<and> d \<le> now + unat (max (max (initDelayMs cfg) (maxHoldTimeMs cfg)) (holdTimeMs cfg))"
    using requestSpf_ok(2) [OF ok] by blast
  have "runs (requestSpf cfg now s) = runs s"
    by (auto simp: requestSpf_def Let_def computeNextDelay_def scheduleSpf_def)
  then show ?thesis
    using d onSpfTimer_ok(2) [OF requestSpf_ok(1) [OF ok] d(1)] ok by (auto simp: spf_sched_ok_def)
qed

text \<open>The incremental computation never runs: the edge index it needs is filled only by itself, so on an
  engine in its initial state every call of \<open>run\<close> is a full computation, whatever the configuration
  and whatever the repair would do.\<close>

theorem incremental_spf_never_runs: "run_all repair full reqs SpfEngine_new = map (full \<circ> snd) reqs"
proof -
  have "lastEdges e = [] \<Longrightarrow> run_all repair full reqs e = map (full \<circ> snd) reqs" for e
    by (induction reqs arbitrary: e) (auto simp: run_def Let_def)
  then show ?thesis by (simp add: SpfEngine_new_def)
qed

text \<open>The delay between computations backs off exponentially: while every computation is followed by
  another request, the delay doubles from the initial one at each run until the configured maximum, as
  long as that maximum is below \<open>2 ^ 31\<close> milliseconds (the doubling is done in 32 bits).\<close>

theorem spf_backoff_doubles:
  assumes "(spf_step cfg)\<^sup>*\<^sup>* SpfManager_new s" and "currentDelayMs s = initDelayMs cfg"
    and "0 < initDelayMs cfg" and "initDelayMs cfg \<le> maxHoldTimeMs cfg" and "unat (maxHoldTimeMs cfg) < 2 ^ 31"
  shows "unat (currentDelayMs (fold (busy cfg) ends s)) = min (unat (initDelayMs cfg) * 2 ^ length ends) (unat (maxHoldTimeMs cfg))"
  using busy_backoff [OF assms(5), of s ends] spf_reachable_ok [OF assms(1)] assms(2-4) by (simp add: spf_sched_ok_def)

definition ex_throttle :: SpfThrottle where
  "ex_throttle = \<lparr>initDelayMs = 50, holdTimeMs = 200, maxHoldTimeMs = 5000\<rparr>"

lemma ex_requested: "(spf_step ex_throttle)\<^sup>*\<^sup>* SpfManager_new (requestSpf ex_throttle 7 SpfManager_new)"
  by (rule r_into_rtranclp) (rule spf_step.request)

lemma ex_requested_state: "requestSpf ex_throttle 7 SpfManager_new = SpfManager_new\<lparr>requested := True, spfScheduled := True, currentDelayMs := 50, timers := [57]\<rparr>"
  by (simp add: requestSpf_def SpfManager_new_def computeNextDelay_def scheduleSpf_def ex_throttle_def Let_def max_def)

theorem spf_requests_are_served_witness:
  "runs (onSpfTimer ex_throttle 2 60 ((requestSpf ex_throttle 8 (requestSpf ex_throttle 7 SpfManager_new))\<lparr>timers := []\<rparr>)) = 1"
proof -
  have "runs (requestSpf ex_throttle 7 SpfManager_new) = 0" unfolding ex_requested_state by (simp add: SpfManager_new_def)
  then show ?thesis using spf_requests_are_served [OF ex_requested, of 8 2 60] by simp
qed

theorem spf_backoff_doubles_witness:
  "unat (currentDelayMs (fold (busy ex_throttle) [60, 400, 900] (requestSpf ex_throttle 7 SpfManager_new))) = 400"
  using spf_backoff_doubles [OF ex_requested, of "[60, 400, 900]"] by (simp add: ex_requested_state) (simp add: ex_throttle_def)

end
