(* ===== verification/OspfArea.thy ===== *)
theory OspfArea
  imports OspfSpfManager
begin

text \<open>
  What an OSPF area does with link-state advertisements: \<open>routing/ospf/area/Area.cpp\<close>, the flooding
  queue of \<open>FloodQueue.hpp\<close> and the end of origination in \<open>Originator.cpp\<close>.

  An area is its database (\<open>OspfLsdb\<close>), its shortest-path scheduling (\<open>OspfSpfManager\<close>) and the calls
  it makes to components that are not part of this theory, in order. The clock is an argument, in
  milliseconds. \<open>processLsa\<close> exists twice, for a body the caller gives away and for a constant one;
  the two differ. The flooding queue is modelled for one thread at a time.
\<close>

section \<open>Types\<close>

datatype FloodReason = REFRESH | UPDATE | FLUSH

datatype LsaCompareResult = NEWER | OLDER | SAME

datatype InstallAction =
    REJECT_INVALID | IGNORE_OLDER | IGNORE_DUPLICATE | INSTALL_NEWER | FLUSH_MAX_AGE | FIGHT_BACK_SELF

datatype AreaType = NORMAL | STUB | TOTALLY_STUB | NSSA | TOTALLY_NSSA

record InstallResult =
  action :: InstallAction
  cmp_result :: LsaCompareResult
  newLsa :: bool
  shouldStoreReplace :: bool
  shouldUpdateAgeOnly :: bool
  shouldAck :: bool
  newStoredAge :: u16
  affectsSpfGraph :: bool
  topologyChanged :: bool
  shouldFlood :: bool
  shouldFightBack :: bool

definition InstallResult_new :: InstallResult where
  "InstallResult_new = \<lparr>action = IGNORE_OLDER, cmp_result = SAME, newLsa = False, shouldStoreReplace = False,
     shouldUpdateAgeOnly = False, shouldAck = True, newStoredAge = 0, affectsSpfGraph = False,
     topologyChanged = False, shouldFlood = False, shouldFightBack = False\<rparr>"

text \<open>The fields of \<open>IncomingLsaContext\<close> that only the area reads.\<close>

record LsaContext = IncomingLsaContext +
  checksumValid :: bool
  selfOriginatedKey :: bool
  info_reason :: FloodReason

abbreviation lsdb_ctx :: "LsaContext \<Rightarrow> IncomingLsaContext" where
  "lsdb_ctx ctx \<equiv> IncomingLsaContext.truncate ctx"

record AreaEnv =
  isV3 :: bool
  area_type :: AreaType
  lsaArrival :: nat
  maxLsa :: "u32 option"
  maxLsaIgnoreCount :: u32
  throttle :: SpfThrottle

datatype AreaCall =
    EnqueueFlood LsaKey FloodReason
  | RunDCIntegrityScan
  | DistributeExternalLsa LsaKey
  | DeriveInterAreaNetwork LsaKey
  | DeriveInterAreaRouter LsaKey
  | InitiateReset
  | StartIgnoreTimer
  | UnscheduleForGroupPacing LsaKey
  | EraseOriginationState LsaKey
  | PostFullRefresh

record area =
  a_db :: LsdbTable
  a_spf :: SpfManager
  ignoreSize :: u32
  a_calls :: "AreaCall list"

record AreaResult =
  res_flags :: u8
  decision :: InstallResult
  res_record :: "LsaKey option"

definition a_call :: "AreaCall \<Rightarrow> area \<Rightarrow> area" where
  "a_call c s = s\<lparr>a_calls := a_calls s @ [c]\<rparr>"

definition a_request :: "AreaEnv \<Rightarrow> nat \<Rightarrow> area \<Rightarrow> area" where
  "a_request env now s = s\<lparr>a_spf := requestSpf (throttle env) now (a_spf s)\<rparr>"

section \<open>Comparing instances\<close>

definition OSPF_MAX_DIFF :: u16 where
  "OSPF_MAX_DIFF = 900"

definition isMaxAge :: "LsaHeader \<Rightarrow> u16 \<Rightarrow> bool" where
  "isMaxAge h maxAge = (age h \<ge> maxAge)"

definition absDiffU16 :: "u16 \<Rightarrow> u16 \<Rightarrow> u16" where
  "absDiffU16 a b = (if a \<ge> b then a - b else b - a)"

definition compareLsaHeaders :: "LsaHeader \<Rightarrow> LsaHeader \<Rightarrow> LsaCompareResult" where
  "compareLsaHeaders a b =
     (if sequence a \<noteq> sequence b then (if sequence a > sequence b then NEWER else OLDER)
      else if checksum a \<noteq> checksum b then (if checksum a > checksum b then NEWER else OLDER)
      else let aMax = isMaxAge a OSPF_MAX_AGE; bMax = isMaxAge b OSPF_MAX_AGE in
        if aMax \<noteq> bMax then (if aMax then NEWER else OLDER)
        else if absDiffU16 (age a) (age b) > OSPF_MAX_DIFF
        then (if age a < age b then NEWER else OLDER)
        else SAME)"

text \<open>The bodies without an \<open>operator==\<close> count as equal, as do bodies of different types.\<close>

definition compareLsaBody :: "LsaBody \<Rightarrow> LsaBody \<Rightarrow> bool" where
  "compareLsaBody a b = (case a of
     Body_RouterLsaV2 x \<Rightarrow> (case b of Body_RouterLsaV2 y \<Rightarrow> RouterLsaV2_eq x y | _ \<Rightarrow> True)
   | Body_NetworkLsaV2 x \<Rightarrow> (case b of Body_NetworkLsaV2 y \<Rightarrow> NetworkLsaV2_eq x y | _ \<Rightarrow> True)
   | Body_SummaryNetworkLsa x \<Rightarrow> (case b of Body_SummaryNetworkLsa y \<Rightarrow>
       sum_networkMask x = sum_networkMask y \<and> sum_metric x = sum_metric y | _ \<Rightarrow> True)
   | Body_SummaryRouterLsa x \<Rightarrow> (case b of Body_SummaryRouterLsa y \<Rightarrow> asbr_metric x = asbr_metric y | _ \<Rightarrow> True)
   | Body_RouterLsaV3 x \<Rightarrow> (case b of Body_RouterLsaV3 y \<Rightarrow> RouterLsaV3_eq x y | _ \<Rightarrow> True)
   | Body_NetworkLsaV3 x \<Rightarrow> (case b of Body_NetworkLsaV3 y \<Rightarrow> NetworkLsaV3_eq x y | _ \<Rightarrow> True)
   | Body_InterAreaRouterLsa x \<Rightarrow> (case b of Body_InterAreaRouterLsa y \<Rightarrow> InterAreaRouterLsa_eq x y | _ \<Rightarrow> True)
   | _ \<Rightarrow> True)"

definition compareLSASummary :: "LsaHeader \<Rightarrow> LsaKey \<Rightarrow> area \<Rightarrow> bool" where
  "compareLSASummary hdr key s = (case lsdb_find key (a_db s) of
     None \<Rightarrow> True
   | Some existing \<Rightarrow> compareLsaHeaders hdr (header existing) = NEWER)"

definition affectsGraph :: "AreaEnv \<Rightarrow> u16 \<Rightarrow> bool" where
  "affectsGraph env t = (if isV3 env
     then t = 0x2001 \<or> t = 0x2002 \<or> t = 0x2003 \<or> t = 0x2004 \<or> t = 0x2009 \<or> t = 0x0008
     else 1 \<le> t \<and> t \<le> 4)"

section \<open>The decision on an incoming advertisement\<close>

definition evaluateIncomingLsa :: "AreaEnv \<Rightarrow> nat \<Rightarrow> LsaRecord option \<Rightarrow> LsaContext \<Rightarrow> LsaBody
    \<Rightarrow> InstallResult \<times> LsaContext" where
  "evaluateIncomingLsa env now existing ctx b =
     (let out = InstallResult_new\<lparr>affectsSpfGraph := affectsGraph env (key_type (ctx_key ctx))\<rparr> in
      if \<not> checksumValid ctx then (out\<lparr>shouldAck := False, action := REJECT_INVALID\<rparr>, ctx)
      else (case existing of
        None \<Rightarrow> (let out = out\<lparr>newLsa := True\<rparr> in
          if isMaxAge (ctx_header ctx) OSPF_MAX_AGE
          then (out\<lparr>action := FLUSH_MAX_AGE, shouldFlood := True, shouldStoreReplace := True\<rparr>, ctx)
          else (out\<lparr>action := INSTALL_NEWER, shouldStoreReplace := True, shouldFlood := True,
                    topologyChanged := affectsSpfGraph out\<rparr>, ctx))
      | Some e \<Rightarrow> (let out = out\<lparr>cmp_result := compareLsaHeaders (ctx_header ctx) (header e)\<rparr> in
          case cmp_result out of
            OLDER \<Rightarrow> (out\<lparr>action := IGNORE_OLDER\<rparr>, ctx)
          | SAME \<Rightarrow> (out\<lparr>action := IGNORE_DUPLICATE\<rparr>, ctx)
          | NEWER \<Rightarrow>
              if now < lastRefreshTime e + lsaArrival env
              then (out\<lparr>action := IGNORE_DUPLICATE, shouldAck := True, shouldFlood := False\<rparr>, ctx)
              else if age (ctx_header ctx) = OSPF_MAX_AGE
              then (out\<lparr>action := FLUSH_MAX_AGE, shouldStoreReplace := True, shouldFlood := True,
                        topologyChanged := affectsSpfGraph out\<rparr>, ctx)
              else if selfOriginatedKey ctx \<and> sequence (ctx_header ctx) \<ge> sequence (header e)
              then (out\<lparr>action := FIGHT_BACK_SELF, shouldFightBack := True, shouldFlood := True\<rparr>, ctx)
              else (let out = out\<lparr>action := INSTALL_NEWER, shouldStoreReplace := True, shouldFlood := True\<rparr> in
                if affectsSpfGraph out
                then (if \<not> compareLsaBody (body e) b then (out\<lparr>topologyChanged := True\<rparr>, ctx)
                      else (out, ctx\<lparr>info_reason := REFRESH\<rparr>))
                else (out, ctx)))))"

section \<open>Storing\<close>

text \<open>The compound assignment takes its left operand by value and does not change it.\<close>

definition flagsOrAssign :: "u8 \<Rightarrow> u8 \<Rightarrow> u8" where
  "flagsOrAssign a b = a"

definition makeFlags :: "LsaContext \<Rightarrow> u8" where
  "makeFlags ctx = (let
     f = 0;
     f = (if selfOriginatedKey ctx then flagsOrAssign f 1 else f);
     f = (if checksumValid ctx then flagsOrAssign f 2 else f)
   in f)"

definition process :: "AreaEnv \<Rightarrow> nat \<Rightarrow> LsaContext \<Rightarrow> LsaBody \<Rightarrow> area \<Rightarrow> AreaResult \<times> LsaContext \<times> area" where
  "process env now ctx b s = (let
     key = ctx_key ctx;
     (dec, ctx) = evaluateIncomingLsa env now (lsdb_find key (a_db s)) ctx b;
     out = \<lparr>res_flags = 0, decision = dec, res_record = None\<rparr>
   in if action dec = REJECT_INVALID \<or> action dec = IGNORE_OLDER then (out, ctx, s)
      else let out = out\<lparr>res_flags := makeFlags ctx\<rparr> in
        if action dec = IGNORE_DUPLICATE
        then (if shouldUpdateAgeOnly dec
              then (case modifyAt key (\<lambda>r. r\<lparr>header := (header r)\<lparr>age := newStoredAge dec\<rparr>,
                       lastRefreshTime := now, rec_flags := res_flags out\<rparr>) (a_db s) of
                     (ok, t) \<Rightarrow> (if ok then out\<lparr>res_record := Some key\<rparr> else out, ctx, s\<lparr>a_db := t\<rparr>))
              else (case touchRefresh now key (a_db s) of
                     (True, t) \<Rightarrow> (out\<lparr>res_record := Some key\<rparr>, ctx, s\<lparr>a_db := snd (setFlags key (res_flags out) t)\<rparr>)
                   | (False, t) \<Rightarrow> (out, ctx, s\<lparr>a_db := t\<rparr>)))
        else (out, ctx, s))"

definition ignoreLsa :: "AreaEnv \<Rightarrow> area \<Rightarrow> area" where
  "ignoreLsa env s = (let s = s\<lparr>ignoreSize := ignoreSize s + 1\<rparr> in
     a_call StartIgnoreTimer (if ignoreSize s \<ge> maxLsaIgnoreCount env then a_call InitiateReset s else s))"

definition onNewLsa :: "AreaEnv \<Rightarrow> area \<Rightarrow> bool \<times> area" where
  "onNewLsa env s = (case maxLsa env of
     None \<Rightarrow> (True, s)
   | Some mx \<Rightarrow> if unat mx \<le> lsdb_size (a_db s) then (False, ignoreLsa env s) else (True, s))"

definition installLsa :: "AreaEnv \<Rightarrow> nat \<Rightarrow> AreaResult \<Rightarrow> LsaContext \<Rightarrow> LsaBody \<Rightarrow> area \<Rightarrow> AreaResult \<times> area" where
  "installLsa env now result ctx b s =
     (let (ok, s) = (if newLsa (decision result) then onNewLsa env s else (True, s)) in
      if \<not> ok \<and> \<not> selfOriginatedKey ctx then (result, s)
      else if action (decision result) = FIGHT_BACK_SELF
      then (result\<lparr>res_record := Some (ctx_key ctx), decision := (decision result)\<lparr>shouldFightBack := True\<rparr>\<rparr>,
            s\<lparr>a_db := upsertBody now (lsdb_ctx ctx) (res_flags result) b (a_db s)\<rparr>)
      else if action (decision result) = FLUSH_MAX_AGE \<or> shouldStoreReplace (decision result)
      then (result\<lparr>res_record := Some (ctx_key ctx)\<rparr>,
            s\<lparr>a_db := upsertBody now (lsdb_ctx ctx) (res_flags result) b (a_db s)\<rparr>)
      else (result, s))"

definition evaluateDecision :: "AreaEnv \<Rightarrow> nat \<Rightarrow> AreaResult \<Rightarrow> LsaContext \<Rightarrow> area \<Rightarrow> area" where
  "evaluateDecision env now result ctx s = (let
     s = (if shouldFlood (decision result) \<and> res_record result \<noteq> None
          then a_call (EnqueueFlood (ctx_key ctx) (info_reason ctx)) s else s)
   in if affectsSpfGraph (decision result) \<and> topologyChanged (decision result) then a_request env now s else s)"

section \<open>Processing\<close>

definition is_external :: "AreaEnv \<Rightarrow> LsaBody \<Rightarrow> bool" where
  "is_external env b = (case b of Body_ExternalLsaV2 _ \<Rightarrow> \<not> isV3 env | Body_ExternalLsaV3 _ \<Rightarrow> isV3 env | _ \<Rightarrow> False)"

definition is_interNetwork :: "AreaEnv \<Rightarrow> LsaBody \<Rightarrow> bool" where
  "is_interNetwork env b = (case b of Body_SummaryNetworkLsa _ \<Rightarrow> \<not> isV3 env | Body_InterAreaPrefixLsa _ \<Rightarrow> isV3 env | _ \<Rightarrow> False)"

definition is_interRouter :: "AreaEnv \<Rightarrow> LsaBody \<Rightarrow> bool" where
  "is_interRouter env b = (case b of Body_SummaryRouterLsa _ \<Rightarrow> \<not> isV3 env | Body_InterAreaRouterLsa _ \<Rightarrow> isV3 env | _ \<Rightarrow> False)"

definition is_routerOrNetwork :: "AreaEnv \<Rightarrow> LsaBody \<Rightarrow> bool" where
  "is_routerOrNetwork env b = (case b of Body_RouterLsaV2 _ \<Rightarrow> \<not> isV3 env | Body_NetworkLsaV2 _ \<Rightarrow> \<not> isV3 env
     | Body_RouterLsaV3 _ \<Rightarrow> isV3 env | Body_NetworkLsaV3 _ \<Rightarrow> isV3 env | _ \<Rightarrow> False)"

definition nssaType :: "AreaEnv \<Rightarrow> u16" where
  "nssaType env = (if isV3 env then 0x2007 else 7)"

definition preProcess :: "AreaEnv \<Rightarrow> LsaContext \<Rightarrow> LsaBody \<Rightarrow> bool" where
  "preProcess env ctx b = (let
     ty = area_type env;
     isNssa = (ty = NSSA \<or> ty = TOTALLY_NSSA)
   in if is_interNetwork env b \<and> (ty = TOTALLY_STUB \<or> ty = TOTALLY_NSSA) then False
      else if is_interRouter env b \<and> ty \<noteq> NORMAL then True
      else if is_external env b
      then (let isRouteNssa = (key_type (ctx_key ctx) = nssaType env) in
            if ty = NORMAL then \<not> isRouteNssa
            else if isNssa then isRouteNssa
            else False)
      else True)"

definition postProcess :: "AreaEnv \<Rightarrow> AreaResult \<Rightarrow> LsaContext \<Rightarrow> LsaBody \<Rightarrow> area \<Rightarrow> area" where
  "postProcess env result ctx b s =
     (if action (decision result) \<noteq> REJECT_INVALID \<and> action (decision result) \<noteq> IGNORE_OLDER
        \<and> topologyChanged (decision result)
      then let s = (if is_routerOrNetwork env b then a_call RunDCIntegrityScan s else s) in
        if is_external env b then a_call (DistributeExternalLsa (ctx_key ctx)) s
        else if is_interNetwork env b then a_call (DeriveInterAreaNetwork (ctx_key ctx)) s
        else if is_interRouter env b then a_call (DeriveInterAreaRouter (ctx_key ctx)) s
        else s
      else s)"

definition processLsa :: "AreaEnv \<Rightarrow> nat \<Rightarrow> LsaContext \<Rightarrow> LsaBody \<Rightarrow> area \<Rightarrow> AreaResult option \<times> area" where
  "processLsa env now ctx b s =
     (if \<not> preProcess env ctx b then (None, s)
      else let (result, ctx, s) = process env now ctx b s;
               (result, s) = installLsa env now result ctx b s;
               s = evaluateDecision env now result ctx s
           in (Some result, postProcess env result ctx b s))"

text \<open>The overload for a constant body does not install.\<close>

definition processLsaConst :: "AreaEnv \<Rightarrow> nat \<Rightarrow> LsaContext \<Rightarrow> LsaBody \<Rightarrow> area \<Rightarrow> AreaResult option \<times> area" where
  "processLsaConst env now ctx b s =
     (let (result, ctx, s) = process env now ctx b s;
          s = evaluateDecision env now result ctx s
      in (Some result, postProcess env result ctx b s))"

definition flushNeighborLsas :: "AreaEnv \<Rightarrow> nat \<Rightarrow> u32 \<Rightarrow> area \<Rightarrow> area" where
  "flushNeighborLsas env now rid s = (let
     toFlush = filter (\<lambda>k. advertisingRouter (key_adv k) = rid) (map fst (forEach (a_db s)));
     s = fold (\<lambda>k s. case modifyAt k (\<lambda>r. r\<lparr>header := (header r)\<lparr>age := OSPF_MAX_AGE\<rparr>\<rparr>) (a_db s) of
           (ok, t) \<Rightarrow> if ok then a_call (EnqueueFlood k FLUSH) (s\<lparr>a_db := t\<rparr>) else s) toFlush s
   in if toFlush \<noteq> [] then a_request env now s else s)"

section \<open>Origination\<close>

record OriginationInfo =
  orig_body :: LsaBody
  orig_refresh :: bool
  orig_expire :: bool

definition OSPF_INITIAL_SEQUENCE :: u32 where
  "OSPF_INITIAL_SEQUENCE = 0x80000001"

definition OSPF_MAX_SEQUENCE :: u32 where
  "OSPF_MAX_SEQUENCE = 0x7FFFFFFF"

text \<open>\<open>calc\<close> is \<open>runLsaCalculations\<close>, the length and the checksum of an advertisement, and \<open>opts\<close> the
  options of the header. The body of the stored information is constant here.\<close>

definition processReoriginatedLsa :: "AreaEnv \<Rightarrow> nat \<Rightarrow> (LsaHeader \<Rightarrow> LsaKey \<Rightarrow> LsaBody \<Rightarrow> u16 \<times> u16) \<Rightarrow> u8
    \<Rightarrow> LsaKey \<Rightarrow> OriginationInfo \<Rightarrow> area \<Rightarrow> area" where
  "processReoriginatedLsa env now calc opts key info s = (let
     existing = lsdb_find key (a_db s);
     hdr = \<lparr>sequence = 0, checksum = 0, lsa_length = 0, age = 0, hdr_options = opts\<rparr>;
     ctx = \<lparr>ctx_key = key, ctx_header = hdr, incomingInterface = 0, incomingNeighbor = 0,
            checksumValid = True, selfOriginatedKey = True, info_reason = REFRESH\<rparr>;
     finish = (\<lambda>h b. case calc h key b of (sz, ck) \<Rightarrow> h\<lparr>lsa_length := sz, checksum := ck\<rparr>)
   in if \<not> orig_expire info \<and> (case existing of None \<Rightarrow> False | Some e \<Rightarrow> sequence (header e) = OSPF_MAX_SEQUENCE)
      then (let
        h = finish (hdr\<lparr>age := OSPF_MAX_AGE, sequence := OSPF_MAX_SEQUENCE\<rparr>) (orig_body info);
        s = snd (processLsa env now (ctx\<lparr>ctx_header := h, info_reason := FLUSH\<rparr>) (orig_body info) s)
        in a_call PostFullRefresh (a_call (EraseOriginationState key) (a_call (UnscheduleForGroupPacing key) s)))
      else (let
        reason = (if orig_expire info then FLUSH else if orig_refresh info then REFRESH else UPDATE);
        h = hdr\<lparr>age := (if orig_expire info then OSPF_MAX_AGE else 0),
                sequence := (case existing of None \<Rightarrow> OSPF_INITIAL_SEQUENCE | Some e \<Rightarrow> sequence (header e) + 1)\<rparr>;
        h = finish h (orig_body info);
        s = snd (processLsaConst env now (ctx\<lparr>ctx_header := h, info_reason := reason\<rparr>) (orig_body info) s)
        in if orig_expire info
           then a_call (EraseOriginationState key) (a_call (UnscheduleForGroupPacing key) s) else s))"

section \<open>The flooding queue\<close>

datatype 'a outcome = Undefined | Diverges | Returns 'a

record 'a Slot =
  slot_seq :: nat
  storage :: "'a option"

record 'a FloodQueue =
  fq_cap :: nat
  slots :: "'a Slot list"
  fq_head :: nat
  fq_tail :: nat
  fq_count :: nat

definition FloodQueue_new :: "nat \<Rightarrow> 'a FloodQueue" where
  "FloodQueue_new capacity = \<lparr>fq_cap = capacity, slots = map (\<lambda>i. \<lparr>slot_seq = i, storage = None\<rparr>) [0..<capacity],
     fq_head = 0, fq_tail = 0, fq_count = 0\<rparr>"

definition fq_size :: "'a FloodQueue \<Rightarrow> nat" where
  "fq_size q = fq_count q"

text \<open>\<open>tail % cap\<close> divides by zero for an empty ring. A positive difference is waited for, and no other
  thread runs.\<close>

definition enqueueImpl :: "'a \<Rightarrow> 'a FloodQueue \<Rightarrow> (bool \<times> 'a FloodQueue) outcome" where
  "enqueueImpl x q = (if fq_cap q = 0 then Undefined else let
     i = fq_tail q mod fq_cap q; dif = int (slot_seq (slots q ! i)) - int (fq_tail q)
   in if dif = 0
      then (let tail = fq_tail q + 1
            in Returns (True, q\<lparr>fq_tail := tail, slots := (slots q)[i := \<lparr>slot_seq = tail + 1, storage = Some x\<rparr>],
                                fq_count := fq_count q + 1\<rparr>))
      else if dif < 0 then Returns (False, q)
      else Diverges)"


definition slot_ready :: "'a FloodQueue \<Rightarrow> nat \<Rightarrow> bool" where
  "slot_ready q k = (slot_seq (slots q ! ((fq_head q + k) mod fq_cap q)) = fq_head q + k + 1)"

text \<open>One claimed slot: the record is moved out of the storage and destroyed there.\<close>

definition takeSlot :: "nat \<Rightarrow> ('a list \<times> 'a FloodQueue) option \<Rightarrow> ('a list \<times> 'a FloodQueue) option" where
  "takeSlot i r = (case r of None \<Rightarrow> None | Some (out, q) \<Rightarrow>
     (let pos = fq_head q + i; j = pos mod fq_cap q in
      case storage (slots q ! j) of None \<Rightarrow> None
      | Some x \<Rightarrow> Some (out @ [x], q\<lparr>slots := (slots q)[j := \<lparr>slot_seq = pos + fq_cap q, storage = None\<rparr>]\<rparr>)))"

lemma takeSlot_count: "takeSlot i r = Some (out, q) \<Longrightarrow> \<exists>out' q'. r = Some (out', q') \<and> fq_count q = fq_count q'"
  by (auto simp: takeSlot_def Let_def split: option.splits)

lemma takeSlots_count: "fold takeSlot is r = Some (out, q) \<Longrightarrow> \<exists>out' q'. r = Some (out', q') \<and> fq_count q = fq_count q'"
  by (induction "is" arbitrary: r) (fastforce dest: takeSlot_count)+

text \<open>The batch of a turn of the loop is a variable of that turn: it is gone when the loop returns.\<close>

function tryDequeueBatch :: "'a FloodQueue \<Rightarrow> ('a list \<times> 'a FloodQueue) outcome" where
  "tryDequeueBatch q = (let available = fq_count q in
     if available = 0 then Returns ([], q)
     else if fq_cap q = 0 then Undefined
     else let k = length (takeWhile (slot_ready q) [0..<available]) in
       if k = 0 then Returns ([], q)
       else (case fold takeSlot [0..<k] (Some ([], q\<lparr>fq_head := fq_head q + k\<rparr>)) of
          None \<Rightarrow> Undefined
        | Some (out, q) \<Rightarrow> tryDequeueBatch (q\<lparr>fq_count := fq_count q - k\<rparr>)))"
  by auto
termination
  by (relation "measure fq_count") (auto dest!: takeSlots_count)

declare tryDequeueBatch.simps [simp del]

section \<open>The database an area keeps\<close>

text \<open>What an incoming advertisement does to the map of stored records: rejected, older and surplus ones
  leave it, a duplicate or an early newer one touches the time of the stored record, any other newer one
  replaces it.\<close>

definition touch :: "nat \<Rightarrow> LsaRecord \<Rightarrow> LsaRecord" where
  "touch now r = r\<lparr>lastRefreshTime := now, rec_flags := 0\<rparr>"

definition store_lsa :: "nat \<Rightarrow> LsaContext \<Rightarrow> LsaBody \<Rightarrow> LsaRecord option \<Rightarrow> LsaRecord" where
  "store_lsa now ctx b old = (met now (lsdb_ctx ctx) 0 old)\<lparr>body := b\<rparr>"

definition area_spec :: "AreaEnv \<Rightarrow> nat \<Rightarrow> LsaContext \<Rightarrow> LsaBody \<Rightarrow> (LsaKey \<rightharpoonup> LsaRecord) \<Rightarrow> (LsaKey \<rightharpoonup> LsaRecord)" where
  "area_spec env now ctx b m = (let k = ctx_key ctx in
     if \<not> preProcess env ctx b \<or> \<not> checksumValid ctx then m
     else case m k of
       None \<Rightarrow> if (\<exists>mx. maxLsa env = Some mx \<and> unat mx \<le> card (dom m)) \<and> \<not> selfOriginatedKey ctx then m
               else m(k \<mapsto> store_lsa now ctx b None)
     | Some e \<Rightarrow> (case compareLsaHeaders (ctx_header ctx) (header e) of
         OLDER \<Rightarrow> m
       | SAME \<Rightarrow> m(k \<mapsto> touch now e)
       | NEWER \<Rightarrow> if now < lastRefreshTime e + lsaArrival env then m(k \<mapsto> touch now e)
                   else m(k \<mapsto> store_lsa now ctx b (Some e))))"

lemma makeFlags_zero [simp]: "makeFlags ctx = 0"
  by (simp add: makeFlags_def flagsOrAssign_def)

lemma a_db_calls [simp]:
  "a_db (a_call c s) = a_db s" "a_db (a_request env now s) = a_db s" "a_db (ignoreLsa env s) = a_db s"
  "a_db (evaluateDecision env now r ctx s) = a_db s" "a_db (postProcess env r ctx b s) = a_db s"
  by (simp_all add: a_call_def a_request_def ignoreLsa_def evaluateDecision_def postProcess_def Let_def)

lemma touch_ok:
  assumes "lsdb_ok t"
  shows "lsdb_ok (snd (setFlags k f (snd (touchRefresh now k t))))"
    and "lsdb_abs (snd (setFlags k f (snd (touchRefresh now k t))))
      = (lsdb_abs t)(k := map_option (\<lambda>r. r\<lparr>lastRefreshTime := now, rec_flags := f\<rparr>) (lsdb_abs t k))"
    and "fst (touchRefresh now k t) \<longleftrightarrow> lsdb_abs t k \<noteq> None"
proof -
  note a = modifyAt_ok [OF assms, of k "lastRefreshTime_update (\<lambda>_. now)"]
  let ?t = "snd (modifyAt k (lastRefreshTime_update (\<lambda>_. now)) t)"
  note b = modifyAt_ok [of ?t k "rec_flags_update (\<lambda>_. f)"]
  show "lsdb_ok (snd (setFlags k f (snd (touchRefresh now k t))))"
    using a b by (simp add: setFlags_def touchRefresh_def)
  show "lsdb_abs (snd (setFlags k f (snd (touchRefresh now k t))))
      = (lsdb_abs t)(k := map_option (\<lambda>r. r\<lparr>lastRefreshTime := now, rec_flags := f\<rparr>) (lsdb_abs t k))"
    using a b by (simp add: setFlags_def touchRefresh_def fun_eq_iff option.map_comp o_def)
  show "fst (touchRefresh now k t) \<longleftrightarrow> lsdb_abs t k \<noteq> None"
    using a by (simp add: touchRefresh_def)
qed

lemma absDiff_sym: "absDiffU16 a b = absDiffU16 b a"
  by (cases a b rule: linorder_cases) (auto simp: absDiffU16_def)

lemma absDiff_same [simp]: "absDiffU16 a a = 0"
  by (simp add: absDiffU16_def)

lemma compare_antisym:
  "compareLsaHeaders b a = (case compareLsaHeaders a b of NEWER \<Rightarrow> OLDER | OLDER \<Rightarrow> NEWER | SAME \<Rightarrow> SAME)"
proof (cases "sequence a = sequence b \<and> checksum a = checksum b \<and> (isMaxAge a OSPF_MAX_AGE \<longleftrightarrow> isMaxAge b OSPF_MAX_AGE)")
  case True
  thus ?thesis
    by (cases "age a" "age b" rule: linorder_cases)
      (auto simp: compareLsaHeaders_def Let_def absDiff_sym [of "age b"])
next
  case False
  thus ?thesis
    by (cases "sequence a" "sequence b" rule: linorder_cases; cases "checksum a" "checksum b" rule: linorder_cases)
      (auto simp: compareLsaHeaders_def Let_def)
qed

text \<open>The decision as a verdict on the stored record.\<close>

datatype verdict = Drop | Refresh | Replace

definition lsa_verdict :: "AreaEnv \<Rightarrow> nat \<Rightarrow> LsaContext \<Rightarrow> LsaRecord option \<Rightarrow> verdict" where
  "lsa_verdict env now ctx old = (if \<not> checksumValid ctx then Drop else case old of
     None \<Rightarrow> Replace
   | Some e \<Rightarrow> (case compareLsaHeaders (ctx_header ctx) (header e) of
       OLDER \<Rightarrow> Drop | SAME \<Rightarrow> Refresh
     | NEWER \<Rightarrow> if now < lastRefreshTime e + lsaArrival env then Refresh else Replace))"

lemma evaluate_verdict:
  assumes "evaluateIncomingLsa env now old ctx b = (dec, ctx')"
  shows "ctx_key ctx' = ctx_key ctx" "lsdb_ctx ctx' = lsdb_ctx ctx" "selfOriginatedKey ctx' = selfOriginatedKey ctx"
    "\<not> shouldUpdateAgeOnly dec" "newLsa dec \<longleftrightarrow> old = None \<and> checksumValid ctx"
    "lsa_verdict env now ctx old = Drop \<longleftrightarrow> action dec = REJECT_INVALID \<or> action dec = IGNORE_OLDER"
    "lsa_verdict env now ctx old = Refresh \<longleftrightarrow> action dec = IGNORE_DUPLICATE"
    "shouldStoreReplace dec \<or> action dec = FLUSH_MAX_AGE \<or> action dec = FIGHT_BACK_SELF \<longleftrightarrow> lsa_verdict env now ctx old = Replace"
  using assms
  by (auto simp: evaluateIncomingLsa_def lsa_verdict_def InstallResult_new_def Let_def IncomingLsaContext.truncate_def
      split: if_splits option.splits LsaCompareResult.splits)

definition room :: "AreaEnv \<Rightarrow> area \<Rightarrow> bool" where
  "room env s = (case maxLsa env of None \<Rightarrow> True | Some mx \<Rightarrow> lsdb_size (a_db s) < unat mx)"

lemma onNewLsa_simps [simp]: "fst (onNewLsa env s) = room env s" "a_db (snd (onNewLsa env s)) = a_db s"
  by (auto simp: onNewLsa_def room_def split: option.split)

lemma process_db:
  assumes ok: "lsdb_ok (a_db s)" and p: "process env now ctx b s = (r, ctx', s')"
  defines "old \<equiv> lsdb_abs (a_db s) (ctx_key ctx)"
  shows "lsdb_ok (a_db s')" "res_flags r = 0"
    "lsdb_abs (a_db s') = (if lsa_verdict env now ctx old = Refresh
       then (lsdb_abs (a_db s))(ctx_key ctx := map_option (touch now) old) else lsdb_abs (a_db s))"
    "lsa_verdict env now ctx old \<noteq> Refresh \<Longrightarrow> s' = s"
    "evaluateIncomingLsa env now old ctx b = (decision r, ctx')"
proof -
  obtain dec c where e: "evaluateIncomingLsa env now old ctx b = (dec, c)" by (cases "evaluateIncomingLsa env now old ctx b")
  note v = evaluate_verdict [OF e]
  have f: "lsdb_find (ctx_key ctx) (a_db s) = old" by (simp add: old_def lsdb_find_abs [OF ok])
  note t = touch_ok(1,2) [OF ok, of "ctx_key ctx" 0 now] touch_ok(3) [OF ok, of now "ctx_key ctx"]
  have th: "touch now = (\<lambda>r. r\<lparr>lastRefreshTime := now, rec_flags := 0\<rparr>)" by (simp add: fun_eq_iff touch_def)
  obtain o1 t1 where t1: "touchRefresh now (ctx_key ctx) (a_db s) = (o1, t1)" by (cases "touchRefresh now (ctx_key ctx) (a_db s)")
  have none: "old = None \<Longrightarrow> t1 = a_db s"
    using t1 f ok lsdb_okD(2) [OF ok] by (auto simp: touchRefresh_def modifyAt_def old_def dir_index_def domIff split: option.splits if_splits)
  show "lsdb_ok (a_db s')" "res_flags r = 0"
    "lsdb_abs (a_db s') = (if lsa_verdict env now ctx old = Refresh
       then (lsdb_abs (a_db s))(ctx_key ctx := map_option (touch now) old) else lsdb_abs (a_db s))"
    "lsa_verdict env now ctx old \<noteq> Refresh \<Longrightarrow> s' = s"
    "evaluateIncomingLsa env now old ctx b = (decision r, ctx')"
    using p t t1 none v ok unfolding process_def f Let_def e th
    by (auto simp: old_def split: if_splits bool.splits)
qed

lemma processLsa_db:
  assumes ok: "lsdb_ok (a_db s)"
  shows "lsdb_ok (a_db (snd (processLsa env now ctx b s)))
    \<and> lsdb_abs (a_db (snd (processLsa env now ctx b s))) = area_spec env now ctx b (lsdb_abs (a_db s))"
proof (cases "preProcess env ctx b")
  case False
  with ok show ?thesis by (simp add: processLsa_def area_spec_def)
next
  case True
  let ?m = "lsdb_abs (a_db s)" and ?k = "ctx_key ctx"
  obtain r c s1 where p: "process env now ctx b s = (r, c, s1)" by (metis prod_cases3)
  note pr = process_db [OF ok p]
  note v = evaluate_verdict [OF pr(5)]
  obtain r2 s2 where i: "installLsa env now r c b s1 = (r2, s2)" by (cases "installLsa env now r c b s1")
  have out: "a_db (snd (processLsa env now ctx b s)) = a_db s2"
    using True by (simp add: processLsa_def p i)
  note up = upsertBody_ok [OF pr(1), of now "lsdb_ctx ctx" 0 b]
  have key: "OspfLsdb.ctx_key (lsdb_ctx ctx) = ?k" by (simp add: IncomingLsaContext.truncate_def)
  have size: "room env s1 \<longleftrightarrow> \<not> (\<exists>mx. maxLsa env = Some mx \<and> unat mx \<le> card (dom ?m))"
    if "lsa_verdict env now ctx (?m ?k) \<noteq> Refresh"
    using pr(4) [OF that] lsdb_size_card [OF ok] by (auto simp: room_def split: option.splits)
  have full: "s2 = snd (onNewLsa env s1)" if "newLsa (decision r)" "\<not> room env s1" "\<not> selfOriginatedKey ctx"
    using i that v(3) onNewLsa_simps(1) [of env s1] by (cases "onNewLsa env s1") (auto simp: installLsa_def Let_def)
  have keep: "a_db s2 = (if lsa_verdict env now ctx (?m ?k) = Replace
      then upsertBody now (lsdb_ctx ctx) 0 b (a_db s1) else a_db s1)"
    if "\<not> (newLsa (decision r) \<and> \<not> room env s1 \<and> \<not> selfOriginatedKey ctx)"
    using i that v(1,2,3,8) pr(2) onNewLsa_simps [of env s1]
    by (cases "onNewLsa env s1") (auto simp: installLsa_def Let_def split: if_splits)
  have spec: "area_spec env now ctx b ?m = (case lsa_verdict env now ctx (?m ?k) of Drop \<Rightarrow> ?m
      | Refresh \<Rightarrow> ?m(?k := map_option (touch now) (?m ?k))
      | Replace \<Rightarrow> if ?m ?k = None \<and> (\<exists>mx. maxLsa env = Some mx \<and> unat mx \<le> card (dom ?m)) \<and> \<not> selfOriginatedKey ctx
          then ?m else ?m(?k \<mapsto> store_lsa now ctx b (?m ?k)))"
    using True by (auto simp: area_spec_def lsa_verdict_def Let_def split: option.splits LsaCompareResult.splits)
  show ?thesis
  proof (cases "newLsa (decision r) \<and> \<not> room env s1 \<and> \<not> selfOriginatedKey ctx")
    case True
    hence rep: "lsa_verdict env now ctx (?m ?k) = Replace" and n: "?m ?k = None" using v(5) by (auto simp: lsa_verdict_def)
    have "s1 = s" using pr(4) rep by simp
    thus ?thesis unfolding out spec using full True rep n size ok by simp
  next
    case False
    show ?thesis
    proof (cases "lsa_verdict env now ctx (?m ?k)")
      case Replace
      have "s1 = s" using pr(4) Replace by simp
      moreover have "\<not> (?m ?k = None \<and> (\<exists>mx. maxLsa env = Some mx \<and> unat mx \<le> card (dom ?m)) \<and> \<not> selfOriginatedKey ctx)"
        using False v(5) Replace size by (auto simp: lsa_verdict_def split: if_splits)
      ultimately show ?thesis unfolding out spec using keep [OF False] Replace up key by (auto simp: store_lsa_def)
    qed (use keep [OF False] pr(1,3) in \<open>auto simp: out spec\<close>)
  qed
qed

section \<open>Sequences of advertisements\<close>

type_synonym arrival = "nat \<times> LsaContext \<times> LsaBody"

definition receive :: "AreaEnv \<Rightarrow> arrival \<Rightarrow> area \<Rightarrow> area" where
  "receive env = (\<lambda>(now, ctx, b) s. snd (processLsa env now ctx b s))"

definition receive_all :: "AreaEnv \<Rightarrow> arrival list \<Rightarrow> area \<Rightarrow> area" where
  "receive_all env xs s = fold (receive env) xs s"

definition receive_spec :: "AreaEnv \<Rightarrow> arrival list \<Rightarrow> (LsaKey \<rightharpoonup> LsaRecord) \<Rightarrow> (LsaKey \<rightharpoonup> LsaRecord)" where
  "receive_spec env xs m = fold (\<lambda>(now, ctx, b). area_spec env now ctx b) xs m"

lemma receive_all_db:
  "lsdb_ok (a_db s) \<Longrightarrow> lsdb_ok (a_db (receive_all env xs s))
    \<and> lsdb_abs (a_db (receive_all env xs s)) = receive_spec env xs (lsdb_abs (a_db s))"
proof (induction xs arbitrary: s)
  case (Cons x xs)
  obtain now ctx b where x: "x = (now, ctx, b)" by (cases x)
  note p = processLsa_db [OF Cons.prems, of env now ctx b]
  from Cons.IH [of "snd (processLsa env now ctx b s)"] p show ?case
    by (simp add: receive_all_def receive_spec_def receive_def x)
qed (simp add: receive_all_def receive_spec_def)

text \<open>Of two instances the more recent one by the first two criteria.\<close>

definition not_before :: "LsaHeader \<Rightarrow> LsaHeader \<Rightarrow> bool" where
  "not_before h h' = (sequence h < sequence h' \<or> sequence h = sequence h' \<and> checksum h \<le> checksum h')"

lemma not_before_trans: "not_before h1 h2 \<Longrightarrow> not_before h2 h3 \<Longrightarrow> not_before h1 h3"
  by (auto simp: not_before_def)

lemma newer_not_before: "compareLsaHeaders h h' = NEWER \<Longrightarrow> not_before h' h"
  by (auto simp: compareLsaHeaders_def not_before_def Let_def split: if_splits)

lemma area_spec_mono:
  assumes "m k = Some e"
  shows "\<exists>e'. area_spec env now ctx b m k = Some e' \<and> not_before (header e) (header e')"
proof -
  have refl: "not_before (header e) (header e)" by (simp add: not_before_def)
  have new: "compareLsaHeaders (ctx_header ctx) (header e) = NEWER \<Longrightarrow> not_before (header e) (header (store_lsa now ctx b (Some e)))"
    using newer_not_before by (simp add: store_lsa_def met_def IncomingLsaContext.truncate_def)
  show ?thesis using assms refl new
    by (cases "ctx_key ctx = k")
      (auto simp: area_spec_def Let_def touch_def split: option.splits LsaCompareResult.splits)
qed

lemma receive_spec_mono:
  "m k = Some e \<Longrightarrow> \<exists>e'. receive_spec env xs m k = Some e' \<and> not_before (header e) (header e')"
proof (induction xs arbitrary: m e)
  case Nil
  thus ?case by (simp add: receive_spec_def not_before_def)
next
  case (Cons x xs)
  obtain now ctx b where x: "x = (now, ctx, b)" by (cases x)
  from area_spec_mono [of m k e env now ctx b, OF Cons.prems] obtain e1
    where e1: "area_spec env now ctx b m k = Some e1" "not_before (header e) (header e1)" by blast
  from Cons.IH [of "area_spec env now ctx b m" e1, OF e1(1)] e1(2) not_before_trans show ?case by (auto simp: receive_spec_def x)
qed

text \<open>Each instance is admitted and valid, newer than the header \<open>h\<close>, and arrives less than the minimum
  interval after the one before, the first one after \<open>t0\<close>.\<close>

fun hurried :: "AreaEnv \<Rightarrow> LsaKey \<Rightarrow> LsaHeader \<Rightarrow> nat \<Rightarrow> arrival list \<Rightarrow> bool" where
  "hurried env k h t0 [] = True"
| "hurried env k h t0 ((now, ctx, b) # xs) = (ctx_key ctx = k \<and> checksumValid ctx \<and> preProcess env ctx b
     \<and> compareLsaHeaders (ctx_header ctx) h = NEWER \<and> now < t0 + lsaArrival env \<and> hurried env k h now xs)"

lemma receive_spec_hurried:
  "hurried env k (header e) (lastRefreshTime e) xs \<Longrightarrow> m k = Some e \<Longrightarrow>
    \<exists>e'. receive_spec env xs m k = Some e' \<and> header e' = header e \<and> body e' = body e"
proof (induction xs arbitrary: m e)
  case Nil
  thus ?case by (simp add: receive_spec_def)
next
  case (Cons x xs)
  obtain now ctx b where x: "x = (now, ctx, b)" by (cases x)
  let ?m = "area_spec env now ctx b m"
  have "?m k = Some (touch now e)" using Cons.prems x by (auto simp: area_spec_def Let_def)
  moreover have "hurried env k (header (touch now e)) (lastRefreshTime (touch now e)) xs"
    using Cons.prems x by (simp add: touch_def)
  ultimately show ?case using Cons.IH [of "touch now e" ?m] by (auto simp: receive_spec_def x touch_def)
qed

section \<open>Own advertisements\<close>

fun is_flood :: "AreaCall \<Rightarrow> bool" where
  "is_flood (EnqueueFlood k r) = True"
| "is_flood _ = False"

abbreviation floods :: "area \<Rightarrow> AreaCall list" where
  "floods s \<equiv> filter is_flood (a_calls s)"

lemma process_calls: "process env now ctx b s = (r, c, s') \<Longrightarrow> a_calls s' = a_calls s"
  by (auto simp: process_def Let_def split: prod.splits if_splits bool.splits)

lemma process_record_flood:
  assumes "process env now ctx b s = (r, c, s')"
  shows "res_record r = None \<or> \<not> shouldFlood (decision r)"
proof -
  have "action dec = IGNORE_DUPLICATE \<Longrightarrow> \<not> shouldFlood dec"
    if "evaluateIncomingLsa env now old ctx b = (dec, ctx')" for old dec ctx'
    using that by (auto simp: evaluateIncomingLsa_def InstallResult_new_def Let_def
        split: if_splits option.splits LsaCompareResult.splits)
  thus ?thesis using assms by (auto simp: process_def Let_def split: prod.splits if_splits bool.splits)
qed

lemma processLsaConst_db:
  assumes ok: "lsdb_ok (a_db s)"
  shows "lsdb_ok (a_db (snd (processLsaConst env now ctx b s)))
    \<and> (\<forall>k. map_option (\<lambda>r. (header r, body r)) (lsdb_abs (a_db (snd (processLsaConst env now ctx b s))) k)
        = map_option (\<lambda>r. (header r, body r)) (lsdb_abs (a_db s) k))
    \<and> floods (snd (processLsaConst env now ctx b s)) = floods s"
proof -
  obtain r c s1 where p: "process env now ctx b s = (r, c, s1)" by (metis prod_cases3)
  note pr = process_db [OF ok p]
  have "floods (evaluateDecision env now r c s1) = floods s"
    using process_record_flood [OF p] process_calls [OF p]
    by (auto simp: evaluateDecision_def a_request_def Let_def)
  moreover have "floods (postProcess env r c b x) = floods x" for x
    by (simp add: postProcess_def a_call_def Let_def)
  moreover have "snd (processLsaConst env now ctx b s) = postProcess env r c b (evaluateDecision env now r c s1)"
    by (simp add: processLsaConst_def p)
  moreover have "map_option (\<lambda>r. (header r, body r)) (map_option (touch now) x) = map_option (\<lambda>r. (header r, body r)) x" for x
    by (cases x) (simp_all add: touch_def)
  ultimately show ?thesis using pr(1,3) by (auto simp: fun_upd_apply)
qed

section \<open>The queue\<close>

datatype 'a fqOp = Enqueue 'a | DequeueBatch

definition fq_step :: "'a fqOp \<Rightarrow> 'a FloodQueue outcome \<Rightarrow> 'a FloodQueue outcome" where
  "fq_step op r = (case r of
     Returns q \<Rightarrow> (case op of
       Enqueue x \<Rightarrow> (case enqueueImpl x q of Returns (ok, q) \<Rightarrow> Returns q | Undefined \<Rightarrow> Undefined | Diverges \<Rightarrow> Diverges)
     | DequeueBatch \<Rightarrow> (case tryDequeueBatch q of Returns (out, q) \<Rightarrow> Returns q | Undefined \<Rightarrow> Undefined | Diverges \<Rightarrow> Diverges))
   | Undefined \<Rightarrow> Undefined | Diverges \<Rightarrow> Diverges)"

definition fq_run :: "nat \<Rightarrow> 'a fqOp list \<Rightarrow> 'a FloodQueue outcome" where
  "fq_run c ops = fold fq_step ops (Returns (FloodQueue_new c))"

definition fq_stuck :: "nat \<Rightarrow> 'a FloodQueue \<Rightarrow> bool" where
  "fq_stuck c q = (fq_cap q = c \<and> length (slots q) = c \<and> fq_head q = 0 \<and> fq_tail q = fq_count q
     \<and> (fq_count q = 0 \<or> 2 \<le> slot_seq (slots q ! 0)))"

lemma stuck_dequeue: "0 < c \<Longrightarrow> fq_stuck c q \<Longrightarrow> tryDequeueBatch q = Returns ([], q)"
  by (cases "fq_count q") (auto simp: tryDequeueBatch.simps [of q] fq_stuck_def slot_ready_def upt_rec Let_def)

lemma stuck_enqueue: "0 < c \<Longrightarrow> fq_stuck c q \<Longrightarrow> enqueueImpl x q = Returns (ok, q') \<Longrightarrow> fq_stuck c q'"
  by (auto simp: fq_stuck_def enqueueImpl_def Let_def nth_list_update split: if_splits)

lemma fq_run_stuck: "0 < c \<Longrightarrow> fq_run c ops = Returns q \<Longrightarrow> fq_stuck c q"
proof (induction ops arbitrary: q rule: rev_induct)
  case Nil
  thus ?case by (auto simp: fq_run_def FloodQueue_new_def fq_stuck_def)
next
  case (snoc op ops)
  from snoc.prems(2) obtain q0 where q0: "fq_run c ops = Returns q0"
    by (cases "fq_run c ops") (auto simp: fq_run_def fq_step_def)
  note st = snoc.IH [OF snoc.prems(1) q0]
  from snoc.prems(2) q0 have "fq_step op (Returns q0) = Returns q" by (simp add: fq_run_def)
  thus ?case using stuck_dequeue [OF snoc.prems(1) st] stuck_enqueue [OF snoc.prems(1) st] st
    by (auto simp: fq_step_def split: fqOp.splits outcome.splits)
qed

section \<open>Properties\<close>



text \<open>A neighbor that sends newer and newer instances, each less than the minimum arrival interval
  after the one before, starves the record: none of them is ever installed, because an instance that
  comes too early is treated as a duplicate and restarts the interval.\<close>

theorem early_instances_starve:
  assumes "lsdb_ok (a_db s)" and "lsdb_find k (a_db s) = Some e"
    and "hurried env k (header e) (lastRefreshTime e) xs"
  shows "\<exists>e'. lsdb_find k (a_db (receive_all env xs s)) = Some e' \<and> header e' = header e \<and> body e' = body e"
proof -
  note r = receive_all_db [OF assms(1), of env xs]
  have "lsdb_abs (a_db s) k = Some e" using assms lsdb_find_abs by simp
  from receive_spec_hurried [OF assms(3), of "lsdb_abs (a_db s)", OF this] r show ?thesis by (simp add: lsdb_find_abs)
qed

text \<open>Own advertisements are not stored: except at the largest sequence number, originating,
  refreshing or withdrawing an advertisement leaves the header and the body of every record as they
  were, adds none, and puts nothing into the flooding queue.\<close>

theorem own_lsa_is_not_installed:
  assumes "lsdb_ok (a_db s)"
    and "\<forall>e. lsdb_find key (a_db s) = Some e \<longrightarrow> sequence (header e) \<noteq> OSPF_MAX_SEQUENCE"
  shows "map_option (\<lambda>r. (header r, body r)) (lsdb_find k (a_db (processReoriginatedLsa env now calc opts key info s)))
      = map_option (\<lambda>r. (header r, body r)) (lsdb_find k (a_db s))
    \<and> floods (processReoriginatedLsa env now calc opts key info s) = floods s"
proof -
  let ?s = "processReoriginatedLsa env now calc opts key info s"
  have no: "\<not> (\<not> orig_expire info \<and> (case lsdb_find key (a_db s) of None \<Rightarrow> False | Some e \<Rightarrow> sequence (header e) = OSPF_MAX_SEQUENCE))"
    using assms(2) by (auto split: option.splits)
  have "\<exists>ctx. ?s = (let x = snd (processLsaConst env now ctx (orig_body info) s) in
      if orig_expire info then a_call (EraseOriginationState key) (a_call (UnscheduleForGroupPacing key) x) else x)"
    unfolding processReoriginatedLsa_def Let_def if_not_P [OF no] by blast
  then obtain ctx where "?s = (let x = snd (processLsaConst env now ctx (orig_body info) s) in
      if orig_expire info then a_call (EraseOriginationState key) (a_call (UnscheduleForGroupPacing key) x) else x)"
    by blast
  with processLsaConst_db [OF assms(1), of env now ctx "orig_body info"] show ?thesis
    by (auto simp: lsdb_find_abs assms(1) a_call_def Let_def)
qed

text \<open>The comparison of two instances is total and antisymmetric: exchanging them exchanges newer and
  older. On sequence numbers it is the unsigned order, which is the order of the protocol, of signed
  numbers, only for numbers of equal sign: the successor of the sequence number -1 counts as older.\<close>

theorem lsa_comparison_order:
  "compareLsaHeaders b a = (case compareLsaHeaders a b of NEWER \<Rightarrow> OLDER | OLDER \<Rightarrow> NEWER | SAME \<Rightarrow> SAME)
    \<and> compareLsaHeaders (h\<lparr>sequence := 0xFFFFFFFF + 1\<rparr>) (h\<lparr>sequence := 0xFFFFFFFF\<rparr>) = OLDER"
  by (simp add: compare_antisym [of b a]) (simp add: compareLsaHeaders_def)

text \<open>The flooding queue delivers nothing. With the capacity 0 the area gives it, adding a record
  divides by zero; with any other capacity, after any sequence of operations, a batch taken from it is
  empty and leaves the queue as it is, since the sequence number written to a slot is one too large.\<close>

theorem flood_queue_delivers_nothing:
  "enqueueImpl x (FloodQueue_new 0) = Undefined
    \<and> (0 < c \<and> fq_run c ops = Returns q \<longrightarrow> tryDequeueBatch q = Returns ([], q))"
  by (auto simp: enqueueImpl_def FloodQueue_new_def intro: stuck_dequeue fq_run_stuck)

text \<open>For OSPFv3 a newer instance of a stored inter-area prefix, intra-area prefix or link advertisement
  never requests a computation of the shortest paths, whatever changed in its body.\<close>

theorem prefix_change_requests_no_spf:
  assumes "isV3 env" and "evaluateIncomingLsa env now (Some e) ctx b = (dec, ctx')"
    and "body e \<in> range Body_InterAreaPrefixLsa \<union> range Body_IntraAreaPrefixLsa \<union> range Body_LinkLsa"
    and "age (ctx_header ctx) \<noteq> OSPF_MAX_AGE"
  shows "\<not> topologyChanged dec"
  using assms by (auto simp: evaluateIncomingLsa_def InstallResult_new_def compareLsaBody_def Let_def
      split: if_splits LsaCompareResult.splits)

section \<open>An example area\<close>

definition ex_env :: AreaEnv where
  "ex_env = \<lparr>isV3 = False, area_type = NORMAL, lsaArrival = 1000, maxLsa = None, maxLsaIgnoreCount = 0,
     throttle = \<lparr>initDelayMs = 50, holdTimeMs = 200, maxHoldTimeMs = 5000\<rparr>\<rparr>"

definition ex_area :: area where
  "ex_area = \<lparr>a_db = LsdbTable_new, a_spf = SpfManager_new, ignoreSize = 0, a_calls = []\<rparr>"

definition ex_lsa_key :: LsaKey where
  "ex_lsa_key = \<lparr>key_adv = \<lparr>lsaType = 3, advertisingRouter = 7\<rparr>, linkStateId = 9\<rparr>"

definition ex_arrival :: "nat \<Rightarrow> u32 \<Rightarrow> arrival" where
  "ex_arrival now seq = (now, \<lparr>ctx_key = ex_lsa_key,
     ctx_header = \<lparr>sequence = seq, checksum = 0, lsa_length = 28, age = 1, hdr_options = 0\<rparr>,
     incomingInterface = 1, incomingNeighbor = 7, checksumValid = True, selfOriginatedKey = False, info_reason = REFRESH\<rparr>,
     Body_SummaryNetworkLsa \<lparr>sum_networkMask = 0, sum_metric = seq\<rparr>)"

definition ex_stored :: area where
  "ex_stored = receive_all ex_env [ex_arrival 0 5] ex_area"

definition ex_record :: LsaRecord where
  "ex_record = the (lsdb_find ex_lsa_key (a_db ex_stored))"

lemma ex_area_ok: "lsdb_ok (a_db ex_area)"
  using lsdb_run_ok [of "[]"] by (simp add: ex_area_def lsdb_run_def)

lemma ex_stored_ok: "lsdb_ok (a_db ex_stored)"
  using receive_all_db [OF ex_area_ok] by (simp add: ex_stored_def)

lemma ex_stored_find: "lsdb_find ex_lsa_key (a_db ex_stored) = Some ex_record"
proof -
  have "lsdb_find ex_lsa_key (a_db ex_stored) \<noteq> None" by code_simp
  thus ?thesis by (auto simp: ex_record_def)
qed



theorem early_instances_starve_witness:
  "\<exists>e'. lsdb_find ex_lsa_key (a_db (receive_all ex_env [ex_arrival 500 6, ex_arrival 1200 7] ex_stored)) = Some e'
    \<and> header e' = header ex_record \<and> body e' = body ex_record"
proof -
  have "hurried ex_env ex_lsa_key (header ex_record) (lastRefreshTime ex_record) [ex_arrival 500 6, ex_arrival 1200 7]"
    by code_simp
  from early_instances_starve [OF ex_stored_ok ex_stored_find this] show ?thesis .
qed

theorem own_lsa_is_not_installed_witness:
  "lsdb_find ex_lsa_key (a_db (processReoriginatedLsa ex_env 0 (\<lambda>h k b. (28, 0)) 0 ex_lsa_key
      \<lparr>orig_body = Monostate, orig_refresh = False, orig_expire = False\<rparr> ex_area)) = None"
proof -
  have none: "lsdb_find ex_lsa_key (a_db ex_area) = None" by code_simp
  show ?thesis using own_lsa_is_not_installed [OF ex_area_ok, of ex_lsa_key ex_lsa_key ex_env 0 "\<lambda>h k b. (28, 0)" 0
        "\<lparr>orig_body = Monostate, orig_refresh = False, orig_expire = False\<rparr>"] none by simp
qed

theorem flood_queue_delivers_nothing_witness:
  "fst (case fq_run 4 [Enqueue (3::nat), Enqueue 5] of Returns q \<Rightarrow> (case tryDequeueBatch q of Returns r \<Rightarrow> r)) = []"
proof -
  obtain q where q: "fq_run 4 [Enqueue (3::nat), Enqueue 5] = Returns q"
    by (simp add: fq_run_def fq_step_def enqueueImpl_def FloodQueue_new_def upt_rec Let_def)
  from q have "0 < (4::nat) \<and> fq_run 4 [Enqueue (3::nat), Enqueue 5] = Returns q" by (rule conjI [rotated]) simp
  from flood_queue_delivers_nothing [of "0::nat", THEN conjunct2, THEN mp, OF this]
  have "tryDequeueBatch q = Returns ([], q)" .
  with q show ?thesis by (simp only: outcome.case fst_conv)
qed

theorem prefix_change_requests_no_spf_witness:
  "\<not> topologyChanged (fst (evaluateIncomingLsa (ex_env\<lparr>isV3 := True\<rparr>) 5000
      (Some (ex_record\<lparr>body := Body_LinkLsa \<lparr>link_priority = 1, link_options = 0, localLink = \<lparr>addr6 = 0\<rparr>, link_prefixes = []\<rparr>\<rparr>))
      (fst (snd (ex_arrival 5000 9))) Monostate))"
  (is "\<not> topologyChanged (fst (evaluateIncomingLsa ?env 5000 (Some ?e) ?ctx ?b))")
proof -
  obtain dec ctx' where d: "evaluateIncomingLsa ?env 5000 (Some ?e) ?ctx ?b = (dec, ctx')" by fastforce
  have "isV3 ?env" "age (ctx_header ?ctx) \<noteq> OSPF_MAX_AGE"
    by (simp_all add: ex_arrival_def OSPF_MAX_AGE_def)
  from prefix_change_requests_no_spf [OF this(1) d _ this(2)] d show ?thesis by simp
qed

end
