(* ===== verification/OspfRetransmission.thy ===== *)
theory OspfRetransmission
  imports Prelude "HOL-Library.Multiset"
begin

text \<open>
  The retransmission list of an OSPF neighbor, \<open>routing/ospf/neighbor/RetransmissionList.hpp\<close>: parallel
  vectors of records and keys, a map from a key to its position, and the state of a burst.

  An access outside a vector, the removal of the last element of an empty vector and the division by an
  empty size are undefined: such an operation gives \<open>None\<close>. So does \<open>operator[]\<close> of the map when it inserts
  an element while an iterator into the map is in use.
\<close>

section \<open>The list\<close>

record OutboundInfo =
  info_index :: nat
  retransmissions :: u8

record ('k, 'r) RetransmissionList =
  cursor :: nat
  burstRemaining :: u32
  outboundInfo :: "('k \<times> OutboundInfo) list"
  outboundKeys :: "'k list"
  outbound :: "'r list"

definition RetransmissionList_new :: "('k, 'r) RetransmissionList" where
  "RetransmissionList_new = \<lparr>cursor = 0, burstRemaining = 0, outboundInfo = [], outboundKeys = [], outbound = []\<rparr>"

definition rl_add :: "'k \<Rightarrow> 'r \<Rightarrow> ('k, 'r) RetransmissionList \<Rightarrow> (bool \<times> ('k, 'r) RetransmissionList) option" where
  "rl_add key record l = (case al_get (outboundInfo l) key of
     Some info \<Rightarrow> (if info_index info < length (outbound l)
       then Some (False, l\<lparr>outbound := (outbound l)[info_index info := record]\<rparr>) else None)
   | None \<Rightarrow> (let out = outbound l @ [record] in
       Some (True, l\<lparr>outbound := out, outboundKeys := outboundKeys l @ [key],
                     outboundInfo := al_put key \<lparr>info_index = length out, retransmissions = 0\<rparr> (outboundInfo l)\<rparr>)))"

definition rl_has :: "'k \<Rightarrow> ('k, 'r) RetransmissionList \<Rightarrow> bool" where
  "rl_has key l = (al_get (outboundInfo l) key \<noteq> None)"

text \<open>The outer option is definedness, the inner one the result.\<close>

definition rl_get :: "'k \<Rightarrow> ('k, 'r) RetransmissionList \<Rightarrow> 'r option option" where
  "rl_get key l = (case al_get (outboundInfo l) key of
     None \<Rightarrow> Some None
   | Some info \<Rightarrow> (if info_index info < length (outbound l) then Some (Some (outbound l ! info_index info)) else None))"

text \<open>The element at \<open>idx\<close> is overwritten by the last one, and the position of the key moved there is updated.\<close>

definition swapLast :: "nat \<Rightarrow> ('k, 'r) RetransmissionList \<Rightarrow> ('k, 'r) RetransmissionList option" where
  "swapLast idx l = (let end = length (outbound l) - 1 in
     if idx < length (outbound l) \<and> idx < length (outboundKeys l) \<and> end < length (outboundKeys l)
     then (let moved = outboundKeys l ! end in
       case al_get (outboundInfo l) moved of
         None \<Rightarrow> None
       | Some info \<Rightarrow> Some (l\<lparr>outbound := (outbound l)[idx := outbound l ! end],
           outboundKeys := (outboundKeys l)[idx := moved],
           outboundInfo := al_put moved (info\<lparr>info_index := idx\<rparr>) (outboundInfo l)\<rparr>))
     else None)"

definition rl_erase :: "'k \<Rightarrow> ('k, 'r) RetransmissionList \<Rightarrow> (bool \<times> ('k, 'r) RetransmissionList) option" where
  "rl_erase key l = (case al_get (outboundInfo l) key of
     None \<Rightarrow> Some (False, l)
   | Some info \<Rightarrow> (if outbound l = [] \<or> outboundKeys l = [] then None else
       case (if info_index info \<noteq> length (outbound l) - 1 then swapLast (info_index info) l else Some l) of
         None \<Rightarrow> None
       | Some l \<Rightarrow> let l = l\<lparr>outbound := butlast (outbound l), outboundKeys := butlast (outboundKeys l),
                            outboundInfo := al_del key (outboundInfo l)\<rparr>;
             l = (if cursor l \<ge> length (outbound l) then l\<lparr>cursor := 0\<rparr> else l);
             l = (if burstRemaining l > 0 then l\<lparr>burstRemaining := burstRemaining l - 1\<rparr> else l)
           in Some (True, if outbound l = [] then l\<lparr>cursor := 0, burstRemaining := 0\<rparr> else l)))"

definition rl_clear :: "('k, 'r) RetransmissionList \<Rightarrow> ('k, 'r) RetransmissionList" where
  "rl_clear l = l\<lparr>outbound := [], outboundKeys := [], outboundInfo := [], cursor := 0, burstRemaining := 0\<rparr>"

definition getActive :: "('k, 'r) RetransmissionList \<Rightarrow> bool" where
  "getActive l = (outbound l \<noteq> [])"

section \<open>Bursts\<close>

definition beginRetransmitBurst :: "('k, 'r) RetransmissionList \<Rightarrow> ('k, 'r) RetransmissionList" where
  "beginRetransmitBurst l = (let l = l\<lparr>burstRemaining := word_of_nat (length (outbound l))\<rparr> in
     if cursor l \<ge> length (outbound l) then l\<lparr>cursor := 0\<rparr> else l)"

definition nextInBurst :: "('k, 'r) RetransmissionList \<Rightarrow> 'r option \<times> ('k, 'r) RetransmissionList" where
  "nextInBurst l = (if burstRemaining l = 0 \<or> outbound l = [] then (None, l)
     else let l = (if cursor l \<ge> length (outbound l) then l\<lparr>cursor := 0\<rparr> else l)
       in (Some (outbound l ! cursor l), l))"

text \<open>The cursor moves on and the budget shrinks by one.\<close>

definition advance :: "('k, 'r) RetransmissionList \<Rightarrow> ('k, 'r) RetransmissionList" where
  "advance l = l\<lparr>cursor := (cursor l + 1) mod length (outbound l), burstRemaining := burstRemaining l - 1\<rparr>"

definition markBurst :: "u8 \<Rightarrow> 'k \<Rightarrow> ('k, 'r) RetransmissionList \<Rightarrow> ('k, 'r) RetransmissionList option" where
  "markBurst limit key l = (case al_get (outboundInfo l) key of
     None \<Rightarrow> Some l
   | Some info \<Rightarrow> (if outbound l = [] then None else
       let l = advance l;
           info = info\<lparr>retransmissions := retransmissions info + 1\<rparr>;
           l = l\<lparr>outboundInfo := al_put key info (outboundInfo l)\<rparr>
       in if retransmissions info \<ge> limit then map_option snd (rl_erase key l) else Some (advance l)))"

definition burstActive :: "('k, 'r) RetransmissionList \<Rightarrow> bool" where
  "burstActive l = (burstRemaining l \<noteq> 0)"

text \<open>\<open>fixedSize\<close> of \<open>Ospfv2LSRHeader\<close>. The loop of \<open>addLSRequests\<close> that fills a packet: it stops when \<open>room\<close>,
  the number of bytes left, is too small for one more request or the burst has no next entry.\<close>

definition lsr_size :: nat where
  "lsr_size = 12"

function addLSRequests :: "u8 \<Rightarrow> nat \<Rightarrow> ('k, 'k) RetransmissionList \<Rightarrow> ('k list \<times> ('k, 'k) RetransmissionList) option" where
  "addLSRequests limit room l = (if room < lsr_size then Some ([], l)
     else case nextInBurst l of
       (None, l) \<Rightarrow> Some ([], l)
     | (Some key, l) \<Rightarrow> (case markBurst limit key l of
           None \<Rightarrow> None
         | Some l \<Rightarrow> map_option (\<lambda>(sent, l). (key # sent, l)) (addLSRequests limit (room - lsr_size) l)))"
  by auto
termination by (relation "measure (\<lambda>(limit, room, l). room)") (auto simp: lsr_size_def)

declare addLSRequests.simps [simp del]

section \<open>Positions\<close>

text \<open>The list after the records of \<open>xs\<close> have been added, under distinct keys.\<close>

fun add_all :: "('k \<times> 'r) list \<Rightarrow> ('k, 'r) RetransmissionList \<Rightarrow> ('k, 'r) RetransmissionList option" where
  "add_all [] l = Some l"
| "add_all ((k, r) # xs) l = (case rl_add k r l of None \<Rightarrow> None | Some (_, l) \<Rightarrow> add_all xs l)"

definition filled :: "('k \<times> 'r) list \<Rightarrow> ('k, 'r) RetransmissionList \<Rightarrow> bool" where
  "filled xs l \<longleftrightarrow> outbound l = map snd xs \<and> outboundKeys l = map fst xs
     \<and> al_get (outboundInfo l) = map_of (zip (map fst xs) (map (\<lambda>i. \<lparr>info_index = Suc i, retransmissions = 0\<rparr>) [0..<length xs]))
     \<and> cursor l = 0 \<and> burstRemaining l = 0"

lemma filled_add:
  assumes "filled xs l" "k \<notin> fst ` set xs"
  shows "\<exists>l'. rl_add k r l = Some (True, l') \<and> filled (xs @ [(k, r)]) l'"
proof -
  from assms have "al_get (outboundInfo l) k = None"
    by (auto simp: filled_def map_of_eq_None_iff dest!: set_zip_leftD)
  with assms show ?thesis
    by (auto simp: rl_add_def filled_def Let_def fun_eq_iff map_add_def split: option.splits
        dest!: map_of_SomeD set_zip_leftD)
qed

lemma add_all_filled:
  "filled ys l \<Longrightarrow> distinct (map fst (ys @ xs)) \<Longrightarrow> \<exists>l'. add_all xs l = Some l' \<and> filled (ys @ xs) l'"
proof (induction xs arbitrary: ys l)
  case (Cons x xs)
  obtain k r where x: "x = (k, r)" by (cases x)
  with Cons.prems have "k \<notin> fst ` set ys" by (auto simp: image_iff)
  from filled_add [OF Cons.prems(1) this, of r] obtain l' where
    l': "rl_add k r l = Some (True, l')" "filled (ys @ [(k, r)]) l'" by blast
  from Cons.IH [OF l'(2)] Cons.prems(2) x l'(1) show ?case by simp
qed simp

lemma filled_new: "filled [] RetransmissionList_new"
  by (simp add: filled_def RetransmissionList_new_def fun_eq_iff)

lemma filled_index:
  assumes "filled xs l" "distinct (map fst xs)" "i < length xs"
  shows "al_get (outboundInfo l) (fst (xs ! i)) = Some \<lparr>info_index = Suc i, retransmissions = 0\<rparr>"
proof -
  have "map_of (zip (map fst xs) (map (\<lambda>i. \<lparr>info_index = Suc i, retransmissions = 0\<rparr>) [0..<length xs])) (map fst xs ! i)
    = Some (map (\<lambda>i. \<lparr>info_index = Suc i, retransmissions = 0\<rparr>) [0..<length xs] ! i)"
    using assms(2,3) by (intro map_of_zip_nth) auto
  with assms show ?thesis by (simp add: filled_def)
qed

lemma add_all_index:
  assumes "distinct (map fst xs)" "add_all xs RetransmissionList_new = Some l" "i < length xs"
  shows "al_get (outboundInfo l) (fst (xs ! i)) = Some \<lparr>info_index = Suc i, retransmissions = 0\<rparr>"
    and "outbound l = map snd xs" and "outboundKeys l = map fst xs"
proof -
  from add_all_filled [OF filled_new, of xs] assms have f: "filled xs l" by simp
  from filled_index [OF f assms(1,3)]
  show "al_get (outboundInfo l) (fst (xs ! i)) = Some \<lparr>info_index = Suc i, retransmissions = 0\<rparr>" .
  from f show "outbound l = map snd xs" "outboundKeys l = map fst xs" by (simp_all add: filled_def)
qed

text \<open>The positions of the keys \<open>ks\<close>, in the order they were added.\<close>

definition positioned :: "'k list \<Rightarrow> ('k, 'r) RetransmissionList \<Rightarrow> bool" where
  "positioned ks l \<longleftrightarrow> length (outbound l) = length ks
     \<and> (\<forall>i<length ks. \<exists>info. al_get (outboundInfo l) (ks ! i) = Some info \<and> info_index info = Suc i)"

lemma positioned_add_all:
  assumes d: "distinct (map fst xs)" and a: "add_all xs RetransmissionList_new = Some l"
  shows "positioned (map fst xs) l"
proof -
  from add_all_filled [OF filled_new, of xs] d a have f: "filled xs l" by simp
  hence "length (outbound l) = length xs" by (simp add: filled_def)
  with filled_index [OF f d] show ?thesis by (simp add: positioned_def)
qed

lemma readd_positioned:
  assumes "positioned ks l" "k \<in> set ks" "k \<noteq> last ks"
  shows "\<exists>b l'. rl_add k r l = Some (b, l') \<and> positioned ks l'"
proof -
  from assms obtain i where i: "i < length ks" "k = ks ! i" by (auto simp: in_set_conv_nth)
  have "last ks = ks ! (length ks - 1)" using i by (intro last_conv_nth) auto
  moreover have "i = length ks - 1 \<or> Suc i < length ks" using i by linarith
  ultimately have "Suc i < length ks" using assms(3) i by auto
  moreover from assms(1) i obtain info where "al_get (outboundInfo l) k = Some info" "info_index info = Suc i"
    by (auto simp: positioned_def)
  ultimately show ?thesis using assms(1) by (auto simp: positioned_def rl_add_def)
qed

lemma readd_last: "positioned ks l \<Longrightarrow> ks \<noteq> [] \<Longrightarrow> rl_add (last ks) r l = None"
  by (force simp: positioned_def rl_add_def last_conv_nth dest: spec [of _ "length ks - 1"])

lemma readd_None:
  "positioned ks l \<Longrightarrow> set xs \<subseteq> set ks \<Longrightarrow> last ks \<in> set xs \<Longrightarrow> add_all (map (\<lambda>k. (k, k)) xs) l = None"
proof (induction xs arbitrary: l)
  case (Cons x xs)
  show ?case
  proof (cases "x = last ks")
    case True
    with Cons.prems readd_last [of ks l x] show ?thesis by (cases "ks = []") auto
  next
    case False
    with Cons.prems readd_positioned [of ks l x x] obtain b l' where "rl_add x x l = Some (b, l')" "positioned ks l'" by auto
    with Cons.IH [of l'] Cons.prems False show ?thesis by auto
  qed
qed simp

lemma mset_butlast: "ys \<noteq> [] \<Longrightarrow> mset ys = add_mset (last ys) (mset (butlast ys))"
  by (cases ys rule: rev_cases) simp_all

lemma butlast_update_mset:
  assumes "i < length xs - 1"
  shows "mset (butlast (xs[i := xs ! (length xs - 1)])) = mset xs - {#xs ! i#}"
proof -
  from assms have ne: "xs \<noteq> []" by auto
  then obtain ys x where xs: "xs = ys @ [x]" by (cases xs rule: rev_cases) auto
  with assms have "i < length ys" by simp
  then show ?thesis
    by (simp add: xs nth_append list_update_append mset_update butlast_append)
qed

section \<open>The progress of a burst\<close>

text \<open>A list of requests, where record and key are the same, in which \<open>m\<close> more transmissions reach no limit.\<close>

definition unlimited :: "u8 \<Rightarrow> nat \<Rightarrow> ('k, 'k) RetransmissionList \<Rightarrow> bool" where
  "unlimited limit m l \<longleftrightarrow> (\<forall>k\<in>set (outbound l). \<exists>info. al_get (outboundInfo l) k = Some info
     \<and> unat (retransmissions info) + m < unat limit)"

lemma unat_increment:
  assumes "unat (x :: u8) + Suc m < unat (limit :: u8)"
  shows "unat (x + 1) = Suc (unat x)"
  using assms unsigned_less [of limit, where ?'a = nat] by (simp add: unat_word_ariths)

lemma mark_step:
  assumes "unlimited limit (Suc m) l" "burstRemaining l \<noteq> 0" "cursor l < length (outbound l)"
  shows "nextInBurst l = (Some (outbound l ! cursor l), l)"
    and "\<exists>l'. markBurst limit (outbound l ! cursor l) l = Some l' \<and> unlimited limit m l' \<and> outbound l' = outbound l
      \<and> cursor l' = (cursor l + 2) mod length (outbound l) \<and> burstRemaining l' = burstRemaining l - 2"
proof -
  show "nextInBurst l = (Some (outbound l ! cursor l), l)"
    using assms by (auto simp: nextInBurst_def)
  let ?k = "outbound l ! cursor l"
  have k: "?k \<in> set (outbound l)" using assms(3) by simp
  with assms(1) obtain info where info: "al_get (outboundInfo l) ?k = Some info"
    "unat (retransmissions info) + Suc m < unat limit" by (auto simp: unlimited_def)
  have ne: "outbound l \<noteq> []" using assms(3) by auto
  have inc: "unat (retransmissions info + 1) = Suc (unat (retransmissions info))"
    using unat_increment info(2) .
  have "\<not> limit \<le> retransmissions info + 1"
    using info(2) inc by (simp add: word_le_nat_alt)
  with info ne have "markBurst limit ?k l = Some (advance ((advance l)
      \<lparr>outboundInfo := al_put ?k (info\<lparr>retransmissions := retransmissions info + 1\<rparr>) (outboundInfo (advance l))\<rparr>))"
    by (simp add: markBurst_def Let_def)
  moreover have "Suc (Suc (cursor l) mod length (outbound l)) mod length (outbound l)
      = Suc (Suc (cursor l)) mod length (outbound l)" by (rule mod_Suc_eq)
  moreover have "\<exists>i. al_get (al_put ?k (info\<lparr>retransmissions := retransmissions info + 1\<rparr>) (outboundInfo l)) k = Some i
      \<and> unat (retransmissions i) + m < unat limit" if "k \<in> set (outbound l)" for k
    using that assms(1) info inc by (fastforce simp: unlimited_def)
  ultimately show "\<exists>l'. markBurst limit ?k l = Some l' \<and> unlimited limit m l' \<and> outbound l' = outbound l
      \<and> cursor l' = (cursor l + 2) mod length (outbound l) \<and> burstRemaining l' = burstRemaining l - 2"
    by (auto simp: advance_def unlimited_def)
qed

text \<open>The budget of a burst over \<open>n\<close> entries after \<open>j\<close> of them have been sent.\<close>

definition budget :: "nat \<Rightarrow> nat \<Rightarrow> u32" where
  "budget n j = word_of_nat n - 2 * word_of_nat j"

lemma budget_Suc: "budget n (Suc j) = budget n j - 2"
  by (simp add: budget_def algebra_simps)

lemma budget_zero:
  assumes "n < 2 ^ 32"
  shows "odd n \<Longrightarrow> budget n j \<noteq> 0" and "even n \<Longrightarrow> 2 * j \<le> n \<Longrightarrow> budget n j = 0 \<longleftrightarrow> j = n div 2"
proof -
  have b: "budget n j = word_of_int (int n - 2 * int j)"
    by (simp add: budget_def)
  have z: "budget n j = 0 \<longleftrightarrow> 2 ^ 32 dvd (int n - 2 * int j)"
    unfolding b word_of_int_eq_0_iff by simp
  show "odd n \<Longrightarrow> budget n j \<noteq> 0"
  proof
    assume "odd n" "budget n j = 0"
    with z have "2 ^ 32 dvd (int n - 2 * int j)" by simp
    hence "2 dvd (int n - 2 * int j)" by (rule dvd_trans [rotated]) simp
    with \<open>odd n\<close> show False by presburger
  qed
  assume e: "even n" "2 * j \<le> n"
  show "budget n j = 0 \<longleftrightarrow> j = n div 2"
  proof
    assume "budget n j = 0"
    with z have "2 ^ 32 dvd (int n - 2 * int j)" by simp
    moreover have "int n < 2 ^ 32" using assms by simp
    moreover have "0 \<le> int n - 2 * int j" using e by linarith
    ultimately have "int n - 2 * int j = 0" using zdvd_imp_le [of "2 ^ 32" "int n - 2 * int j"] by fastforce
    thus "j = n div 2" by simp
  next
    assume "j = n div 2"
    with e have "int n - 2 * int j = 0" by presburger
    with z show "budget n j = 0" by simp
  qed
qed

text \<open>How many requests a packet with room for \<open>m\<close> of them gets when \<open>j\<close> have been sent.\<close>

definition burst_count :: "nat \<Rightarrow> nat \<Rightarrow> nat \<Rightarrow> nat" where
  "burst_count n j m = (if even n then min m (n div 2 - j) else m)"

lemma burst_run:
  assumes "n = length (outbound l)" "0 < n" "n < 2 ^ 32" "even n \<Longrightarrow> 2 * j \<le> n"
    and "cursor l = 2 * j mod n" "burstRemaining l = budget n j" "unlimited limit m l" "room div lsr_size = m"
  shows "\<exists>l'. addLSRequests limit room l = Some (map (\<lambda>i. outbound l ! (2 * i mod n)) [j..<j + burst_count n j m], l')
    \<and> burstRemaining l' = budget n (j + burst_count n j m)"
  using assms
proof (induction m arbitrary: j l room)
  case 0
  then have "room < lsr_size" by (simp add: lsr_size_def)
  with 0 show ?case by (simp add: addLSRequests.simps burst_count_def)
next
  case (Suc m)
  have room: "lsr_size \<le> room" "(room - lsr_size) div lsr_size = m"
    using Suc.prems(8) by (auto simp: lsr_size_def)
  show ?case
  proof (cases "budget n j = 0")
    case True
    then have "even n" "j = n div 2" using budget_zero [OF Suc.prems(3)] Suc.prems(4) by auto
    with True room Suc.prems show ?thesis
      by (simp add: addLSRequests.simps nextInBurst_def burst_count_def)
  next
    case False
    have c: "cursor l < length (outbound l)" using Suc.prems by simp
    have lt: "even n \<Longrightarrow> 2 * Suc j \<le> n"
      using False budget_zero(2) [OF Suc.prems(3)] Suc.prems(4) by (metis (no_types, lifting) Suc_leI
          dvd_mult_div_cancel le_neq_implies_less mult_le_mono2 nat_mult_le_cancel_disj)
    from mark_step [OF Suc.prems(7) _ c] False Suc.prems(6) obtain l' where
      l': "markBurst limit (outbound l ! cursor l) l = Some l'" "unlimited limit m l'" "outbound l' = outbound l"
        "cursor l' = (cursor l + 2) mod length (outbound l)" "burstRemaining l' = burstRemaining l - 2"
      and nx: "nextInBurst l = (Some (outbound l ! cursor l), l)" by auto
    have cur: "cursor l' = 2 * Suc j mod n" using l'(4) Suc.prems by (simp add: mod_simps)
    have "burstRemaining l' = budget n (Suc j)" using l'(5) Suc.prems(6) by (simp add: budget_Suc)
    from Suc.IH [OF _ Suc.prems(2,3) lt cur this l'(2) room(2)] l'(3) Suc.prems(1) obtain l'' where
      l'': "addLSRequests limit (room - lsr_size) l'
        = Some (map (\<lambda>i. outbound l ! (2 * i mod n)) [Suc j..<Suc j + burst_count n (Suc j) m], l'')"
        "burstRemaining l'' = budget n (Suc j + burst_count n (Suc j) m)" by auto
    have cnt: "burst_count n j (Suc m) = Suc (burst_count n (Suc j) m)"
      using lt by (auto simp: burst_count_def min_def)
    have "addLSRequests limit room l = Some (outbound l ! cursor l
        # map (\<lambda>i. outbound l ! (2 * i mod n)) [Suc j..<Suc j + burst_count n (Suc j) m], l'')"
      using room nx l'(1) l''(1) by (subst addLSRequests.simps) simp
    with l''(2) Suc.prems(5) cnt show ?thesis
      using upt_conv_Cons [of j "Suc j + burst_count n (Suc j) m"] by (simp del: upt_Suc)
  qed
qed

section \<open>Properties\<close>

text \<open>The position stored for a key is one past its record. Of records added under distinct keys, looking
  up any key but the newest gives the record of the next key, and reading, replacing or removing the newest
  is undefined.\<close>

theorem retransmission_position_off_by_one:
  assumes "distinct (map fst xs)" "add_all xs RetransmissionList_new = Some l" "i < length xs"
  shows "rl_get (fst (xs ! i)) l = (if Suc i < length xs then Some (Some (snd (xs ! Suc i))) else None)
    \<and> (Suc i = length xs \<longrightarrow> rl_add (fst (xs ! i)) r l = None \<and> rl_erase (fst (xs ! i)) l = None)"
  using add_all_index [OF assms] assms(3)
  by (auto simp: rl_get_def rl_add_def rl_erase_def swapLast_def Let_def)

lemma erase_outbound:
  assumes "al_get (outboundInfo l) k = Some info" "outbound l \<noteq> []" "outboundKeys l \<noteq> []"
    and "(if info_index info \<noteq> length (outbound l) - 1 then swapLast (info_index info) l else Some l) = Some l1"
  shows "\<exists>l'. rl_erase k l = Some (True, l') \<and> outbound l' = butlast (outbound l1)"
  using assms by (simp add: rl_erase_def Let_def)

text \<open>Removing a key removes the record of the key added after it: the acknowledged record stays where
  it is in the list.\<close>

theorem acknowledgement_removes_next_record:
  assumes "distinct (map fst xs)" "add_all xs RetransmissionList_new = Some l" "Suc i < length xs"
  shows "\<exists>l'. rl_erase (fst (xs ! i)) l = Some (True, l')
    \<and> mset (outbound l') = mset (map snd xs) - {#snd (xs ! Suc i)#} \<and> outbound l' ! i = snd (xs ! i)"
proof -
  have i: "i < length xs" using assms(3) by simp
  note idx = add_all_index [OF assms(1,2) i]
  have lt: "length xs - 1 < length xs" using i by simp
  note fin = add_all_index(1) [OF assms(1,2) lt]
  show ?thesis
  proof (cases "Suc i = length xs - 1")
    case True
    have "xs \<noteq> []" using i by auto
    with erase_outbound [OF idx(1), of l] idx True obtain l' where
      l': "rl_erase (fst (xs ! i)) l = Some (True, l')" "outbound l' = butlast (map snd xs)" by auto
    have "mset (map snd xs) = add_mset (last (map snd xs)) (mset (butlast (map snd xs)))"
      using \<open>xs \<noteq> []\<close> by (intro mset_butlast) simp
    with True \<open>xs \<noteq> []\<close> l' i show ?thesis
      by (simp add: last_conv_nth nth_butlast)
  next
    case False
    have "xs \<noteq> []" using i by auto
    have "\<exists>l1. swapLast (Suc i) l = Some l1 \<and> outbound l1 = (map snd xs)[Suc i := map snd xs ! (length (map snd xs) - 1)]"
      using assms(3) idx(2,3) fin lt by (simp add: swapLast_def Let_def)
    with erase_outbound [OF idx(1)] idx False \<open>xs \<noteq> []\<close> obtain l' where l': "rl_erase (fst (xs ! i)) l = Some (True, l')"
        "outbound l' = butlast ((map snd xs)[Suc i := map snd xs ! (length (map snd xs) - 1)])"
      by fastforce
    have "Suc i < length (map snd xs) - 1" using False assms(3) by simp
    from butlast_update_mset [OF this] l' i assms(3) False show ?thesis
      by (simp add: nth_butlast)
  qed
qed

text \<open>A burst over \<open>n\<close> requests that reach no limit takes every second one: with an even \<open>n\<close> the entries at
  the even positions, once each, after which it is over; with an odd \<open>n\<close> the budget passes zero and wraps
  around, and the burst fills every packet and is never over.\<close>

theorem burst_takes_every_second:
  assumes "outbound l \<noteq> []" "length (outbound l) < 2 ^ 32" "cursor l = 0" "unlimited limit (room div lsr_size) l"
  shows "\<exists>sent l'. addLSRequests limit room (beginRetransmitBurst l) = Some (sent, l')
    \<and> sent = map (\<lambda>i. outbound l ! (2 * i mod length (outbound l)))
        [0..<if even (length (outbound l)) then min (room div lsr_size) (length (outbound l) div 2) else room div lsr_size]
    \<and> (burstActive l' \<longleftrightarrow> odd (length (outbound l)) \<or> room div lsr_size < length (outbound l) div 2)"
proof -
  let ?l = "beginRetransmitBurst l" and ?n = "length (outbound l)" and ?m = "room div lsr_size"
  have "outbound ?l = outbound l" "cursor ?l = 2 * 0 mod ?n" "burstRemaining ?l = budget ?n 0" "unlimited limit ?m ?l"
    using assms by (simp_all add: beginRetransmitBurst_def Let_def budget_def unlimited_def)
  with burst_run [of ?n ?l 0 limit ?m room] assms obtain l' where
    l': "addLSRequests limit room ?l = Some (map (\<lambda>i. outbound l ! (2 * i mod ?n)) [0..<burst_count ?n 0 ?m], l')"
      "burstRemaining l' = budget ?n (burst_count ?n 0 ?m)" by auto
  have "burstActive l' \<longleftrightarrow> odd ?n \<or> ?m < ?n div 2"
    using budget_zero [OF assms(2), of "burst_count ?n 0 ?m"] l'(2)
    by (auto simp: burstActive_def burst_count_def min_def)
  with l' show ?thesis by (auto simp: burst_count_def)
qed

section \<open>Witnesses\<close>

definition ex_requests :: "(nat, nat) RetransmissionList" where
  "ex_requests = (case add_all [(1, 1), (2, 2), (3, 3)] RetransmissionList_new of Some l \<Rightarrow> l)"

theorem retransmission_position_off_by_one_witness:
  "rl_get 1 ex_requests = Some (Some 2) \<and> rl_get 3 ex_requests = None \<and> rl_erase 3 ex_requests = None"
proof -
  have d: "distinct (map fst [(1, 1), (2, 2), (3::nat, 3::nat)])" by simp
  have a: "add_all [(1, 1), (2, 2), (3, 3)] RetransmissionList_new = Some ex_requests"
    by (simp add: ex_requests_def rl_add_def RetransmissionList_new_def Let_def)
  have "rl_get 1 ex_requests = Some (Some 2)" using retransmission_position_off_by_one [OF d a, of 0 0] by simp
  moreover have "rl_get 3 ex_requests = None" using retransmission_position_off_by_one [OF d a, of 2 0] by simp
  moreover have "rl_erase 3 ex_requests = None" using retransmission_position_off_by_one [OF d a, of 2 0] by simp
  ultimately show ?thesis by simp
qed

theorem acknowledgement_removes_next_record_witness:
  "\<exists>l'. rl_erase 1 ex_requests = Some (True, l') \<and> mset (outbound l') = {#1, 3#}"
proof -
  have d: "distinct (map fst [(1, 1), (2, 2), (3::nat, 3::nat)])" by simp
  have a: "add_all [(1, 1), (2, 2), (3, 3)] RetransmissionList_new = Some ex_requests"
    by (simp add: ex_requests_def rl_add_def RetransmissionList_new_def Let_def)
  show ?thesis using acknowledgement_removes_next_record [OF d a, of 0] by (auto simp: add_mset_commute)
qed

theorem burst_takes_every_second_witness:
  "\<exists>l'. addLSRequests 24 48 (beginRetransmitBurst ex_requests) = Some ([1, 3, 2, 1], l') \<and> burstActive l'"
proof -
  have e: "outbound ex_requests = [1, 2, 3]" "cursor ex_requests = 0" "unlimited 24 (48 div lsr_size) ex_requests"
    by (simp_all add: ex_requests_def rl_add_def RetransmissionList_new_def Let_def unlimited_def lsr_size_def)
  have len: "length (outbound ex_requests) < 2 ^ 32" "outbound ex_requests \<noteq> []" by (simp_all add: e(1))
  obtain sent l' where b: "addLSRequests 24 48 (beginRetransmitBurst ex_requests) = Some (sent, l')"
    "sent = map (\<lambda>i. [1, 2, 3] ! (2 * i mod 3)) [0..<4]" "burstActive l'"
    using burst_takes_every_second [OF len(2,1) e(2,3)] by (auto simp: e(1) lsr_size_def)
  have "[0..<4] = [0, 1, 2, 3 :: nat]" by code_simp
  with b show ?thesis by simp
qed

end
