(* ===== verification/OspfNeighbor.thy ===== *)
theory OspfNeighbor
  imports OspfArea OspfRetransmission IpAddress "HOL-Library.Product_Lexorder"
begin

text \<open>
  Neighbors of an OSPF interface: the neighbor state machine (\<open>routing/ospf/neighbor/Neighbor.cpp\<close>), the
  neighbor table (\<open>NeighborTable.cpp\<close>), the timers (\<open>interface/InterfaceTimers.cpp\<close>), the election of the
  designated router (\<open>interface/OspfInterface.cpp\<close>) and the reliable sending of \<open>transmission/PacketDispatcher.cpp\<close>.

  A neighbor is referred to by its router identifier, the key of the table. An operation that may not return
  or be undefined has an \<open>outcome\<close>. Packets are modelled by the call that sends them and what the call
  changes in the neighbor; a buffer for the packet is always available. The configuration is an argument.
\<close>

section \<open>Types\<close>

datatype NState = DOWN | ATTEMPT | INIT | TWOWAY | EXSTART | EXCHANGE | LOADING | FULL

datatype Role = SLAVE | MASTER | ROLE_NONE

datatype NetworkType = BROADCAST | NON_BROADCAST | POINT_TO_MULTIPOINT | POINT_TO_MULTIPOINT_BROADCAST | POINT_TO_POINT

datatype DcDecision = UNDECIDED | DC_ENABLED | DC_DISABLED

record Neighbor =
  currentDbd :: "LsaKey option"
  ipAddress :: IPAddress
  unicast :: bool
  routerID :: u32
  nbr_mtu :: u16
  currentSeq :: u32
  nbr_dr :: u32
  nbr_bdr :: u32
  priority :: u8
  inactivityTimer :: bool
  nstate :: NState
  role :: Role
  lsus :: "(LsaKey, LsaKey) RetransmissionList"
  lsrs :: "(LsaKey, LsaKey) RetransmissionList"

datatype IfCall =
    SendHello
  | SendUnicastHello u32
  | SendInitDBD u32 u32
  | SendDBD u32 u32 "(LsaKey \<times> LsaHeader) list" bool
  | SendLSRequest u32 "LsaKey list"
  | StartLsrPacingTimer u32
  | StartLsrRetransmissionTimer u32
  | UpdateInterface
  | SendLSAck u32 "LsaKey list"
  | SendReliableLSUpdate u32 "LsaKey list"
  | ProcessLLSDataBlock u32

record OspfInterface =
  neighbors :: "(u32 \<times> Neighbor) list"
  dr :: "u32 \<times> IPAddress"
  bdr :: "u32 \<times> IPAddress"
  isDr :: bool
  isBdr :: bool
  opaqueEnabled :: bool
  isMulticast :: bool
  demandCircuit :: DcDecision
  helloTimer :: bool
  if_area :: area
  if_calls :: "IfCall list"

text \<open>\<open>selfRid\<close> is the router identifier of the process, \<open>lsaRoom\<close> the number of advertisement headers that fit
  in a database description and \<open>lsrRoom\<close> the number of bytes for requests in a packet; \<open>rtLimit\<close> is the
  configured limit of retransmissions.\<close>

record IfEnv =
  selfRid :: u32
  selfPrio :: u8
  network :: NetworkType
  passiveMode :: bool
  lsaRoom :: nat
  lsrRoom :: nat
  rtLimit :: u8
  areaEnv :: AreaEnv

definition if_call :: "IfCall \<Rightarrow> OspfInterface \<Rightarrow> OspfInterface" where
  "if_call c st = st\<lparr>if_calls := if_calls st @ [c]\<rparr>"

definition upd_nbr :: "u32 \<Rightarrow> (Neighbor \<Rightarrow> Neighbor) \<Rightarrow> OspfInterface \<Rightarrow> OspfInterface" where
  "upd_nbr rid f st = (case al_get (neighbors st) rid of None \<Rightarrow> st
     | Some n \<Rightarrow> st\<lparr>neighbors := al_put rid (f n) (neighbors st)\<rparr>)"

definition multiAccess :: "IfEnv \<Rightarrow> bool" where
  "multiAccess env = (network env = BROADCAST \<or> network env = NON_BROADCAST)"

text \<open>Sequencing of operations that may be undefined or not return.\<close>

definition obind :: "'a outcome \<Rightarrow> ('a \<Rightarrow> 'b outcome) \<Rightarrow> 'b outcome" where
  "obind x f = (case x of Undefined \<Rightarrow> Undefined | Diverges \<Rightarrow> Diverges | Returns a \<Rightarrow> f a)"

lemma obind_simps [simp]:
  "obind Undefined f = Undefined" "obind Diverges f = Diverges" "obind (Returns a) f = f a"
  by (simp_all add: obind_def)

lemma obind_Returns_iff: "obind x f = Returns b \<longleftrightarrow> (\<exists>a. x = Returns a \<and> f a = Returns b)"
  by (cases x) auto

definition defined :: "'a option \<Rightarrow> 'a outcome" where
  "defined x = (case x of None \<Rightarrow> Undefined | Some a \<Rightarrow> Returns a)"

section \<open>Timers\<close>

definition cancleInactiveTimer :: "u32 \<Rightarrow> OspfInterface \<Rightarrow> OspfInterface" where
  "cancleInactiveTimer rid st = upd_nbr rid (inactivityTimer_update (\<lambda>_. False)) st"

definition startInactiveTimer :: "u32 \<Rightarrow> OspfInterface \<Rightarrow> OspfInterface" where
  "startInactiveTimer rid st = upd_nbr rid (inactivityTimer_update (\<lambda>_. True)) (cancleInactiveTimer rid st)"

definition cancelAllInactiveTimers :: "OspfInterface \<Rightarrow> OspfInterface" where
  "cancelAllInactiveTimers st = fold cancleInactiveTimer (map fst (neighbors st)) st"

definition stopHello :: "OspfInterface \<Rightarrow> OspfInterface" where
  "stopHello st = cancelAllInactiveTimers (st\<lparr>helloTimer := False\<rparr>)"

definition sendHello :: "OspfInterface \<Rightarrow> OspfInterface" where
  "sendHello st = (if isMulticast st then if_call SendHello st
     else fold (\<lambda>(rid, n) st. if unicast n then if_call (SendUnicastHello rid) st else st) (neighbors st) st)"

definition scheduleHello :: "IfEnv \<Rightarrow> OspfInterface \<Rightarrow> OspfInterface" where
  "scheduleHello env st = (if passiveMode env then st else if helloTimer st then st else st\<lparr>helloTimer := True\<rparr>)"

definition startHello :: "IfEnv \<Rightarrow> OspfInterface \<Rightarrow> OspfInterface" where
  "startHello env st = scheduleHello env (sendHello st)"

definition onHelloTimer :: "IfEnv \<Rightarrow> OspfInterface \<Rightarrow> OspfInterface" where
  "onHelloTimer env st = startHello env (st\<lparr>helloTimer := False\<rparr>)"

section \<open>Describing the database\<close>

text \<open>The order of \<open>dbStorage\<close>.\<close>

definition key_rank :: "LsaKey \<Rightarrow> u16 \<times> u32 \<times> u32" where
  "key_rank k = (key_type k, advertisingRouter (key_adv k), linkStateId k)"

definition LsaKey_zero :: LsaKey where
  "LsaKey_zero = \<lparr>key_adv = \<lparr>lsaType = 0, advertisingRouter = 0\<rparr>, linkStateId = 0\<rparr>"

definition getIterableLSDB :: "LsdbTable \<Rightarrow> (LsaKey \<times> LsaRecord) list" where
  "getIterableLSDB t = sort_key (\<lambda>(k, r). key_rank k) (dbStorage t)"

text \<open>The loop of \<open>buildDescriptions\<close>: \<open>pred\<close> is the key before the iterator, if there is one.\<close>

fun describe :: "nat \<Rightarrow> LsaKey option \<Rightarrow> (LsaKey \<times> LsaRecord) list \<Rightarrow> (LsaKey \<times> LsaHeader) list \<times> LsaKey option" where
  "describe space pred [] = ([], None)"
| "describe space pred ((k, r) # xs) =
     (if space > 0 then (case describe (space - 1) (Some k) xs of (out, cur) \<Rightarrow> ((k, header r) # out, cur))
      else (case pred of Some p \<Rightarrow> ([], Some p) | None \<Rightarrow> describe space (Some k) xs))"

definition buildDescriptions :: "nat \<Rightarrow> LsdbTable \<Rightarrow> LsaKey option \<Rightarrow> (LsaKey \<times> LsaHeader) list \<times> LsaKey option" where
  "buildDescriptions space t cur = (case cur of None \<Rightarrow> ([], None)
   | Some c \<Rightarrow> (let xs = getIterableLSDB t; before = takeWhile (\<lambda>(k, r). key_rank k \<le> key_rank c) xs in
       describe space (if before = [] then None else Some (fst (last before)))
         (dropWhile (\<lambda>(k, r). key_rank k \<le> key_rank c) xs)))"

section \<open>Sending\<close>

definition sendInitDBD :: "u32 \<Rightarrow> OspfInterface \<Rightarrow> OspfInterface" where
  "sendInitDBD rid st = (case al_get (neighbors st) rid of None \<Rightarrow> st
     | Some n \<Rightarrow> if_call (SendInitDBD rid (currentSeq n)) st)"

definition sendDBD :: "IfEnv \<Rightarrow> u32 \<Rightarrow> OspfInterface \<Rightarrow> OspfInterface" where
  "sendDBD env rid st = (case al_get (neighbors st) rid of None \<Rightarrow> st
     | Some n \<Rightarrow> let
         sn = (if role n = MASTER then currentSeq n + 1 else currentSeq n);
         (out, cur) = buildDescriptions (lsaRoom env) (a_db (if_area st)) (currentDbd n)
       in if_call (SendDBD rid sn out (cur \<noteq> None)) (upd_nbr rid (\<lambda>n. n\<lparr>currentSeq := sn, currentDbd := cur\<rparr>) st))"

text \<open>The list whose burst is asked for is a copy made before the packet is filled.\<close>

definition onLsrPacingTimer :: "IfEnv \<Rightarrow> u32 \<Rightarrow> OspfInterface \<Rightarrow> OspfInterface outcome" where
  "onLsrPacingTimer env rid st = (case al_get (neighbors st) rid of None \<Rightarrow> Undefined
     | Some n \<Rightarrow> obind (defined (addLSRequests (rtLimit env) (lsrRoom env) (lsrs n))) (\<lambda>(sent, l). let
         st = upd_nbr rid (lsrs_update (\<lambda>_. l)) st;
         st = (if sent = [] then st else if_call (SendLSRequest rid sent) st)
       in Returns (if burstActive (lsrs n) then if_call (StartLsrPacingTimer rid) st else st)))"

text \<open>The requests are added to a copy of the list of the neighbor.\<close>

definition sendReliableLSRequest :: "IfEnv \<Rightarrow> u32 \<Rightarrow> LsaKey list \<Rightarrow> OspfInterface \<Rightarrow> OspfInterface outcome" where
  "sendReliableLSRequest env rid dbds st = (case al_get (neighbors st) rid of None \<Rightarrow> Undefined
     | Some n \<Rightarrow> (case add_all (map (\<lambda>k. (k, k)) dbds) (lsrs n) of
         None \<Rightarrow> Undefined
       | Some _ \<Rightarrow> onLsrPacingTimer env rid st))"

definition onLsrRetransmissionTimer :: "IfEnv \<Rightarrow> u32 \<Rightarrow> OspfInterface \<Rightarrow> OspfInterface outcome" where
  "onLsrRetransmissionTimer env rid st = (let
     st = upd_nbr rid (lsrs_update beginRetransmitBurst) st;
     active = (case al_get (neighbors st) rid of None \<Rightarrow> False | Some n \<Rightarrow> getActive (lsrs n))
   in onLsrPacingTimer env rid (if active then if_call (StartLsrRetransmissionTimer rid) st else st))"

section \<open>The neighbor state machine\<close>

definition nbr_isDr :: "Neighbor \<Rightarrow> bool" where
  "nbr_isDr n = (nbr_dr n = routerID n)"

definition nbr_isBdr :: "Neighbor \<Rightarrow> bool" where
  "nbr_isBdr n = (nbr_bdr n = routerID n)"

definition put_state :: "u32 \<Rightarrow> NState \<Rightarrow> OspfInterface \<Rightarrow> OspfInterface" where
  "put_state rid s st = upd_nbr rid (nstate_update (\<lambda>_. s)) st"

definition get_state :: "OspfInterface \<Rightarrow> u32 \<Rightarrow> NState option" where
  "get_state st rid = map_option nstate (al_get (neighbors st) rid)"

definition setDown :: "IfEnv \<Rightarrow> nat \<Rightarrow> u32 \<Rightarrow> OspfInterface \<Rightarrow> OspfInterface" where
  "setDown env now rid st = (let
     st = upd_nbr rid (\<lambda>n. n\<lparr>lsus := rl_clear (lsus n), lsrs := rl_clear (lsrs n)\<rparr>) st;
     st = st\<lparr>if_area := flushNeighborLsas (areaEnv env) now rid (if_area st)\<rparr>
   in put_state rid DOWN st)"

text \<open>\<open>setState\<close>. The outer option is \<open>None\<close> when the call does not return, the inner one when it is undefined.
  \<open>setState_end\<close> is the end of the function: the result is whether the state has changed.\<close>

definition setState_end :: "u32 \<Rightarrow> NState \<Rightarrow> OspfInterface \<Rightarrow> (bool \<times> OspfInterface) option" where
  "setState_end rid old st = (case get_state st rid of None \<Rightarrow> None | Some s \<Rightarrow> Some (s \<noteq> old, st))"

partial_function (option) setState :: "IfEnv \<Rightarrow> nat \<Rightarrow> u32 \<Rightarrow> NState \<Rightarrow> OspfInterface \<Rightarrow> (bool \<times> OspfInterface) option option" where
  "setState env now rid s st = (case al_get (neighbors st) rid of
     None \<Rightarrow> Some None
   | Some n \<Rightarrow> let old = nstate n; leave = (\<lambda>st. Some (setState_end rid old st)) in
     (case s of
        DOWN \<Rightarrow> leave (setDown env now rid st)
      | ATTEMPT \<Rightarrow> leave (put_state rid s st)
      | INIT \<Rightarrow> leave (put_state rid s st)
      | TWOWAY \<Rightarrow> let st = put_state rid s st in
          if multiAccess env \<and> \<not> nbr_isDr n \<and> \<not> nbr_isBdr n then leave st
          else Option.bind (setState env now rid EXSTART st) (\<lambda>res. case res of
              None \<Rightarrow> Some None | Some (_, st) \<Rightarrow> leave st)
      | EXSTART \<Rightarrow> if old \<noteq> EXSTART
          then leave (sendInitDBD rid (put_state rid s (upd_nbr rid (lsrs_update rl_clear) st)))
          else leave st
      | EXCHANGE \<Rightarrow> if old = EXSTART
          then let st = upd_nbr rid (\<lambda>n. n\<lparr>nstate := s, currentDbd := Some LsaKey_zero\<rparr>) st in
            leave (if role n = MASTER then sendDBD env rid st else st)
          else leave st
      | LOADING \<Rightarrow> if old = EXCHANGE
          then if \<not> getActive (lsrs n)
            then Option.bind (setState env now rid LOADING st) (\<lambda>res. case res of
                None \<Rightarrow> Some None | Some (_, st) \<Rightarrow> leave st)
            else (case sendReliableLSRequest env rid (outbound (lsrs n)) (put_state rid s st) of
                Returns st \<Rightarrow> leave st | _ \<Rightarrow> Some None)
          else leave st
      | FULL \<Rightarrow> if old = EXCHANGE \<or> old = LOADING
          then let st = put_state rid s st in
            leave (if demandCircuit st = DC_ENABLED then stopHello st else st)
          else leave st))"

declare setState.simps [code]

definition set_state :: "IfEnv \<Rightarrow> nat \<Rightarrow> u32 \<Rightarrow> NState \<Rightarrow> OspfInterface \<Rightarrow> OspfInterface outcome" where
  "set_state env now rid s st = (case setState env now rid s st of
     None \<Rightarrow> Diverges | Some None \<Rightarrow> Undefined | Some (Some (_, st)) \<Rightarrow> Returns st)"

section \<open>Termination of \<open>setState\<close>\<close>

definition endless :: "u32 \<Rightarrow> NState \<Rightarrow> OspfInterface \<Rightarrow> bool" where
  "endless rid s st \<longleftrightarrow> s = LOADING \<and> (\<exists>n. al_get (neighbors st) rid = Some n
     \<and> nstate n = EXCHANGE \<and> \<not> getActive (lsrs n))"

lemma setState_Some_not_endless:
  assumes "setState env now rid s st = Some r"
  shows "\<not> endless rid s st"
proof (rule setState.raw_induct [where P = "\<lambda>env now rid s st r. \<not> endless rid s st", OF _ assms], goal_cases)
  case (1 setState env now rid s st r)
  from 1(1) [of env now rid LOADING st] 1(2) show ?case
    by (auto simp: endless_def Let_def split: bind_splits if_splits)
qed

lemma setState_EXSTART_Some: "\<exists>r. setState env now rid EXSTART st = Some r"
  by (subst setState.simps) (simp add: Let_def split: option.splits)

lemma setState_returns: "\<not> endless rid s st \<Longrightarrow> \<exists>r. setState env now rid s st = Some r"
proof -
  assume ne: "\<not> endless rid s st"
  obtain r where r: "setState env now rid EXSTART (put_state rid TWOWAY st) = Some r"
    using setState_EXSTART_Some by blast
  from ne r show ?thesis
    by (subst setState.simps) (auto simp: Let_def endless_def split: option.splits NState.splits outcome.splits)
qed


section \<open>Requests after the exchange\<close>

lemma loading_undefined:
  assumes n: "al_get (neighbors st) rid = Some n" and r: "add_all (map (\<lambda>k. (k, k)) ks) RetransmissionList_new = Some (lsrs n)"
    and d: "distinct ks" and ne: "ks \<noteq> []"
  shows "sendReliableLSRequest env rid (outbound (lsrs n)) (put_state rid s st) = Undefined"
proof -
  have dm: "distinct (map fst (map (\<lambda>k. (k, k)) ks))" using d by (simp add: comp_def)
  have out: "outbound (lsrs n) = ks" "positioned ks (lsrs n)"
    using positioned_add_all [OF dm r] add_all_index(2) [OF dm r, of 0] ne by (auto simp: comp_def)
  have "add_all (map (\<lambda>k. (k, k)) ks) (lsrs n) = None"
    using readd_None [OF out(2) order_refl] ne by simp
  with n out show ?thesis
    by (simp add: sendReliableLSRequest_def put_state_def upd_nbr_def)
qed


section \<open>The descriptions of a database\<close>

text \<open>The advertisements above the zero key, in the order of the database.\<close>

definition described :: "LsdbTable \<Rightarrow> (LsaKey \<times> LsaRecord) list" where
  "described t = dropWhile (\<lambda>(k, r). key_rank k \<le> key_rank LsaKey_zero) (getIterableLSDB t)"

definition lsa_headers :: "(LsaKey \<times> LsaRecord) list \<Rightarrow> (LsaKey \<times> LsaHeader) list" where
  "lsa_headers xs = map (\<lambda>(k, r). (k, header r)) xs"

text \<open>Where the exchange stands after the first \<open>m\<close> of them have been described.\<close>

definition stand :: "LsdbTable \<Rightarrow> nat \<Rightarrow> LsaKey option" where
  "stand t m = (if m = 0 then Some LsaKey_zero else if length (described t) \<le> m then None
     else Some (fst (described t ! (m - 1))))"

lemma key_rank_inj: "key_rank k = key_rank k' \<longleftrightarrow> k = k'"
  by (auto simp: key_rank_def intro!: LsaKey.equality LsaAdvKey.equality)

lemma describe_eq:
  "0 < space \<or> pred \<noteq> None \<Longrightarrow> describe space pred xs = (lsa_headers (take space xs),
     if length xs \<le> space then None else Some (if space = 0 then the pred else fst (xs ! (space - 1))))"
proof (induction space pred xs rule: describe.induct)
  case (2 space pred k r xs)
  show ?case
  proof (cases space)
    case 0
    with 2 show ?thesis by (auto simp: lsa_headers_def)
  next
    case (Suc m)
    with 2 show ?thesis by (auto simp: lsa_headers_def nth_Cons split: nat.splits)
  qed
qed (simp add: lsa_headers_def)

lemma sorted_above:
  assumes "sorted_wrt (\<lambda>x y. key_rank (fst x) < key_rank (fst y)) xs" "m < length xs"
  shows "dropWhile (\<lambda>(k, r). key_rank k \<le> key_rank (fst (xs ! m))) xs = drop (Suc m) xs"
    and "takeWhile (\<lambda>(k, r). key_rank k \<le> key_rank (fst (xs ! m))) xs = take (Suc m) xs"
proof -
  let ?P = "\<lambda>(k, r). key_rank k \<le> key_rank (fst (xs ! m))"
  have yes: "\<forall>x\<in>set (take (Suc m) xs). ?P x"
  proof
    fix x assume "x \<in> set (take (Suc m) xs)"
    then obtain i where "i < Suc m" "i < length xs" "x = xs ! i" by (auto simp: in_set_conv_nth)
    with sorted_wrt_nth_less [OF assms(1), of i m] assms(2) show "?P x" by (cases "i = m") (auto simp: less_Suc_eq)
  qed
  have no: "drop (Suc m) xs = [] \<or> \<not> ?P (hd (drop (Suc m) xs))"
  proof (cases "Suc m < length xs")
    case True
    with sorted_wrt_nth_less [OF assms(1) _ True, of m] show ?thesis
      by (auto simp: hd_drop_conv_nth not_le split: prod.splits)
  qed simp
  have "dropWhile ?P (take (Suc m) xs @ drop (Suc m) xs) = drop (Suc m) xs"
    using yes no by (cases "drop (Suc m) xs") (auto simp: dropWhile_append2)
  thus "dropWhile ?P xs = drop (Suc m) xs" by simp
  have "takeWhile ?P (take (Suc m) xs @ drop (Suc m) xs) = take (Suc m) xs"
    using yes no by (cases "drop (Suc m) xs") (auto simp: takeWhile_append2)
  thus "takeWhile ?P xs = take (Suc m) xs" by simp
qed

lemma iterable_sorted:
  assumes "al_wf (dbStorage t)"
  shows "sorted_wrt (\<lambda>x y. key_rank (fst x) < key_rank (fst y)) (getIterableLSDB t)"
proof -
  let ?f = "\<lambda>x. key_rank (fst (x :: LsaKey \<times> LsaRecord))"
  have it: "getIterableLSDB t = sort_key ?f (dbStorage t)" by (simp add: getIterableLSDB_def case_prod_unfold)
  have "sorted (map ?f (sort_key ?f (dbStorage t)))" by simp
  moreover have "distinct (map ?f (sort_key ?f (dbStorage t)))"
  proof -
    have "distinct (map ?f (dbStorage t))"
      using assms by (auto simp: distinct_map inj_on_def key_rank_inj)
    moreover have "mset (map ?f (sort_key ?f (dbStorage t))) = mset (map ?f (dbStorage t))" by simp
    ultimately show ?thesis using mset_eq_imp_distinct_iff by blast
  qed
  ultimately have "sorted_wrt (<) (map ?f (sort_key ?f (dbStorage t)))" by (simp add: strict_sorted_iff)
  thus ?thesis by (simp add: it sorted_wrt_map)
qed

lemma described_above:
  assumes "al_wf (dbStorage t)" "m < length (described t)"
  shows "dropWhile (\<lambda>(k, r). key_rank k \<le> key_rank (fst (described t ! m))) (getIterableLSDB t) = drop (Suc m) (described t)"
proof -
  let ?xs = "getIterableLSDB t"
  obtain pre where pre: "?xs = pre @ described t" unfolding described_def by (metis takeWhile_dropWhile_id)
  have "?xs ! (length pre + m) = described t ! m" by (simp add: pre)
  with sorted_above(1) [OF iterable_sorted [OF assms(1)], of "length pre + m"] assms(2) show ?thesis
    by (simp add: pre)
qed

lemma descriptions_step:
  assumes wf: "al_wf (dbStorage t)" and sp: "0 < space"
  shows "buildDescriptions space t (stand t m) = (lsa_headers (take space (drop m (described t))), stand t (m + space))"
proof (cases "m = 0")
  case True
  thus ?thesis using sp
    by (simp add: buildDescriptions_def stand_def Let_def describe_eq described_def [symmetric])
next
  case m: False
  show ?thesis
  proof (cases "length (described t) \<le> m")
    case True
    with m show ?thesis by (simp add: buildDescriptions_def stand_def lsa_headers_def)
  next
    case False
    hence "m - 1 < length (described t)" by simp
    from described_above [OF wf this] m False sp show ?thesis
      by (simp add: buildDescriptions_def stand_def Let_def describe_eq) (auto simp: add.commute)
  qed
qed

fun dbd_headers :: "u32 \<Rightarrow> IfCall \<Rightarrow> (LsaKey \<times> LsaHeader) list" where
  "dbd_headers rid (SendDBD r sn out mo) = (if r = rid then out else [])"
| "dbd_headers rid _ = []"

lemma sendDBD_step:
  assumes "al_get (neighbors st) rid = Some n" "currentDbd n = stand t m" "t = a_db (if_area st)"
    and "al_wf (dbStorage t)" "0 < lsaRoom env"
  shows "\<exists>n' sn mo. al_get (neighbors (sendDBD env rid st)) rid = Some n' \<and> currentDbd n' = stand t (m + lsaRoom env)
    \<and> if_area (sendDBD env rid st) = if_area st
    \<and> if_calls (sendDBD env rid st) = if_calls st @ [SendDBD rid sn (lsa_headers (take (lsaRoom env) (drop m (described t)))) mo]"
  using assms descriptions_step [OF assms(4,5), of m]
  by (auto simp: sendDBD_def upd_nbr_def if_call_def Let_def)


section \<open>Witnesses\<close>

definition ex_nbr :: Neighbor where
  "ex_nbr = \<lparr>currentDbd = Some LsaKey_zero, ipAddress = \<lparr>raw = 7\<rparr>, unicast = False, routerID = 2, nbr_mtu = 1500,
     currentSeq = 9, nbr_dr = 0, nbr_bdr = 0, priority = 1, inactivityTimer = False, nstate = EXCHANGE, role = MASTER,
     lsus = RetransmissionList_new, lsrs = RetransmissionList_new\<rparr>"

definition ex_if :: OspfInterface where
  "ex_if = \<lparr>neighbors = [(2, ex_nbr)], dr = (0, \<lparr>raw = 0\<rparr>), bdr = (0, \<lparr>raw = 0\<rparr>), isDr = False, isBdr = False,
     opaqueEnabled = True, isMulticast = True, demandCircuit = UNDECIDED, helloTimer = False, if_area = ex_stored, if_calls = []\<rparr>"

definition ex_ifenv :: IfEnv where
  "ex_ifenv = \<lparr>selfRid = 1, selfPrio = 1, network = BROADCAST, passiveMode = False, lsaRoom = 1, lsrRoom = 1400,
     rtLimit = 24, areaEnv = ex_env\<rparr>"

lemma ex_if_nbr: "al_get (neighbors ex_if) 2 = Some ex_nbr"
  by (simp add: ex_if_def)



end
