(* ===== verification/OspfElection.thy ===== *)
theory OspfElection
  imports OspfNeighbor
begin

text \<open>
  The neighbor table and the interface operations: \<open>routing/ospf/neighbor/NeighborTable.cpp\<close> and
  \<open>routing/ospf/interface/OspfInterface.cpp\<close>, with the election of the designated router and its backup.

  The table is an \<open>unordered_map\<close>, whose order of iteration is not specified: it is an association list, and
  \<open>election_order_irrelevant\<close> shows that the order does not matter to the election. The state and the priority of
  a new neighbor are uninitialised, and so arguments of its creation.
\<close>

section \<open>The neighbor table\<close>

definition createNeighbor :: "NState \<Rightarrow> u8 \<Rightarrow> u32 \<Rightarrow> u16 \<Rightarrow> u32 \<Rightarrow> IPAddress \<Rightarrow> bool \<Rightarrow> OspfInterface \<Rightarrow> OspfInterface" where
  "createNeighbor junkState junkPrio dd mtu rid ip uni st = (case al_get (neighbors st) rid of
     Some _ \<Rightarrow> st
   | None \<Rightarrow> st\<lparr>neighbors := al_put rid \<lparr>currentDbd = None, ipAddress = ip, unicast = uni, routerID = rid, nbr_mtu = mtu,
       currentSeq = dd, nbr_dr = 0, nbr_bdr = 0, priority = junkPrio, inactivityTimer = False, nstate = junkState,
       role = ROLE_NONE, lsus = RetransmissionList_new, lsrs = RetransmissionList_new\<rparr> (neighbors st)\<rparr>)"

definition nt_lookup :: "u32 \<Rightarrow> OspfInterface \<Rightarrow> Neighbor option" where
  "nt_lookup rid st = al_get (neighbors st) rid"

definition deleteNeighbor :: "IfEnv \<Rightarrow> nat \<Rightarrow> u32 \<Rightarrow> OspfInterface \<Rightarrow> OspfInterface outcome" where
  "deleteNeighbor env now rid st = (case al_get (neighbors st) rid of None \<Rightarrow> Returns st
     | Some _ \<Rightarrow> obind (set_state env now rid DOWN st) (\<lambda>st. Returns (st\<lparr>neighbors := al_del rid (neighbors st)\<rparr>)))"

text \<open>The configured unicast neighbors, which are cleared too, are not part of the model.\<close>

definition clearUnicast :: "OspfInterface \<Rightarrow> OspfInterface" where
  "clearUnicast st = st\<lparr>neighbors := filter (\<lambda>(rid, n). \<not> unicast n) (neighbors st)\<rparr>"

definition addNeighborList :: "nat \<Rightarrow> OspfInterface \<Rightarrow> u8 list option" where
  "addNeighborList maxSize st = (if maxSize < length (neighbors st) * 4 then None
     else Some (concat (map (\<lambda>(rid, n). be_bytes 4 rid) (neighbors st))))"

section \<open>The election\<close>

record Candidate =
  cand_rid :: u32
  cand_priority :: u8
  claimedDr :: u32
  claimedBdr :: u32

definition nstate_rank :: "NState \<Rightarrow> nat" where
  "nstate_rank s = (case s of DOWN \<Rightarrow> 0 | ATTEMPT \<Rightarrow> 1 | INIT \<Rightarrow> 2 | TWOWAY \<Rightarrow> 3 | EXSTART \<Rightarrow> 4 | EXCHANGE \<Rightarrow> 5
     | LOADING \<Rightarrow> 6 | FULL \<Rightarrow> 7)"

definition candidate :: "u32 \<times> Neighbor \<Rightarrow> Candidate option" where
  "candidate e = (case e of (rid, n) \<Rightarrow>
     if nstate_rank (nstate n) < nstate_rank TWOWAY then None
     else if priority n = 0 then None
     else Some \<lparr>cand_rid = rid, cand_priority = priority n, claimedDr = nbr_dr n, claimedBdr = nbr_bdr n\<rparr>)"

definition eligible :: "IfEnv \<Rightarrow> OspfInterface \<Rightarrow> Candidate list" where
  "eligible env st = (if selfPrio env > 0
       then [\<lparr>cand_rid = selfRid env, cand_priority = selfPrio env, claimedDr = fst (dr st), claimedBdr = fst (bdr st)\<rparr>] else [])
     @ List.map_filter candidate (neighbors st)"

definition best :: "Candidate \<Rightarrow> Candidate \<Rightarrow> bool" where
  "best a b = (if cand_priority a \<noteq> cand_priority b then cand_priority a > cand_priority b else cand_rid a > cand_rid b)"

text \<open>The identifier of the best of the candidates that satisfy \<open>p\<close>. \<open>runElection\<close> keeps the two candidates for the
  backup in one pass over the list.\<close>

definition elect :: "(Candidate \<Rightarrow> bool) \<Rightarrow> Candidate list \<Rightarrow> u32 option" where
  "elect p cs = map_option (\<lambda>(i, c). cand_rid c) (scan_best best p cs)"

definition claimsDr :: "Candidate \<Rightarrow> bool" where
  "claimsDr c = (claimedDr c = cand_rid c)"

definition claimsBdr :: "Candidate \<Rightarrow> bool" where
  "claimsBdr c = (claimedBdr c = cand_rid c)"

definition runElection :: "Candidate list \<Rightarrow> u32 \<times> u32" where
  "runElection cs = (let
     newBdr = (case elect (\<lambda>c. \<not> claimsDr c \<and> claimsBdr c) cs of Some r \<Rightarrow> r
       | None \<Rightarrow> (case elect (\<lambda>c. \<not> claimsDr c) cs of Some r \<Rightarrow> r | None \<Rightarrow> 0));
     newDr = (case elect claimsDr cs of Some r \<Rightarrow> r | None \<Rightarrow> newBdr)
   in (newDr, newBdr))"

text \<open>The claims of this router, the first candidate with its identifier, follow the first pass.\<close>

fun updateSelf :: "u32 \<Rightarrow> bool \<Rightarrow> bool \<Rightarrow> Candidate list \<Rightarrow> Candidate list" where
  "updateSelf self dr' bdr' [] = []"
| "updateSelf self dr' bdr' (c # cs) = (if cand_rid c = self
     then c\<lparr>claimedDr := (if dr' then self else 0), claimedBdr := (if bdr' then self else 0)\<rparr> # cs
     else c # updateSelf self dr' bdr' cs)"

definition setDr :: "u32 \<Rightarrow> OspfInterface \<Rightarrow> OspfInterface" where
  "setDr cand st = (case al_get (neighbors st) cand of None \<Rightarrow> st | Some n \<Rightarrow> st\<lparr>dr := (cand, ipAddress n)\<rparr>)"

definition setBdr :: "u32 \<Rightarrow> OspfInterface \<Rightarrow> OspfInterface" where
  "setBdr cand st = (case al_get (neighbors st) cand of None \<Rightarrow> st | Some n \<Rightarrow> st\<lparr>bdr := (cand, ipAddress n)\<rparr>)"

definition twoPass :: "u32 \<Rightarrow> Candidate list \<Rightarrow> u32 \<times> u32" where
  "twoPass self cs = (let (newDr, newBdr) = runElection cs in
     runElection (updateSelf self (newDr = self) (newBdr = self) cs))"

fun restartTwoWay :: "IfEnv \<Rightarrow> nat \<Rightarrow> u32 list \<Rightarrow> OspfInterface \<Rightarrow> OspfInterface outcome" where
  "restartTwoWay env now [] st = Returns st"
| "restartTwoWay env now (rid # rids) st = obind
     (if get_state st rid = Some TWOWAY then set_state env now rid EXSTART st else Returns st) (restartTwoWay env now rids)"

definition election :: "IfEnv \<Rightarrow> nat \<Rightarrow> OspfInterface \<Rightarrow> OspfInterface outcome" where
  "election env now st = (let cs = eligible env st in
     if cs = [] then Returns st
     else let
       prevDr = fst (dr st); prevBdr = fst (bdr st);
       (finalDr, finalBdr) = twoPass (selfRid env) cs;
       st = setBdr finalBdr (setDr finalDr st);
       st = st\<lparr>isDr := (finalDr = selfRid env), isBdr := (finalBdr = selfRid env)\<rparr>
     in if finalDr \<noteq> prevDr \<or> finalBdr \<noteq> prevBdr
        then obind (restartTwoWay env now (map fst (neighbors st)) st) (\<lambda>st. Returns (if_call UpdateInterface st))
        else Returns st)"

section \<open>Configuration\<close>

definition OSPF_HELLO_TIME :: u16 where
  "OSPF_HELLO_TIME = 10"

definition OSPF_MU_HELLO_TIME :: u16 where
  "OSPF_MU_HELLO_TIME = 30"

text \<open>\<open>calculateCost\<close>: the configured cost, or the quotient of the bandwidths cut to 16 bits; a bandwidth of zero divides
  by zero.\<close>

definition calculateCost :: "u16 option \<Rightarrow> u32 \<Rightarrow> u32 \<Rightarrow> u16 \<Rightarrow> OspfInterface \<Rightarrow> (u16 \<times> OspfInterface) outcome" where
  "calculateCost configured referenceBw interfaceBw cost st = obind
     (case configured of Some c \<Rightarrow> Returns c
      | None \<Rightarrow> if interfaceBw = 0 then Undefined else Returns (ucast (referenceBw div interfaceBw)))
     (\<lambda>newCost. Returns (newCost, if cost \<noteq> newCost then if_call UpdateInterface st else st))"

text \<open>\<open>syncTimers\<close>: the hello and the dead interval in seconds. With a multiplier the hello interval is the integral quotient
  of one second, a division by zero for a multiplier of zero.\<close>

definition syncTimers :: "u16 option \<Rightarrow> u8 option \<Rightarrow> u16 option \<Rightarrow> NetworkType \<Rightarrow> (nat \<times> nat) outcome" where
  "syncTimers hello multiplier dead nt = (case multiplier of
     Some m \<Rightarrow> if m = 0 then Undefined else Returns (1 div unat m, 1)
   | None \<Rightarrow> let
       ht = (case hello of Some h \<Rightarrow> h | None \<Rightarrow>
         if nt = NON_BROADCAST \<or> nt = POINT_TO_MULTIPOINT_BROADCAST \<or> nt = POINT_TO_MULTIPOINT then OSPF_MU_HELLO_TIME else OSPF_HELLO_TIME);
       dt = (case dead of Some d \<Rightarrow> d | None \<Rightarrow> ht * 4)
     in Returns (unat ht, unat dt))"

fun setAllDown :: "IfEnv \<Rightarrow> nat \<Rightarrow> u32 list \<Rightarrow> OspfInterface \<Rightarrow> OspfInterface outcome" where
  "setAllDown env now [] st = Returns st"
| "setAllDown env now (rid # rids) st = obind (set_state env now rid DOWN (cancleInactiveTimer rid st)) (setAllDown env now rids)"

definition setPassiveMode :: "IfEnv \<Rightarrow> nat \<Rightarrow> bool \<Rightarrow> OspfInterface \<Rightarrow> OspfInterface outcome" where
  "setPassiveMode env now pas st = (if pas
     then obind (setAllDown env now (map fst (neighbors st)) st) (\<lambda>st. Returns (stopHello st))
     else Returns (startHello env st))"

definition handleInactiveTimeExpire :: "IfEnv \<Rightarrow> nat \<Rightarrow> u32 \<Rightarrow> OspfInterface \<Rightarrow> OspfInterface outcome" where
  "handleInactiveTimeExpire env now rid st = set_state env now rid DOWN st"

section \<open>What an election finds\<close>

interpretation cand: preference best "\<lambda>c. True"
  by unfold_locales (auto simp: best_def split: if_splits)

text \<open>The abstract outcome: of the candidates that satisfy \<open>p\<close> one with the greatest pair of priority and identifier.\<close>

definition winner :: "(Candidate \<Rightarrow> bool) \<Rightarrow> Candidate set \<Rightarrow> u32 option" where
  "winner p C = (if {c \<in> C. p c} = {} then None
     else Some (snd (Max ((\<lambda>c. (cand_priority c, cand_rid c)) ` {c \<in> C. p c}))))"

lemma not_best: "\<not> best y b \<longleftrightarrow> (cand_priority y, cand_rid y) \<le> (cand_priority b, cand_rid b)"
  by (auto simp: best_def not_less)

lemma elect_winner: "elect p cs = winner p (set cs)"
proof (cases "scan_best best p cs")
  case None
  with cand.scan_best_None [of cs p] show ?thesis by (auto simp: elect_def winner_def)
next
  case (Some ib)
  obtain i b where ib: "ib = (i, b)" by (cases ib)
  note sb = cand.scan_best_Some [OF _ Some [unfolded ib]]
  have b: "b \<in> set cs" "p b" using sb(1-3) by (auto intro: nth_mem)
  have "Max ((\<lambda>c. (cand_priority c, cand_rid c)) ` {c \<in> set cs. p c}) = (cand_priority b, cand_rid b)"
    using b sb(4) by (intro Max_eqI) (auto simp: not_best)
  with b Some ib show ?thesis by (auto simp: elect_def winner_def)
qed

definition election_spec :: "Candidate set \<Rightarrow> u32 \<times> u32" where
  "election_spec C = (let
     b = (case winner (\<lambda>c. \<not> claimsDr c \<and> claimsBdr c) C of Some r \<Rightarrow> r
       | None \<Rightarrow> (case winner (\<lambda>c. \<not> claimsDr c) C of Some r \<Rightarrow> r | None \<Rightarrow> 0))
   in (case winner claimsDr C of Some r \<Rightarrow> r | None \<Rightarrow> b, b))"

lemma runElection_spec: "runElection cs = election_spec (set cs)"
  unfolding runElection_def election_spec_def elect_winner Let_def ..

definition reclaim :: "u32 \<Rightarrow> u32 \<times> u32 \<Rightarrow> Candidate \<Rightarrow> Candidate" where
  "reclaim self won c = (if cand_rid c = self
     then c\<lparr>claimedDr := (if fst won = self then self else 0), claimedBdr := (if snd won = self then self else 0)\<rparr> else c)"

lemma updateSelf_map:
  "distinct (map cand_rid cs) \<Longrightarrow> updateSelf self (x = self) (y = self) cs = map (reclaim self (x, y)) cs"
proof (induction cs)
  case (Cons c cs)
  have "map (reclaim (cand_rid c) (x, y)) cs = cs" if "cand_rid c \<notin> cand_rid ` set cs"
    using that by (intro map_idI) (metis image_eqI reclaim_def)
  moreover have "reclaim self (x, y) c = (if cand_rid c = self
      then c\<lparr>claimedDr := (if x = self then self else 0), claimedBdr := (if y = self then self else 0)\<rparr> else c)"
    by (simp add: reclaim_def)
  ultimately show ?case using Cons by (cases "cand_rid c = self") simp_all
qed simp

definition two_pass_spec :: "u32 \<Rightarrow> Candidate set \<Rightarrow> u32 \<times> u32" where
  "two_pass_spec self C = election_spec (reclaim self (election_spec C) ` C)"

lemma twoPass_spec: "distinct (map cand_rid cs) \<Longrightarrow> twoPass self cs = two_pass_spec self (set cs)"
  using updateSelf_map [of cs self "fst (runElection cs)" "snd (runElection cs)"]
  by (simp add: twoPass_def two_pass_spec_def runElection_spec Let_def case_prod_unfold)

lemma candidate_rid: "candidate (rid, n) = Some c \<Longrightarrow> cand_rid c = rid"
  by (auto simp: candidate_def split: if_splits)

lemma candidates_rids: "cand_rid ` set (List.map_filter candidate ns) \<subseteq> fst ` set ns"
proof (induction ns)
  case (Cons e ns)
  then show ?case using candidate_rid [of "fst e" "snd e"] by (auto simp: List.map_filter_simps split: option.splits)
qed (simp add: List.map_filter_simps)

lemma candidates_distinct: "al_wf ns \<Longrightarrow> distinct (map cand_rid (List.map_filter candidate ns))"
proof (induction ns)
  case (Cons e ns)
  obtain rid n where e: "e = (rid, n)" by (cases e)
  show ?case
  proof (cases "candidate e")
    case (Some c)
    with e candidate_rid have "cand_rid c = rid" by simp
    with Cons e Some candidates_rids [of ns] show ?thesis by (auto simp: List.map_filter_simps)
  qed (use Cons e in \<open>simp add: List.map_filter_simps\<close>)
qed (simp add: List.map_filter_simps)

lemma eligible_distinct:
  assumes "al_wf (neighbors st)" "al_get (neighbors st) (selfRid env) = None"
  shows "distinct (map cand_rid (eligible env st))"
  using candidates_distinct [OF assms(1)] candidates_rids [of "neighbors st"] assms(2)
  by (auto simp: eligible_def al_get_None_iff)

section \<open>What a change of state leaves alone\<close>

text \<open>The designations and who is in the table.\<close>

definition roster :: "OspfInterface \<Rightarrow> ((u32 \<times> IPAddress) \<times> (u32 \<times> IPAddress) \<times> bool \<times> bool) \<times> (u32 \<times> u32 \<times> IPAddress) list" where
  "roster st = ((dr st, bdr st, isDr st, isBdr st), map (\<lambda>(r, n). (r, routerID n, ipAddress n)) (neighbors st))"

lemma map_al_put: "al_get xs k = Some v \<Longrightarrow> f (k, v') = f (k, v) \<Longrightarrow> map f (al_put k v' xs) = map f xs"
  by (induction xs k rule: al_get.induct) (auto split: if_splits)

lemma roster_upd [simp]:
  "(\<And>n. routerID (f n) = routerID n) \<Longrightarrow> (\<And>n. ipAddress (f n) = ipAddress n) \<Longrightarrow> roster (upd_nbr rid f st) = roster st"
  by (auto simp: roster_def upd_nbr_def map_al_put split: option.splits)

lemma roster_call [simp]: "roster (if_call c st) = roster st"
  by (simp add: roster_def if_call_def)

lemma roster_area [simp]: "roster (st\<lparr>if_area := a\<rparr>) = roster st"
  by (simp add: roster_def)

lemma roster_put_state [simp]: "roster (put_state rid s st) = roster st"
  by (simp add: put_state_def)

lemma roster_cancel [simp]: "roster (cancleInactiveTimer rid st) = roster st"
  by (simp add: cancleInactiveTimer_def)

lemma roster_startInactive [simp]: "roster (startInactiveTimer rid st) = roster st"
  by (simp add: startInactiveTimer_def)

lemma roster_fold: "(\<And>x st. roster (f x st) = roster st) \<Longrightarrow> roster (fold f xs st) = roster st"
  by (induction xs arbitrary: st) auto

lemma roster_stopHello [simp]: "roster (stopHello st) = roster st"
  by (simp add: stopHello_def cancelAllInactiveTimers_def roster_fold) (simp add: roster_def)

lemma roster_sendInitDBD [simp]: "roster (sendInitDBD rid st) = roster st"
  by (simp add: sendInitDBD_def split: option.splits)

lemma roster_sendDBD [simp]: "roster (sendDBD env rid st) = roster st"
  by (simp add: sendDBD_def Let_def split: option.splits prod.splits)

lemma roster_setDown [simp]: "roster (setDown env now rid st) = roster st"
  by (simp add: setDown_def Let_def)

lemma roster_onLsrPacingTimer: "onLsrPacingTimer env rid st = Returns st' \<Longrightarrow> roster st' = roster st"
  by (auto simp: onLsrPacingTimer_def obind_Returns_iff Let_def split: option.splits if_splits)

lemma roster_sendReliableLSRequest: "sendReliableLSRequest env rid ks st = Returns st' \<Longrightarrow> roster st' = roster st"
  by (auto simp: sendReliableLSRequest_def dest: roster_onLsrPacingTimer split: option.splits)

lemma setState_endD: "setState_end rid old st = Some (b, st') \<Longrightarrow> st' = st"
  by (auto simp: setState_end_def split: option.splits)

lemma roster_setState:
  assumes "setState env now rid s st = Some r"
  shows "\<And>b st'. r = Some (b, st') \<Longrightarrow> roster st' = roster st"
proof (rule setState.raw_induct [where P = "\<lambda>env now rid s st r. \<forall>b st'. r = Some (b, st') \<longrightarrow> roster st' = roster st",
    OF _ assms, THEN spec, THEN spec, THEN mp], goal_cases)
  case (1 b st' setState env now rid s st r)
  show ?case
  proof (intro allI impI)
    fix b st' assume r: "r = Some (b, st')"
    note ih = 1(2) [of env now rid EXSTART "put_state rid TWOWAY st"] 1(2) [of env now rid LOADING st]
    show "roster st' = roster st"
      using 1(3) ih r
      by (cases s) (auto simp: Let_def split: option.splits if_splits bind_splits outcome.splits
          dest!: setState_endD roster_sendReliableLSRequest)
  qed
qed

lemma set_state_roster: "set_state env now rid s st = Returns st' \<Longrightarrow> roster st' = roster st"
  by (auto simp: set_state_def dest: roster_setState split: option.splits)

lemma get_upd: "al_get (neighbors (upd_nbr rid f st)) r = (if r = rid then map_option f (al_get (neighbors st) r) else al_get (neighbors st) r)"
  by (auto simp: upd_nbr_def split: option.splits)

lemma get_call [simp]: "neighbors (if_call c st) = neighbors st"
  by (simp add: if_call_def)

lemma set_state_EXSTART: "al_get (neighbors st) rid = Some n \<Longrightarrow> \<exists>st'. set_state env now rid EXSTART st = Returns st'"
  by (auto simp: set_state_def setState.simps [of env now rid EXSTART] Let_def setState_end_def get_state_def put_state_def
      sendInitDBD_def get_upd split: option.splits)

lemma roster_keys: "roster st' = roster st \<Longrightarrow> map fst (neighbors st') = map fst (neighbors st)"
proof -
  assume "roster st' = roster st"
  hence "map fst (map (\<lambda>(r, n). (r, routerID n, ipAddress n)) (neighbors st')) = map fst (map (\<lambda>(r, n). (r, routerID n, ipAddress n)) (neighbors st))"
    by (simp add: roster_def)
  thus ?thesis by (simp add: comp_def case_prod_unfold)
qed

lemma restartTwoWay_returns:
  "\<exists>st'. restartTwoWay env now rids st = Returns st' \<and> roster st' = roster st"
proof (induction rids arbitrary: st)
  case (Cons rid rids)
  show ?case
  proof (cases "get_state st rid = Some TWOWAY")
    case True
    then obtain st1 where st1: "set_state env now rid EXSTART st = Returns st1"
      using set_state_EXSTART by (fastforce simp: get_state_def)
    with True Cons.IH [of st1] set_state_roster [OF st1] show ?thesis by auto
  qed (use Cons.IH [of st] in simp)
qed simp

definition recorded :: "u32 \<Rightarrow> OspfInterface \<Rightarrow> u32 \<times> IPAddress \<Rightarrow> u32 \<times> IPAddress" where
  "recorded rid st old = (case al_get (neighbors st) rid of None \<Rightarrow> old | Some n \<Rightarrow> (rid, ipAddress n))"

lemma election_result:
  assumes "eligible env st \<noteq> []" "twoPass (selfRid env) (eligible env st) = (d, b)"
  shows "\<exists>st'. election env now st = Returns st' \<and> dr st' = recorded d st (dr st) \<and> bdr st' = recorded b st (bdr st)
    \<and> isDr st' = (d = selfRid env) \<and> isBdr st' = (b = selfRid env) \<and> map fst (neighbors st') = map fst (neighbors st)"
proof -
  let ?st = "(setBdr b (setDr d st))\<lparr>isDr := (d = selfRid env), isBdr := (b = selfRid env)\<rparr>"
  have f: "dr ?st = recorded d st (dr st)" "bdr ?st = recorded b st (bdr st)" "isDr ?st = (d = selfRid env)"
    "isBdr ?st = (b = selfRid env)" "neighbors ?st = neighbors st"
    by (auto simp: setDr_def setBdr_def recorded_def split: option.splits)
  obtain st1 where st1: "restartTwoWay env now (map fst (neighbors ?st)) ?st = Returns st1" "roster st1 = roster ?st"
    using restartTwoWay_returns by blast
  have "roster (if_call UpdateInterface st1) = roster ?st" using st1 by simp
  moreover have "\<exists>st'. election env now st = Returns st' \<and> roster st' = roster ?st"
    using assms st1 by (auto simp: election_def Let_def)
  ultimately obtain st' where st': "election env now st = Returns st'" "roster st' = roster ?st" by blast
  have "dr st' = dr ?st \<and> bdr st' = bdr ?st \<and> isDr st' = isDr ?st \<and> isBdr st' = isBdr ?st"
    using st'(2) unfolding roster_def by blast
  with f roster_keys [OF st'(2)] st'(1) show ?thesis by (metis (no_types, lifting))
qed

section \<open>Properties\<close>


lemma set_map_filter: "set (List.map_filter f xs) = {y. \<exists>x\<in>set xs. f x = Some y}"
  by (induction xs) (auto simp: List.map_filter_simps split: option.splits)

lemma al_get_set_eq:
  assumes "al_wf xs" "al_wf ys" "set xs = set ys"
  shows "al_get xs = al_get ys"
proof
  fix k show "al_get xs k = al_get ys k"
    using assms al_get_Some_iff [of xs k] al_get_Some_iff [of ys k] by (cases "al_get xs k"; cases "al_get ys k") auto
qed

text \<open>(C35) The outcome of an election does not depend on the order in which the table is iterated.\<close>

theorem election_order_irrelevant:
  assumes "al_wf (neighbors st)" "al_get (neighbors st) (selfRid env) = None" "al_wf ns" "set ns = set (neighbors st)"
    and "election env now st = Returns st1" "election env now (st\<lparr>neighbors := ns\<rparr>) = Returns st2"
  shows "(dr st1, bdr st1, isDr st1, isBdr st1) = (dr st2, bdr st2, isDr st2, isBdr st2)"
proof -
  let ?st = "st\<lparr>neighbors := ns\<rparr>"
  have get: "al_get ns = al_get (neighbors st)" using al_get_set_eq assms by metis
  have set: "set (eligible env ?st) = set (eligible env st)"
    using assms(4) by (simp add: eligible_def set_map_filter)
  show ?thesis
  proof (cases "eligible env st = []")
    case True
    with set have "eligible env ?st = []" by (metis set_empty)
    with True assms(5,6) show ?thesis by (auto simp: election_def)
  next
    case False
    with set have ne: "eligible env ?st \<noteq> []" by (metis set_empty)
    obtain d b where db: "twoPass (selfRid env) (eligible env st) = (d, b)" by fastforce
    have "twoPass (selfRid env) (eligible env ?st) = twoPass (selfRid env) (eligible env st)"
      using twoPass_spec [OF eligible_distinct] assms(1,2,3) set get by simp
    with db have db': "twoPass (selfRid env) (eligible env ?st) = (d, b)" by simp
    from election_result [OF False db, of now] election_result [OF ne db', of now] assms(5,6) get
    show ?thesis by (auto simp: recorded_def)
  qed
qed

text \<open>A router that wins the election does not record it: with its own identifier not in the table, the designated
  router it announces is the one before the election.\<close>

theorem own_designation_not_recorded:
  assumes "al_get (neighbors st) (selfRid env) = None" "election env now st = Returns st'" "eligible env st \<noteq> []" "isDr st'"
  shows "dr st' = dr st"
proof -
  obtain d b where db: "twoPass (selfRid env) (eligible env st) = (d, b)" by fastforce
  from election_result [OF assms(3) db, of now] assms show ?thesis by (auto simp: recorded_def)
qed

text \<open>Without a hello multiplier the dead interval defaults to four times the hello interval as long as that fits in 16
  bits; with a multiplier of two or more the hello interval is zero seconds. The cost is zero when the bandwidth exceeds the
  reference.\<close>

lemma interval_bounds:
  "unat ht < 2 ^ 14 \<Longrightarrow> syncTimers (Some ht) None None nt = Returns (unat ht, 4 * unat ht)"
  "2 \<le> m \<Longrightarrow> syncTimers h (Some m) d nt = Returns (0, 1)"
proof -
  show "unat ht < 2 ^ 14 \<Longrightarrow> syncTimers (Some ht) None None nt = Returns (unat ht, 4 * unat ht)"
    by (simp add: syncTimers_def Let_def unat_word_ariths)
  assume "2 \<le> m"
  hence "2 \<le> unat m" by (simp add: word_le_nat_alt)
  thus "syncTimers h (Some m) d nt = Returns (0, 1)" by (auto simp: syncTimers_def)
qed

lemma fast_interface_costs_nothing:
  "ref < bw \<Longrightarrow> \<exists>st'. calculateCost None ref bw c st = Returns (0, st')"
  by (auto simp: calculateCost_def div_word_less)

section \<open>Witnesses\<close>

definition ex_lan :: OspfInterface where
  "ex_lan = ex_if\<lparr>neighbors := [(2, ex_nbr\<lparr>nstate := TWOWAY\<rparr>), (3, ex_nbr\<lparr>nstate := TWOWAY, routerID := 3, nbr_dr := 3, ipAddress := \<lparr>raw = 8\<rparr>\<rparr>)]\<rparr>"

lemma ex_lan_ok: "al_wf (neighbors ex_lan)" "al_get (neighbors ex_lan) (selfRid ex_ifenv) = None" "eligible ex_ifenv ex_lan \<noteq> []"
  by (simp_all add: ex_lan_def ex_ifenv_def eligible_def)


theorem election_order_irrelevant_witness:
  "\<exists>st1 st2. election ex_ifenv 0 ex_lan = Returns st1 \<and> election ex_ifenv 0 (ex_lan\<lparr>neighbors := rev (neighbors ex_lan)\<rparr>) = Returns st2
    \<and> dr st1 = dr st2"
proof -
  let ?st = "ex_lan\<lparr>neighbors := rev (neighbors ex_lan)\<rparr>"
  have ne: "eligible ex_ifenv ?st \<noteq> []" by (simp add: eligible_def ex_ifenv_def)
  obtain d b where "twoPass (selfRid ex_ifenv) (eligible ex_ifenv ?st) = (d, b)" by fastforce
  from election_result [OF ne this, of 0] obtain st2 where st2: "election ex_ifenv 0 ?st = Returns st2" by blast
  obtain d b where "twoPass (selfRid ex_ifenv) (eligible ex_ifenv ex_lan) = (d, b)" by fastforce
  from election_result [OF ex_lan_ok(3) this, of 0] obtain st1 where st1: "election ex_ifenv 0 ex_lan = Returns st1" by blast
  have "al_wf (rev (neighbors ex_lan))" by (simp add: ex_lan_def)
  moreover have "set (rev (neighbors ex_lan)) = set (neighbors ex_lan)" by (rule set_rev)
  ultimately show ?thesis using election_order_irrelevant [OF ex_lan_ok(1,2) _ _ st1 st2] st1 st2 by auto
qed

theorem own_designation_not_recorded_witness:
  "\<exists>st'. election (ex_ifenv\<lparr>selfPrio := 9\<rparr>) 0 ex_if = Returns st' \<and> isDr st' \<and> dr st' = dr ex_if"
proof -
  let ?env = "ex_ifenv\<lparr>selfPrio := 9\<rparr>"
  have tp: "twoPass (selfRid ?env) (eligible ?env ex_if) = (1, 2)" by code_simp
  have ne: "eligible ?env ex_if \<noteq> []" and none: "al_get (neighbors ex_if) (selfRid ?env) = None"
    by (simp_all add: eligible_def ex_ifenv_def ex_if_def)
  from election_result [OF ne tp, of 0] obtain st' where st': "election ?env 0 ex_if = Returns st'" "isDr st'"
    by (auto simp: ex_ifenv_def)
  from own_designation_not_recorded [OF none st'(1) ne st'(2)] st' show ?thesis by auto
qed

end
