(* ===== verification/OspfReceive.thy ===== *)
theory OspfReceive
  imports OspfElection
begin

text \<open>
  The reception of OSPFv2 packets, \<open>routing/ospf/ospfv2/transmission/RxV2.cpp\<close>: the checks of the common header and the
  handlers of the five packet types, over the neighbors (\<open>OspfNeighbor\<close>, \<open>OspfElection\<close>), the bodies of advertisements
  (\<open>OspfLsa\<close>) and the area (\<open>OspfArea\<close>).

  A packet is the list of bytes from its OSPF header to the end of the frame buffer: a read behind the packet and
  inside the frame gives the bytes that are there, a read behind the frame is undefined. The verdict of the
  cryptographic authentication and the unchecked initial values of a new neighbor are arguments. What is done with the
  data block for link-local signaling, with updates to send and with acknowledgements is recorded as a call.
\<close>

section \<open>Option bits\<close>

definition OPTIONS_BASE :: nat where
  "OPTIONS_BASE = 8"

definition testBit :: "u32 \<Rightarrow> nat \<Rightarrow> bool" where
  "testBit fgs n = (fgs AND push_bit n 1 \<noteq> 0)"

definition testOption :: "u32 \<Rightarrow> nat \<Rightarrow> bool" where
  "testOption fgs optionBit = testBit fgs (OPTIONS_BASE + optionBit)"

definition getExternalRouting :: "u32 \<Rightarrow> bool" where
  "getExternalRouting fgs = testOption fgs 1"

definition getNssa :: "u32 \<Rightarrow> bool" where
  "getNssa fgs = testOption fgs 3"

definition getExternalAttribute :: "u32 \<Rightarrow> bool" where
  "getExternalAttribute fgs = testOption fgs 4"

definition getDemandCircuits :: "u32 \<Rightarrow> bool" where
  "getDemandCircuits fgs = testOption fgs 5"

definition getOpaque :: "u32 \<Rightarrow> bool" where
  "getOpaque fgs = testOption fgs 6"

definition getAddressFamilySupport :: "u32 \<Rightarrow> bool" where
  "getAddressFamilySupport fgs = testOption fgs 8"

section \<open>Configuration and packets\<close>

datatype AuthType = NULL_AUTH | SIMPLE | CRYPTO

record RxCfg =
  helloInterval :: u16
  deadInterval :: u16
  ifMask :: u32
  mtuIgnore :: bool
  dcIgnore :: bool
  ifFlags :: u32
  areaFlags :: u32
  afIPv4 :: bool
  ifMtu :: u16
  interfaceId :: u32
  areaId :: u32
  authType :: AuthType
  authKey :: "u64 option"
  newState :: NState
  newPriority :: u8
  newSequence :: u32

record HeaderInfo =
  hi_rid :: u32
  neighborIp :: IPAddress
  hi_payload :: "u8 list"
  payloadSize :: nat

definition rd16 :: "nat \<Rightarrow> u8 list \<Rightarrow> u16 outcome" where
  "rd16 off buf = defined (readU16 (drop off buf))"

definition rd32 :: "nat \<Rightarrow> u8 list \<Rightarrow> u32 outcome" where
  "rd32 off buf = defined (readU32 (drop off buf))"

definition rd8 :: "nat \<Rightarrow> u8 list \<Rightarrow> u8 outcome" where
  "rd8 off buf = defined (byteAt off buf)"

definition processOptions :: "IfEnv \<Rightarrow> RxCfg \<Rightarrow> u32 \<Rightarrow> OspfInterface \<Rightarrow> bool \<times> OspfInterface" where
  "processOptions env cfg options st = (let
     st = (if demandCircuit st = UNDECIDED \<and> \<not> dcIgnore cfg
           then st\<lparr>demandCircuit := (if getDemandCircuits options \<and> getDemandCircuits (ifFlags cfg) \<and> network env = POINT_TO_POINT
                                     then DC_ENABLED else DC_DISABLED)\<rparr> else st);
     st = (if opaqueEnabled st \<and> \<not> getOpaque options then st\<lparr>opaqueEnabled := False\<rparr> else st)
   in if getExternalRouting (areaFlags cfg) \<noteq> getExternalRouting options then (False, st)
      else if getNssa (areaFlags cfg) \<noteq> getNssa options then (False, st)
      else if getAddressFamilySupport (areaFlags cfg) \<noteq> getAddressFamilySupport options \<and> afIPv4 cfg then (False, st)
      else (True, st))"

section \<open>Hello\<close>

text \<open>The search for this router in the list of the neighbor: whether one of the words from \<open>off\<close> on is \<open>rid\<close>.\<close>

function findRid :: "u32 \<Rightarrow> nat \<Rightarrow> nat \<Rightarrow> u8 list \<Rightarrow> bool outcome" where
  "findRid rid i listSize buf = (if i < listSize
     then obind (rd32 i buf) (\<lambda>x. if x = rid then Returns True else findRid rid (i + 4) listSize buf)
     else Returns False)"
  by auto
termination by (relation "measure (\<lambda>(rid, i, listSize, buf). listSize - i)") auto

declare findRid.simps [simp del]

definition hello_size :: nat where
  "hello_size = 20"

text \<open>The end of the handler: the values of the neighbor and the trigger of an election.\<close>

definition helloValues :: "IfEnv \<Rightarrow> nat \<Rightarrow> u32 \<Rightarrow> u8 \<Rightarrow> u32 \<Rightarrow> u32 \<Rightarrow> OspfInterface \<Rightarrow> OspfInterface outcome" where
  "helloValues env now rid prio newDr newBdr st = (let
     st = upd_nbr rid (priority_update (\<lambda>_. prio)) (startInactiveTimer rid st)
   in if multiAccess env
      then (let
        st = upd_nbr rid (\<lambda>n. n\<lparr>priority := prio, nbr_dr := newDr, nbr_bdr := newBdr\<rparr>) st;
        due = (prio = 0 \<and> (rid = fst (bdr st) \<or> rid = fst (dr st)))
              \<or> (get_state st rid = Some TWOWAY \<and> (fst (dr st) = 0 \<or> fst (bdr st) = 0))
        in if due then election env now st else Returns st)
      else Returns st)"

text \<open>From the check of the options on; the neighbor exists.\<close>

definition helloNeighbor :: "IfEnv \<Rightarrow> RxCfg \<Rightarrow> nat \<Rightarrow> HeaderInfo \<Rightarrow> OspfInterface \<Rightarrow> OspfInterface outcome" where
  "helloNeighbor env cfg now info st = (let rid = hi_rid info; buf = hi_payload info in
     obind (rd8 6 buf) (\<lambda>options. obind (rd8 7 buf) (\<lambda>prio. obind (rd32 12 buf) (\<lambda>newDr. obind (rd32 16 buf) (\<lambda>newBdr. let
       (ok, st) = (if get_state st rid \<noteq> Some FULL then processOptions env cfg (ucast options) st else (True, st))
     in if \<not> ok then set_state env now rid DOWN st
        else if multiAccess env
        then (let listSize = payloadSize info - hello_size in
          if listSize mod 4 \<noteq> 0 then Returns st
          else obind (findRid (selfRid env) 0 listSize (drop hello_size buf)) (\<lambda>found.
            if \<not> found then Returns st
            else obind (if get_state st rid = Some INIT then set_state env now rid TWOWAY st else Returns st)
              (helloValues env now rid prio newDr newBdr)))
        else obind (if get_state st rid = Some INIT then set_state env now rid TWOWAY st else Returns st)
              (helloValues env now rid prio newDr newBdr))))))"

definition dropNeighbor :: "IfEnv \<Rightarrow> nat \<Rightarrow> u32 \<Rightarrow> OspfInterface \<Rightarrow> OspfInterface outcome" where
  "dropNeighbor env now rid st = (case al_get (neighbors st) rid of None \<Rightarrow> Returns st | Some _ \<Rightarrow> set_state env now rid DOWN st)"

definition processHello :: "IfEnv \<Rightarrow> RxCfg \<Rightarrow> nat \<Rightarrow> HeaderInfo \<Rightarrow> bool \<Rightarrow> OspfInterface \<Rightarrow> OspfInterface outcome" where
  "processHello env cfg now info uni st = (let rid = hi_rid info; buf = hi_payload info in
     if payloadSize info < hello_size then Returns st
     else obind (rd16 4 buf) (\<lambda>hi. obind (rd32 8 buf) (\<lambda>di. obind (rd32 0 buf) (\<lambda>mask'.
       if hi \<noteq> helloInterval cfg \<or> di \<noteq> ucast (deadInterval cfg) then dropNeighbor env now rid st
       else if multiAccess env \<and> mask' \<noteq> ifMask cfg then dropNeighbor env now rid st
       else obind (case al_get (neighbors st) rid of
           None \<Rightarrow> Returns (createNeighbor (newState cfg) (newPriority cfg) (newSequence cfg) (ifMtu cfg) rid (neighborIp info) uni st)
         | Some n \<Rightarrow> if uni \<and> (nstate n = DOWN \<or> nstate n = ATTEMPT) then set_state env now rid INIT st else Returns st)
         (helloNeighbor env cfg now info)))))"

section \<open>Advertisement headers\<close>

definition lsa_hdr_size :: nat where
  "lsa_hdr_size = 20"

text \<open>Key and header at \<open>off\<close>. The handlers of descriptions and acknowledgements do not read the options.\<close>

definition readLsaHeader :: "nat \<Rightarrow> u8 list \<Rightarrow> (LsaKey \<times> LsaHeader) outcome" where
  "readLsaHeader off buf =
     obind (rd16 off buf) (\<lambda>ag. obind (rd8 (off + 2) buf) (\<lambda>op. obind (rd8 (off + 3) buf) (\<lambda>ty.
     obind (rd32 (off + 4) buf) (\<lambda>ls. obind (rd32 (off + 8) buf) (\<lambda>adv. obind (rd32 (off + 12) buf) (\<lambda>sn.
     obind (rd16 (off + 16) buf) (\<lambda>ck. obind (rd16 (off + 18) buf) (\<lambda>len.
       Returns (\<lparr>key_adv = \<lparr>lsaType = ucast ty, advertisingRouter = adv\<rparr>, linkStateId = ls\<rparr>,
                \<lparr>sequence = sn, checksum = ck, lsa_length = len, age = ag, hdr_options = op\<rparr>)))))))))"

section \<open>Database descriptions\<close>

definition dbd_size :: nat where
  "dbd_size = 8"

text \<open>The loop over the headers of a description: what is newer than the database is to be requested.\<close>

function collectRequests :: "u32 \<Rightarrow> nat \<Rightarrow> nat \<Rightarrow> u8 list \<Rightarrow> OspfInterface \<Rightarrow> OspfInterface outcome" where
  "collectRequests rid off end buf st = (if off < end
     then (if off + lsa_hdr_size > end then Returns st
       else obind (readLsaHeader off buf) (\<lambda>(key, hdr).
         if compareLSASummary (hdr\<lparr>hdr_options := 0\<rparr>) key (if_area st)
         then (case al_get (neighbors st) rid of None \<Rightarrow> Undefined
           | Some n \<Rightarrow> (case rl_add key key (lsrs n) of None \<Rightarrow> Undefined
               | Some (_, l) \<Rightarrow> collectRequests rid (off + lsa_hdr_size) end buf (upd_nbr rid (lsrs_update (\<lambda>_. l)) st)))
         else collectRequests rid (off + lsa_hdr_size) end buf st))
     else Returns st)"
  by auto
termination by (relation "measure (\<lambda>(rid, off, end, buf, st). end - off)") (auto simp: lsa_hdr_size_def)

declare collectRequests.simps [simp del]

text \<open>A description with the I flag: the roles are settled.\<close>

definition processInit :: "IfEnv \<Rightarrow> nat \<Rightarrow> HeaderInfo \<Rightarrow> u32 \<Rightarrow> Neighbor \<Rightarrow> OspfInterface \<Rightarrow> OspfInterface outcome" where
  "processInit env now info sn n st = (let
     rid = hi_rid info; ack = (sn = currentSeq n);
     newRole = (if rid > selfRid env then MASTER else SLAVE);
     st = upd_nbr rid (role_update (\<lambda>_. newRole)) st
   in if newRole = SLAVE
      then set_state env now rid EXCHANGE (sendInitDBD rid (upd_nbr rid (currentSeq_update (\<lambda>_. sn)) st))
      else obind (if nstate n \<noteq> EXSTART then set_state env now rid EXSTART st else Returns st)
        (\<lambda>st. if ack then set_state env now rid EXCHANGE st else Returns st))"

definition processDescription :: "IfEnv \<Rightarrow> nat \<Rightarrow> HeaderInfo \<Rightarrow> bool \<Rightarrow> OspfInterface \<Rightarrow> OspfInterface outcome" where
  "processDescription env now info flagM st = (let rid = hi_rid info in
     obind (collectRequests rid dbd_size (payloadSize info) (hi_payload info) st) (\<lambda>st. case al_get (neighbors st) rid of
       None \<Rightarrow> Undefined
     | Some n \<Rightarrow> if currentDbd n \<noteq> None \<or> flagM \<or> role n = SLAVE then Returns (sendDBD env rid st)
         else set_state env now rid LOADING st))"

definition processDBD :: "IfEnv \<Rightarrow> RxCfg \<Rightarrow> nat \<Rightarrow> HeaderInfo \<Rightarrow> OspfInterface \<Rightarrow> OspfInterface outcome" where
  "processDBD env cfg now info st = (let rid = hi_rid info; buf = hi_payload info in
     case al_get (neighbors st) rid of None \<Rightarrow> Undefined | Some n \<Rightarrow>
     if nstate_rank (nstate n) < nstate_rank EXSTART then Returns st
     else if payloadSize info < dbd_size then Returns st
     else if (payloadSize info - dbd_size) mod 20 \<noteq> 0 then Returns st
     else obind (rd16 0 buf) (\<lambda>mtu'. obind (rd8 2 buf) (\<lambda>options. obind (rd8 3 buf) (\<lambda>flags. obind (rd32 4 buf) (\<lambda>sn. let
       (ok, st) = processOptions env cfg (ucast options) st
     in if \<not> ok then set_state env now rid DOWN st
        else if mtuIgnore cfg \<and> nbr_mtu n \<noteq> mtu' then set_state env now rid DOWN st
        else if flags AND 4 \<noteq> 0 \<and> dbd_size \<noteq> payloadSize info then Returns st
        else obind (if flags AND 4 \<noteq> 0 then processInit env now info sn n st
                    else if nstate n = EXCHANGE then processDescription env now info (flags AND 2 \<noteq> 0) st
                    else Returns st)
          (\<lambda>st. Returns (if getExternalAttribute (ucast options) then if_call (ProcessLLSDataBlock rid) st else st)))))))"

section \<open>Acknowledgements and requests\<close>

text \<open>The entry compared with an acknowledgement is the record of the database it points to.\<close>

function processLSAckFrom :: "nat \<Rightarrow> HeaderInfo \<Rightarrow> OspfInterface \<Rightarrow> OspfInterface outcome" where
  "processLSAckFrom off info st = (if off < payloadSize info
     then (if off + lsa_hdr_size > payloadSize info then Returns st
       else obind (readLsaHeader off (hi_payload info)) (\<lambda>(key, hdr).
         case al_get (neighbors st) (hi_rid info) of None \<Rightarrow> Undefined | Some n \<Rightarrow>
         (case rl_get key (lsus n) of
            None \<Rightarrow> Undefined
          | Some None \<Rightarrow> processLSAckFrom (off + lsa_hdr_size) info st
          | Some (Some p) \<Rightarrow> (case lsdb_find p (a_db (if_area st)) of
                None \<Rightarrow> Undefined
              | Some r \<Rightarrow> if header r = hdr\<lparr>hdr_options := 0\<rparr>
                  then (case rl_erase key (lsus n) of None \<Rightarrow> Undefined
                    | Some (_, l) \<Rightarrow> processLSAckFrom (off + lsa_hdr_size) info (upd_nbr (hi_rid info) (lsus_update (\<lambda>_. l)) st))
                  else processLSAckFrom (off + lsa_hdr_size) info st))))
     else Returns st)"
  by auto
termination by (relation "measure (\<lambda>(off, info, st). payloadSize info - off)") (auto simp: lsa_hdr_size_def)

declare processLSAckFrom.simps [simp del]

definition processLSAck :: "HeaderInfo \<Rightarrow> OspfInterface \<Rightarrow> OspfInterface outcome" where
  "processLSAck info st = processLSAckFrom 0 info st"

text \<open>The requested advertisements that are in the database, \<open>None\<close> when a request is cut off.\<close>

function readRequests :: "nat \<Rightarrow> HeaderInfo \<Rightarrow> OspfInterface \<Rightarrow> LsaKey list option outcome" where
  "readRequests off info st = (if off < payloadSize info
     then (if off + lsr_size > payloadSize info then Returns None
       else obind (rd32 off (hi_payload info)) (\<lambda>ty. obind (rd32 (off + 4) (hi_payload info)) (\<lambda>ls.
         obind (rd32 (off + 8) (hi_payload info)) (\<lambda>adv. let
           key = \<lparr>key_adv = \<lparr>lsaType = ucast ty, advertisingRouter = adv\<rparr>, linkStateId = ls\<rparr>;
           wanted = (lsdb_find key (a_db (if_area st)) \<noteq> None \<and> (key_type key < 9 \<or> opaqueEnabled st))
         in obind (readRequests (off + lsr_size) info st) (\<lambda>ks.
              Returns (map_option (\<lambda>ks. if wanted then key # ks else ks) ks))))))
     else Returns (Some []))"
  by auto
termination by (relation "measure (\<lambda>(off, info, st). payloadSize info - off)") (auto simp: lsr_size_def)

declare readRequests.simps [simp del]

definition processLSRequest :: "HeaderInfo \<Rightarrow> OspfInterface \<Rightarrow> OspfInterface outcome" where
  "processLSRequest info st = (if payloadSize info mod 12 \<noteq> 0 then Returns st
     else obind (readRequests 0 info st) (\<lambda>ks. case ks of
         None \<Rightarrow> Returns st
       | Some ks \<Rightarrow> Returns (if_call (SendReliableLSUpdate (hi_rid info) ks) st)))"

section \<open>Updates\<close>

definition verifyOspfFletcher :: "u8 list \<Rightarrow> nat \<Rightarrow> bool outcome" where
  "verifyOspfFletcher lsa len = (if len < 20 then Returns False
     else if length lsa < len then Undefined
     else Returns (finalize (addBytes (take (len - 2) (drop 2 lsa)) Fletcher_new) = 0))"

definition buildLsaBody :: "u8 \<Rightarrow> u8 list \<Rightarrow> u16 \<Rightarrow> u32 \<Rightarrow> OspfInterface \<Rightarrow> LsaBody option outcome" where
  "buildLsaBody ty buf len lsId st =
     (if ty = 1 then defined (map_option (map_option Body_RouterLsaV2) (RouterLsaV2_build buf len))
      else if ty = 2 then defined (map_option (map_option Body_NetworkLsaV2) (NetworkLsaV2_build buf len))
      else if ty = 3 then defined (map_option (map_option Body_SummaryNetworkLsa) (SummaryNetworkLsa_build buf len))
      else if ty = 4 then defined (map_option (map_option Body_SummaryRouterLsa) (SummaryRouterLsa_build buf len))
      else if ty = 5 \<or> ty = 7 then defined (map_option (map_option Body_ExternalLsaV2) (ExternalLsaV2_build buf len))
      else if ty = 9 \<or> ty = 10 \<or> ty = 11
      then (if \<not> opaqueEnabled st then Returns None
            else defined (map_option (\<lambda>b. Some (Body_OpaqueLsaV2 b)) (OpaqueLsaV2_build lsId buf len)))
      else Returns None)"

text \<open>The loop over the advertisements of an update: \<open>i\<close> of them are left, \<open>acks\<close> are to be acknowledged. A result that is
  to be acknowledged without a record is a null pointer. The first component is \<open>None\<close> when the handler returns early.\<close>

function updateLoop :: "IfEnv \<Rightarrow> RxCfg \<Rightarrow> nat \<Rightarrow> HeaderInfo \<Rightarrow> int \<Rightarrow> nat \<Rightarrow> LsaKey list \<Rightarrow> OspfInterface
    \<Rightarrow> (LsaKey list option \<times> OspfInterface) outcome" where
  "updateLoop env cfg now info i off acks st = (if i \<le> 0 then Returns (Some acks, st)
     else if off + lsa_hdr_size > payloadSize info then Returns (None, st)
     else obind (readLsaHeader off (hi_payload info)) (\<lambda>(key, hdr). let len = unat (lsa_length hdr) in
       if len < lsa_hdr_size then Returns (None, st)
       else if off + len > payloadSize info then Returns (None, st)
       else obind (verifyOspfFletcher (drop off (hi_payload info)) len) (\<lambda>valid.
         obind (buildLsaBody (ucast (key_type key)) (drop (off + lsa_hdr_size) (hi_payload info)) (lsa_length hdr - 20) (linkStateId key) st)
           (\<lambda>b. case b of
              None \<Rightarrow> updateLoop env cfg now info (i - 1) (off + len) acks st
            | Some b \<Rightarrow> let
                ctx = \<lparr>ctx_key = key, ctx_header = hdr, incomingInterface = interfaceId cfg, incomingNeighbor = hi_rid info,
                       checksumValid = valid, selfOriginatedKey = (advertisingRouter (key_adv key) = selfRid env), info_reason = REFRESH\<rparr>;
                (result, ar) = processLsa (areaEnv env) now ctx b (if_area st);
                st = st\<lparr>if_area := ar\<rparr>
              in case result of
                   Some r \<Rightarrow> if shouldAck (decision r)
                     then (case res_record r of None \<Rightarrow> Undefined
                       | Some k \<Rightarrow> updateLoop env cfg now info (i - 1) (off + len) (acks @ [k]) st)
                     else updateLoop env cfg now info (i - 1) (off + len) acks st
                 | None \<Rightarrow> updateLoop env cfg now info (i - 1) (off + len) acks st))))"
  by auto
termination by (relation "measure (\<lambda>(env, cfg, now, info, i, off, acks, st). nat i)") auto

declare updateLoop.simps [simp del]

definition processLSUpdate :: "IfEnv \<Rightarrow> RxCfg \<Rightarrow> nat \<Rightarrow> HeaderInfo \<Rightarrow> OspfInterface \<Rightarrow> OspfInterface outcome" where
  "processLSUpdate env cfg now info st = (case al_get (neighbors st) (hi_rid info) of None \<Rightarrow> Undefined | Some n \<Rightarrow>
     if payloadSize info < 4 then Returns st
     else if nstate_rank (nstate n) < nstate_rank EXCHANGE then Returns st
     else obind (rd32 0 (hi_payload info)) (\<lambda>lsuSize. obind (updateLoop env cfg now info (sint lsuSize) 4 [] st)
       (\<lambda>(acks, st). Returns (case acks of None \<Rightarrow> st
          | Some acks \<Rightarrow> if acks = [] then st else if_call (SendLSAck (hi_rid info) acks) st))))"

section \<open>The common header\<close>

definition ospf_hdr_size :: nat where
  "ospf_hdr_size = 24"

definition processOspfSimpleAuthentication :: "RxCfg \<Rightarrow> u8 list \<Rightarrow> bool outcome" where
  "processOspfSimpleAuthentication cfg pkt = (case authKey cfg of
     None \<Rightarrow> Returns True
   | Some secret \<Rightarrow> obind (rd16 14 pkt) (\<lambda>ty. if ty \<noteq> 1 then Returns False
       else if length pkt < ospf_hdr_size then Undefined
       else Returns (take 8 (drop 16 pkt) = be_bytes 8 secret)))"

text \<open>The sum skips the two bytes of the field; the length is not checked to be at least 14.\<close>

definition checksumMatches :: "nat \<Rightarrow> u16 \<Rightarrow> u8 list \<Rightarrow> bool outcome" where
  "checksumMatches len ck pkt = (if len < 14 \<or> length pkt < len then Undefined
     else Returns (finalize (addBytes (take (len - 14) (drop 14 pkt)) (addBytes (take 12 pkt) Fletcher_new)) = ck))"

definition dispatch :: "IfEnv \<Rightarrow> RxCfg \<Rightarrow> nat \<Rightarrow> u8 \<Rightarrow> HeaderInfo \<Rightarrow> bool \<Rightarrow> OspfInterface \<Rightarrow> OspfInterface outcome" where
  "dispatch env cfg now ty info multicast st = (
     if ty = 1
     then (case al_get (neighbors st) (hi_rid info) of
         Some n \<Rightarrow> if unicast n = multicast then Returns st else processHello env cfg now info (\<not> multicast) st
       | None \<Rightarrow> processHello env cfg now info (\<not> multicast) st)
     else if al_get (neighbors st) (hi_rid info) = None then Returns st
     else if ty = 2 then processDBD env cfg now info st
     else if ty = 5 then processLSAck info st
     else if ty = 3 then processLSRequest info st
     else processLSUpdate env cfg now info st)"

definition handleIncoming :: "(u8 list \<Rightarrow> OspfInterface \<Rightarrow> bool outcome) \<Rightarrow> IfEnv \<Rightarrow> RxCfg \<Rightarrow> nat \<Rightarrow> u8 list \<Rightarrow> nat \<Rightarrow> IPAddress \<Rightarrow> bool
    \<Rightarrow> OspfInterface \<Rightarrow> OspfInterface outcome" where
  "handleIncoming crypto env cfg now pkt trail ip multicast st =
     obind (rd8 0 pkt) (\<lambda>version. obind (rd8 1 pkt) (\<lambda>ty. obind (rd16 2 pkt) (\<lambda>len. obind (rd32 4 pkt) (\<lambda>rid.
     obind (rd32 8 pkt) (\<lambda>ar. obind (rd16 12 pkt) (\<lambda>ck.
       if passiveMode env then Returns st
       else if version \<noteq> 2 then Returns st
       else if ar \<noteq> areaId cfg then Returns st
       else if unat len > ospf_hdr_size + trail then Returns st
       else obind (case authType cfg of
           CRYPTO \<Rightarrow> crypto pkt st
         | SIMPLE \<Rightarrow> obind (processOspfSimpleAuthentication cfg pkt) (\<lambda>ok. if ok then checksumMatches (unat len) ck pkt else Returns False)
         | NULL_AUTH \<Rightarrow> checksumMatches (unat len) ck pkt)
         (\<lambda>ok. if \<not> ok then Returns st
            else if rid = selfRid env then Returns st
            else if ty < 1 \<or> ty > 5 then Returns st
            else dispatch env cfg now ty \<lparr>hi_rid = rid, neighborIp = ip, hi_payload = drop ospf_hdr_size pkt, payloadSize = unat len\<rparr>
                   multicast st)))))))"

section \<open>Reachable states\<close>

definition if_start :: "OspfInterface \<Rightarrow> bool" where
  "if_start st \<longleftrightarrow> neighbors st = [] \<and> fst (dr st) = 0 \<and> fst (bdr st) = 0"

text \<open>What happens to an interface: packets, timers and the change of the passive mode, in which each event may find it.\<close>

inductive rx_reachable :: "(u8 list \<Rightarrow> OspfInterface \<Rightarrow> bool outcome) \<Rightarrow> IfEnv \<Rightarrow> RxCfg \<Rightarrow> OspfInterface \<Rightarrow> bool"
  for crypto env cfg where
  start: "if_start st \<Longrightarrow> rx_reachable crypto env cfg st"
| packet: "rx_reachable crypto env cfg st \<Longrightarrow> handleIncoming crypto (env\<lparr>passiveMode := pm\<rparr>) cfg now pkt trail ip mc st = Returns st'
    \<Longrightarrow> rx_reachable crypto env cfg st'"
| hello: "rx_reachable crypto env cfg st \<Longrightarrow> rx_reachable crypto env cfg (onHelloTimer (env\<lparr>passiveMode := pm\<rparr>) st)"
| inactive: "rx_reachable crypto env cfg st \<Longrightarrow> handleInactiveTimeExpire env now rid st = Returns st'
    \<Longrightarrow> rx_reachable crypto env cfg st'"
| delete: "rx_reachable crypto env cfg st \<Longrightarrow> deleteNeighbor env now rid st = Returns st' \<Longrightarrow> rx_reachable crypto env cfg st'"
| passivity: "rx_reachable crypto env cfg st \<Longrightarrow> setPassiveMode (env\<lparr>passiveMode := pm\<rparr>) now pm st = Returns st'
    \<Longrightarrow> rx_reachable crypto env cfg st'"
| pacing: "rx_reachable crypto env cfg st \<Longrightarrow> onLsrPacingTimer env rid st = Returns st' \<Longrightarrow> rx_reachable crypto env cfg st'"

section \<open>The table stays well formed\<close>

definition table_ok :: "IfEnv \<Rightarrow> OspfInterface \<Rightarrow> bool" where
  "table_ok env st \<longleftrightarrow> al_wf (neighbors st) \<and> al_get (neighbors st) (selfRid env) = None
     \<and> (\<forall>rid n. al_get (neighbors st) rid = Some n \<longrightarrow> routerID n = rid)"

definition members :: "OspfInterface \<Rightarrow> (u32 \<times> u32) list" where
  "members st = map (\<lambda>(r, n). (r, routerID n)) (neighbors st)"

lemma al_get_members: "al_get (members st) r = map_option routerID (al_get (neighbors st) r)"
proof -
  have "al_get (map (\<lambda>(r, n). (r, routerID n)) ns) r = map_option routerID (al_get ns r)" for ns
    by (induction ns) auto
  thus ?thesis by (simp add: members_def)
qed

lemma table_ok_members:
  "table_ok env st \<longleftrightarrow> al_wf (members st) \<and> al_get (members st) (selfRid env) = None \<and> (\<forall>rid r. al_get (members st) rid = Some r \<longrightarrow> r = rid)"
proof -
  have "map fst (members st) = map fst (neighbors st)" by (simp add: members_def case_prod_unfold comp_def)
  thus ?thesis by (auto simp: table_ok_def al_get_members)
qed

lemma members_roster: "roster st' = roster st \<Longrightarrow> members st' = members st"
proof -
  assume "roster st' = roster st"
  hence "map (\<lambda>(r, x, y). (r, x)) (snd (roster st')) = map (\<lambda>(r, x, y). (r, x)) (snd (roster st))" by simp
  thus ?thesis by (simp add: roster_def members_def case_prod_unfold comp_def)
qed

lemma table_ok_cong: "members st' = members st \<Longrightarrow> table_ok env st' = table_ok env st"
  by (simp add: table_ok_members)

lemma members_upd: "(\<And>n. routerID (f n) = routerID n) \<Longrightarrow> members (upd_nbr rid f st) = members st"
  by (auto simp: members_def upd_nbr_def map_al_put split: option.splits)

lemma members_simps [simp]:
  "members (st\<lparr>demandCircuit := d\<rparr>) = members st" "members (st\<lparr>opaqueEnabled := b\<rparr>) = members st"
  "members (st\<lparr>dr := x\<rparr>) = members st" "members (st\<lparr>bdr := x\<rparr>) = members st"
  "members (st\<lparr>isDr := b\<rparr>) = members st" "members (st\<lparr>isBdr := b\<rparr>) = members st"
  "members (st\<lparr>if_area := ar\<rparr>) = members st" "members (st\<lparr>helloTimer := b\<rparr>) = members st"
  "members (if_call c st) = members st"
  by (simp_all add: members_def)

lemma members_neighbor_updates [simp]:
  "members (upd_nbr rid (priority_update f1) st) = members st" "members (upd_nbr rid (role_update f2) st) = members st"
  "members (upd_nbr rid (currentSeq_update f3) st) = members st" "members (upd_nbr rid (lsrs_update f4) st) = members st"
  "members (upd_nbr rid (lsus_update f5) st) = members st"
  "members (upd_nbr rid (\<lambda>n. n\<lparr>priority := p, nbr_dr := d, nbr_bdr := b\<rparr>) st) = members st"
  by (simp_all add: members_upd)

lemmas members_by_roster = roster_startInactive [THEN members_roster] roster_sendInitDBD [THEN members_roster]
  roster_sendDBD [THEN members_roster] roster_stopHello [THEN members_roster] roster_cancel [THEN members_roster]

lemma members_set_state: "set_state env now rid s st = Returns st' \<Longrightarrow> members st' = members st"
  by (intro members_roster set_state_roster)

lemma members_restart: "restartTwoWay env now rids st = Returns st' \<Longrightarrow> members st' = members st"
  using restartTwoWay_returns [of env now rids st] by (auto intro: members_roster)

lemma members_designate [simp]: "members (setDr d st) = members st" "members (setBdr d st) = members st"
  by (simp_all add: setDr_def setBdr_def split: option.splits)

lemma members_election: "election env now st = Returns st' \<Longrightarrow> members st' = members st"
  by (auto simp: election_def Let_def obind_Returns_iff dest!: members_restart split: if_splits prod.splits)

lemma members_processOptions: "processOptions env cfg o' st = (ok, st') \<Longrightarrow> members st' = members st"
  by (auto simp: processOptions_def Let_def split: if_splits)

lemma members_helloValues: "helloValues env now rid p d b st = Returns st' \<Longrightarrow> members st' = members st"
  by (auto simp: helloValues_def Let_def members_by_roster dest!: members_election split: if_splits)

lemma members_twoWay:
  "(if c then set_state env now rid s st else Returns st) = Returns st' \<Longrightarrow> members st' = members st"
  by (auto split: if_splits dest: members_set_state)

text \<open>What holds of the result, if the operation returns one: a weakest precondition of \<open>outcome\<close>.\<close>

definition wlp :: "('a \<Rightarrow> bool) \<Rightarrow> 'a outcome \<Rightarrow> bool" where
  "wlp P x \<longleftrightarrow> (\<forall>a. x = Returns a \<longrightarrow> P a)"

lemma wlp_simps [simp]: "wlp P (Returns a) = P a" "wlp P Undefined" "wlp P Diverges"
  by (simp_all add: wlp_def)

lemma wlp_bind: "wlp (\<lambda>a. wlp P (f a)) x \<Longrightarrow> wlp P (obind x f)"
  by (auto simp: wlp_def obind_Returns_iff)

lemma wlp_obind: "wlp (\<lambda>a. wlp P (f a)) x \<Longrightarrow> wlp P (obind x f)" for x :: "OspfInterface outcome"
  by (rule wlp_bind)

lemma wlp_mono: "wlp Q x \<Longrightarrow> (\<And>a. Q a \<Longrightarrow> P a) \<Longrightarrow> wlp P x"
  by (auto simp: wlp_def)

lemma wlp_if: "(b \<Longrightarrow> wlp P x) \<Longrightarrow> (\<not> b \<Longrightarrow> wlp P y) \<Longrightarrow> wlp P (if b then x else y)"
  by simp

text \<open>Reads do not change the state: what follows one is shown for every value read.\<close>

lemma wlp_read:
  fixes x :: "'w::len word outcome" and y :: "bool outcome" and z :: "(LsaKey \<times> LsaHeader) outcome"
    and w :: "LsaBody option outcome"
  shows "(\<And>a. wlp P (f a)) \<Longrightarrow> wlp P (obind x f)" "(\<And>a. wlp P (g a)) \<Longrightarrow> wlp P (obind y g)"
    "(\<And>a. wlp P (h a)) \<Longrightarrow> wlp P (obind z h)" "(\<And>a. wlp P (k a)) \<Longrightarrow> wlp P (obind w k)"
  by (auto simp: wlp_def obind_Returns_iff)

lemma wlp_set_state: "members st = m \<Longrightarrow> wlp (\<lambda>s. members s = m) (set_state env now rid x st)"
  by (auto simp: wlp_def dest: members_set_state)

lemma wlp_helloValues: "members st = m \<Longrightarrow> wlp (\<lambda>s. members s = m) (helloValues env now rid p d b st)"
  by (auto simp: wlp_def dest: members_helloValues)

lemma members_options_step [simp]: "members (snd (processOptions env cfg opt st)) = members st"
  by (cases "processOptions env cfg opt st") (auto dest: members_processOptions)

lemma wlp_helloNeighbor: "members st = m \<Longrightarrow> wlp (\<lambda>s. members s = m) (helloNeighbor env cfg now info st)"
  unfolding helloNeighbor_def Let_def case_prod_unfold
  by (intro wlp_read wlp_if wlp_obind wlp_set_state wlp_mono [OF wlp_set_state] wlp_helloValues)
    (auto intro: wlp_helloValues)

lemma wlp_dropNeighbor: "members st = m \<Longrightarrow> wlp (\<lambda>s. members s = m) (dropNeighbor env now rid st)"
  by (auto simp: dropNeighbor_def intro: wlp_set_state split: option.splits)

lemma wlp_processInit: "members st = m \<Longrightarrow> wlp (\<lambda>s. members s = m) (processInit env now info sn n st)"
  unfolding processInit_def Let_def
  by (intro wlp_if wlp_obind wlp_set_state wlp_mono [OF wlp_set_state]) (auto simp: members_by_roster intro: wlp_set_state)

lemma wlp_collectRequests: "members st = m \<Longrightarrow> wlp (\<lambda>s. members s = m) (collectRequests rid off lim buf st)"
proof (induction rid off lim buf st rule: collectRequests.induct)
  case (1 rid off lim buf st)
  show ?case
    by (subst collectRequests.simps)
      (auto simp: 1 intro!: wlp_read split: prod.splits option.splits)
qed

lemma wlp_processDescription: "members st = m \<Longrightarrow> wlp (\<lambda>s. members s = m) (processDescription env now info fm st)"
  unfolding processDescription_def Let_def
  by (rule wlp_obind, rule wlp_mono [OF wlp_collectRequests])
    (auto simp: members_by_roster intro: wlp_set_state split: option.splits)

lemma wlp_processDBD: "members st = m \<Longrightarrow> wlp (\<lambda>s. members s = m) (processDBD env cfg now info st)"
  unfolding processDBD_def Let_def case_prod_unfold
  by (auto intro!: wlp_read wlp_obind wlp_set_state wlp_mono [OF wlp_processInit] wlp_mono [OF wlp_processDescription]
      split: option.splits)

lemma wlp_processLSAck: "members st = m \<Longrightarrow> wlp (\<lambda>s. members s = m) (processLSAckFrom off info st)"
proof (induction off info st rule: processLSAckFrom.induct)
  case (1 off info st)
  show ?case
    by (subst processLSAckFrom.simps)
      (auto simp: 1 intro!: wlp_read split: prod.splits option.splits)
qed

lemma wlp_updateLoop: "members st = m \<Longrightarrow> wlp (\<lambda>(acks, s). members s = m) (updateLoop env cfg now info i off acks st)"
proof (induction "nat i" arbitrary: i off acks st)
  case 0
  then show ?case by (subst updateLoop.simps) simp
next
  case (Suc n)
  have "wlp (\<lambda>(acks, s). members s = m) (updateLoop env cfg now info (i - 1) off acks (st\<lparr>if_area := ar\<rparr>))"
    "wlp (\<lambda>(acks, s). members s = m) (updateLoop env cfg now info (i - 1) off acks st)" for off acks ar
    using Suc by simp_all
  thus ?case
    by (subst updateLoop.simps) (auto simp: Suc.prems Let_def intro!: wlp_read split: prod.splits option.splits)
qed

lemma wlp_processLSUpdate: "members st = m \<Longrightarrow> wlp (\<lambda>s. members s = m) (processLSUpdate env cfg now info st)"
  unfolding processLSUpdate_def
  by (auto intro!: wlp_read wlp_bind [OF wlp_mono [OF wlp_updateLoop]] split: option.splits)

lemma wlp_processLSRequest: "members st = m \<Longrightarrow> wlp (\<lambda>s. members s = m) (processLSRequest info st)"
  unfolding processLSRequest_def Let_def
  by (auto simp: wlp_def obind_Returns_iff split: option.splits if_splits)

text \<open>The table afterwards: as before, or with the sender of a hello.\<close>

lemma members_createNeighbor:
  "al_get (neighbors st) rid = None \<Longrightarrow> members (createNeighbor s p sn mtu rid ip uni st) = al_put rid rid (members st)"
proof -
  have "al_get ns rid = None \<Longrightarrow> map (\<lambda>(r, n). (r, routerID n)) (al_put rid n ns) = al_put rid (routerID n) (map (\<lambda>(r, n). (r, routerID n)) ns)"
    for ns :: "(u32 \<times> Neighbor) list" and n
    by (induction ns) auto
  thus "al_get (neighbors st) rid = None \<Longrightarrow> members (createNeighbor s p sn mtu rid ip uni st) = al_put rid rid (members st)"
    by (simp add: createNeighbor_def members_def)
qed

lemma table_ok_put: "table_ok env st \<Longrightarrow> rid \<noteq> selfRid env \<Longrightarrow> members st' = al_put rid rid (members st) \<Longrightarrow> table_ok env st'"
  unfolding table_ok_members by (simp add: al_wf_put)

lemma wlp_table: "wlp (\<lambda>s. members s = members st) x \<Longrightarrow> table_ok env st \<Longrightarrow> wlp (table_ok env) x"
  by (erule wlp_mono) (metis table_ok_cong)

lemma wlp_processHello:
  assumes "table_ok env st" "hi_rid info \<noteq> selfRid env"
  shows "wlp (table_ok env) (processHello env cfg now info uni st)"
proof -
  have hello: "wlp (table_ok env) (helloNeighbor env cfg now info s)" if "table_ok env s" for s
    using that by (intro wlp_table [OF wlp_helloNeighbor]) auto
  have drop: "wlp (table_ok env) (dropNeighbor env now rid st)" for rid
    using assms(1) by (intro wlp_table [OF wlp_dropNeighbor]) auto
  have "wlp (table_ok env) (case al_get (neighbors st) (hi_rid info) of
      None \<Rightarrow> Returns (createNeighbor (newState cfg) (newPriority cfg) (newSequence cfg) (ifMtu cfg) (hi_rid info) (neighborIp info) uni st)
    | Some n \<Rightarrow> if uni \<and> (nstate n = DOWN \<or> nstate n = ATTEMPT) then set_state env now (hi_rid info) INIT st else Returns st)"
    using assms by (auto intro!: table_ok_put [OF assms members_createNeighbor] wlp_table [OF wlp_set_state] split: option.splits)
  hence "wlp (\<lambda>s. wlp (table_ok env) (helloNeighbor env cfg now info s)) (case al_get (neighbors st) (hi_rid info) of
      None \<Rightarrow> Returns (createNeighbor (newState cfg) (newPriority cfg) (newSequence cfg) (ifMtu cfg) (hi_rid info) (neighborIp info) uni st)
    | Some n \<Rightarrow> if uni \<and> (nstate n = DOWN \<or> nstate n = ATTEMPT) then set_state env now (hi_rid info) INIT st else Returns st)"
    by (rule wlp_mono) (rule hello)
  thus ?thesis
    using assms(1) unfolding processHello_def Let_def by (intro wlp_if wlp_read wlp_obind drop) auto
qed

lemma wlp_dispatch:
  assumes "table_ok env st" "hi_rid info \<noteq> selfRid env"
  shows "wlp (table_ok env) (dispatch env cfg now ty info mc st)"
  using assms unfolding dispatch_def processLSAck_def
  by (auto intro!: wlp_processHello wlp_table [OF wlp_processDBD] wlp_table [OF wlp_processLSAck]
      wlp_table [OF wlp_processLSRequest] wlp_table [OF wlp_processLSUpdate] split: option.splits)

lemma wlp_handleIncoming:
  assumes "table_ok env st"
  shows "wlp (table_ok env) (handleIncoming crypto env cfg now pkt trail ip mc st)"
  unfolding handleIncoming_def
  by (intro wlp_read wlp_if wlp_dispatch) (use assms in auto)

lemma members_setAllDown: "setAllDown env now rids st = Returns st' \<Longrightarrow> members st' = members st"
  by (induction rids arbitrary: st) (auto simp: obind_Returns_iff members_by_roster dest!: members_set_state)

lemma members_hello_sent [simp]: "members (startHello env st) = members st" "members (onHelloTimer env st) = members st"
proof -
  have f: "members (fold (\<lambda>(rid, n) st. if unicast n then if_call (SendUnicastHello rid) st else st) ns st) = members st" for ns st
    by (induction ns arbitrary: st) (auto split: prod.splits)
  show s: "members (startHello env st) = members st" for st
    by (simp add: startHello_def scheduleHello_def sendHello_def f)
  show "members (onHelloTimer env st) = members st" by (simp add: onHelloTimer_def s)
qed

lemma table_ok_delete: "table_ok env st \<Longrightarrow> table_ok env (st\<lparr>neighbors := al_del rid (neighbors st)\<rparr>)"
  by (auto simp: table_ok_def)

lemma table_ok_env [simp]: "table_ok (env\<lparr>passiveMode := pm\<rparr>) st = table_ok env st"
  by (simp add: table_ok_def)

lemma rx_table_ok: "rx_reachable crypto env cfg st \<Longrightarrow> table_ok env st"
proof (induction rule: rx_reachable.induct)
  case (start st)
  then show ?case by (simp add: if_start_def table_ok_def)
next
  case (packet st pm now pkt trail ip mc st')
  then show ?case using wlp_handleIncoming [of "env\<lparr>passiveMode := pm\<rparr>" st] by (auto simp: wlp_def)
next
  case (hello st pm)
  then show ?case using members_hello_sent(2) [THEN table_ok_cong] by metis
next
  case (inactive st now rid st')
  then show ?case unfolding handleInactiveTimeExpire_def by (metis members_set_state table_ok_cong)
next
  case (delete st now rid st')
  then show ?case
    by (auto simp: deleteNeighbor_def obind_Returns_iff intro!: table_ok_delete dest!: members_set_state table_ok_cong
        split: option.splits)
next
  case (passivity st pm now st')
  then show ?case
    by (auto simp: setPassiveMode_def obind_Returns_iff members_by_roster dest!: members_setAllDown
        intro!: table_ok_cong [THEN iffD2, of _ st] split: if_splits)
next
  case (pacing st rid st')
  then show ?case using members_roster [OF roster_onLsrPacingTimer] by (metis table_ok_cong)
qed

section \<open>No adjacency\<close>

definition quiet :: "OspfInterface \<Rightarrow> bool" where
  "quiet st \<longleftrightarrow> (\<forall>rid s. get_state st rid = Some s \<longrightarrow> s = DOWN) \<and> fst (dr st) = 0 \<and> fst (bdr st) = 0"

text \<open>The OSPFv2 option bits are the low eight, the ones tested are above them.\<close>

lemma no_option_in_byte: "\<not> testOption (ucast (x :: u8)) n"
  unfolding testOption_def testBit_def bit_iff_and_push_bit_not_eq_0 [symmetric]
  by (auto simp: bit_unsigned_iff OPTIONS_BASE_def dest: bit_imp_le_length)

lemma processOptions_fails: "getExternalRouting (areaFlags cfg) \<Longrightarrow> fst (processOptions env cfg (ucast (x :: u8)) st) = False"
  by (simp add: processOptions_def Let_def getExternalRouting_def no_option_in_byte)

lemma options_keep [simp]:
  "neighbors (snd (processOptions env cfg x st)) = neighbors st" "dr (snd (processOptions env cfg x st)) = dr st"
  "bdr (snd (processOptions env cfg x st)) = bdr st"
  by (simp_all add: processOptions_def Let_def)

lemma get_state_upd: "get_state (upd_nbr rid f st) r = (if r = rid then map_option (\<lambda>n. nstate (f n)) (al_get (neighbors st) r) else get_state st r)"
  by (simp add: get_state_def get_upd option.map_comp comp_def)

lemma get_state_frame [simp]:
  "get_state (if_call c st) = get_state st" "get_state (st\<lparr>if_area := a\<rparr>) = get_state st" "get_state (st\<lparr>helloTimer := b\<rparr>) = get_state st"
  by (auto simp: get_state_def)

lemma set_state_down:
  assumes "set_state env now rid s st = Returns st'" "s = DOWN \<or> s = INIT"
  shows "get_state st' r = (if r = rid then Some s else get_state st r)" "dr st' = dr st" "bdr st' = bdr st"
proof -
  from set_state_roster [OF assms(1)] show "dr st' = dr st" "bdr st' = bdr st" by (auto simp: roster_def)
  from assms show "get_state st' r = (if r = rid then Some s else get_state st r)"
    by (auto simp: set_state_def setState.simps [of env now rid s] Let_def setState_end_def setDown_def put_state_def get_state_upd
        get_upd split: option.splits)
qed

text \<open>All but one are down, and that one is put down.\<close>

definition quiet_but :: "u32 \<Rightarrow> OspfInterface \<Rightarrow> bool" where
  "quiet_but rid st \<longleftrightarrow> (\<forall>r s. r \<noteq> rid \<longrightarrow> get_state st r = Some s \<longrightarrow> s = DOWN) \<and> fst (dr st) = 0 \<and> fst (bdr st) = 0"

lemma quiet_quiet_but: "quiet st \<Longrightarrow> quiet_but rid st"
  by (simp add: quiet_def quiet_but_def)

lemma wlp_down: "quiet_but rid st \<Longrightarrow> wlp quiet (set_state env now rid DOWN st)"
  by (auto simp: wlp_def quiet_def quiet_but_def set_state_down)

lemma wlp_init: "quiet st \<Longrightarrow> wlp (\<lambda>s. quiet_but rid s \<and> get_state s rid \<noteq> Some FULL) (set_state env now rid INIT st)"
  by (auto simp: wlp_def quiet_def quiet_but_def set_state_down)

lemma quiet_but_options [simp]: "quiet_but rid (snd (processOptions env cfg x st)) = quiet_but rid st"
  by (simp add: quiet_but_def get_state_def)

lemma wlp_quiet_helloNeighbor:
  assumes "getExternalRouting (areaFlags cfg)" "quiet_but (hi_rid info) st" "get_state st (hi_rid info) \<noteq> Some FULL"
  shows "wlp quiet (helloNeighbor env cfg now info st)"
  using assms unfolding helloNeighbor_def Let_def case_prod_unfold
  by (intro wlp_read) (simp add: processOptions_fails wlp_down)

lemma quiet_state: "quiet st \<Longrightarrow> al_get (neighbors st) rid = Some n \<Longrightarrow> nstate n = DOWN"
  by (auto simp: quiet_def get_state_def)

lemma quiet_not_full: "quiet st \<Longrightarrow> get_state st rid \<noteq> Some FULL"
  by (auto simp: quiet_def)

lemma created_quiet:
  assumes "quiet st" "al_get (neighbors st) rid = None" "s \<noteq> FULL"
  shows "quiet_but rid (createNeighbor s p sn mtu rid ip uni st) \<and> get_state (createNeighbor s p sn mtu rid ip uni st) rid \<noteq> Some FULL"
  using assms by (auto simp: createNeighbor_def quiet_def quiet_but_def get_state_def)

lemma wlp_quiet_processHello:
  assumes "getExternalRouting (areaFlags cfg)" "newState cfg \<noteq> FULL" "quiet st"
  shows "wlp quiet (processHello env cfg now info uni st)"
proof -
  have drop: "wlp quiet (dropNeighbor env now rid st)" for rid
    using assms(3) by (auto simp: dropNeighbor_def intro: wlp_down quiet_quiet_but split: option.splits)
  have "wlp (\<lambda>s. quiet_but (hi_rid info) s \<and> get_state s (hi_rid info) \<noteq> Some FULL) (case al_get (neighbors st) (hi_rid info) of
      None \<Rightarrow> Returns (createNeighbor (newState cfg) (newPriority cfg) (newSequence cfg) (ifMtu cfg) (hi_rid info) (neighborIp info) uni st)
    | Some n \<Rightarrow> if uni \<and> (nstate n = DOWN \<or> nstate n = ATTEMPT) then set_state env now (hi_rid info) INIT st else Returns st)"
    using assms created_quiet [OF assms(3) _ assms(2)]
    by (auto simp: quiet_quiet_but quiet_not_full quiet_state intro: wlp_init split: option.splits)
  hence "wlp (\<lambda>s. wlp quiet (helloNeighbor env cfg now info s)) (case al_get (neighbors st) (hi_rid info) of
      None \<Rightarrow> Returns (createNeighbor (newState cfg) (newPriority cfg) (newSequence cfg) (ifMtu cfg) (hi_rid info) (neighborIp info) uni st)
    | Some n \<Rightarrow> if uni \<and> (nstate n = DOWN \<or> nstate n = ATTEMPT) then set_state env now (hi_rid info) INIT st else Returns st)"
    by (rule wlp_mono) (use assms(1) in \<open>auto intro: wlp_quiet_helloNeighbor\<close>)
  thus ?thesis
    using assms(3) unfolding processHello_def Let_def by (intro wlp_if wlp_read wlp_obind drop) auto
qed

text \<open>An acknowledgement changes no state.\<close>

lemma quiet_cong: "get_state st' = get_state st \<Longrightarrow> dr st' = dr st \<Longrightarrow> bdr st' = bdr st \<Longrightarrow> quiet st' = quiet st"
  by (simp add: quiet_def)

lemma upd_nbr_frame [simp]: "dr (upd_nbr rid g st) = dr st" "bdr (upd_nbr rid g st) = bdr st"
  by (simp_all add: upd_nbr_def split: option.splits)

lemma quiet_upd: "(\<And>n. nstate (g n) = nstate n) \<Longrightarrow> quiet (upd_nbr rid g st) = quiet st"
  by (rule quiet_cong) (auto simp: get_state_def get_upd fun_eq_iff option.map_comp comp_def)

lemma quiet_call [simp]: "quiet (if_call c st) = quiet st" "quiet (st\<lparr>helloTimer := b\<rparr>) = quiet st"
  by (rule quiet_cong; simp add: if_call_def get_state_def fun_eq_iff)+

lemma wlp_quiet_processLSAck: "quiet st \<Longrightarrow> wlp quiet (processLSAckFrom off info st)"
proof (induction off info st rule: processLSAckFrom.induct)
  case (1 off info st)
  then show ?case
    by (subst processLSAckFrom.simps) (auto simp: quiet_upd intro!: wlp_read split: prod.splits option.splits)
qed

lemma wlp_quiet_dispatch:
  assumes "getExternalRouting (areaFlags cfg)" "newState cfg \<noteq> FULL" "quiet st"
  shows "wlp quiet (dispatch env cfg now ty info mc st)"
proof -
  have "wlp quiet (processDBD env cfg now info st)" "wlp quiet (processLSUpdate env cfg now info st)"
    using assms(3) by (auto simp: processDBD_def processLSUpdate_def Let_def nstate_rank_def quiet_state split: option.splits)
  moreover have "wlp quiet (processLSRequest info st)"
    using assms(3) by (auto simp: processLSRequest_def wlp_def obind_Returns_iff Let_def split: option.splits if_splits)
  ultimately show ?thesis
    using assms unfolding dispatch_def processLSAck_def
    by (auto intro!: wlp_quiet_processHello wlp_quiet_processLSAck split: option.splits)
qed

lemma wlp_quiet_handleIncoming:
  assumes "getExternalRouting (areaFlags cfg)" "newState cfg \<noteq> FULL" "quiet st"
  shows "wlp quiet (handleIncoming crypto env cfg now pkt trail ip mc st)"
  unfolding handleIncoming_def by (intro wlp_read wlp_if wlp_quiet_dispatch) (use assms in auto)

lemma quiet_cancel [simp]: "quiet (cancleInactiveTimer rid st) = quiet st"
  by (simp add: cancleInactiveTimer_def quiet_upd)

lemma quiet_setAllDown: "quiet st \<Longrightarrow> wlp quiet (setAllDown env now rids st)"
  by (induction rids arbitrary: st)
    (auto intro!: wlp_obind intro: wlp_mono [OF wlp_down [OF quiet_quiet_but]])

lemma quiet_stopHello: "quiet st \<Longrightarrow> quiet (stopHello st)"
proof -
  have "quiet s \<Longrightarrow> quiet (fold cancleInactiveTimer rids s)" for s rids
    by (induction rids arbitrary: s) auto
  thus "quiet st \<Longrightarrow> quiet (stopHello st)" by (simp add: stopHello_def cancelAllInactiveTimers_def)
qed

lemma quiet_startHello [simp]: "quiet (startHello env st) = quiet st"
proof -
  have "quiet (fold (\<lambda>(rid, n) st. if unicast n then if_call (SendUnicastHello rid) st else st) ns st) = quiet st" for ns :: "(u32 \<times> Neighbor) list" and st
    by (induction ns arbitrary: st) (auto split: prod.splits)
  thus ?thesis by (simp add: startHello_def scheduleHello_def sendHello_def)
qed

lemma quiet_del: "quiet st \<Longrightarrow> quiet (st\<lparr>neighbors := al_del rid (neighbors st)\<rparr>)"
  by (auto simp: quiet_def get_state_def split: if_splits)

lemma quiet_onLsrPacingTimer: "onLsrPacingTimer env rid st = Returns st' \<Longrightarrow> quiet st' = quiet st"
  by (auto simp: onLsrPacingTimer_def obind_Returns_iff Let_def quiet_upd split: option.splits if_splits)

lemma rx_quiet:
  assumes "rx_reachable crypto env cfg st" "getExternalRouting (areaFlags cfg)" "newState cfg \<noteq> FULL"
  shows "quiet st"
  using assms(1)
proof (induction rule: rx_reachable.induct)
  case (start st)
  then show ?case by (simp add: if_start_def quiet_def get_state_def)
next
  case (packet st pm now pkt trail ip mc st')
  then show ?case using wlp_quiet_handleIncoming [OF assms(2,3)] by (auto simp: wlp_def)
next
  case (hello st pm)
  then show ?case by (simp add: onHelloTimer_def)
next
  case (inactive st now rid st')
  then show ?case using wlp_down [OF quiet_quiet_but] unfolding handleInactiveTimeExpire_def wlp_def by blast
next
  case (delete st now rid st')
  then show ?case using wlp_down [OF quiet_quiet_but]
    by (auto simp: deleteNeighbor_def obind_Returns_iff wlp_def intro!: quiet_del split: option.splits)
next
  case (passivity st pm now st')
  then show ?case using quiet_setAllDown
    by (auto simp: setPassiveMode_def obind_Returns_iff wlp_def intro!: quiet_stopHello split: if_splits)
next
  case (pacing st rid st')
  then show ?case by (simp add: quiet_onLsrPacingTimer)
qed

section \<open>Properties\<close>

text \<open>(C20) In every state an interface reaches by packets, timers and changes of the passive mode, its neighbor table has one
  entry for each identifier, each under the identifier of its neighbor, and none for the router itself.\<close>

theorem neighbor_table_typed:
  assumes "rx_reachable crypto env cfg st"
  shows "al_wf (neighbors st) \<and> al_get (neighbors st) (selfRid env) = None
    \<and> (\<forall>rid n. al_get (neighbors st) rid = Some n \<longrightarrow> routerID n = rid)"
  using rx_table_ok [OF assms] by (simp add: table_ok_def)


text \<open>A description of the database of the length that the protocol prescribes, 24 bytes of header, 8 bytes and 20 for
  each advertisement, changes nothing: the length that is tested includes the header.\<close>

theorem well_formed_dbd_dropped:
  assumes "al_get (neighbors st) (hi_rid info) \<noteq> None" "payloadSize info = ospf_hdr_size + dbd_size + k * lsa_hdr_size"
  shows "processDBD env cfg now info st = Returns st"
proof -
  have "(payloadSize info - dbd_size) mod 20 = 4"
    using assms(2) by (simp add: ospf_hdr_size_def dbd_size_def lsa_hdr_size_def)
  with assms show ?thesis by (auto simp: processDBD_def Let_def dbd_size_def ospf_hdr_size_def)
qed

lemma older_result:
  assumes "checksumValid ctx" "lsdb_find (ctx_key ctx) (a_db s) = Some e" "compareLsaHeaders (ctx_header ctx) (header e) = OLDER" "preProcess env ctx b"
  shows "\<exists>r s'. processLsa env now ctx b s = (Some r, s') \<and> shouldAck (decision r) \<and> res_record r = None"
  using assms by (simp add: processLsa_def process_def evaluateIncomingLsa_def Let_def InstallResult_new_def installLsa_def)

text \<open>An update whose first advertisement is intact and older than the one stored is not answered: its acknowledgement is
  made from a record that was not looked up, a null pointer.\<close>

theorem older_advertisement_undefined:
  assumes "al_get (neighbors st) (hi_rid info) = Some n" "nstate n \<in> {EXCHANGE, LOADING, FULL}"
    and "rd32 0 (hi_payload info) = Returns cnt" "0 < sint cnt"
    and "readLsaHeader 4 (hi_payload info) = Returns (key, hdr)" "lsa_hdr_size \<le> unat (lsa_length hdr)"
    and "4 + unat (lsa_length hdr) \<le> payloadSize info"
    and "verifyOspfFletcher (drop 4 (hi_payload info)) (unat (lsa_length hdr)) = Returns True"
    and "buildLsaBody (ucast (key_type key)) (drop 24 (hi_payload info)) (lsa_length hdr - 20) (linkStateId key) st = Returns (Some b)"
    and "area_type (areaEnv env) = NORMAL" "key_type key \<noteq> nssaType (areaEnv env)"
    and "lsdb_find key (a_db (if_area st)) = Some e" "compareLsaHeaders hdr (header e) = OLDER"
  shows "processLSUpdate env cfg now info st = Undefined"
proof -
  let ?ctx = "\<lparr>ctx_key = key, ctx_header = hdr, incomingInterface = interfaceId cfg, incomingNeighbor = hi_rid info,
    checksumValid = True, selfOriginatedKey = (advertisingRouter (key_adv key) = selfRid env), info_reason = REFRESH\<rparr>"
  have pre: "preProcess (areaEnv env) ?ctx b" using assms(10,11) by (simp add: preProcess_def Let_def)
  obtain r s' where r: "processLsa (areaEnv env) now ?ctx b (if_area st) = (Some r, s')" "shouldAck (decision r)" "res_record r = None"
    using older_result [of ?ctx "if_area st" e "areaEnv env" b now] pre assms(12,13) by auto
  have "updateLoop env cfg now info (sint cnt) 4 [] st = Undefined"
    using assms(4-9) r by (subst updateLoop.simps) (simp add: Let_def lsa_hdr_size_def)
  moreover have "\<not> nstate_rank (nstate n) < nstate_rank EXCHANGE" using assms(2) by (auto simp: nstate_rank_def)
  moreover have "\<not> payloadSize info < 4" using assms(7) by simp
  ultimately show ?thesis using assms(1,3) by (simp add: processLSUpdate_def)
qed

section \<open>Witnesses\<close>

definition ex_rxcfg :: RxCfg where
  "ex_rxcfg = \<lparr>helloInterval = 10, deadInterval = 40, ifMask = 0xFFFFFF00, mtuIgnore = False, dcIgnore = False, ifFlags = 0,
     areaFlags = 0x200, afIPv4 = True, ifMtu = 1500, interfaceId = 1, areaId = 0, authType = NULL_AUTH, authKey = None,
     newState = DOWN, newPriority = 0, newSequence = 0\<rparr>"

definition ex_hello :: "u8 list" where
  "ex_hello = [2, 1, 0, 44, 0, 0, 0, 2, 0, 0, 0, 0, 167, 102, 0, 0, 0, 0, 0, 0, 0, 0, 0, 0, 255, 255, 255, 0, 0, 10, 2, 1, 0, 0, 0, 40, 0, 0, 0, 0, 0, 0, 0, 0]"

definition ex_hello_if :: OspfInterface where
  "ex_hello_if = (case handleIncoming (\<lambda>_ _. Returns False) ex_ifenv ex_rxcfg 0 ex_hello 20 \<lparr>raw = 7\<rparr> True (ex_if\<lparr>neighbors := []\<rparr>) of
     Returns st \<Rightarrow> st | _ \<Rightarrow> ex_if)"

lemma ex_hello_reached:
  "rx_reachable (\<lambda>_ _. Returns False) ex_ifenv ex_rxcfg ex_hello_if" "map fst (neighbors ex_hello_if) = [2]"
proof -
  let ?r = "handleIncoming (\<lambda>_ _. Returns False) ex_ifenv ex_rxcfg 0 ex_hello 20 \<lparr>raw = 7\<rparr> True (ex_if\<lparr>neighbors := []\<rparr>)"
  have k: "case ?r of Returns st \<Rightarrow> map fst (neighbors st) = [2] | _ \<Rightarrow> False" by code_simp
  then obtain st where st: "?r = Returns st" by (cases ?r) auto
  have e: "ex_ifenv\<lparr>passiveMode := False\<rparr> = ex_ifenv" by (simp add: ex_ifenv_def)
  have "if_start (ex_if\<lparr>neighbors := []\<rparr>)" by (simp add: if_start_def ex_if_def)
  hence "rx_reachable (\<lambda>_ _. Returns False) ex_ifenv ex_rxcfg (ex_if\<lparr>neighbors := []\<rparr>)" by (rule rx_reachable.start)
  moreover have "handleIncoming (\<lambda>_ _. Returns False) (ex_ifenv\<lparr>passiveMode := False\<rparr>) ex_rxcfg 0 ex_hello 20 \<lparr>raw = 7\<rparr> True
      (ex_if\<lparr>neighbors := []\<rparr>) = Returns ex_hello_if"
    using st by (simp add: e ex_hello_if_def)
  ultimately show "rx_reachable (\<lambda>_ _. Returns False) ex_ifenv ex_rxcfg ex_hello_if" by (rule rx_reachable.packet)
  from k st show "map fst (neighbors ex_hello_if) = [2]" by (simp add: ex_hello_if_def)
qed

theorem neighbor_table_typed_witness:
  "map fst (neighbors ex_hello_if) = [2] \<and> al_get (neighbors ex_hello_if) 1 = None"
  using neighbor_table_typed [OF ex_hello_reached(1)] ex_hello_reached(2) by (simp add: ex_ifenv_def)


definition ex_dbd_info :: HeaderInfo where
  "ex_dbd_info = \<lparr>hi_rid = 2, neighborIp = \<lparr>raw = 7\<rparr>, hi_payload = [5, 220, 2, 7, 0, 0, 0, 9], payloadSize = 32\<rparr>"

theorem well_formed_dbd_dropped_witness: "processDBD ex_ifenv ex_rxcfg 0 ex_dbd_info ex_if = Returns ex_if"
  using well_formed_dbd_dropped [of ex_if ex_dbd_info 0 ex_ifenv ex_rxcfg 0]
  by (simp add: ex_dbd_info_def ex_if_nbr ospf_hdr_size_def dbd_size_def)

definition ex_lsu_info :: HeaderInfo where
  "ex_lsu_info = \<lparr>hi_rid = 2, neighborIp = \<lparr>raw = 7\<rparr>, hi_payload = [0, 0, 0, 1,
     0, 1, 0, 3, 0, 0, 0, 9, 0, 0, 0, 7, 0, 0, 0, 4, 169, 31, 0, 28, 0, 0, 0, 0, 0, 0, 0, 4], payloadSize = 56\<rparr>"

definition ex_lsu_hdr :: LsaHeader where
  "ex_lsu_hdr = \<lparr>sequence = 4, checksum = 0xA91F, lsa_length = 28, age = 1, hdr_options = 0\<rparr>"

theorem older_advertisement_undefined_witness: "processLSUpdate ex_ifenv ex_rxcfg 0 ex_lsu_info ex_if = Undefined"
proof -
  have n: "al_get (neighbors ex_if) (hi_rid ex_lsu_info) = Some ex_nbr" "nstate ex_nbr \<in> {EXCHANGE, LOADING, FULL}"
    by (simp_all add: ex_lsu_info_def ex_if_nbr) (simp add: ex_nbr_def)
  have c: "rd32 0 (hi_payload ex_lsu_info) = Returns 1" "0 < sint (1 :: u32)" by code_simp+
  have h: "readLsaHeader 4 (hi_payload ex_lsu_info) = Returns (ex_lsa_key, ex_lsu_hdr)" "lsa_hdr_size \<le> unat (lsa_length ex_lsu_hdr)"
    "4 + unat (lsa_length ex_lsu_hdr) \<le> payloadSize ex_lsu_info" by code_simp+
  have f: "verifyOspfFletcher (drop 4 (hi_payload ex_lsu_info)) (unat (lsa_length ex_lsu_hdr)) = Returns True" by code_simp
  have b: "buildLsaBody (ucast (key_type ex_lsa_key)) (drop 24 (hi_payload ex_lsu_info)) (lsa_length ex_lsu_hdr - 20) (linkStateId ex_lsa_key) ex_if
    = Returns (Some (Body_SummaryNetworkLsa \<lparr>sum_networkMask = 0, sum_metric = 4\<rparr>))" by code_simp
  have t: "area_type (areaEnv ex_ifenv) = NORMAL" "key_type ex_lsa_key \<noteq> nssaType (areaEnv ex_ifenv)" by code_simp+
  have e: "lsdb_find ex_lsa_key (a_db (if_area ex_if)) = Some ex_record" using ex_stored_find by (simp add: ex_if_def)
  have o: "compareLsaHeaders ex_lsu_hdr (header ex_record) = OLDER" by code_simp
  from older_advertisement_undefined [OF n c h f b t e o] show ?thesis .
qed

end
