(* ===== verification/RadixTree.thy ===== *)
theory RadixTree
  imports Prelude "HOL-Library.Multiset"
begin

text \<open>
  The binary Patricia trie of \<open>types/RadixTree.hpp\<close>. The template parameter \<open>N\<close>, the width of an
  address in bytes, is the argument \<open>n\<close>; an address is the list of its \<open>N\<close> bytes and \<open>W\<close> is \<open>8 * n\<close>.
  Nodes are owned by their parents, so a tree of heap nodes is a nv of \<open>'v RtNode\<close> and the in-place
  stores of the single writer are the nv it leaves; the nodes handed to \<open>retire\<close> are returned as
  a list, in order. Lengths and bit indices never leave the range of their C++ types, which are natural
  numbers here; a comparison that would read behind the last byte is \<open>None\<close>.

  The theory shows the shape the insertions keep, that exact lookups implement a map as long as no two
  prefixes with the same network bytes and different lengths are stored, that nodes are neither lost nor
  retired twice, and what the longest-prefix lookup really finds: a prefix that covers the address, and
  the only one if no stored prefix lies inside another, but not in general the longest.
\<close>

section \<open>Bits of addresses\<close>

definition bitAt :: "nat \<Rightarrow> u8 list \<Rightarrow> nat \<Rightarrow> bool" where
  "bitAt n addr i = (if i \<ge> 8 * n then False
     else drop_bit (7 - i mod 8) (addr ! (i div 8)) AND 1 \<noteq> 0)"

definition topBits :: "nat \<Rightarrow> u8" where
  "topBits r = ucast (drop_bit r (0xFF00 :: u32))"

definition rt_applyMask :: "nat \<Rightarrow> u8 list \<Rightarrow> nat \<Rightarrow> u8 list" where
  "rt_applyMask n pfx len = (if len \<ge> 8 * n then take n pfx else let
     full = len div 8; r = len mod 8;
     out = take full pfx;
     (out, full) = (if r \<noteq> 0 then (out @ [pfx ! full AND topBits r], full + 1) else (out, full))
   in out @ replicate (n - full) 0)"

definition prefixCovers :: "nat \<Rightarrow> u8 list \<Rightarrow> u8 list \<Rightarrow> nat \<Rightarrow> bool option" where
  "prefixCovers n addr pfx len = (if len = 0 then Some True else let
     full = len div 8; r = len mod 8
   in if full > n then None
      else if take full addr \<noteq> take full pfx then Some False
      else if r \<noteq> 0
      then (if full \<ge> n then None else Some (addr ! full AND topBits r = pfx ! full))
      else Some True)"

text \<open>\<open>__builtin_clz\<close> of a 32-bit nv other than 0.\<close>

definition builtin_clz :: "u32 \<Rightarrow> nat" where
  "builtin_clz x = length (takeWhile (\<lambda>i. \<not> bit x i) (rev [0..<32]))"

function diffbitFrom :: "nat \<Rightarrow> u8 list \<Rightarrow> u8 list \<Rightarrow> nat \<Rightarrow> nat" where
  "diffbitFrom n a b i = (if i < n then
     let x = a ! i XOR b ! i in
     if x = 0 then diffbitFrom n a b (i + 1)
     else i * 8 + (builtin_clz (ucast x) - 24)
   else 8 * n)"
  by auto
termination by (relation "measure (\<lambda>(n, a, b, i). n - i)") auto

declare diffbitFrom.simps [simp del]

definition diffbit :: "nat \<Rightarrow> u8 list \<Rightarrow> u8 list \<Rightarrow> nat" where
  "diffbit n a b = diffbitFrom n a b 0"

section \<open>The tree\<close>

datatype 'v RtNode = Null
  | Node (prefix_bytes: "u8 list") (discr: nat) (plen: nat) (val: 'v) (lchild: "'v RtNode") (rchild: "'v RtNode")

type_synonym 'v entry = "u8 list \<times> nat \<times> 'v"

fun forEachNode :: "'v RtNode \<Rightarrow> 'v entry list" where
  "forEachNode Null = []"
| "forEachNode (Node p b l v L R) = (p, l, v) # forEachNode L @ forEachNode R"

fun rt_lookupLoop :: "nat \<Rightarrow> u8 list \<Rightarrow> 'v option \<Rightarrow> 'v RtNode \<Rightarrow> 'v option option" where
  "rt_lookupLoop n addr best Null = Some best"
| "rt_lookupLoop n addr best (Node p b l v L R) = (case prefixCovers n addr p l of
     None \<Rightarrow> None
   | Some c \<Rightarrow> (let best = (if c then Some v else best) in
       if b \<ge> 8 * n then Some best
       else if bitAt n addr b then rt_lookupLoop n addr best R else rt_lookupLoop n addr best L))"

definition rt_lookup :: "nat \<Rightarrow> 'v RtNode \<Rightarrow> u8 list \<Rightarrow> 'v option option" where
  "rt_lookup n t addr = rt_lookupLoop n addr None t"

fun rt_lookupExactLoop :: "nat \<Rightarrow> u8 list \<Rightarrow> nat \<Rightarrow> 'v RtNode \<Rightarrow> 'v option" where
  "rt_lookupExactLoop n pfx len Null = None"
| "rt_lookupExactLoop n pfx len (Node p b l v L R) =
     (if l = len \<and> p = pfx then Some v
      else if b \<ge> 8 * n then None
      else if bitAt n pfx b then rt_lookupExactLoop n pfx len R else rt_lookupExactLoop n pfx len L)"

definition rt_lookupExact :: "nat \<Rightarrow> 'v RtNode \<Rightarrow> u8 list \<Rightarrow> nat \<Rightarrow> 'v option" where
  "rt_lookupExact n t pfx len = rt_lookupExactLoop n (rt_applyMask n pfx len) len t"

fun insertRec :: "nat \<Rightarrow> 'v RtNode \<Rightarrow> u8 list \<Rightarrow> nat \<Rightarrow> 'v \<Rightarrow> 'v RtNode" where
  "insertRec n Null pfx len nv = Node pfx (8 * n) len nv Null Null"
| "insertRec n (Node p b l v L R) pfx len nv =
     (if l = len \<and> p = pfx then Node p b l nv L R
      else let d = diffbit n p pfx in
        if d < b then
          (if bitAt n pfx d then Node pfx d len nv (Node p b l v L R) Null
           else Node pfx d len nv Null (Node p b l v L R))
        else if bitAt n pfx b then Node p b l v L (insertRec n R pfx len nv)
        else Node p b l v (insertRec n L pfx len nv) R)"

definition rt_insert :: "nat \<Rightarrow> u8 list \<Rightarrow> nat \<Rightarrow> 'v \<Rightarrow> 'v RtNode \<Rightarrow> 'v RtNode" where
  "rt_insert n pfx len nv t = insertRec n t (rt_applyMask n pfx len) len nv"

datatype EraseResult = KEEP | REMOVE | NOT_FOUND

text \<open>The result, the tree and the retired entries of \<open>eraseRec\<close>; \<open>dflt\<close> is \<open>T{}\<close>. A node for which
  \<open>REMOVE\<close> is returned is unlinked and retired by its parent.\<close>

fun eraseRec :: "nat \<Rightarrow> 'v \<Rightarrow> 'v RtNode \<Rightarrow> u8 list \<Rightarrow> nat \<Rightarrow> EraseResult \<times> 'v RtNode \<times> 'v entry list" where
  "eraseRec n dflt Null pfx len = (NOT_FOUND, Null, [])"
| "eraseRec n dflt (Node p b l v L R) pfx len =
     (if l = len \<and> p = pfx
      then (if L = Null \<and> R = Null then (REMOVE, Node p b l v L R, [])
            else (KEEP, Node p b l dflt L R, []))
      else if b \<ge> 8 * n then (NOT_FOUND, Node p b l v L R, [])
      else if bitAt n pfx b
      then (case eraseRec n dflt R pfx len of (st, R', rs) \<Rightarrow>
              if st = REMOVE then (KEEP, Node p b l v L Null, rs @ (if R' = Null then [] else [(prefix_bytes R', plen R', val R')]))
              else (st, Node p b l v L R', rs))
      else (case eraseRec n dflt L pfx len of (st, L', rs) \<Rightarrow>
              if st = REMOVE then (KEEP, Node p b l v Null R, rs @ (if L' = Null then [] else [(prefix_bytes L', plen L', val L')]))
              else (st, Node p b l v L' R, rs)))"

definition rt_erase :: "nat \<Rightarrow> 'v \<Rightarrow> u8 list \<Rightarrow> nat \<Rightarrow> 'v RtNode \<Rightarrow> bool \<times> 'v RtNode \<times> 'v entry list" where
  "rt_erase n dflt pfx len t = (let masked = rt_applyMask n pfx len in case t of
     Null \<Rightarrow> (False, Null, [])
   | Node p b l v L R \<Rightarrow>
      if l = len \<and> p = masked
      then (if L = Null \<and> R = Null then (True, Null, [(p, l, v)]) else (True, Node p b l dflt L R, []))
      else (case eraseRec n dflt (Node p b l v L R) masked len of (st, t', rs) \<Rightarrow> (st \<noteq> NOT_FOUND, t', rs)))"

fun destroyAll :: "'v RtNode \<Rightarrow> 'v entry list" where
  "destroyAll Null = []"
| "destroyAll (Node p b l v L R) = destroyAll L @ destroyAll R @ [(p, l, v)]"

definition rt_clear :: "'v RtNode \<Rightarrow> 'v RtNode \<times> 'v entry list" where
  "rt_clear t = (Null, destroyAll t)"

section \<open>Bits\<close>

lemma bitAt_bit: "bitAt n a i \<longleftrightarrow> i < 8 * n \<and> bit (a ! (i div 8)) (7 - i mod 8)"
  by (auto simp: bitAt_def and_one_eq mod_2_eq_odd bit_iff_odd_drop_bit)

lemma div8_less: "i < 8 * n \<longleftrightarrow> i div 8 < (n::nat)"
  by (auto simp: div_less_iff_less_mult mult.commute)

lemma bytes_eqI:
  assumes "length a = n" "length b = n" "\<And>i. i < 8 * n \<Longrightarrow> bitAt n a i = bitAt n b i"
  shows "a = b"
proof (rule nth_equalityI)
  fix j assume j: "j < length a"
  show "a ! j = b ! j"
  proof (rule bit_word_eqI)
    fix k assume k: "k < LENGTH(8)"
    hence "7 - k < 8" by simp
    hence i: "8 * j + (7 - k) < 8 * n" "(8 * j + (7 - k)) div 8 = j" "(8 * j + (7 - k)) mod 8 = 7 - k"
      "7 - (7 - k) = k"
      using j k assms(1) by (auto simp only: mult.commute [of 8] div_mult_self3 mod_mult_self3 div_less mod_less) auto
    show "bit (a ! j) k = bit (b ! j) k"
      using assms(3) [OF i(1)] i by (simp add: bitAt_bit)
  qed
qed (use assms in simp)

lemma topBits_bit: "r \<le> 8 \<Longrightarrow> bit (topBits r) k \<longleftrightarrow> 8 - r \<le> k \<and> k < 8"
proof -
  assume r: "r \<le> 8"
  have "bit (0xFF00 :: u32) m \<longleftrightarrow> 8 \<le> m \<and> m < 16" for m
  proof -
    have "(0xFF00 :: u32) = push_bit 8 (mask 8)" by (simp add: mask_eq_exp_minus_1 push_bit_eq_mult)
    thus ?thesis by (auto simp only: bit_push_bit_iff bit_mask_iff possible_bit_word) auto
  qed
  hence "bit (topBits r) k \<longleftrightarrow> k < 8 \<and> 8 \<le> r + k \<and> r + k < 16"
    by (simp only: topBits_def bit_unsigned_iff bit_drop_bit_eq o_apply possible_bit_word len_num1 len_bit0) simp
  thus ?thesis using r by auto
qed

lemma length_applyMask [simp]: "length a = n \<Longrightarrow> length (rt_applyMask n a len) = n"
  by (auto simp: rt_applyMask_def Let_def div8_less)

lemma bitAt_applyMask:
  assumes "length a = n"
  shows "bitAt n (rt_applyMask n a len) i \<longleftrightarrow> i < len \<and> bitAt n a i"
proof (cases "len \<ge> 8 * n")
  case True
  with assms show ?thesis by (auto simp: rt_applyMask_def bitAt_bit)
next
  case False
  define full r where "full = len div 8" and "r = len mod 8"
  have len: "len = 8 * full + r" "r < 8" "full < n" using False by (auto simp: full_def r_def)
  define j k where "j = i div 8" and "k = i mod 8"
  have i: "i = 8 * j + k" "k < 8" by (auto simp: j_def k_def)
  have nth: "rt_applyMask n a len ! j = (if j < full then a ! j
      else if j = full \<and> r \<noteq> 0 then a ! full AND topBits r else 0)" if "j < n"
    using False assms len that
    by (auto simp: rt_applyMask_def Let_def nth_append full_def [symmetric] r_def [symmetric])
  show ?thesis
  proof (cases "i < 8 * n")
    case True
    hence "j < n" by (simp add: j_def div8_less)
    moreover have "i < len \<longleftrightarrow> j < full \<or> j = full \<and> k < r" using i len by auto
    ultimately show ?thesis
      using True i(2) len(2) by (auto simp: bitAt_bit nth bit_and_iff topBits_bit simp flip: j_def k_def)
  qed (simp add: bitAt_bit)
qed

definition agree_to :: "nat \<Rightarrow> nat \<Rightarrow> u8 list \<Rightarrow> u8 list \<Rightarrow> bool" where
  "agree_to n k a b = (\<forall>i<k. bitAt n a i = bitAt n b i)"

lemma agree_to_refl [simp]: "agree_to n k a a"
  by (simp add: agree_to_def)

lemma agree_to_sym: "agree_to n k a b \<Longrightarrow> agree_to n k b a"
  by (auto simp: agree_to_def)

lemma agree_to_trans: "agree_to n k a b \<Longrightarrow> agree_to n k b c \<Longrightarrow> agree_to n k a c"
  by (auto simp: agree_to_def)

lemma agree_to_mono: "agree_to n k a b \<Longrightarrow> j \<le> k \<Longrightarrow> agree_to n j a b"
  by (auto simp: agree_to_def)

lemma agree_to_eq: "length a = n \<Longrightarrow> length b = n \<Longrightarrow> 8 * n \<le> k \<Longrightarrow> agree_to n k a b \<longleftrightarrow> a = b"
  by (auto simp: agree_to_def intro: bytes_eqI)

lemma applyMask_eq_iff:
  assumes "length a = n" "length p = n" "rt_applyMask n p len = p"
  shows "rt_applyMask n a len = p \<longleftrightarrow> agree_to n len a p"
proof
  assume "rt_applyMask n a len = p"
  thus "agree_to n len a p" using bitAt_applyMask [OF assms(1), of len] by (auto simp: agree_to_def)
next
  assume "agree_to n len a p"
  moreover have "bitAt n p i \<longleftrightarrow> i < len \<and> bitAt n p i" for i
    using bitAt_applyMask [OF assms(2), of len i] assms(3) by simp
  ultimately show "rt_applyMask n a len = p"
    using assms bitAt_applyMask [OF assms(1), of len] by (intro bytes_eqI) (auto simp: agree_to_def)
qed

lemma applyMask_idem [simp]:
  assumes "length a = n" shows "rt_applyMask n (rt_applyMask n a len) len = rt_applyMask n a len"
  by (rule bytes_eqI [of _ n]) (use assms in \<open>auto simp: bitAt_applyMask\<close>)

lemma prefixCovers_iff:
  assumes "length a = n" "length p = n" "len \<le> 8 * n" "rt_applyMask n p len = p"
  shows "prefixCovers n a p len = Some (rt_applyMask n a len = p)"
proof (cases "len = 8 * n")
  case True
  with assms show ?thesis by (auto simp: prefixCovers_def rt_applyMask_def)
next
  case False
  define full r where "full = len div 8" and "r = len mod 8"
  have len: "len < 8 * n" "full < n" using False assms(3) by (auto simp: full_def)
  let ?z = "replicate (n - (if r \<noteq> 0 then full + 1 else full)) (0 :: u8)"
  have shape: "rt_applyMask n x len = take full x @ (if r \<noteq> 0 then [x ! full AND topBits r] else []) @ ?z" for x
    using len by (simp add: rt_applyMask_def Let_def full_def [symmetric] r_def [symmetric])
  have p: "p = take full p @ (if r \<noteq> 0 then [p ! full AND topBits r] else []) @ ?z"
    using shape [of p] assms(4) by simp
  have pf: "p ! full = p ! full AND topBits r" if "r \<noteq> 0"
    using arg_cong [OF p, of "\<lambda>xs. xs ! full"] that len assms(2) by (simp add: nth_append)
  have "rt_applyMask n a len = p \<longleftrightarrow> take full a = take full p \<and> (r \<noteq> 0 \<longrightarrow> a ! full AND topBits r = p ! full)"
    by (subst p, subst shape) (use assms len pf in auto)
  moreover have "full = 0 \<and> r = 0" if "len = 0" using that by (simp add: full_def r_def)
  ultimately show ?thesis
    using len by (auto simp: prefixCovers_def Let_def full_def [symmetric] r_def [symmetric])
qed

lemma clz_byte:
  fixes x :: u8 assumes "x \<noteq> 0"
  defines "c \<equiv> builtin_clz (ucast x) - 24"
  shows "c < 8" and "bit x (7 - c)" and "j < c \<Longrightarrow> \<not> bit x (7 - j)"
proof -
  let ?y = "ucast x :: u32" and ?xs = "rev [0..<32]"
  let ?P = "\<lambda>i. \<not> bit ?y i"
  let ?m = "builtin_clz ?y"
  have b: "bit ?y i \<longleftrightarrow> bit x i" for i
    by (auto simp: bit_unsigned_iff bit_imp_le_length dest: bit_imp_le_length)
  have xs: "?xs ! i = 31 - i" if "i < 32" for i using that by (simp add: rev_nth)
  obtain k where k: "bit x k" using assms(1) bit_eqI [of x 0] by (auto simp del: bit_0_eq simp: bit_0_eq [THEN fun_cong])
  have k8: "k < 8" using bit_imp_le_length [OF k] by simp
  have before: "\<not> bit ?y (31 - i)" if "i < ?m" "i < 32" for i
  proof -
    have "?P (takeWhile ?P ?xs ! i)"
      using that(1) set_takeWhileD [of _ ?P ?xs] nth_mem [of i "takeWhile ?P ?xs"]
      unfolding builtin_clz_def by blast
    thus ?thesis using that xs by (simp add: takeWhile_nth builtin_clz_def)
  qed
  have m: "?m < 32"
  proof (rule ccontr)
    assume "\<not> ?m < 32"
    hence "\<not> bit ?y (31 - (31 - k))" using k8 by (intro before) auto
    thus False using k k8 b by simp
  qed
  hence at: "bit ?y (31 - ?m)"
    using nth_length_takeWhile [of ?P ?xs] xs [of ?m] by (simp add: builtin_clz_def)
  hence "31 - ?m < 8" unfolding b using bit_imp_le_length by fastforce
  hence m24: "24 \<le> ?m" using m by simp
  show "c < 8" using m m24 by (simp add: c_def)
  have "7 - c = 31 - ?m" using m24 m by (simp add: c_def)
  thus "bit x (7 - c)" using at b by simp
  show "\<not> bit x (7 - j)" if "j < c"
  proof -
    have "31 - (j + 24) = 7 - j" by simp
    thus ?thesis using before [of "j + 24"] that m b by (simp add: c_def)
  qed
qed

lemma diffbitFrom_ok:
  assumes "length a = n" "length b = n" "i \<le> n" "\<And>j. j < i \<Longrightarrow> a ! j = b ! j"
  defines "d \<equiv> diffbitFrom n a b i"
  shows "d \<le> 8 * n \<and> agree_to n d a b \<and> (d < 8 * n \<longrightarrow> bitAt n a d \<noteq> bitAt n b d)"
  using assms(3,4) unfolding d_def
proof (induction "n - i" arbitrary: i)
  case 0
  hence "a = b" using assms(1,2) by (intro nth_equalityI) auto
  with 0 show ?case by (subst (1 2 3 4) diffbitFrom.simps) simp
next
  case (Suc m)
  let ?x = "a ! i XOR b ! i"
  have i: "i < n" using Suc.hyps(2) by simp
  show ?case
  proof (cases "?x = 0")
    case True
    hence "a ! i = b ! i" by (simp add: bit_eq_iff bit_xor_iff)
    hence "a ! j = b ! j" if "j < i + 1" for j using Suc.prems(2) that by (cases "j = i") auto
    with Suc.hyps(1) [of "i + 1"] Suc.hyps(2) i have
      "diffbitFrom n a b (i + 1) \<le> 8 * n \<and> agree_to n (diffbitFrom n a b (i + 1)) a b
        \<and> (diffbitFrom n a b (i + 1) < 8 * n \<longrightarrow> bitAt n a (diffbitFrom n a b (i + 1)) \<noteq> bitAt n b (diffbitFrom n a b (i + 1)))"
      by simp
    moreover have "diffbitFrom n a b i = diffbitFrom n a b (i + 1)"
      by (subst diffbitFrom.simps) (simp add: i True)
    ultimately show ?thesis by simp
  next
    case False
    define c where "c = builtin_clz (ucast ?x) - 24"
    note c = clz_byte [OF False, folded c_def]
    have d: "diffbitFrom n a b i = i * 8 + c"
      by (subst diffbitFrom.simps) (simp add: i False c_def)
    have "bitAt n a j = bitAt n b j" if "j < i * 8 + c" for j
    proof (cases "j div 8 = i")
      case True
      hence "j mod 8 < c" using that c(1) by (metis add_less_cancel_left div_mult_mod_eq)
      with c(3) True show ?thesis by (auto simp: bitAt_bit bit_xor_iff)
    next
      case False
      hence "j div 8 < i" using that c(1) by linarith
      thus ?thesis using Suc.prems(2) by (simp add: bitAt_bit)
    qed
    moreover have "bitAt n a (i * 8 + c) \<noteq> bitAt n b (i * 8 + c)"
      using c(1,2) i by (auto simp: bitAt_bit bit_xor_iff)
    ultimately show ?thesis unfolding d agree_to_def using i c(1) by auto
  qed
qed

lemma diffbit_ok:
  assumes "length a = n" "length b = n"
  shows "diffbit n a b \<le> 8 * n" "agree_to n (diffbit n a b) a b"
    "diffbit n a b < 8 * n \<Longrightarrow> bitAt n a (diffbit n a b) \<noteq> bitAt n b (diffbit n a b)"
  using diffbitFrom_ok [OF assms, of 0] by (auto simp: diffbit_def)

lemma agree_to_diffbit:
  assumes "length a = n" "length b = n" "agree_to n k a b" "k \<le> 8 * n"
  shows "k \<le> diffbit n a b"
  using diffbit_ok(1,3) [OF assms(1,2)] assms(3,4) by (metis agree_to_def leI le_neq_implies_less less_le_trans)

section \<open>The shape of the tree\<close>

abbreviation keys :: "'v RtNode \<Rightarrow> u8 list set" where
  "keys t \<equiv> fst ` set (forEachNode t)"

text \<open>A stored prefix has \<open>N\<close> bytes, a length of at most \<open>W\<close> and no bit set behind its length.\<close>

definition stored_ok :: "nat \<Rightarrow> u8 list \<Rightarrow> nat \<Rightarrow> bool" where
  "stored_ok n p l = (length p = n \<and> l \<le> 8 * n \<and> rt_applyMask n p l = p)"

text \<open>Below a node with discriminator bit \<open>b\<close> all networks agree with the network of the node up to bit
  \<open>b\<close>, and those on the left have that bit clear, those on the right have it set.\<close>

fun rt_inv :: "nat \<Rightarrow> 'v RtNode \<Rightarrow> bool" where
  "rt_inv n Null = True"
| "rt_inv n (Node p b l v L R) = (stored_ok n p l \<and> b \<le> 8 * n
     \<and> (\<forall>q\<in>keys L \<union> keys R. agree_to n b p q)
     \<and> (\<forall>q\<in>keys L. \<not> bitAt n q b) \<and> (\<forall>q\<in>keys R. bitAt n q b)
     \<and> rt_inv n L \<and> rt_inv n R)"

lemma rt_inv_stored: "rt_inv n t \<Longrightarrow> (p, l, v) \<in> set (forEachNode t) \<Longrightarrow> stored_ok n p l"
  by (induction t) auto

lemma keys_insertRec: "keys (insertRec n t pfx len v) = insert pfx (keys t)"
  by (induction t) (auto simp: Let_def image_Un)

lemma insertRec_inv:
  assumes "rt_inv n t" "stored_ok n pfx len"
  shows "rt_inv n (insertRec n t pfx len nv)"
  using assms
proof (induction t)
  case Null
  thus ?case by simp
next
  case (Node p b l v L R)
  let ?d = "diffbit n p pfx"
  have lens: "length p = n" "length pfx = n" "b \<le> 8 * n"
    using Node.prems by (auto simp: stored_ok_def)
  note d = diffbit_ok [OF lens(1,2)]
  show ?case
  proof (cases "l = len \<and> p = pfx")
    case True
    with Node.prems show ?thesis by simp
  next
    case new: False
    show ?thesis
    proof (cases "?d < b")
      case True
      let ?t = "Node p b l v L R"
      have below: "agree_to n ?d pfx q \<and> bitAt n q ?d = bitAt n p ?d" if "q \<in> keys ?t" for q
      proof -
        have "agree_to n b p q" using that Node.prems(1) by auto
        thus ?thesis using True d(2) by (auto simp: agree_to_def)
      qed
      have "bitAt n p ?d \<noteq> bitAt n pfx ?d" using d(3) True lens(3) by simp
      moreover have "insertRec n ?t pfx len nv = (if bitAt n pfx ?d then Node pfx ?d len nv ?t Null
          else Node pfx ?d len nv Null ?t)"
        using True new by (simp add: Let_def)
      moreover have "\<forall>q\<in>keys ?t. agree_to n ?d pfx q" using below by blast
      ultimately show ?thesis using below Node.prems True lens d(1) by (auto simp only: rt_inv.simps forEachNode.simps(1) list.set image_empty Un_empty_right Un_empty_left split: if_splits)
    next
      case False
      hence "agree_to n b p pfx" using d(2) agree_to_mono by (metis leI)
      with False new Node.prems Node.IH show ?thesis
        by (auto simp: Let_def keys_insertRec)
    qed
  qed
qed

lemma rt_insert_inv:
  assumes "rt_inv n t" "length pfx = n" "len \<le> 8 * n"
  shows "rt_inv n (rt_insert n pfx len v t)"
  using assms by (auto simp: rt_insert_def stored_ok_def intro: insertRec_inv)

text \<open>What \<open>eraseRec\<close> leaves is a part of the tree: it drops at most one node and clears at most one
  nv.\<close>

lemma eraseRec_Node_cases:
  assumes "eraseRec n dflt (Node p b l v L R) pfx len = (st, t', rs)"
  obtains (found) "l = len" "p = pfx" "t' = Node p b l (if st = REMOVE then v else dflt) L R" "rs = []"
      "st = (if L = Null \<and> R = Null then REMOVE else KEEP)"
  | (leaf) "\<not> (l = len \<and> p = pfx)" "8 * n \<le> b" "st = NOT_FOUND" "t' = Node p b l v L R" "rs = []"
  | (right) stc R' rsc where "\<not> (l = len \<and> p = pfx)" "b < 8 * n" "bitAt n pfx b"
      "eraseRec n dflt R pfx len = (stc, R', rsc)"
      "t' = Node p b l v L (if stc = REMOVE then Null else R')" "st = (if stc = REMOVE then KEEP else stc)"
      "rs = rsc @ (if stc = REMOVE \<and> R' \<noteq> Null then [(prefix_bytes R', plen R', val R')] else [])"
  | (left) stc L' rsc where "\<not> (l = len \<and> p = pfx)" "b < 8 * n" "\<not> bitAt n pfx b"
      "eraseRec n dflt L pfx len = (stc, L', rsc)"
      "t' = Node p b l v (if stc = REMOVE then Null else L') R" "st = (if stc = REMOVE then KEEP else stc)"
      "rs = rsc @ (if stc = REMOVE \<and> L' \<noteq> Null then [(prefix_bytes L', plen L', val L')] else [])"
proof (cases "l = len \<and> p = pfx \<or> 8 * n \<le> b")
  case True
  thus ?thesis using assms found leaf by (auto split: if_splits)
next
  case False
  show ?thesis
  proof (cases "bitAt n pfx b")
    case True
    obtain stc R' rsc where e: "eraseRec n dflt R pfx len = (stc, R', rsc)" by (cases "eraseRec n dflt R pfx len")
    thus ?thesis using assms False True right [OF _ _ True e] by (auto split: if_splits)
  next
    case clear: False
    obtain stc L' rsc where e: "eraseRec n dflt L pfx len = (stc, L', rsc)" by (cases "eraseRec n dflt L pfx len")
    thus ?thesis using assms False clear left [OF _ _ clear e] by (auto split: if_splits)
  qed
qed

lemma eraseRec_keys:
  "eraseRec n dflt t pfx len = (st, t', rs) \<Longrightarrow> keys t' \<subseteq> keys t"
proof (induction t arbitrary: st t' rs)
  case (Node p b l v L R)
  from Node.prems show ?case
    by (cases rule: eraseRec_Node_cases) (use Node.IH in \<open>auto split: if_splits\<close>)
qed simp

lemma rt_inv_sub:
  assumes "rt_inv n (Node p b l v L R)" "keys L' \<subseteq> keys L" "keys R' \<subseteq> keys R" "rt_inv n L'" "rt_inv n R'"
  shows "rt_inv n (Node p b l v' L' R')"
proof -
  have "(\<forall>q\<in>A' \<union> B'. P q) \<and> (\<forall>q\<in>A'. \<not> Q q) \<and> (\<forall>q\<in>B'. Q q)"
    if "A' \<subseteq> A" "B' \<subseteq> B" "(\<forall>q\<in>A \<union> B. P q) \<and> (\<forall>q\<in>A. \<not> Q q) \<and> (\<forall>q\<in>B. Q q)"
    for A A' B B' and P Q :: "u8 list \<Rightarrow> bool"
    using that by blast
  note sub = this [OF assms(2,3), of "agree_to n b p" "\<lambda>q. bitAt n q b"]
  from assms(1) have t: "stored_ok n p l" "b \<le> 8 * n"
    "(\<forall>q\<in>keys L \<union> keys R. agree_to n b p q) \<and> (\<forall>q\<in>keys L. \<not> bitAt n q b) \<and> (\<forall>q\<in>keys R. bitAt n q b)"
    by (simp_all only: rt_inv.simps) (elim conjE, intro conjI, assumption+)
  show ?thesis
    unfolding rt_inv.simps using sub [OF t(3)] t(1,2) assms(4,5) by - (elim conjE, intro conjI, assumption+)
qed

lemma eraseRec_inv:
  "rt_inv n t \<Longrightarrow> eraseRec n dflt t pfx len = (st, t', rs) \<Longrightarrow> rt_inv n t'"
proof (induction t arbitrary: st t' rs)
  case (Node p b l v L R)
  have part: "keys (if c then Null else t') \<subseteq> keys t" "rt_inv n (if c then Null else t')"
    if "eraseRec n dflt t pfx len = (st, t', rs)" "rt_inv n t'" for c st t' rs and t :: "'a RtNode"
    using eraseRec_keys [OF that(1)] that(2) by auto
  have sub: "rt_inv n L" "rt_inv n R" using Node.prems(1) by simp_all
  from Node.prems(2) show ?case
  proof (cases rule: eraseRec_Node_cases)
    case (right stc R' rsc)
    show ?thesis unfolding right(5)
      by (rule rt_inv_sub [OF Node.prems(1)])
        (use part [OF right(4) Node.IH(2) [OF sub(2) right(4)]] sub in auto)
  next
    case (left stc L' rsc)
    show ?thesis unfolding left(5)
      by (rule rt_inv_sub [OF Node.prems(1)])
        (use part [OF left(4) Node.IH(1) [OF sub(1) left(4)]] sub in auto)
  next
    case found
    show ?thesis unfolding found(3) by (rule rt_inv_sub [OF Node.prems(1)]) (use sub in auto)
  qed (use Node.prems in auto)
qed simp

lemma rt_erase_Node:
  assumes "rt_erase n dflt pfx len (Node p b l v L R) = (ok, t', rs)"
  shows "(L = Null \<and> R = Null \<and> l = len \<and> p = rt_applyMask n pfx len \<and> ok \<and> t' = Null \<and> rs = [(p, l, v)])
    \<or> (\<exists>st. eraseRec n dflt (Node p b l v L R) (rt_applyMask n pfx len) len = (st, t', rs)
          \<and> st \<noteq> REMOVE \<and> ok = (st \<noteq> NOT_FOUND))"
proof (cases "l = len \<and> p = rt_applyMask n pfx len")
  case True
  with assms show ?thesis by (auto simp: rt_erase_def Let_def split: if_splits)
next
  case False
  obtain st u rs' where e: "eraseRec n dflt (Node p b l v L R) (rt_applyMask n pfx len) len = (st, u, rs')"
    by (metis prod_cases3)
  from e False have "st \<noteq> REMOVE" by (cases rule: eraseRec_Node_cases) auto
  with assms e False show ?thesis by (auto simp: rt_erase_def Let_def simp del: eraseRec.simps)
qed

lemma rt_erase_inv:
  assumes "rt_inv n t" "rt_erase n dflt pfx len t = (ok, t', rs)"
  shows "rt_inv n t'"
proof (cases t)
  case Null
  with assms show ?thesis by (simp add: rt_erase_def)
next
  case (Node p b l v L R)
  with rt_erase_Node [OF assms(2) [unfolded Node]] assms(1) show ?thesis
    by (auto simp del: eraseRec.simps rt_inv.simps(2) intro: eraseRec_inv)
qed

section \<open>Exact lookups\<close>

text \<open>No two nodes hold the same network bytes.\<close>

abbreviation rt_distinct :: "'v RtNode \<Rightarrow> bool" where
  "rt_distinct t \<equiv> distinct (map fst (forEachNode t))"

lemma lookupExact_in: "rt_lookupExactLoop n pfx len t = Some v \<Longrightarrow> (pfx, len, v) \<in> set (forEachNode t)"
  by (induction t) (auto split: if_splits)

lemma lookupExact_complete:
  assumes "rt_inv n t" "rt_distinct t" "(pfx, len, v) \<in> set (forEachNode t)"
  shows "rt_lookupExactLoop n pfx len t = Some v"
  using assms
proof (induction t)
  case (Node p b l w L R)
  show ?case
  proof (cases "p = pfx")
    case True
    with Node.prems(2) have "pfx \<notin> keys L \<union> keys R" by auto
    with Node.prems(3) True have "l = len \<and> w = v" by (force simp: image_iff)
    with True show ?thesis by simp
  next
    case False
    with Node.prems(3) have mem: "(pfx, len, v) \<in> set (forEachNode L) \<union> set (forEachNode R)" by auto
    hence key: "pfx \<in> keys L \<union> keys R" by force
    have len: "length p = n" "length pfx = n"
      using Node.prems(1) rt_inv_stored [OF Node.prems(1,3)] by (auto simp: stored_ok_def)
    have "agree_to n b p pfx" using key Node.prems(1) unfolding rt_inv.simps by (elim conjE) (erule bspec)
    hence b: "b < 8 * n" using False agree_to_eq [OF len] by (metis not_le_imp_less)
    have side: "pfx \<in> keys L \<Longrightarrow> \<not> bitAt n pfx b" "pfx \<in> keys R \<Longrightarrow> bitAt n pfx b"
      using Node.prems(1) by auto
    have parts: "rt_inv n L" "rt_inv n R" "rt_distinct L" "rt_distinct R" using Node.prems by auto
    show ?thesis
    proof (cases "(pfx, len, v) \<in> set (forEachNode L)")
      case True
      moreover from True have "pfx \<in> keys L" by force
      ultimately show ?thesis using Node.IH(1) parts b False side by simp
    next
      case False
      with mem have R: "(pfx, len, v) \<in> set (forEachNode R)" by blast
      moreover from R have "pfx \<in> keys R" by force
      ultimately show ?thesis using Node.IH(2) parts b \<open>p \<noteq> pfx\<close> side by simp
    qed
  qed
qed simp

lemma lookupExact_iff:
  "rt_inv n t \<Longrightarrow> rt_distinct t \<Longrightarrow>
    rt_lookupExactLoop n pfx len t = Some v \<longleftrightarrow> (pfx, len, v) \<in> set (forEachNode t)"
  using lookupExact_in lookupExact_complete by metis

text \<open>The entries an insertion leaves: the entry of its prefix is replaced or added.\<close>

lemma insertRec_entries:
  assumes "rt_inv n t" "rt_distinct t" "stored_ok n pfx len"
    and "\<And>l v. (pfx, l, v) \<in> set (forEachNode t) \<Longrightarrow> l = len"
  shows "set (forEachNode (insertRec n t pfx len nv))
      = insert (pfx, len, nv) {e \<in> set (forEachNode t). fst e \<noteq> pfx}
    \<and> rt_distinct (insertRec n t pfx len nv)"
  using assms
proof (induction t)
  case (Node p b l v L R)
  let ?t = "Node p b l v L R"
  have parts: "rt_inv n L" "rt_inv n R" "rt_distinct L" "rt_distinct R"
    and dj: "p \<notin> keys L" "p \<notin> keys R" "keys L \<inter> keys R = {}"
    using Node.prems(1,2) by auto
  have same: "\<And>l v. (pfx, l, v) \<in> set (forEachNode L) \<Longrightarrow> l = len"
    "\<And>l v. (pfx, l, v) \<in> set (forEachNode R) \<Longrightarrow> l = len"
    using Node.prems(4) by auto
  have keep: "{e \<in> set (forEachNode t). fst e \<noteq> pfx} = set (forEachNode t)" if "pfx \<notin> keys t" for t :: "'a RtNode"
    using that by (auto intro: rev_image_eqI)
  have ne: "e \<in> set (forEachNode t) \<Longrightarrow> fst e \<in> keys t" for e and t :: "'a RtNode" by simp
  show ?case
  proof (cases "l = len \<and> p = pfx")
    case True
    hence "fst e \<noteq> pfx" if "e \<in> set (forEachNode L) \<union> set (forEachNode R)" for e
      using ne that dj by blast
    hence "set (forEachNode (Node p b l nv L R)) = insert (pfx, len, nv) {e \<in> set (forEachNode ?t). fst e \<noteq> pfx}"
      using True by auto
    with True Node.prems(2) show ?thesis by simp
  next
    case new: False
    hence p: "p \<noteq> pfx" using Node.prems(4) [of l v] by auto
    show ?thesis
    proof (cases "diffbit n p pfx < b")
      case True
      have "length p = n" "length pfx = n" "b \<le> 8 * n" using Node.prems by (auto simp: stored_ok_def)
      note d = diffbit_ok(3) [OF this(1,2)] this(3)
      have "q \<noteq> pfx" if "q \<in> keys ?t" for q
      proof -
        have "agree_to n b p q" using that Node.prems(1) by auto
        thus ?thesis using True d by (auto simp: agree_to_def)
      qed
      hence no: "pfx \<notin> keys ?t" by blast
      have "insertRec n ?t pfx len nv = (if bitAt n pfx (diffbit n p pfx)
          then Node pfx (diffbit n p pfx) len nv ?t Null else Node pfx (diffbit n p pfx) len nv Null ?t)"
        using True new by (simp add: Let_def)
      hence e: "forEachNode (insertRec n ?t pfx len nv) = (pfx, len, nv) # forEachNode ?t"
        by (simp only: forEachNode.simps append_Nil append_Nil2 simp_thms split: if_split)
      show ?thesis unfolding e keep [OF no]
        using no Node.prems(2) by (simp only: list.map list.set distinct.simps set_map fst_conv) simp
    next
      case False
      let ?L = "insertRec n L pfx len nv" and ?R = "insertRec n R pfx len nv"
      have bit: "\<forall>q\<in>keys L. \<not> bitAt n q b" "\<forall>q\<in>keys R. bitAt n q b" using Node.prems(1) by auto
      have split: "{e \<in> set (forEachNode ?t). fst e \<noteq> pfx} = insert (p, l, v)
          ({e \<in> set (forEachNode L). fst e \<noteq> pfx} \<union> {e \<in> set (forEachNode R). fst e \<noteq> pfx})"
        using p by auto
      show ?thesis
      proof (cases "bitAt n pfx b")
        case True
        with bit have nL: "pfx \<notin> keys L" by blast
        have "insertRec n ?t pfx len nv = Node p b l v L ?R" using True False new by (auto simp: Let_def)
        with Node.IH(2) [OF parts(2,4) Node.prems(3) same(2)] nL dj parts(3) p
        show ?thesis unfolding split keep [OF nL] by (auto simp: keys_insertRec simp del: insertRec.simps)
      next
        case clear: False
        with bit have nR: "pfx \<notin> keys R" by blast
        have "insertRec n ?t pfx len nv = Node p b l v ?L R" using clear False new by (auto simp: Let_def)
        with Node.IH(1) [OF parts(1,3) Node.prems(3) same(1)] nR dj parts(4) p
        show ?thesis unfolding split keep [OF nR] by (auto simp: keys_insertRec simp del: insertRec.simps)
      qed
    qed
  qed
qed simp

lemma option_Some_eqI: "(\<And>v. x = Some v \<longleftrightarrow> y = Some v) \<Longrightarrow> x = y"
  by (cases x; cases y) auto

lemma lookupExact_insertRec:
  assumes "rt_inv n t" "rt_distinct t" "stored_ok n pfx len"
    and "\<And>l v. (pfx, l, v) \<in> set (forEachNode t) \<Longrightarrow> l = len"
  shows "rt_lookupExactLoop n q m (insertRec n t pfx len nv)
    = (if q = pfx \<and> m = len then Some nv else rt_lookupExactLoop n q m t)"
proof -
  note ins = insertRec_entries [OF assms, where nv = nv, THEN conjunct1] insertRec_entries [OF assms, where nv = nv, THEN conjunct2]
  note inv = insertRec_inv [OF assms(1,3), where nv = nv]
  note iff = lookupExact_iff [OF inv ins(2)] lookupExact_iff [OF assms(1,2)]
  have "rt_lookupExactLoop n q m (insertRec n t pfx len nv) = Some v
      \<longleftrightarrow> (if q = pfx \<and> m = len then Some nv else rt_lookupExactLoop n q m t) = Some v" for v
    using assms(4) iff(2) by (auto simp: iff ins(1))
  thus ?thesis by (rule option_Some_eqI)
qed

text \<open>Erasing follows the path of the exact lookup: it changes the answer for its own prefix only, to
  nothing or to \<open>T{}\<close>.\<close>

lemma eraseRec_lookupExact:
  assumes "eraseRec n dflt t pfx len = (st, t', rs)"
  shows "(st = REMOVE \<longrightarrow> (\<exists>b v. t = Node pfx b len v Null Null \<and> t' = t \<and> rs = []))
    \<and> (st \<noteq> REMOVE \<longrightarrow> (\<exists>x\<in>{None, Some dflt}. \<forall>q m. rt_lookupExactLoop n q m t'
          = (if q = pfx \<and> m = len then x else rt_lookupExactLoop n q m t)))"
  using assms
proof (induction t arbitrary: st t' rs)
  case (Node p b l v L R)
  have removed: "rt_lookupExactLoop n q m t = None"
    if "t = Node pfx c len w Null Null" "\<not> (q = pfx \<and> m = len)" for t :: "'a RtNode" and c w q m
    using that by auto
  from Node.prems show ?case
  proof (cases rule: eraseRec_Node_cases)
    case (right stc R' rsc)
    show ?thesis
    proof (cases "stc = REMOVE")
      case True
      with Node.IH(2) [OF right(4)] obtain c w where "R = Node pfx c len w Null Null" by blast
      with True right show ?thesis by (intro conjI impI bexI [of _ None]) (auto split: if_splits)
    next
      case False
      with Node.IH(2) [OF right(4)] obtain x where x: "x \<in> {None, Some dflt}" and
        "\<forall>q m. rt_lookupExactLoop n q m R' = (if q = pfx \<and> m = len then x else rt_lookupExactLoop n q m R)"
        by blast
      with False right show ?thesis by (intro conjI impI bexI [of _ x]) (auto split: if_splits)
    qed
  next
    case (left stc L' rsc)
    show ?thesis
    proof (cases "stc = REMOVE")
      case True
      with Node.IH(1) [OF left(4)] obtain c w where "L = Node pfx c len w Null Null" by blast
      with True left show ?thesis by (intro conjI impI bexI [of _ None]) (auto split: if_splits)
    next
      case False
      with Node.IH(1) [OF left(4)] obtain x where x: "x \<in> {None, Some dflt}" and
        "\<forall>q m. rt_lookupExactLoop n q m L' = (if q = pfx \<and> m = len then x else rt_lookupExactLoop n q m L)"
        by blast
      with False left show ?thesis by (intro conjI impI bexI [of _ x]) (auto split: if_splits)
    qed
  next
    case found
    thus ?thesis by (intro conjI impI bexI [of _ "Some dflt"]) (auto split: if_splits)
  next
    case leaf
    thus ?thesis by (intro conjI impI bexI [of _ None]) (auto split: if_splits)
  qed
qed (auto intro!: bexI [of _ None])

lemma rt_erase_lookupExact:
  assumes "rt_erase n dflt pfx len t = (ok, t', rs)"
  shows "\<exists>x\<in>{None, Some dflt}. \<forall>q m. rt_lookupExactLoop n q m t'
    = (if q = rt_applyMask n pfx len \<and> m = len then x else rt_lookupExactLoop n q m t)"
proof (cases t)
  case Null
  with assms show ?thesis by (auto simp: rt_erase_def)
next
  case (Node p b l v L R)
  from rt_erase_Node [OF assms [unfolded Node]] show ?thesis
  proof
    assume "\<exists>st. eraseRec n dflt (Node p b l v L R) (rt_applyMask n pfx len) len = (st, t', rs)
        \<and> st \<noteq> REMOVE \<and> ok = (st \<noteq> NOT_FOUND)"
    thus ?thesis using eraseRec_lookupExact Node by metis
  qed (auto simp: Node)
qed

text \<open>The nodes of the tree before are those of the tree after and the retired ones.\<close>

abbreviation places :: "'v entry list \<Rightarrow> (u8 list \<times> nat) multiset" where
  "places es \<equiv> mset (map (\<lambda>(p, l, v). (p, l)) es)"

lemma eraseRec_places:
  "eraseRec n dflt t pfx len = (st, t', rs) \<Longrightarrow> places (forEachNode t) = places (forEachNode t') + places rs"
proof (induction t arbitrary: st t' rs)
  case (Node p b l v L R)
  from Node.prems show ?case
  proof (cases rule: eraseRec_Node_cases)
    case (right stc R' rsc)
    have "places (forEachNode R) = places (forEachNode R') + places rsc" using Node.IH(2) right(4) .
    with right eraseRec_lookupExact [OF right(4)] show ?thesis by (cases "stc = REMOVE") auto
  next
    case (left stc L' rsc)
    have "places (forEachNode L) = places (forEachNode L') + places rsc" using Node.IH(1) left(4) .
    with left eraseRec_lookupExact [OF left(4)] show ?thesis by (cases "stc = REMOVE") auto
  qed auto
qed auto

lemma rt_erase_places:
  assumes "rt_erase n dflt pfx len t = (ok, t', rs)"
  shows "places (forEachNode t) = places (forEachNode t') + places rs"
proof (cases t)
  case Null
  with assms show ?thesis by (auto simp: rt_erase_def)
next
  case (Node p b l v L R)
  with rt_erase_Node [OF assms [unfolded Node]] show ?thesis
    by (auto simp del: eraseRec.simps forEachNode.simps dest!: eraseRec_places) simp
qed

lemma destroyAll_entries: "mset (destroyAll t) = mset (forEachNode t)"
  by (induction t) auto

section \<open>Longest-prefix lookups\<close>

lemma applyMask_mono:
  assumes "length a = n" "l \<le> m" shows "rt_applyMask n (rt_applyMask n a m) l = rt_applyMask n a l"
  by (rule bytes_eqI [of _ n]) (use assms in \<open>auto simp: bitAt_applyMask\<close>)

lemma covers_at:
  assumes "rt_inv n t" "(p, l, v) \<in> set (forEachNode t)" "length addr = n"
  shows "prefixCovers n addr p l = Some (rt_applyMask n addr l = p)"
  using rt_inv_stored [OF assms(1,2)] assms(3) by (intro prefixCovers_iff) (auto simp: stored_ok_def)

lemma rt_lookupLoop_sound:
  assumes "rt_inv n t" "length addr = n"
  shows "\<exists>r. rt_lookupLoop n addr best t = Some r
    \<and> (r = best \<or> (\<exists>l v. (rt_applyMask n addr l, l, v) \<in> set (forEachNode t) \<and> r = Some v))"
  using assms(1)
proof (induction t arbitrary: best)
  case (Node p b l v L R)
  have "prefixCovers n addr p l = Some (rt_applyMask n addr l = p)"
    using covers_at [OF Node.prems _ assms(2), of p l v] by simp
  moreover have "rt_inv n L" "rt_inv n R" using Node.prems by simp_all
  moreover note Node.IH(1) [of "if rt_applyMask n addr l = p then Some v else best"]
    Node.IH(2) [of "if rt_applyMask n addr l = p then Some v else best"]
  ultimately show ?case by (cases "bitAt n addr b") (auto simp: Let_def)
qed simp

text \<open>No stored prefix lies inside another.\<close>

definition antichain :: "nat \<Rightarrow> (u8 list \<times> nat) set \<Rightarrow> bool" where
  "antichain n S = (\<forall>(p, l)\<in>S. \<forall>(q, m)\<in>S. l \<le> m \<and> rt_applyMask n q l = p \<longrightarrow> p = q \<and> l = m)"

lemma antichainD:
  "antichain n S \<Longrightarrow> (p, l) \<in> S \<Longrightarrow> (q, m) \<in> S \<Longrightarrow> l \<le> m \<Longrightarrow> rt_applyMask n q l = p \<Longrightarrow> p = q \<and> l = m"
  by (auto simp: antichain_def)

abbreviation spots :: "'v RtNode \<Rightarrow> (u8 list \<times> nat) set" where
  "spots t \<equiv> (\<lambda>(p, l, v). (p, l)) ` set (forEachNode t)"

lemma antichain_unique:
  assumes "antichain n S" "(p, l) \<in> S" "(q, m) \<in> S" "length addr = n"
    "rt_applyMask n addr l = p" "rt_applyMask n addr m = q"
  shows "p = q \<and> l = m"
proof (cases "l \<le> m")
  case True
  thus ?thesis using antichainD [OF assms(1-3) True] applyMask_mono [OF assms(4) True] assms(5,6) by auto
next
  case False
  hence "m \<le> l" by simp
  thus ?thesis
    using antichainD [OF assms(1,3,2) \<open>m \<le> l\<close>] applyMask_mono [OF assms(4) \<open>m \<le> l\<close>] assms(5,6) by auto
qed

lemma antichain_direction:
  assumes "antichain n S" "(p, l) \<in> S" "(q, m) \<in> S" "p \<noteq> q" "agree_to n b p q"
    and "stored_ok n p l" "stored_ok n q m" "length addr = n" "rt_applyMask n addr m = q"
  shows "b < 8 * n" and "bitAt n addr b = bitAt n q b"
proof -
  have len: "length p = n" "length q = n" using assms(6,7) by (auto simp: stored_ok_def)
  have mp: "rt_applyMask n p l = p" "rt_applyMask n q m = q" using assms(6,7) by (auto simp: stored_ok_def)
  show "b < 8 * n" using assms(4,5) agree_to_eq [OF len] by (metis not_le_imp_less)
  have "b < m"
  proof (rule ccontr)
    assume "\<not> b < m"
    hence "agree_to n m p q" using assms(5) agree_to_mono by (metis not_le_imp_less)
    hence pq: "rt_applyMask n p m = q" using applyMask_eq_iff [OF len mp(2)] by simp
    show False
    proof (cases "m \<le> l")
      case True
      with antichainD [OF assms(1,3,2) True pq] assms(4) show False by simp
    next
      case False
      with \<open>\<not> b < m\<close> have "agree_to n l q p" using assms(5) agree_to_mono agree_to_sym by (metis nle_le not_le_imp_less order_trans)
      hence "rt_applyMask n q l = p" using applyMask_eq_iff [OF len(2,1) mp(1)] by simp
      with antichainD [OF assms(1-3)] False assms(4) show False by simp
    qed
  qed
  thus "bitAt n addr b = bitAt n q b"
    using bitAt_applyMask [OF assms(8), of m b] assms(9) by simp
qed

lemma rt_lookupLoop_antichain:
  assumes "rt_inv n t" "rt_distinct t" "antichain n S" "spots t \<subseteq> S" "length addr = n"
  shows "(\<forall>(q, m, v)\<in>set (forEachNode t). rt_applyMask n addr m = q \<longrightarrow> rt_lookupLoop n addr best t = Some (Some v))
    \<and> ((\<forall>(q, m, v)\<in>set (forEachNode t). rt_applyMask n addr m \<noteq> q) \<longrightarrow> rt_lookupLoop n addr best t = Some best)"
  using assms(1,2,4)
proof (induction t arbitrary: best)
  case (Node p b l v L R)
  let ?t = "Node p b l v L R" and ?hit = "\<lambda>q m. rt_applyMask n addr m = q"
  define best' where "best' = (if ?hit p l then Some v else best)"
  have cov: "prefixCovers n addr p l = Some (?hit p l)"
    using covers_at [OF Node.prems(1) _ assms(5), of p l v] by simp
  have step: "rt_lookupLoop n addr best ?t = (if b \<ge> 8 * n then Some best'
      else if bitAt n addr b then rt_lookupLoop n addr best' R else rt_lookupLoop n addr best' L)"
    by (simp add: cov best'_def Let_def)
  have parts: "rt_inv n L" "rt_inv n R" "rt_distinct L" "rt_distinct R" "spots L \<subseteq> S" "spots R \<subseteq> S" "(p, l) \<in> S"
    using Node.prems by auto
  note IH = Node.IH(1) [OF parts(1,3,5), of best'] Node.IH(2) [OF parts(2,4,6), of best']
  have fresh: "q \<noteq> p \<and> (q, m) \<in> S \<and> stored_ok n q m \<and> agree_to n b p q" if "(q, m, w) \<in> set (forEachNode L) \<union> set (forEachNode R)" for q m w
  proof -
    have k: "q \<in> keys L \<union> keys R" using that by force
    hence "agree_to n b p q" using Node.prems(1) unfolding rt_inv.simps by (elim conjE) (erule bspec)
    moreover have "q \<noteq> p" using k Node.prems(2) by auto
    moreover have "(q, m) \<in> S" using that parts(5,6) by force
    moreover have "stored_ok n q m" using that rt_inv_stored [OF parts(1)] rt_inv_stored [OF parts(2)] by auto
    ultimately show ?thesis by simp
  qed
  have miss: "rt_lookupLoop n addr best ?t = Some best'"
    if "\<forall>(q, m, w)\<in>set (forEachNode L) \<union> set (forEachNode R). \<not> ?hit q m"
    using that IH unfolding step by (auto split: prod.splits)
  have below: "rt_lookupLoop n addr best ?t = Some (Some w)"
    if e: "(q, m, w) \<in> set (forEachNode L) \<union> set (forEachNode R)" "?hit q m" for q m w
  proof -
    have f: "q \<noteq> p" "(q, m) \<in> S" "stored_ok n q m" "agree_to n b p q" using fresh [OF e(1)] by auto
    have "stored_ok n p l" using Node.prems(1) by simp
    note d = antichain_direction [OF assms(3) parts(7) f(2) f(1) [symmetric] f(4) this f(3) assms(5) e(2)]
    have side: "(q, m, w) \<in> set (forEachNode L) \<Longrightarrow> \<not> bitAt n q b" "(q, m, w) \<in> set (forEachNode R) \<Longrightarrow> bitAt n q b"
      using Node.prems(1) by force+
    show ?thesis using e d IH side unfolding step by (auto split: prod.splits)
  qed
  have only: "\<not> ?hit q m" if "?hit p l" "(q, m, w) \<in> set (forEachNode L) \<union> set (forEachNode R)" for q m w
    using antichain_unique [OF assms(3) parts(7) _ assms(5) that(1)] fresh [OF that(2)] by blast
  show ?case
  proof (cases "?hit p l")
    case True
    with only have "rt_lookupLoop n addr best ?t = Some (Some v)" using miss by (auto simp: best'_def)
    with True only show ?thesis by (auto simp del: rt_lookupLoop.simps)
  next
    case False
    hence "best' = best" by (simp add: best'_def)
    with False below miss show ?thesis by (auto simp del: rt_lookupLoop.simps)
  qed
qed simp

section \<open>Sequences of operations\<close>

datatype 'v RtOp = Insert "u8 list" nat 'v | Erase "u8 list" nat | Clear

definition rt_apply :: "nat \<Rightarrow> 'v \<Rightarrow> 'v RtOp \<Rightarrow> 'v RtNode \<Rightarrow> 'v RtNode" where
  "rt_apply n dflt op t = (case op of
     Insert p l v \<Rightarrow> rt_insert n p l v t
   | Erase p l \<Rightarrow> fst (snd (rt_erase n dflt p l t))
   | Clear \<Rightarrow> fst (rt_clear t))"

definition rt_run :: "nat \<Rightarrow> 'v \<Rightarrow> 'v RtOp list \<Rightarrow> 'v RtNode" where
  "rt_run n dflt ops = fold (rt_apply n dflt) ops Null"

text \<open>The map a table of prefixes should be.\<close>

definition spec_apply :: "nat \<Rightarrow> 'v RtOp \<Rightarrow> (u8 list \<times> nat \<rightharpoonup> 'v) \<Rightarrow> (u8 list \<times> nat \<rightharpoonup> 'v)" where
  "spec_apply n op m = (case op of
     Insert p l v \<Rightarrow> m((rt_applyMask n p l, l) \<mapsto> v)
   | Erase p l \<Rightarrow> m((rt_applyMask n p l, l) := None)
   | Clear \<Rightarrow> Map.empty)"

definition spec_run :: "nat \<Rightarrow> 'v RtOp list \<Rightarrow> (u8 list \<times> nat \<rightharpoonup> 'v)" where
  "spec_run n ops = fold (spec_apply n) ops Map.empty"

text \<open>A default value stands for an erased entry.\<close>

definition present :: "'v \<Rightarrow> 'v option \<Rightarrow> 'v option" where
  "present dflt x = (if x = Some dflt then None else x)"

fun op_place :: "nat \<Rightarrow> 'v RtOp \<Rightarrow> (u8 list \<times> nat) set" where
  "op_place n (Insert p l v) = {(rt_applyMask n p l, l)}"
| "op_place n _ = {}"

fun op_wf :: "nat \<Rightarrow> 'v RtOp \<Rightarrow> bool" where
  "op_wf n (Insert p l v) = (length p = n \<and> l \<le> 8 * n)"
| "op_wf n (Erase p l) = (length p = n \<and> l \<le> 8 * n)"
| "op_wf n Clear = True"

definition places_of :: "nat \<Rightarrow> 'v RtOp list \<Rightarrow> (u8 list \<times> nat) set" where
  "places_of n ops = (\<Union>op\<in>set ops. op_place n op)"

text \<open>Equal network bytes come with equal lengths.\<close>

definition no_clash :: "(u8 list \<times> nat) set \<Rightarrow> bool" where
  "no_clash S = (\<forall>(p, l)\<in>S. \<forall>(q, m)\<in>S. p = q \<longrightarrow> l = m)"

definition run_ok :: "nat \<Rightarrow> (u8 list \<times> nat) set \<Rightarrow> 'v \<Rightarrow> 'v RtNode \<Rightarrow> (u8 list \<times> nat \<rightharpoonup> 'v) \<Rightarrow> bool" where
  "run_ok n S dflt t m = (rt_inv n t \<and> rt_distinct t \<and> spots t \<subseteq> S
     \<and> (\<forall>q l. present dflt (rt_lookupExactLoop n q l t) = present dflt (m (q, l))))"

lemma rt_apply_inv: "op_wf n op \<Longrightarrow> rt_inv n t \<Longrightarrow> rt_inv n (rt_apply n dflt op t)"
proof (cases op)
  case (Erase p l)
  assume "rt_inv n t"
  thus ?thesis using rt_erase_inv [of n t dflt p l] Erase by (cases "rt_erase n dflt p l t") (simp add: rt_apply_def)
qed (auto simp: rt_apply_def rt_clear_def intro: rt_insert_inv)

lemma eraseRec_distinct: "rt_distinct t \<Longrightarrow> eraseRec n dflt t pfx len = (st, t', rs) \<Longrightarrow> rt_distinct t'"
proof (induction t arbitrary: st t' rs)
  case (Node p b l v L R)
  have parts: "rt_distinct L" "rt_distinct R" "p \<notin> keys L" "p \<notin> keys R" "keys L \<inter> keys R = {}"
    using Node.prems(1) by auto
  have build: "rt_distinct (Node p b l w L' R')"
    if "rt_distinct L'" "rt_distinct R'" "keys L' \<subseteq> keys L" "keys R' \<subseteq> keys R" for w L' R' and b l
  proof -
    have "p \<notin> keys L'" "p \<notin> keys R'" "keys L' \<inter> keys R' = {}" using that(3,4) parts(3-5) by (blast+)
    thus ?thesis using that(1,2) by simp
  qed
  from Node.prems(2) show ?case
  proof (cases rule: eraseRec_Node_cases)
    case (right stc R' rsc)
    show ?thesis unfolding right(5)
      by (rule build) (use Node.IH(2) [OF parts(2) right(4)] eraseRec_keys [OF right(4)] parts in auto)
  next
    case (left stc L' rsc)
    show ?thesis unfolding left(5)
      by (rule build) (use Node.IH(1) [OF parts(1) left(4)] eraseRec_keys [OF left(4)] parts in auto)
  qed (use Node.prems(1) in auto)
qed simp

lemma rt_erase_distinct:
  assumes "rt_distinct t" "rt_erase n dflt pfx len t = (ok, t', rs)"
  shows "rt_distinct t'"
proof (cases t)
  case Null
  with assms show ?thesis by (simp add: rt_erase_def)
next
  case (Node p b l v L R)
  from rt_erase_Node [OF assms(2) [unfolded Node]] show ?thesis
    using eraseRec_distinct [OF assms(1) [unfolded Node]] by auto
qed

lemma rt_erase_spots:
  assumes "rt_erase n dflt pfx len t = (ok, t', rs)" shows "spots t' \<subseteq> spots t"
  using arg_cong [OF rt_erase_places [OF assms], of set_mset] by simp

lemma insertRec_spots: "spots (insertRec n t pfx len nv) = insert (pfx, len) (spots t)"
  by (induction t) (auto simp: Let_def image_Un)

lemma run_ok_apply:
  assumes "no_clash S" "op_wf n op" "op_place n op \<subseteq> S" "run_ok n S dflt t m"
  shows "run_ok n S dflt (rt_apply n dflt op t) (spec_apply n op m)"
proof (cases op)
  case (Insert p l v)
  let ?q = "rt_applyMask n p l"
  have st: "stored_ok n ?q l" and S: "(?q, l) \<in> S"
    using assms(2,3) Insert by (auto simp: stored_ok_def)
  have t: "rt_inv n t" "rt_distinct t" "spots t \<subseteq> S" using assms(4) by (auto simp: run_ok_def)
  have len: "m = l" if "(?q, m, w) \<in> set (forEachNode t)" for m w
  proof -
    have "(?q, m) \<in> S" using that t(3) by force
    thus ?thesis using S assms(1) by (auto simp: no_clash_def)
  qed
  have inv: "rt_inv n (insertRec n t ?q l v)" by (rule insertRec_inv [OF t(1) st])
  have dist: "rt_distinct (insertRec n t ?q l v)" by (rule insertRec_entries [OF t(1,2) st, THEN conjunct2]) (rule len)
  have look: "rt_lookupExactLoop n q k (insertRec n t ?q l v)
      = (if q = ?q \<and> k = l then Some v else rt_lookupExactLoop n q k t)" for q k
    by (rule lookupExact_insertRec [OF t(1,2) st]) (rule len)
  have sp: "spots (insertRec n t ?q l v) \<subseteq> S" unfolding insertRec_spots using S t(3) by simp
  have "present dflt (rt_lookupExactLoop n q k t) = present dflt (m (q, k))" for q k
    using assms(4) by (simp add: run_ok_def)
  with inv dist look sp show ?thesis
    by (simp add: run_ok_def rt_apply_def spec_apply_def rt_insert_def Insert)
next
  case (Erase p l)
  obtain ok t' rs where e: "rt_erase n dflt p l t = (ok, t', rs)" by (metis prod_cases3)
  obtain x where x: "x \<in> {None, Some dflt}" "\<And>q m. rt_lookupExactLoop n q m t'
      = (if q = rt_applyMask n p l \<and> m = l then x else rt_lookupExactLoop n q m t)"
    using rt_erase_lookupExact [OF e] by blast
  have t: "rt_inv n t" "rt_distinct t" "spots t \<subseteq> S" using assms(4) by (auto simp: run_ok_def)
  have "rt_inv n t'" "rt_distinct t'" "spots t' \<subseteq> S"
    using rt_erase_inv [OF t(1) e] rt_erase_distinct [OF t(2) e] rt_erase_spots [OF e] t(3) by blast+
  moreover have "present dflt (rt_lookupExactLoop n q k t) = present dflt (m (q, k))" for q k
    using assms(4) by (simp add: run_ok_def)
  moreover have "present dflt x = None" using x(1) by (auto simp: present_def)
  ultimately show ?thesis using x(2) e
    by (simp add: run_ok_def rt_apply_def spec_apply_def Erase) (simp add: present_def)
qed (use assms in \<open>auto simp: run_ok_def rt_apply_def spec_apply_def rt_clear_def\<close>)

lemma run_ok_run:
  assumes "no_clash S" "\<forall>op\<in>set ops. op_wf n op" "places_of n ops \<subseteq> S"
  shows "run_ok n S dflt (rt_run n dflt ops) (spec_run n ops)"
proof -
  have "run_ok n S dflt (fold (rt_apply n dflt) ops t) (fold (spec_apply n) ops m)" if "run_ok n S dflt t m" for t m
    using assms(2,3) that
    by (induction ops arbitrary: t m) (auto simp: places_of_def intro!: run_ok_apply [OF assms(1)])
  moreover have "run_ok n S dflt Null Map.empty" by (simp add: run_ok_def)
  ultimately show ?thesis by (simp add: rt_run_def spec_run_def)
qed

lemma places_stored: "\<forall>op\<in>set ops. op_wf n op \<Longrightarrow> (p, l) \<in> places_of n ops \<Longrightarrow> stored_ok n p l"
proof -
  have "op_wf n op \<Longrightarrow> (p, l) \<in> op_place n op \<Longrightarrow> stored_ok n p l" for op :: "'a RtOp"
    by (cases op) (auto simp: stored_ok_def)
  thus "\<forall>op\<in>set ops. op_wf n op \<Longrightarrow> (p, l) \<in> places_of n ops \<Longrightarrow> stored_ok n p l"
    by (auto simp: places_of_def)
qed

lemma antichain_no_clash:
  assumes "\<forall>op\<in>set ops. op_wf n op" "antichain n (places_of n ops)"
  shows "no_clash (places_of n ops)"
proof -
  have "l = m" if "(p, l) \<in> places_of n ops" "(p, m) \<in> places_of n ops" for p l m
  proof (cases "l \<le> m")
    case True
    with antichainD [OF assms(2) that] places_stored [OF assms(1) that(1)] show ?thesis
      by (simp add: stored_ok_def)
  next
    case False
    with antichainD [OF assms(2) that(2,1)] places_stored [OF assms(1) that(2)] show ?thesis
      by (simp add: stored_ok_def)
  qed
  thus ?thesis by (auto simp: no_clash_def)
qed

section \<open>Properties\<close>

text \<open>(C19) Exact lookups implement a map: after any sequence of insertions, removals and clears in which
  equal networks are always inserted with the same length, looking up a prefix gives the value a map
  would hold for its network and length, where the value-initialised \<open>T{}\<close> counts as no entry.\<close>

theorem radix_exact_lookup:
  assumes "\<forall>op\<in>set ops. op_wf n op" and "no_clash (places_of n ops)"
  shows "present dflt (rt_lookupExact n (rt_run n dflt ops) p l)
    = present dflt (spec_run n ops (rt_applyMask n p l, l))"
  using run_ok_run [OF assms(2,1)] by (simp add: run_ok_def rt_lookupExact_def)

theorem radix_exact_lookup_witness:
  "present 0 (rt_lookupExact 1 (rt_run 1 0 [Insert [0x80] 1 (5::nat), Insert [0xC0] 2 6, Erase [0x80] 1]) [0xFF] 2) = Some 6"
  using radix_exact_lookup [of "[Insert [0x80] 1 (5::nat), Insert [0xC0] 2 6, Erase [0x80] 1]" 1 0 "[0xFF]" 2]
  by (simp add: places_of_def no_clash_def spec_run_def spec_apply_def present_def rt_applyMask_def topBits_def)

text \<open>For prefixes none of which lies inside another the longest-prefix lookup is right: an address
  covered by an inserted prefix gives the value of that prefix, an address covered by none gives nothing.\<close>

theorem radix_lookup_disjoint:
  assumes "\<forall>op\<in>set ops. op_wf n op" and "antichain n (places_of n ops)" and "length addr = n"
  shows "(\<forall>(p, l)\<in>places_of n ops. rt_applyMask n addr l = p \<longrightarrow>
      (\<exists>r. rt_lookup n (rt_run n dflt ops) addr = Some r \<and> present dflt r = present dflt (spec_run n ops (p, l))))
    \<and> ((\<forall>(p, l)\<in>places_of n ops. rt_applyMask n addr l \<noteq> p) \<longrightarrow>
      rt_lookup n (rt_run n dflt ops) addr = Some None)"
proof -
  let ?S = "places_of n ops" and ?t = "rt_run n dflt ops"
  have ok: "run_ok n ?S dflt ?t (spec_run n ops)"
    by (rule run_ok_run [OF antichain_no_clash [OF assms(1,2)] assms(1)]) simp
  hence t: "rt_inv n ?t" "rt_distinct ?t" "spots ?t \<subseteq> ?S" by (auto simp: run_ok_def)
  note hit = rt_lookupLoop_antichain [OF t(1,2) assms(2) t(3) assms(3), of None, folded rt_lookup_def]
  have spec: "present dflt (rt_lookupExactLoop n p l ?t) = present dflt (spec_run n ops (p, l))" for p l
    using ok by (simp add: run_ok_def)
  have inS: "(q, m) \<in> ?S" if "(q, m, v) \<in> set (forEachNode ?t)" for q m v using that t(3) by force
  have "\<exists>r. rt_lookup n ?t addr = Some r \<and> present dflt r = present dflt (spec_run n ops (p, l))"
    if pl: "(p, l) \<in> ?S" "rt_applyMask n addr l = p" for p l
  proof (cases "\<exists>v. (p, l, v) \<in> set (forEachNode ?t)")
    case True
    then obtain v where v: "(p, l, v) \<in> set (forEachNode ?t)" by blast
    with hit pl(2) have "rt_lookup n ?t addr = Some (Some v)" by fastforce
    moreover have "rt_lookupExactLoop n p l ?t = Some v" using lookupExact_complete [OF t(1,2) v] .
    ultimately show ?thesis using spec [of p l] by auto
  next
    case False
    hence "\<forall>(q, m, v)\<in>set (forEachNode ?t). rt_applyMask n addr m \<noteq> q"
      using antichain_unique [OF assms(2) pl(1) _ assms(3) pl(2)] inS by blast
    hence "rt_lookup n ?t addr = Some None" using hit by blast
    moreover have "rt_lookupExactLoop n p l ?t = None" using False lookupExact_in by (metis option.exhaust)
    ultimately show ?thesis using spec [of p l] by auto
  qed
  moreover have "rt_lookup n ?t addr = Some None" if "\<forall>(p, l)\<in>?S. rt_applyMask n addr l \<noteq> p"
    using that hit inS by blast
  ultimately show ?thesis by blast
qed

theorem radix_lookup_disjoint_witness:
  "\<exists>r. rt_lookup 1 (rt_run 1 0 [Insert [0x80] 2 (5::nat), Insert [0xC0] 2 6]) [0xFF] = Some r \<and> present 0 r = Some 6"
proof -
  let ?ops = "[Insert [0x80] 2 (5::nat), Insert [0xC0] 2 6]"
  have pl: "places_of 1 ?ops = {([0x80], 2), ([0xC0], 2)}"
    by (auto simp: places_of_def rt_applyMask_def topBits_def)
  have "antichain 1 (places_of 1 ?ops)"
    unfolding pl by (simp add: antichain_def rt_applyMask_def topBits_def)
  moreover have "spec_run 1 ?ops ([0xC0], 2) = Some 6"
    by (simp add: spec_run_def spec_apply_def rt_applyMask_def topBits_def)
  moreover have "rt_applyMask 1 [0xFF] 2 = [0xC0]" by (simp add: rt_applyMask_def topBits_def)
  ultimately show ?thesis
    using radix_lookup_disjoint [of ?ops 1 "[0xFF]" 0] unfolding pl by (simp add: present_def)
qed

text \<open>In general the lookup documented as longest-prefix match is none. With 10.0.0.0/8 and
  10.1.0.0/16 in the tree, 10.3.0.1 is not found although the first covers it; after 10.128.0.0/9,
  10.0.1.0/24 and 10.0.0.0/8 the address 10.0.1.5 gives the /8 and not the /24; and of 10.0.0.0/8 and
  10.0.0.0/16 the second can be found neither by address nor exactly.\<close>

theorem radix_lookup_is_not_longest_match:
  fixes a b c d :: nat
  shows "rt_lookup 4 (rt_run 4 d [Insert [10,0,0,0] 8 a, Insert [10,1,0,0] 16 b]) [10,3,0,1] = Some None"
    and "rt_lookup 4 (rt_run 4 d [Insert [10,128,0,0] 9 a, Insert [10,0,1,0] 24 b, Insert [10,0,0,0] 8 c]) [10,0,1,5]
      = Some (Some c)"
    and "rt_lookup 4 (rt_run 4 d [Insert [10,0,0,0] 8 a, Insert [10,0,0,0] 16 b]) [10,0,1,5] = Some (Some a)"
    and "rt_lookupExact 4 (rt_run 4 d [Insert [10,0,0,0] 8 a, Insert [10,0,0,0] 16 b]) [10,0,0,0] 16 = None"
  by code_simp+

text \<open>Every sequence of operations on prefixes of valid length keeps the shape of the tree, and on
  it every lookup stays within the bytes of the stored prefixes and returns nothing or the value of a
  stored prefix that covers the address.\<close>

theorem radix_lookup_safe:
  assumes "\<forall>op\<in>set ops. op_wf n op" and "length addr = n"
  shows "rt_inv n (rt_run n dflt ops) \<and> (\<exists>r. rt_lookup n (rt_run n dflt ops) addr = Some r
    \<and> (r = None \<or> (\<exists>l v. (rt_applyMask n addr l, l, v) \<in> set (forEachNode (rt_run n dflt ops)) \<and> r = Some v)))"
proof -
  have "rt_inv n (fold (rt_apply n dflt) ops t)" if "rt_inv n t" for t
    using assms(1) that by (induction ops arbitrary: t) (auto intro: rt_apply_inv)
  from this [of Null] have inv: "rt_inv n (rt_run n dflt ops)" by (simp add: rt_run_def)
  from inv rt_lookupLoop_sound [OF inv assms(2), of None] show ?thesis by (auto simp: rt_lookup_def)
qed

theorem radix_lookup_safe_witness:
  "rt_inv 1 (rt_run 1 0 [Insert [0x80] 1 (5::nat), Erase [0x80] 1])"
  using radix_lookup_safe [of "[Insert [0x80] 1 (5::nat), Erase [0x80] 1]" 1 "[0]" 0] by simp

text \<open>Memory: removing a prefix retires exactly the nodes that leave the tree, and clearing retires
  every node once.\<close>

theorem radix_reclaims_once:
  "places (forEachNode t) = places (forEachNode (fst (snd (rt_erase n dflt p l t)))) + places (snd (snd (rt_erase n dflt p l t)))
    \<and> fst (rt_clear t) = Null \<and> mset (snd (rt_clear t)) = mset (forEachNode t)"
  using rt_erase_places [of n dflt p l t] by (cases "rt_erase n dflt p l t") (simp add: rt_clear_def destroyAll_entries)

end
