(* ===== verification/Spec2Isabelle.thy ===== *)
theory Spec2Isabelle
  imports BgpReceive Rib BgpDecision EigrpDual OspfReceive RadixTree
begin

text \<open>
  A verification development of VirtualRouter, a software router in C++. All paths below are relative to
  \<open>VirtualRouter/src\<close>.

  \<^bold>\<open>The program.\<close> Three routing protocols run as processes of a virtual router and offer routes to its routing
  table: BGP (\<open>routing/bgp\<close>), EIGRP (\<open>routing/eigrp\<close>) and OSPF in versions 2 and 3 (\<open>routing/ospf\<close>). The table
  (\<open>core/routing/rib\<close>) keeps the routes of every source per prefix, selects the best and announces it to the forwarding
  table (\<open>core/routing/fib\<close>), a compressed trie (\<open>types/LpcTrie.hpp\<close>) the data plane searches. The protocols share
  addresses and prefixes (\<open>types\<close>) and the byte order utilities (\<open>utils\<close>) with which they read and write packets. Timers
  and events come from a scheduler; packets from and to interfaces.

  \<^bold>\<open>Conventions.\<close> Every definition follows one function, type or block of the source and keeps its name where HOL has no
  constant of that name. Classes are records and methods are functions from state to state. Machine integers that
  can wrap around are words; sizes, indices and reference counts the program cannot make overflow are natural numbers. What C++
  leaves undefined (an access outside a vector, a division by zero, an invalid pointer, a shift by the width) is the value \<open>None\<close> or
  \<open>Undefined\<close>, never an arbitrary value. A loop or recursion that need not end is a partial function or has an \<open>outcome\<close>
  \<open>Diverges\<close>. A hash map is an association list, so its iteration order is an order the proofs cannot choose; where
  the order could matter there is a theorem that it does not. A pointer into a container is the key or index of the
  element. A call to a component that is not part of the theory at hand is recorded, with its arguments and in order, in a list of
  calls. Clocks, configuration values, the outcome of a connection attempt and random numbers are arguments.
  Every component is modelled for one thread at a time.

  \<^bold>\<open>The theories.\<close>

  \<^item> \<open>Prelude\<close>: names of the machine integers, keyed containers (locale \<open>keyed_table\<close>, interpreted on association
    lists) and the linear selection loop (locale \<open>preference\<close>) that the routing table, the BGP decision process, and the
    OSPF election interpret with their own orders.
  \<^item> \<open>Bytes\<close>: \<open>utils/ByteUtils\<close>. Reading what was written gives the value back for every width; the accesses of the
    variable-width routines outside their buffer are characterised.
  \<^item> \<open>IpAddress\<close>: addresses and prefixes of both families, masking, containment and comparison. Masking is idempotent
    and decides containment; the comparisons are total orders, and where they are not the exceptions are theorems.
  \<^item> \<open>RadixTree\<close>: \<open>types/RadixTree.hpp\<close>, every operation. Exact look-up refines a map; the longest-prefix look-up is
    right when no stored prefix lies inside another, and is not otherwise.
  \<^item> \<open>LpcTrie\<close>: \<open>types/LpcTrie.hpp\<close> and the use the forwarding table makes of it: node prefix lists, insertion, removal, look-up.
  \<^item> \<open>Rib\<close>: buckets, next hops, installation, withdrawal and announcement. The table refines a map from
    prefixes and sources to routes and always announces the preferred one; its invariant holds in every reachable state.
  \<^item> \<open>BgpSession\<close>, \<open>BgpFsm\<close>: \<open>routing/bgp/session\<close>, the timers, connections and collision resolution of a session and
    all handlers of the finite state machine. Reachability is an inductive relation over events; the invariant ties states,
    timers and connections, and every step is an edge of the diagram of RFC 4271.
  \<^item> \<open>BgpAttributes\<close>: the path attributes and the manager that shares them. It refines a multiset of references;
    slots are reused only when nothing refers to them.
  \<^item> \<open>BgpCapabilities\<close>: the capabilities of an OPEN message, their parsing, encoding, length and negotiation. Parsing stays in bounds on every
    input and inverts encoding; both ends agree on what is negotiated.
  \<^item> \<open>BgpUpdate\<close>: the path attributes of an UPDATE message as \<open>transport/BgpTx.cpp\<close> builds and \<open>transport/BgpRx.cpp\<close> parses them. Round trip
    for every route the format carries, the exact condition under which an AS path is accepted, and the merge of paths with 2-byte and 4-byte
    numbers.
  \<^item> \<open>BgpNlri\<close>: prefixes and whole UPDATE messages. Announcements are followed from \<open>buildUpdate\<close> through the splitting over messages and
    \<open>processUpdate\<close> to the address family, with the exact misreading of addresses; where the loop does not end is a theorem.
  \<^item> \<open>BgpOrf\<close>: the route filters of ROUTE-REFRESH messages. The filter of a neighbor refines a map from sequence numbers; entries round trip.
  \<^item> \<open>BgpReceive\<close>: the receive buffer, the framing of \<open>handleIncoming\<close> and the handlers of all message types on the session of
    \<open>BgpSession\<close>, composed of the theories above. A built stream of announcements is received completely; what a segment leaves to the next, and
    that no OPEN of the session's own connections is accepted, are theorems.
  \<^item> \<open>BgpDecision\<close>: the comparison of routes step by step, best path, multipath and ranking. Comparable candidates are
    ordered strictly and weakly, so the selected route is one no other is preferred to.
  \<^item> \<open>EigrpTopology\<close>, \<open>EigrpDual\<close>: the topology table and the DUAL engine: metrics, successors, feasibility, queries, replies,
    stuck-in-active timers and the loss of neighbors. Invariant over all reachable states, totality of the handlers and the end
    of an active computation with the last reply. Summary routes are left out.
  \<^item> \<open>OspfLsa\<close>: the codecs of the advertisement bodies of both versions and the Fletcher checksum; round trips, bounds of the
    parsers on every buffer, and what the checksum computes.
  \<^item> \<open>OspfLsdb\<close>: the link-state database, its three indexes and aging. It refines a map from keys to records.
  \<^item> \<open>OspfSpf\<close>, \<open>OspfTopology\<close>: Dijkstra's algorithm of \<open>spf/SpfEngine.cpp\<close> and the graph \<open>spf/SpfTopology.cpp\<close> builds from the
    database. The engine is proved for every expansion function, then applied to both versions: distances are those of shortest
    paths over bidirectional links, parents are the edges on which they are attained. The incremental repair
    is an argument, and a theorem shows that it never runs.
  \<^item> \<open>OspfSpfManager\<close>: throttling. A request leaves one timer pending and is served; delays double up to the maximum.
  \<^item> \<open>OspfArea\<close>: what an area does with an advertisement from arrival or origination to the database, the flooding
    queue and the scheduler, composed of \<open>OspfLsdb\<close> and \<open>OspfSpfManager\<close>. Reception refines an update of the abstract database.
  \<^item> \<open>OspfRetransmission\<close>: the list of unacknowledged advertisements and requests and its bursts.
  \<^item> \<open>OspfNeighbor\<close>: the neighbor state machine with the timers, database descriptions and requests it drives. Termination is
    characterised exactly, and the descriptions cover the database.
  \<^item> \<open>OspfElection\<close>: the neighbor table and the election of the designated router: a refinement of the
    two-round rule of RFC 2328 on the set of candidates, independent of the order of the table.
  \<^item> \<open>OspfReceive\<close>: the reception of OSPFv2 packets, from the checks of the common header through the handlers of the five
    types to the neighbors, the database and the area. Over all events of an interface the neighbor table stays well formed;
    what is received is shown never to form an adjacency.

  \<^bold>\<open>Bounds and termination.\<close> Loops over data are structural. The others have measures: the shortest-path loop the number of
  unconfirmed vertices and queue entries, the readers of packets the bytes left, the flooding queue its count, the filling of a request
  packet the bytes of room. No definition uses fuel; \<open>setState\<close> of a neighbor and the loops of \<open>buildUpdate\<close>, which may not return,
  are partial functions. Where a
  width matters the theorem has the bound as a hypothesis, e.g. 32 bits for the number of entries of a burst, or concludes it, e.g.
  saturation of ages.

  \<^bold>\<open>What the proofs found.\<close> Where the code does not do what its documentation says, the theorem states what it does: the
  radix tree is no longest-prefix match, own OSPF advertisements are not installed, the flooding queue delivers nothing, a
  neighbor never completes the exchange, a path of one AS number is refused, received BGP prefixes are shifted, no BGP OPEN is
  accepted, no hello is accepted in an area with external routes, an elected router does not announce itself, positions in the
  retransmission list are shifted by one.

  \<^bold>\<open>Not modelled.\<close> Concurrency: the lock-free containers and the order of atomic accesses. Input and output: packet sockets,
  terminal, web interface, logging. The configuration registries, whose values are arguments. The
  update processing per BGP address family; EIGRP transport and summaries; OSPF packet contents on the sending side, area ranges,
  the bodies of own advertisements and the derivation of routes from the shortest-path tree; ARP, NDP, DHCP and TCP, which are
  layers over packet buffers or the sockets of the host. Cryptographic authentication comes from a library. Vendored parsers of JSON and XML.
\<close>

end
